(* ===== verification/Prelude.thy ===== *)
theory Prelude
  imports Main "HOL-Library.Word"
begin

text \<open>
  What every component of the model shares: the failures of the C++ code as values, the
  error monad the operations are written in, the accesses to contiguous memory (a
  \<^verbatim>\<open>std::vector<char>\<close>, a \<^verbatim>\<open>char[]\<close>) with their bounds, the arithmetic of
  \<^verbatim>\<open>size_t\<close>, and the lemmas on lists and results the component proofs rest on.
\<close>

section \<open>Failures and results\<close>

text \<open>
  One constructor per way the code stops: a failed \<^verbatim>\<open>assert\<close>, the
  \<^verbatim>\<open>std::length_error\<close> of a vector that would pass \<^verbatim>\<open>max_size()\<close>, an access outside
  an array, a dereferenced null pointer, an access to a deleted object, the \<^verbatim>\<open>abort()\<close> of
  \<^verbatim>\<open>LOG_FATAL\<close>, the call of an empty \<^verbatim>\<open>std::function\<close>, an allocation that fails, an overflow of a signed integer (which C++
  leaves undefined), and a loop that does not return.
\<close>

datatype err =
    AssertFail
  | LengthError
  | OutOfBounds
  | NullDeref
  | UseAfterFree
  | FatalAbort
  | BadFunctionCall
  | BadAlloc
  | SignedOverflow
  | NoReturn

type_synonym 'a res = "err + 'a"

type_synonym byte = "8 word"

fun bindR :: "'a res \<Rightarrow> ('a \<Rightarrow> 'b res) \<Rightarrow> 'b res" where
  "bindR (Inl e) f = Inl e"
| "bindR (Inr x) f = f x"

definition assertR :: "bool \<Rightarrow> unit res" where
  "assertR b = (if b then Inr () else Inl AssertFail)"

text \<open>The successful results, and the split of a sequence of computations.\<close>

lemma bindR_eq_Inr [simp]: "bindR m f = Inr y \<longleftrightarrow> (\<exists>x. m = Inr x \<and> f x = Inr y)"
  by (cases m) auto

lemma assertR_True [simp]: "assertR True = Inr ()"
  by (simp add: assertR_def)

lemma assertR_False [simp]: "assertR False = Inl AssertFail"
  by (simp add: assertR_def)

lemma assertR_eq_Inr [simp]: "assertR b = Inr u \<longleftrightarrow> b"
  by (simp add: assertR_def)

lemma bindR_assoc: "bindR (bindR m f) g = bindR m (\<lambda>x. bindR (f x) g)"
  by (cases m) auto

text \<open>A computation that was evaluated to a success.\<close>

lemma case_option_Some: "(case r of None \<Rightarrow> False | Some x \<Rightarrow> P x) \<Longrightarrow> (\<And>x. r = Some x \<Longrightarrow> P x \<Longrightarrow> Q) \<Longrightarrow> Q"
  by (cases r) simp_all

lemma case_sum_Inr: "(case r of Inl _ \<Rightarrow> False | Inr x \<Rightarrow> P x) \<Longrightarrow> (\<And>x. r = Inr x \<Longrightarrow> P x \<Longrightarrow> Q) \<Longrightarrow> Q"
  by (cases r) auto

text \<open>The facts a component's operations are unfolded with, and its invariants.\<close>

named_theorems op_defs "definitions of operations"
named_theorems inv_defs "definitions of invariants"

section \<open>Arithmetic of size_t\<close>

text \<open>
  \<^verbatim>\<open>size_t\<close> is an unsigned 64-bit integer: its sums and differences wrap around. A value is
  a natural number below \<open>2 ^ 64\<close>. A vector of chars holds at most \<open>2 ^ 63 - 1\<close> of them.
\<close>

definition size_modulus :: nat where
  "size_modulus = 2 ^ 64"

definition vec_max :: nat where
  "vec_max = 2 ^ 63 - 1"

definition sz_add :: "nat \<Rightarrow> nat \<Rightarrow> nat" where
  "sz_add a b = (a + b) mod size_modulus"

definition sz_sub :: "nat \<Rightarrow> nat \<Rightarrow> nat" where
  "sz_sub a b = (if b \<le> a then a - b else size_modulus + a - b)"

lemma sz_sub_le [simp]: "b \<le> a \<Longrightarrow> sz_sub a b = a - b"
  by (simp add: sz_sub_def)

lemma sz_add_small: "a + b < size_modulus \<Longrightarrow> sz_add a b = a + b"
  by (simp add: sz_add_def)

lemma sz_add_vec: "a + b \<le> 2 * vec_max \<Longrightarrow> sz_add a b = a + b"
  by (simp add: sz_add_def size_modulus_def vec_max_def)

section \<open>Contiguous memory\<close>

text \<open>
  Reading \<open>n\<close> elements from index \<open>i\<close>, and overwriting the elements from index \<open>i\<close> with
  \<open>xs\<close>; both fail outside the array.
\<close>

definition mem_read :: "nat \<Rightarrow> nat \<Rightarrow> 'a list \<Rightarrow> 'a list res" where
  "mem_read i n m = (if i + n \<le> length m then Inr (take n (drop i m)) else Inl OutOfBounds)"

definition mem_write :: "nat \<Rightarrow> 'a list \<Rightarrow> 'a list \<Rightarrow> 'a list res" where
  "mem_write i xs m =
     (if i + length xs \<le> length m then Inr (take i m @ xs @ drop (i + length xs) m)
      else Inl OutOfBounds)"

text \<open>The part of an array between two indices, the view the invariants talk about.\<close>

definition segment :: "nat \<Rightarrow> nat \<Rightarrow> 'a list \<Rightarrow> 'a list" where
  "segment i j m = take (j - i) (drop i m)"

lemma mem_read_segment: "i + n \<le> length m \<Longrightarrow> mem_read i n m = Inr (segment i (i + n) m)"
  by (simp add: mem_read_def segment_def)

lemma mem_write_ok:
  "i + length xs \<le> length m \<Longrightarrow>
   mem_write i xs m = Inr (take i m @ xs @ drop (i + length xs) m)"
  by (simp add: mem_write_def)

lemma mem_write_length: "mem_write i xs m = Inr m' \<Longrightarrow> length m' = length m"
  by (auto simp: mem_write_def split: if_splits)

lemma length_segment [simp]: "length (segment i j m) = min (j - i) (length m - i)"
  by (simp add: segment_def min.commute)

lemma segment_empty [simp]: "segment i i m = []"
  by (simp add: segment_def)

lemma segment_append_left: "j \<le> length m \<Longrightarrow> segment i j (m @ zs) = segment i j m"
  by (simp add: segment_def)

lemma segment_take_drop: "segment i j m = drop i (take j m)"
  by (simp add: segment_def drop_take)

lemma segment_overwrite_end:
  assumes "i \<le> j" "j \<le> length m"
  shows "segment i (j + length xs) (take j m @ xs @ ys) = segment i j m @ xs"
  using assms by (simp add: segment_take_drop drop_take)


lemma drop_segment: "i + n \<le> j \<Longrightarrow> drop n (segment i j m) = segment (i + n) j m"
  by (simp add: segment_def drop_take add.commute)

lemma take_segment: "i + n \<le> j \<Longrightarrow> take n (segment i j m) = segment i (i + n) m"
  by (simp add: segment_def min_def)

section \<open>Lists\<close>

lemma takeWhile_sorted_filter:
  "sorted xs \<Longrightarrow> takeWhile (\<lambda>x. x < (a :: 'a :: linorder)) xs = filter (\<lambda>x. x < a) xs"
proof (induction xs)
  case (Cons x xs)
  show ?case
  proof (cases "x < a")
    case False
    with Cons.prems have "filter (\<lambda>x. x < a) xs = []"
      by (auto simp: filter_empty_conv)
    with False show ?thesis by simp
  qed (use Cons in simp)
qed simp

lemma dropWhile_sorted_filter:
  "sorted xs \<Longrightarrow> dropWhile (\<lambda>x. x < (a :: 'a :: linorder)) xs = filter (\<lambda>x. \<not> x < a) xs"
proof (induction xs)
  case (Cons x xs)
  show ?case
  proof (cases "x < a")
    case False
    with Cons.prems have "filter (\<lambda>x. \<not> x < a) xs = xs"
      by (force simp: filter_id_conv not_less)
    with False show ?thesis by simp
  qed (use Cons in simp)
qed simp

section \<open>Machine integers\<close>

lemma sint_of_nat32: "n < 2 ^ 31 \<Longrightarrow> sint (word_of_nat n :: 32 word) = int n"
  by (simp add: signed_of_nat signed_take_bit_int_eq_self)

section \<open>Strings\<close>

text \<open>\<^verbatim>\<open>snprintf\<close> into \<open>n\<close> bytes keeps \<open>n - 1\<close> characters.\<close>

definition snprintf :: "nat \<Rightarrow> string \<Rightarrow> string" where
  "snprintf n s = take (n - 1) s"

lemma length_snprintf: "0 < n \<Longrightarrow> length (snprintf n s) < n"
  by (simp add: snprintf_def)

end
