(* ===== verification/Contracts.thy ===== *)
theory Contracts
  imports Prelude
begin

text \<open>
  The two shapes of contract the components are verified against, as locales.

  \<open>contract\<close> is for an object whose operations may fail: \<open>exec\<close> runs one operation, \<open>inv\<close>
  is its invariant, \<open>abs\<close> reads its abstract state, \<open>pre\<close> says when the client may call an
  operation and \<open>spec\<close> what the call does to the abstract state. A component proves one law
  (an admissible call succeeds, keeps the invariant and does what the specification says);
  the locale gives back the same for every sequence of calls.

  \<open>machine\<close> is for a component that several threads or the kernel drive: a set of initial
  states, a step relation and an inductive invariant.
\<close>

section \<open>Objects with fallible operations\<close>

primrec run_ops :: "('s \<Rightarrow> 'op \<Rightarrow> 's res) \<Rightarrow> 's \<Rightarrow> 'op list \<Rightarrow> 's res" where
  "run_ops exec s [] = Inr s"
| "run_ops exec s (x # xs) = bindR (exec s x) (\<lambda>s'. run_ops exec s' xs)"

primrec admissible :: "('a \<Rightarrow> 'op \<Rightarrow> bool) \<Rightarrow> ('a \<Rightarrow> 'op \<Rightarrow> 'a) \<Rightarrow> 'a \<Rightarrow> 'op list \<Rightarrow> bool" where
  "admissible pre spec a [] = True"
| "admissible pre spec a (x # xs) = (pre a x \<and> admissible pre spec (spec a x) xs)"

lemma admissible_always [simp]: "admissible (\<lambda>a x. True) spec a xs"
  by (induction xs arbitrary: a) simp_all

lemma run_ops_append:
  "run_ops exec s (xs @ ys) = bindR (run_ops exec s xs) (\<lambda>s'. run_ops exec s' ys)"
  by (induction xs arbitrary: s) (auto simp: bindR_assoc)

text \<open>A run that fails does so in one operation, in the state the operations before it lead to.\<close>

lemma run_ops_fails:
  "run_ops exec s xs = Inl e \<Longrightarrow>
   \<exists>ys x zs t. xs = ys @ x # zs \<and> run_ops exec s ys = Inr t \<and> exec t x = Inl e"
proof (induction xs arbitrary: s)
  case (Cons x xs)
  show ?case
  proof (cases "exec s x")
    case (Inl e')
    with Cons.prems show ?thesis by (intro exI[of _ "[]"] exI[of _ x] exI[of _ xs] exI[of _ s]) simp
  next
    case (Inr t)
    with Cons.prems have "run_ops exec t xs = Inl e" by simp
    from Cons.IH[OF this] obtain ys y zs u where
      "xs = ys @ y # zs" "run_ops exec t ys = Inr u" "exec u y = Inl e" by blast
    with Inr show ?thesis
      by (intro exI[of _ "x # ys"] exI[of _ y] exI[of _ zs] exI[of _ u]) simp
  qed
qed simp

lemma run_ops_preserves:
  "(\<And>s x s'. exec s x = Inr s' \<Longrightarrow> f s' = f s) \<Longrightarrow> run_ops exec s xs = Inr s' \<Longrightarrow> f s' = f s"
  by (induction xs arbitrary: s) fastforce+

text \<open>
  The general form relates the object to its specification; \<open>contract\<close> is the special case in
  which the abstract state is a function of the concrete one.
\<close>

locale simulation =
  fixes exec :: "'s \<Rightarrow> 'op \<Rightarrow> 's res"
    and agrees :: "'s \<Rightarrow> 'a \<Rightarrow> bool"
    and pre :: "'a \<Rightarrow> 'op \<Rightarrow> bool"
    and spec :: "'a \<Rightarrow> 'op \<Rightarrow> 'a"
  assumes exec_agrees: "agrees s a \<Longrightarrow> pre a x \<Longrightarrow> \<exists>s'. exec s x = Inr s' \<and> agrees s' (spec a x)"
begin

lemma run_agrees:
  "agrees s a \<Longrightarrow> admissible pre spec a xs \<Longrightarrow>
   \<exists>s'. run_ops exec s xs = Inr s' \<and> agrees s' (foldl spec a xs)"
proof (induction xs arbitrary: s a)
  case (Cons x xs)
  then obtain s1 where "exec s x = Inr s1" "agrees s1 (spec a x)"
    using exec_agrees by fastforce
  with Cons show ?case by simp
qed simp

end

locale contract =
  fixes exec :: "'s \<Rightarrow> 'op \<Rightarrow> 's res"
    and inv :: "'s \<Rightarrow> bool"
    and abs :: "'s \<Rightarrow> 'a"
    and pre :: "'a \<Rightarrow> 'op \<Rightarrow> bool"
    and spec :: "'a \<Rightarrow> 'op \<Rightarrow> 'a"
  assumes exec_ok: "inv s \<Longrightarrow> pre (abs s) x \<Longrightarrow>
    \<exists>s'. exec s x = Inr s' \<and> inv s' \<and> abs s' = spec (abs s) x"
begin

sublocale simulation exec "\<lambda>s a. inv s \<and> a = abs s" pre spec
  by unfold_locales (auto dest: exec_ok)

lemma run_ok:
  "inv s \<Longrightarrow> admissible pre spec (abs s) xs \<Longrightarrow>
   \<exists>s'. run_ops exec s xs = Inr s' \<and> inv s' \<and> abs s' = foldl spec (abs s) xs"
  using run_agrees[of s "abs s" xs] by auto

lemma run_inv:
  "inv s \<Longrightarrow> admissible pre spec (abs s) xs \<Longrightarrow> run_ops exec s xs = Inr s' \<Longrightarrow> inv s'"
  using run_ok by fastforce

lemma run_abs:
  "inv s \<Longrightarrow> admissible pre spec (abs s) xs \<Longrightarrow> run_ops exec s xs = Inr s' \<Longrightarrow>
   abs s' = foldl spec (abs s) xs"
  using run_ok by fastforce

end

section \<open>Outcomes\<close>

text \<open>A computation ends well: it fails only as \<open>E\<close> allows, and a result satisfies \<open>P\<close>.\<close>

definition ends :: "(err \<Rightarrow> bool) \<Rightarrow> ('a \<Rightarrow> bool) \<Rightarrow> 'a res \<Rightarrow> bool" where
  "ends E P r = (case r of Inl e \<Rightarrow> E e | Inr x \<Rightarrow> P x)"

lemma ends_simps [simp]: "ends E P (Inl e) = E e" "ends E P (Inr x) = P x"
  by (simp_all add: ends_def)

lemma ends_bind:
  "ends E P m \<Longrightarrow> (\<And>x. P x \<Longrightarrow> ends E Q (f x)) \<Longrightarrow> ends E Q (bindR m f)"
  by (cases m) auto

lemma ends_mono: "ends E P m \<Longrightarrow> (\<And>x. P x \<Longrightarrow> Q x) \<Longrightarrow> ends E Q m"
  by (cases m) auto

lemma ends_conj: "ends E P m \<Longrightarrow> ends E Q m \<Longrightarrow> ends E (\<lambda>x. P x \<and> Q x) m"
  by (cases m) auto

lemma ends_Inr: "ends E P m \<Longrightarrow> m = Inr x \<Longrightarrow> P x"
  by simp

text \<open>
  The weaker contract of an object whose calls may also fail for a reason the object does not
  control (\<open>benign\<close>, such as an allocation that fails): no call ever fails otherwise, and the
  invariant is kept.
\<close>

locale object =
  fixes exec :: "'s \<Rightarrow> 'op \<Rightarrow> 's res"
    and inv :: "'s \<Rightarrow> bool"
    and allowed :: "'op \<Rightarrow> bool"
    and benign :: "err \<Rightarrow> bool"
  assumes exec_safe: "inv s \<Longrightarrow> allowed x \<Longrightarrow> ends benign inv (exec s x)"
begin

lemma run_safe:
  "inv s \<Longrightarrow> list_all allowed xs \<Longrightarrow>
   ends benign inv (run_ops exec s xs)"
proof (induction xs arbitrary: s)
  case (Cons x xs)
  with exec_safe[of s x] show ?case by (cases "exec s x") auto
qed simp

lemma run_safe_inv:
  "inv s \<Longrightarrow> list_all allowed xs \<Longrightarrow> run_ops exec s xs = Inr s' \<Longrightarrow> inv s'"
  using run_safe[of s xs] by simp

lemma run_safe_err:
  "inv s \<Longrightarrow> list_all allowed xs \<Longrightarrow> run_ops exec s xs = Inl e \<Longrightarrow> benign e"
  using run_safe[of s xs] by simp

end

section \<open>Components driven by several threads\<close>

inductive reach :: "('s \<Rightarrow> bool) \<Rightarrow> ('s \<Rightarrow> 's \<Rightarrow> bool) \<Rightarrow> 's \<Rightarrow> bool"
  for init :: "'s \<Rightarrow> bool" and step :: "'s \<Rightarrow> 's \<Rightarrow> bool" where
  reach_init: "init s \<Longrightarrow> reach init step s"
| reach_step: "reach init step s \<Longrightarrow> step s t \<Longrightarrow> reach init step t"

locale machine =
  fixes init :: "'s \<Rightarrow> bool"
    and step :: "'s \<Rightarrow> 's \<Rightarrow> bool"
    and inv :: "'s \<Rightarrow> bool"
  assumes init_inv: "init s \<Longrightarrow> inv s"
    and step_inv: "inv s \<Longrightarrow> step s t \<Longrightarrow> inv t"
begin

lemma reach_inv: "reach init step s \<Longrightarrow> inv s"
  by (induction rule: reach.induct) (auto intro: init_inv step_inv)

end

text \<open>
  The machine of an object whose calls have preconditions on its state: any sequence of admissible
  calls that succeed. That it cannot fail, but for a benign reason, is part of the contract.
\<close>

inductive guarded :: "('s \<Rightarrow> 'x \<Rightarrow> bool) \<Rightarrow> ('s \<Rightarrow> 'x \<Rightarrow> 's res) \<Rightarrow> 's \<Rightarrow> 's \<Rightarrow> bool"
  for pre :: "'s \<Rightarrow> 'x \<Rightarrow> bool" and exec :: "'s \<Rightarrow> 'x \<Rightarrow> 's res" where
  call: "pre s x \<Longrightarrow> exec s x = Inr t \<Longrightarrow> guarded pre exec s t"

text \<open>A concrete run, with its preconditions tested.\<close>

primrec run_guarded :: "('s \<Rightarrow> 'x \<Rightarrow> bool) \<Rightarrow> ('s \<Rightarrow> 'x \<Rightarrow> 's res) \<Rightarrow> 's \<Rightarrow> 'x list \<Rightarrow> 's option" where
  "run_guarded pre exec s [] = Some s"
| "run_guarded pre exec s (x # xs) =
     (if pre s x then case_sum (\<lambda>_. None) (\<lambda>t. run_guarded pre exec t xs) (exec s x) else None)"

lemma reach_run_guarded:
  "reach init (guarded pre exec) s \<Longrightarrow> run_guarded pre exec s xs = Some t \<Longrightarrow> reach init (guarded pre exec) t"
proof (induction xs arbitrary: s)
  case (Cons x xs)
  then obtain u where "pre s x" "exec s x = Inr u" "run_guarded pre exec u xs = Some t"
    by (auto split: if_splits sum.splits)
  with Cons show ?case by (meson call reach_step)
qed simp

locale guarded_object =
  fixes init :: "'s \<Rightarrow> bool"
    and pre :: "'s \<Rightarrow> 'x \<Rightarrow> bool"
    and exec :: "'s \<Rightarrow> 'x \<Rightarrow> 's res"
    and inv :: "'s \<Rightarrow> bool"
    and benign :: "err \<Rightarrow> bool"
  assumes init_ok: "init s \<Longrightarrow> inv s"
    and exec_ok: "inv s \<Longrightarrow> pre s x \<Longrightarrow> ends benign inv (exec s x)"
begin

lemma guarded_inv: "inv s \<Longrightarrow> guarded pre exec s t \<Longrightarrow> inv t"
  by (erule guarded.cases) (use exec_ok in fastforce)

end

sublocale guarded_object \<subseteq> machine init "guarded pre exec" inv
  by unfold_locales (rule init_ok guarded_inv, assumption+)+

context guarded_object
begin

lemma reach_exec: "reach init (guarded pre exec) s \<Longrightarrow> pre s x \<Longrightarrow> ends benign inv (exec s x)"
  using exec_ok reach_inv by blast

lemma reach_call:
  "reach init (guarded pre exec) s \<Longrightarrow> pre s x \<Longrightarrow> exec s x = Inr t \<Longrightarrow> reach init (guarded pre exec) t"
  by (rule reach_step) (auto intro: call)

end

end
