(* ===== verification/Buffer.thy ===== *)
theory Buffer
  imports Contracts
begin

text \<open>
  \<^verbatim>\<open>irono::Buffer\<close> (net/Buffer.h, net/Buffer.cc): the application buffer of a connection.
  The vector \<^verbatim>\<open>buffer_\<close> is a byte list, the two indices are of type \<^verbatim>\<open>size_t\<close>, a
  \<^verbatim>\<open>const char*\<close> into the buffer is an index. Every operation of the class is a
  definition. The abstract state is the readable part: the byte queue \<open>contents\<close>.
\<close>

section \<open>State and operations\<close>

record buffer =
  buf_data :: "byte list"
  readerIndex :: nat
  writerIndex :: nat

definition kCheapPrepend :: nat where
  "kCheapPrepend = 8"

definition kInitialSize :: nat where
  "kInitialSize = 1024"

definition buffer_new :: buffer where
  "buffer_new = \<lparr>buf_data = replicate (kCheapPrepend + kInitialSize) 0,
                 readerIndex = kCheapPrepend, writerIndex = kCheapPrepend\<rparr>"

definition buffer_swap :: "buffer \<Rightarrow> buffer \<Rightarrow> buffer \<times> buffer" where
  "buffer_swap b rhs =
     (b\<lparr>buf_data := buf_data rhs, readerIndex := readerIndex rhs, writerIndex := writerIndex rhs\<rparr>,
      rhs\<lparr>buf_data := buf_data b, readerIndex := readerIndex b, writerIndex := writerIndex b\<rparr>)"

definition readableBytes :: "buffer \<Rightarrow> nat" where
  "readableBytes b = sz_sub (writerIndex b) (readerIndex b)"

definition writableBytes :: "buffer \<Rightarrow> nat" where
  "writableBytes b = sz_sub (length (buf_data b)) (writerIndex b)"

definition prependableBytes :: "buffer \<Rightarrow> nat" where
  "prependableBytes b = readerIndex b"

text \<open>\<^verbatim>\<open>peek()\<close> and \<^verbatim>\<open>beginWrite()\<close> as indices; \<open>peek_bytes\<close> reads through the pointer.\<close>

definition peek :: "buffer \<Rightarrow> nat" where
  "peek b = readerIndex b"

definition peek_bytes :: "nat \<Rightarrow> buffer \<Rightarrow> byte list res" where
  "peek_bytes n b = mem_read (peek b) n (buf_data b)"

definition beginWrite :: "buffer \<Rightarrow> nat" where
  "beginWrite b = writerIndex b"

definition retrieve :: "nat \<Rightarrow> buffer \<Rightarrow> buffer res" where
  "retrieve len b =
     bindR (assertR (len \<le> readableBytes b)) (\<lambda>_.
     Inr (b\<lparr>readerIndex := sz_add (readerIndex b) len\<rparr>))"

definition retrieveUntil :: "nat \<Rightarrow> buffer \<Rightarrow> buffer res" where
  "retrieveUntil end_ptr b =
     bindR (assertR (peek b \<le> end_ptr)) (\<lambda>_.
     bindR (assertR (end_ptr \<le> beginWrite b)) (\<lambda>_.
     retrieve (sz_sub end_ptr (peek b)) b))"

definition retrieveAll :: "buffer \<Rightarrow> buffer" where
  "retrieveAll b = b\<lparr>readerIndex := kCheapPrepend, writerIndex := kCheapPrepend\<rparr>"

definition retrieveAsString :: "buffer \<Rightarrow> (byte list \<times> buffer) res" where
  "retrieveAsString b =
     bindR (peek_bytes (readableBytes b) b) (\<lambda>str. Inr (str, retrieveAll b))"

text \<open>
  \<^verbatim>\<open>vector::resize\<close> fills with zero bytes; above \<^verbatim>\<open>max_size()\<close> it throws. The second branch
  of \<open>makeSpace\<close> is \<^verbatim>\<open>std::copy\<close> to a lower address, which is defined on overlapping ranges.
\<close>

definition vec_resize :: "nat \<Rightarrow> byte list \<Rightarrow> byte list res" where
  "vec_resize n v =
     (if n \<le> vec_max then Inr (take n v @ replicate (n - length v) 0) else Inl LengthError)"

definition makeSpace :: "nat \<Rightarrow> buffer \<Rightarrow> buffer res" where
  "makeSpace len b =
     (if sz_add (writableBytes b) (prependableBytes b) < sz_add len kCheapPrepend
      then bindR (vec_resize (sz_add (writerIndex b) len) (buf_data b)) (\<lambda>v.
           Inr (b\<lparr>buf_data := v\<rparr>))
      else bindR (assertR (kCheapPrepend < readerIndex b)) (\<lambda>_.
           let readable = readableBytes b in
           bindR (mem_read (readerIndex b) readable (buf_data b)) (\<lambda>xs.
           bindR (mem_write kCheapPrepend xs (buf_data b)) (\<lambda>v.
           let b' = b\<lparr>buf_data := v, readerIndex := kCheapPrepend,
                      writerIndex := sz_add kCheapPrepend readable\<rparr> in
           bindR (assertR (readable = readableBytes b')) (\<lambda>_. Inr b')))))"

definition ensureWritableBytes :: "nat \<Rightarrow> buffer \<Rightarrow> buffer res" where
  "ensureWritableBytes len b =
     bindR (if writableBytes b < len then makeSpace len b else Inr b) (\<lambda>b'.
     bindR (assertR (len \<le> writableBytes b')) (\<lambda>_. Inr b'))"

definition hasWritten :: "nat \<Rightarrow> buffer \<Rightarrow> buffer" where
  "hasWritten len b = b\<lparr>writerIndex := sz_add (writerIndex b) len\<rparr>"

definition append :: "byte list \<Rightarrow> buffer \<Rightarrow> buffer res" where
  "append bs b =
     bindR (ensureWritableBytes (length bs) b) (\<lambda>b1.
     bindR (mem_write (beginWrite b1) bs (buf_data b1)) (\<lambda>v.
     Inr (hasWritten (length bs) (b1\<lparr>buf_data := v\<rparr>))))"

definition prepend :: "byte list \<Rightarrow> buffer \<Rightarrow> buffer res" where
  "prepend bs b =
     bindR (assertR (length bs \<le> prependableBytes b)) (\<lambda>_.
     let r = sz_sub (readerIndex b) (length bs) in
     bindR (mem_write r bs (buf_data b)) (\<lambda>v.
     Inr (b\<lparr>buf_data := v, readerIndex := r\<rparr>)))"

definition shrink :: "nat \<Rightarrow> buffer \<Rightarrow> buffer res" where
  "shrink reserve b =
     bindR (vec_resize (sz_add (sz_add kCheapPrepend (readableBytes b)) reserve) []) (\<lambda>buf.
     bindR (peek_bytes (readableBytes b) b) (\<lambda>xs.
     bindR (mem_write kCheapPrepend xs buf) (\<lambda>buf'.
     Inr (b\<lparr>buf_data := buf'\<rparr>))))"

text \<open>
  \<open>readFd\<close> gets what \<^verbatim>\<open>readv(2)\<close> did from the kernel: it failed with an errno, or it
  delivered a byte string, first into the writable part of the buffer and the rest into the
  65536 bytes of \<^verbatim>\<open>extrabuf\<close>. The result is the return value of \<^verbatim>\<open>readv\<close>, the saved errno
  if it was saved, and the buffer.
\<close>

datatype readv_result = ReadErr int | ReadOk "byte list"

definition extrabuf_size :: nat where
  "extrabuf_size = 65536"

definition readFd :: "readv_result \<Rightarrow> buffer \<Rightarrow> (int \<times> int option \<times> buffer) res" where
  "readFd r b =
     (let writable = writableBytes b in
      case r of
        ReadErr e \<Rightarrow> Inr (-1, Some e, b)
      | ReadOk xs \<Rightarrow>
          bindR (mem_write (writerIndex b) (take writable xs) (buf_data b)) (\<lambda>v.
          bindR (mem_write 0 (drop writable xs) (replicate extrabuf_size 0)) (\<lambda>extrabuf.
          let n = length xs; b1 = b\<lparr>buf_data := v\<rparr> in
          if n \<le> writable
          then Inr (int n, None, b1\<lparr>writerIndex := sz_add (writerIndex b1) n\<rparr>)
          else bindR (append (take (n - writable) extrabuf)
                        (b1\<lparr>writerIndex := length (buf_data b1)\<rparr>)) (\<lambda>b2.
               Inr (int n, None, b2)))))"

lemmas buffer_op_defs = readableBytes_def writableBytes_def prependableBytes_def peek_def
  peek_bytes_def beginWrite_def kCheapPrepend_def

section \<open>Invariant and abstract state\<close>

text \<open>
  The picture in the header: \<open>0 <= readerIndex <= writerIndex <= size\<close>; the vector never is
  shorter than the prepend area nor longer than a vector can be.
\<close>

definition buffer_ok :: "buffer \<Rightarrow> bool" where
  "buffer_ok b \<longleftrightarrow> readerIndex b \<le> writerIndex b \<and> writerIndex b \<le> length (buf_data b) \<and>
     kCheapPrepend \<le> length (buf_data b) \<and> length (buf_data b) \<le> vec_max"

definition contents :: "buffer \<Rightarrow> byte list" where
  "contents b = segment (readerIndex b) (writerIndex b) (buf_data b)"

lemma buffer_okD:
  assumes "buffer_ok b"
  shows "readerIndex b \<le> writerIndex b" "writerIndex b \<le> length (buf_data b)"
    "8 \<le> length (buf_data b)" "length (buf_data b) \<le> vec_max"
  using assms by (auto simp: buffer_ok_def kCheapPrepend_def)

lemma length_contents: "buffer_ok b \<Longrightarrow> length (contents b) = writerIndex b - readerIndex b"
  by (auto simp: buffer_ok_def contents_def)

lemma contents_vec: "buffer_ok b \<Longrightarrow> length (contents b) \<le> vec_max"
  using buffer_okD[of b] by (simp add: length_contents)

lemma readableBytes_contents: "buffer_ok b \<Longrightarrow> readableBytes b = length (contents b)"
  by (simp add: readableBytes_def buffer_okD length_contents)

lemma writableBytes_ok: "buffer_ok b \<Longrightarrow> writableBytes b = length (buf_data b) - writerIndex b"
  by (simp add: writableBytes_def buffer_okD)

lemma peek_bytes_contents:
  "buffer_ok b \<Longrightarrow> n \<le> length (contents b) \<Longrightarrow> peek_bytes n b = Inr (take n (contents b))"
  using buffer_okD[of b]
  by (auto simp: peek_bytes_def peek_def mem_read_segment contents_def take_segment)

lemma buffer_new_ok: "buffer_ok buffer_new" and contents_new [simp]: "contents buffer_new = []"
  by (simp_all add: buffer_ok_def buffer_new_def contents_def kCheapPrepend_def kInitialSize_def
      vec_max_def)

lemma vec_arith: "a \<le> vec_max \<Longrightarrow> b \<le> vec_max \<Longrightarrow> sz_add a b = a + b"
  by (rule sz_add_vec) simp

lemma buffer_data_ok:
  "r \<le> w \<Longrightarrow> w \<le> length v \<Longrightarrow> 8 \<le> length v \<Longrightarrow> length v \<le> vec_max \<Longrightarrow>
   buffer_ok \<lparr>buf_data = v, readerIndex = r, writerIndex = w\<rparr>"
  by (simp add: buffer_ok_def kCheapPrepend_def)

section \<open>Each operation against the byte queue\<close>

lemma retrieve_ok:
  assumes "buffer_ok b" "n \<le> length (contents b)"
  shows "\<exists>b'. retrieve n b = Inr b' \<and> buffer_ok b' \<and> contents b' = drop n (contents b)"
proof -
  note ok = buffer_okD[OF assms(1)]
  have n: "readerIndex b + n \<le> writerIndex b"
    using assms ok by (simp add: length_contents)
  with ok have "sz_add (readerIndex b) n = readerIndex b + n"
    by (intro vec_arith) auto
  with assms n show ?thesis
    by (simp add: retrieve_def readableBytes_contents buffer_ok_def contents_def drop_segment)
qed

lemma retrieve_fails: "buffer_ok b \<Longrightarrow> length (contents b) < n \<Longrightarrow> retrieve n b = Inl AssertFail"
  by (simp add: retrieve_def readableBytes_contents)

lemma retrieveAll_ok:
  "buffer_ok b \<Longrightarrow> buffer_ok (retrieveAll b) \<and> contents (retrieveAll b) = []"
  by (simp add: buffer_ok_def retrieveAll_def contents_def)

lemma retrieveAsString_ok:
  "buffer_ok b \<Longrightarrow> retrieveAsString b = Inr (contents b, retrieveAll b)"
  by (simp add: retrieveAsString_def readableBytes_contents peek_bytes_contents)

text \<open>
  \<open>makeSpace\<close> in the case \<open>ensureWritableBytes\<close> calls it in: the assertions of its second
  branch hold, and the vector grows to less than the content plus twice the new bytes.
\<close>

lemma small_b:
  assumes "buffer_ok b"
  shows "writableBytes b \<le> vec_max" "readerIndex b \<le> vec_max" "writerIndex b \<le> vec_max"
    "length (contents b) \<le> vec_max" "8 \<le> vec_max"
  using buffer_okD[OF assms]
  by (auto simp: writableBytes_ok[OF assms] length_contents[OF assms])

lemma makeSpace_adds:
  assumes "buffer_ok b" "len \<le> vec_max"
  shows "sz_add (writerIndex b) len = writerIndex b + len"
    "sz_add (writableBytes b) (prependableBytes b) = writableBytes b + prependableBytes b"
    "sz_add len 8 = len + 8"
  using small_b[OF assms(1)] assms(2)
  by (simp_all add: vec_arith prependableBytes_def kCheapPrepend_def vec_max_def)

lemma makeSpace_grow:
  assumes ok: "buffer_ok b" and len: "len \<le> vec_max" and fits: "writerIndex b + len \<le> vec_max"
    and need: "writableBytes b < len" and small: "writableBytes b + prependableBytes b < len + 8"
  shows "\<exists>b'. makeSpace len b = Inr b' \<and> buffer_ok b' \<and> contents b' = contents b \<and>
    len \<le> writableBytes b' \<and> readerIndex b' = readerIndex b \<and>
    length (buf_data b') = writerIndex b + len"
proof -
  note d = buffer_okD[OF ok]
  have more: "length (buf_data b) \<le> writerIndex b + len"
    using need d by (simp add: writableBytes_ok[OF ok])
  have grow: "vec_resize (writerIndex b + len) (buf_data b) =
      Inr (buf_data b @ replicate (writerIndex b + len - length (buf_data b)) 0)"
    using more fits by (simp add: vec_resize_def)
  have mk: "makeSpace len b =
      bindR (vec_resize (writerIndex b + len) (buf_data b)) (\<lambda>v. Inr (b\<lparr>buf_data := v\<rparr>))"
    using small makeSpace_adds[OF ok len] by (simp add: makeSpace_def kCheapPrepend_def)
  from grow more d fits show ?thesis
    by (simp add: mk buffer_ok_def contents_def writableBytes_def segment_append_left
        kCheapPrepend_def)
qed

lemma makeSpace_resize:
  assumes ok: "buffer_ok b" and cap: "length (contents b) + 2 * len + 8 \<le> vec_max"
    and need: "writableBytes b < len" and small: "writableBytes b + prependableBytes b < len + 8"
  shows "\<exists>b'. makeSpace len b = Inr b' \<and> buffer_ok b' \<and> contents b' = contents b \<and>
    len \<le> writableBytes b' \<and> readerIndex b' = readerIndex b \<and>
    length (buf_data b') \<le> length (contents b) + 2 * len + 8"
proof -
  have room: "writerIndex b + len \<le> length (contents b) + 2 * len + 8"
    using buffer_okD[OF ok] small
    by (simp add: writableBytes_ok[OF ok] prependableBytes_def length_contents[OF ok])
  have "len \<le> vec_max" "writerIndex b + len \<le> vec_max" using room cap by linarith+
  from makeSpace_grow[OF ok this need small] room show ?thesis by auto
qed

text \<open>A vector that would pass its maximal size throws; nothing else can go wrong.\<close>

lemma makeSpace_throws:
  assumes ok: "buffer_ok b" and len: "len \<le> vec_max" and big: "vec_max < writerIndex b + len"
    and small: "writableBytes b + prependableBytes b < len + 8"
  shows "makeSpace len b = Inl LengthError"
  using small big makeSpace_adds[OF ok len]
  by (simp add: makeSpace_def kCheapPrepend_def vec_resize_def)

lemma makeSpace_compact:
  assumes ok: "buffer_ok b" and need: "writableBytes b < len" and len: "len \<le> vec_max - 8"
    and fits: "\<not> writableBytes b + prependableBytes b < len + 8"
  shows "\<exists>b'. makeSpace len b = Inr b' \<and> buffer_ok b' \<and> contents b' = contents b \<and>
    len \<le> writableBytes b' \<and> readerIndex b' = 8 \<and>
    length (buf_data b') = length (buf_data b)"
proof -
  note d = buffer_okD[OF ok]
  let ?c = "contents b"
  have r: "8 < readerIndex b"
    using need fits by (simp add: prependableBytes_def)
  have len_c: "length ?c = writerIndex b - readerIndex b" using ok by (rule length_contents)
  have rd: "mem_read (readerIndex b) (length ?c) (buf_data b) = Inr ?c"
    using d len_c by (simp add: mem_read_segment contents_def)
  have wr: "mem_write 8 ?c (buf_data b) =
      Inr (take 8 (buf_data b) @ ?c @ drop (8 + length ?c) (buf_data b))"
    using d r len_c by (simp add: mem_write_ok)
  have adds: "sz_add 8 (length ?c) = 8 + length ?c"
    "sz_add (writableBytes b) (prependableBytes b) = writableBytes b + prependableBytes b"
    "sz_add len 8 = len + 8"
    using small_b[OF ok] len by (simp_all add: vec_arith prependableBytes_def kCheapPrepend_def)
  let ?b = "b\<lparr>buf_data := take 8 (buf_data b) @ ?c @ drop (8 + length ?c) (buf_data b),
              readerIndex := 8, writerIndex := 8 + length ?c\<rparr>"
  have "buffer_ok ?b" "contents ?b = ?c" "len \<le> writableBytes ?b" "readerIndex ?b = 8"
      "length (buf_data ?b) = length (buf_data b)"
    using d r fits len_c
    by (auto simp: buffer_ok_def kCheapPrepend_def contents_def segment_def writableBytes_def
        writableBytes_ok[OF ok] prependableBytes_def)
  moreover have "makeSpace len b = Inr ?b"
    using fits r rd wr
    by (simp add: makeSpace_def kCheapPrepend_def adds readableBytes_contents[OF ok])
       (simp add: readableBytes_def Let_def)
  ultimately show ?thesis by blast
qed

lemma ensureWritableBytes_ok:
  assumes ok: "buffer_ok b" and cap: "length (contents b) + 2 * len + 8 \<le> vec_max"
  shows "\<exists>b'. ensureWritableBytes len b = Inr b' \<and> buffer_ok b' \<and> contents b' = contents b \<and>
    len \<le> writableBytes b' \<and> readerIndex b' \<in> {readerIndex b, 8} \<and>
    length (buf_data b') \<le> max (length (buf_data b)) (length (contents b) + 2 * len + 8)"
proof (cases "writableBytes b < len")
  case True
  show ?thesis
  proof (cases "writableBytes b + prependableBytes b < len + 8")
    case small: True
    from makeSpace_resize[OF ok cap True small] True show ?thesis
      by (auto simp: ensureWritableBytes_def)
  next
    case False
    moreover have "len \<le> vec_max - 8" using cap by linarith
    ultimately obtain b' where "makeSpace len b = Inr b'" "buffer_ok b'" "contents b' = contents b"
      "len \<le> writableBytes b'" "readerIndex b' = 8" "length (buf_data b') = length (buf_data b)"
      using makeSpace_compact[OF ok True] by blast
    with True show ?thesis by (simp add: ensureWritableBytes_def)
  qed
next
  case False
  with ok show ?thesis by (simp add: ensureWritableBytes_def)
qed

lemma ensureWritableBytes_total:
  assumes ok: "buffer_ok b" and len: "len \<le> vec_max"
  shows "ensureWritableBytes len b = Inl LengthError \<or>
    (\<exists>b'. ensureWritableBytes len b = Inr b' \<and> buffer_ok b' \<and> contents b' = contents b \<and>
      len \<le> writableBytes b')"
proof (cases "writableBytes b < len")
  case need: True
  show ?thesis
  proof (cases "writableBytes b + prependableBytes b < len + 8")
    case small: True
    show ?thesis
    proof (cases "writerIndex b + len \<le> vec_max")
      case True
      from makeSpace_grow[OF ok len True need small] need show ?thesis
        by (auto simp: ensureWritableBytes_def)
    next
      case False
      with makeSpace_throws[OF ok len _ small] need show ?thesis
        by (simp add: ensureWritableBytes_def)
    qed
  next
    case False
    moreover have "len \<le> vec_max - 8"
      using False buffer_okD[OF ok] by (simp add: writableBytes_ok[OF ok] prependableBytes_def)
    ultimately obtain b' where "makeSpace len b = Inr b'" "buffer_ok b'" "contents b' = contents b"
      "len \<le> writableBytes b'" using makeSpace_compact[OF ok need] by blast
    with need show ?thesis by (simp add: ensureWritableBytes_def)
  qed
next
  case False
  with ok show ?thesis by (simp add: ensureWritableBytes_def)
qed

lemma mem_write_at_end:
  assumes "buffer_ok b" "length bs \<le> writableBytes b"
  shows "\<exists>v. mem_write (writerIndex b) bs (buf_data b) = Inr v \<and> length v = length (buf_data b) \<and>
    hasWritten (length bs) (b\<lparr>buf_data := v\<rparr>) =
      b\<lparr>buf_data := v, writerIndex := writerIndex b + length bs\<rparr> \<and>
    buffer_ok (hasWritten (length bs) (b\<lparr>buf_data := v\<rparr>)) \<and>
    contents (hasWritten (length bs) (b\<lparr>buf_data := v\<rparr>)) = contents b @ bs"
proof -
  note d = buffer_okD[OF assms(1)]
  have w: "writerIndex b + length bs \<le> length (buf_data b)"
    using assms d by (simp add: writableBytes_ok)
  have hw: "sz_add (writerIndex b) (length bs) = writerIndex b + length bs"
    using w d by (simp add: vec_arith)
  with w d show ?thesis
    by (simp add: hasWritten_def mem_write_ok buffer_ok_def contents_def kCheapPrepend_def
        segment_overwrite_end)
qed

lemma append_ok:
  assumes ok: "buffer_ok b" and cap: "length (contents b) + 2 * length bs + 8 \<le> vec_max"
  shows "\<exists>b'. append bs b = Inr b' \<and> buffer_ok b' \<and> contents b' = contents b @ bs \<and>
    readerIndex b' \<in> {readerIndex b, 8} \<and>
    length (buf_data b') \<le> max (length (buf_data b)) (length (contents b) + 2 * length bs + 8)"
proof -
  from ensureWritableBytes_ok[OF ok cap] obtain b1 where
    b1: "ensureWritableBytes (length bs) b = Inr b1" "buffer_ok b1" "contents b1 = contents b"
      "length bs \<le> writableBytes b1" "readerIndex b1 \<in> {readerIndex b, 8}"
      "length (buf_data b1) \<le> max (length (buf_data b)) (length (contents b) + 2 * length bs + 8)"
    by blast
  from mem_write_at_end[OF b1(2,4)] obtain v where
    "mem_write (writerIndex b1) bs (buf_data b1) = Inr v" "length v = length (buf_data b1)"
    "hasWritten (length bs) (b1\<lparr>buf_data := v\<rparr>) =
      b1\<lparr>buf_data := v, writerIndex := writerIndex b1 + length bs\<rparr>"
    "buffer_ok (hasWritten (length bs) (b1\<lparr>buf_data := v\<rparr>))"
    "contents (hasWritten (length bs) (b1\<lparr>buf_data := v\<rparr>)) = contents b1 @ bs"
    by blast
  with b1 show ?thesis by (simp add: append_def beginWrite_def)
qed

lemma append_total:
  assumes "buffer_ok b" "length bs \<le> vec_max"
  shows "append bs b = Inl LengthError \<or>
    (\<exists>b'. append bs b = Inr b' \<and> buffer_ok b' \<and> contents b' = contents b @ bs)"
  using ensureWritableBytes_total[OF assms]
proof (elim disjE exE conjE)
  fix b1
  assume b1: "ensureWritableBytes (length bs) b = Inr b1" "buffer_ok b1" "contents b1 = contents b"
    "length bs \<le> writableBytes b1"
  with mem_write_at_end[OF b1(2,4)] show ?thesis by (auto simp: append_def beginWrite_def)
qed (simp add: append_def)

lemma prepend_ok:
  assumes ok: "buffer_ok b" and "length bs \<le> readerIndex b"
  shows "\<exists>b'. prepend bs b = Inr b' \<and> buffer_ok b' \<and> contents b' = bs @ contents b"
proof -
  note d = buffer_okD[OF ok]
  let ?r = "readerIndex b - length bs"
  let ?v = "take ?r (buf_data b) @ bs @ drop (readerIndex b) (buf_data b)"
  have "mem_write ?r bs (buf_data b) = Inr ?v"
    using assms(2) d by (simp add: mem_write_ok)
  moreover have "segment ?r (writerIndex b) ?v = bs @ contents b"
    using assms(2) d by (simp add: segment_def contents_def)
  ultimately show ?thesis
    using assms(2) d
    by (simp add: prepend_def prependableBytes_def Let_def buffer_ok_def kCheapPrepend_def)
       (simp add: contents_def)
qed

lemma prepend_fails: "readerIndex b < length bs \<Longrightarrow> prepend bs b = Inl AssertFail"
  by (simp add: prepend_def prependableBytes_def)

text \<open>
  \<open>readFd\<close>: whatever \<^verbatim>\<open>readv\<close> delivers within the two areas it was given is appended to
  the content, whether it fits in the buffer or goes through \<^verbatim>\<open>extrabuf\<close>.
\<close>

lemma readFd_spill:
  assumes ok: "buffer_ok b" and n: "length xs \<le> writableBytes b + extrabuf_size"
    and more: "\<not> length xs \<le> writableBytes b"
  shows "\<exists>b1. buffer_ok b1 \<and> contents b1 = contents b @ take (writableBytes b) xs \<and>
    readFd (ReadOk xs) b = bindR (append (drop (writableBytes b) xs) b1)
      (\<lambda>b2. Inr (int (length xs), None, b2))"
proof -
  let ?w = "writableBytes b"
  have "length (take ?w xs) \<le> writableBytes b" and w: "min (length xs) ?w = ?w"
    using more by simp_all
  from mem_write_at_end[OF ok this(1)] w obtain v where
    v: "mem_write (writerIndex b) (take ?w xs) (buf_data b) = Inr v"
      "length v = length (buf_data b)"
      "hasWritten ?w (b\<lparr>buf_data := v\<rparr>) = b\<lparr>buf_data := v, writerIndex := writerIndex b + ?w\<rparr>"
      "buffer_ok (hasWritten ?w (b\<lparr>buf_data := v\<rparr>))"
      "contents (hasWritten ?w (b\<lparr>buf_data := v\<rparr>)) = contents b @ take ?w xs"
    by auto
  let ?b1 = "b\<lparr>buf_data := v, writerIndex := length v\<rparr>"
  have full: "hasWritten ?w (b\<lparr>buf_data := v\<rparr>) = ?b1"
    using v buffer_okD[OF ok] by (simp add: writableBytes_ok[OF ok])
  have extra: "mem_write 0 (drop ?w xs) (replicate extrabuf_size 0) =
      Inr (drop ?w xs @ replicate (extrabuf_size - (length xs - ?w)) 0)"
    using n by (simp add: mem_write_ok)
  have "readFd (ReadOk xs) b = bindR (append (drop ?w xs) ?b1) (\<lambda>b2. Inr (int (length xs), None, b2))"
    using more v(1) extra by (simp add: readFd_def)
  with v(4,5) full show ?thesis by (intro exI[of _ ?b1]) simp
qed

lemma readFd_ok:
  assumes ok: "buffer_ok b" and n: "length xs \<le> writableBytes b + extrabuf_size"
    and cap: "length (contents b) + 2 * length xs + 8 \<le> vec_max"
  shows "\<exists>b'. readFd (ReadOk xs) b = Inr (int (length xs), None, b') \<and> buffer_ok b' \<and>
    contents b' = contents b @ xs"
proof (cases "length xs \<le> writableBytes b")
  case True
  from mem_write_at_end[OF ok True] True show ?thesis
    by (auto simp: readFd_def Let_def mem_write_def[of 0] hasWritten_def)
next
  case False
  from readFd_spill[OF ok n False] obtain b1 where
    b1: "buffer_ok b1" "contents b1 = contents b @ take (writableBytes b) xs"
      "readFd (ReadOk xs) b = bindR (append (drop (writableBytes b) xs) b1)
         (\<lambda>b2. Inr (int (length xs), None, b2))" by blast
  have "length (contents b1) + 2 * length (drop (writableBytes b) xs) + 8 \<le> vec_max"
    using b1(2) False cap by simp
  from append_ok[OF b1(1) this] b1(2,3) show ?thesis by auto
qed

lemma readFd_total:
  assumes ok: "buffer_ok b" and n: "length xs \<le> writableBytes b + extrabuf_size"
  shows "readFd (ReadOk xs) b = Inl LengthError \<or>
    (\<exists>b'. readFd (ReadOk xs) b = Inr (int (length xs), None, b') \<and> buffer_ok b' \<and>
      contents b' = contents b @ xs)"
proof (cases "length xs \<le> writableBytes b")
  case True
  from mem_write_at_end[OF ok True] True show ?thesis
    by (auto simp: readFd_def Let_def mem_write_def[of 0] hasWritten_def)
next
  case False
  from readFd_spill[OF ok n False] obtain b1 where
    b1: "buffer_ok b1" "contents b1 = contents b @ take (writableBytes b) xs"
      "readFd (ReadOk xs) b = bindR (append (drop (writableBytes b) xs) b1)
         (\<lambda>b2. Inr (int (length xs), None, b2))" by blast
  have "length (drop (writableBytes b) xs) \<le> vec_max"
    using n by (simp add: extrabuf_size_def vec_max_def)
  from append_total[OF b1(1) this] b1(2,3) show ?thesis by auto
qed

lemma readFd_error: "readFd (ReadErr e) b = Inr (-1, Some e, b)"
  by (simp add: readFd_def)

section \<open>The contract: a byte queue\<close>

datatype buf_op =
    BAppend "byte list"
  | BReadFd "byte list"
  | BRetrieve nat
  | BRetrieveAsString

fun buf_exec :: "buffer \<Rightarrow> buf_op \<Rightarrow> buffer res" where
  "buf_exec b (BAppend bs) = append bs b"
| "buf_exec b (BReadFd xs) = bindR (readFd (ReadOk xs) b) (\<lambda>(n, e, b'). Inr b')"
| "buf_exec b (BRetrieve n) = retrieve n b"
| "buf_exec b BRetrieveAsString = bindR (retrieveAsString b) (\<lambda>(str, b'). Inr b')"

fun queue_pre :: "byte list \<Rightarrow> buf_op \<Rightarrow> bool" where
  "queue_pre q (BAppend bs) = (length q + 2 * length bs + 8 \<le> vec_max)"
| "queue_pre q (BReadFd xs) =
     (length xs \<le> extrabuf_size \<and> length q + 2 * length xs + 8 \<le> vec_max)"
| "queue_pre q (BRetrieve n) = (n \<le> length q)"
| "queue_pre q BRetrieveAsString = True"

fun queue_spec :: "byte list \<Rightarrow> buf_op \<Rightarrow> byte list" where
  "queue_spec q (BAppend bs) = q @ bs"
| "queue_spec q (BReadFd xs) = q @ xs"
| "queue_spec q (BRetrieve n) = drop n q"
| "queue_spec q BRetrieveAsString = []"

lemma buf_exec_ok:
  assumes "buffer_ok b" "queue_pre (contents b) x"
  shows "\<exists>b'. buf_exec b x = Inr b' \<and> buffer_ok b' \<and> contents b' = queue_spec (contents b) x"
proof (cases x)
  case (BAppend bs)
  with append_ok[of b bs] assms show ?thesis by auto
next
  case (BReadFd xs)
  with readFd_ok[of b xs] assms show ?thesis by auto
next
  case (BRetrieve n)
  with retrieve_ok[of b n] assms show ?thesis by auto
next
  case BRetrieveAsString
  with retrieveAsString_ok[of b] retrieveAll_ok[of b] assms show ?thesis by auto
qed

interpretation byte_queue: contract buf_exec buffer_ok contents queue_pre queue_spec
  by unfold_locales (rule buf_exec_ok)

section \<open>Properties\<close>

text \<open>
  C5: Any sequence of append, readFd, retrieve and retrieveAsString calls that a byte queue
  admits (no retrieve past the end, sizes a vector can hold) runs on a fresh Buffer without a
  failed assertion, an access outside the vector or an exception, keeps
  \<open>0 <= readerIndex <= writerIndex <= size\<close>, and leaves exactly the bytes the queue holds.
\<close>

theorem buffer_implements_queue:
  assumes "admissible queue_pre queue_spec [] ops"
  shows "\<exists>b. run_ops buf_exec buffer_new ops = Inr b \<and> buffer_ok b \<and>
    contents b = foldl queue_spec [] ops"
  using byte_queue.run_ok[OF buffer_new_ok, of ops] assms by simp

theorem buffer_implements_queue_witness:
  "\<exists>b. run_ops buf_exec buffer_new [BAppend [1, 2, 3], BRetrieve 1, BReadFd [4], BAppend [5]] = Inr b \<and>
    buffer_ok b \<and> contents b = [2, 3, 4, 5]"
  using buffer_implements_queue[of "[BAppend [1, 2, 3], BRetrieve 1, BReadFd [4], BAppend [5]]"]
  by (simp add: vec_max_def extrabuf_size_def)

text \<open>
  append never loses or reorders a byte and bounds the memory: it succeeds on every well
  formed buffer the result fits in, its content is the old content followed by the new bytes
  also when makeSpace moved or reallocated the storage (whose assertion
  \<open>kCheapPrepend < readerIndex_\<close> thus always holds there), and the vector never grows beyond
  the larger of its old size and content + 2 * new + 8.
\<close>

theorem append_bounded:
  assumes "buffer_ok b" "length (contents b) + 2 * length bs + 8 \<le> vec_max"
  shows "\<exists>b'. append bs b = Inr b' \<and> buffer_ok b' \<and> contents b' = contents b @ bs \<and>
    length (buf_data b') \<le> max (length (buf_data b)) (length (contents b) + 2 * length bs + 8)"
  using append_ok[OF assms] by blast

theorem append_bounded_witness:
  "\<exists>b'. append [7, 8] buffer_new = Inr b' \<and> contents b' = [7, 8] \<and> length (buf_data b') \<le> 1032"
proof -
  have "length (contents buffer_new) + 2 * length [7 :: byte, 8] + 8 \<le> vec_max"
    by (simp add: vec_max_def)
  moreover have "length (buf_data buffer_new) = 1032"
    by (simp add: buffer_new_def kCheapPrepend_def kInitialSize_def)
  ultimately show ?thesis using append_bounded[OF buffer_new_ok, of "[7, 8]"] by auto
qed

text \<open>
  readFd appends to the content exactly the bytes readv delivered and returns their number,
  whether they fit in the writable area or spill into the 65536 byte stack buffer.
\<close>

theorem readFd_appends:
  assumes "buffer_ok b" "length xs \<le> writableBytes b + extrabuf_size"
    "length (contents b) + 2 * length xs + 8 \<le> vec_max"
  shows "\<exists>b'. readFd (ReadOk xs) b = Inr (int (length xs), None, b') \<and> buffer_ok b' \<and>
    contents b' = contents b @ xs"
  using assms by (rule readFd_ok)

theorem readFd_appends_witness:
  "\<exists>b'. readFd (ReadOk (replicate 2000 65)) buffer_new = Inr (2000, None, b') \<and> buffer_ok b' \<and>
    contents b' = replicate 2000 65"
proof -
  have "length (replicate 2000 (65 :: byte)) \<le> writableBytes buffer_new + extrabuf_size"
    "length (contents buffer_new) + 2 * length (replicate 2000 (65 :: byte)) + 8 \<le> vec_max"
    by (simp_all add: extrabuf_size_def vec_max_def)
  from readFd_appends[OF buffer_new_ok this] show ?thesis by simp
qed

text \<open>
  shrink copies the content to the front of a new vector but leaves both indices as they
  were. When more than \<open>kCheapPrepend + reserve\<close> bytes are prependable, so after retrieves, the
  writer index of the result lies past the end of the new vector.
\<close>

theorem shrink_breaks_indices:
  assumes ok: "buffer_ok b" and cap: "8 + length (contents b) + reserve \<le> vec_max"
    and far: "8 + reserve < readerIndex b"
  shows "\<exists>b'. shrink reserve b = Inr b' \<and> length (buf_data b') < writerIndex b' \<and> \<not> buffer_ok b'"
proof -
  note d = buffer_okD[OF ok]
  let ?n = "8 + length (contents b) + reserve"
  have "sz_add (sz_add 8 (length (contents b))) reserve = ?n"
    using small_b[OF ok] cap by (simp add: vec_arith)
  then have "vec_resize (sz_add (sz_add kCheapPrepend (readableBytes b)) reserve) [] =
      Inr (replicate ?n 0)"
    using cap by (simp add: vec_resize_def kCheapPrepend_def readableBytes_contents[OF ok])
  then have "\<exists>b'. shrink reserve b = Inr b' \<and> length (buf_data b') = ?n \<and>
      writerIndex b' = writerIndex b"
    by (simp add: shrink_def readableBytes_contents[OF ok] peek_bytes_contents[OF ok]
        mem_write_def kCheapPrepend_def)
  moreover have "?n < writerIndex b"
    using far d length_contents[OF ok] by linarith
  ultimately show ?thesis by (auto simp: buffer_ok_def)
qed

theorem shrink_breaks_indices_witness:
  "\<exists>b b'. run_ops buf_exec buffer_new [BAppend [1, 2, 3], BRetrieve 2] = Inr b \<and>
    shrink 1 b = Inr b' \<and> \<not> buffer_ok b'"
proof -
  have "admissible queue_pre queue_spec [] [BAppend [1, 2, 3], BRetrieve 2]"
    by (simp add: vec_max_def)
  then obtain b where b: "run_ops buf_exec buffer_new [BAppend [1, 2, 3], BRetrieve 2] = Inr b"
    "buffer_ok b" "contents b = [3]"
    using byte_queue.run_ok[OF buffer_new_ok, of "[BAppend [1, 2, 3], BRetrieve 2]"] by auto
  have "readerIndex b = 10"
    using b(1) by (auto simp: append_def retrieve_def sz_add_def size_modulus_def buffer_new_def
        ensureWritableBytes_def hasWritten_def writableBytes_def kCheapPrepend_def kInitialSize_def)
  with b shrink_breaks_indices[of b 1] show ?thesis
    by (auto simp: vec_max_def)
qed

end
