(* ===== verification/Endian.thy ===== *)
theory Endian
  imports Prelude
begin

unbundle bit_operations_syntax

text \<open>
  Integers in memory and the byte order conversions of net/SocketsOps.h. The host stores an
  integer with its least significant byte first, so \<^verbatim>\<open>htonl\<close>, \<^verbatim>\<open>htons\<close>, \<^verbatim>\<open>htobe64\<close> and their
  inverses reverse the bytes.
\<close>

section \<open>Integers as bytes\<close>

definition store_le :: "nat \<Rightarrow> 'a::len word \<Rightarrow> byte list" where
  "store_le n w = map (\<lambda>i. ucast (drop_bit (8 * i) w)) [0..<n]"

primrec load_le :: "byte list \<Rightarrow> 'a::len word" where
  "load_le [] = 0"
| "load_le (b # bs) = ucast b OR push_bit 8 (load_le bs)"

lemma length_store_le [simp]: "length (store_le n w) = n"
  by (simp add: store_le_def)

lemma bit_load_le:
  "bit (load_le bs :: 'a::len word) i \<longleftrightarrow>
   i < LENGTH('a) \<and> i div 8 < length bs \<and> bit (bs ! (i div 8)) (i mod 8)"
proof (induction bs arbitrary: i)
  case (Cons b bs)
  show ?case
  proof (cases "i < 8")
    case True
    then show ?thesis by (simp add: bit_simps)
  next
    case False
    then obtain k where "i = k + 8" using le_Suc_ex[of 8 i] by (auto simp: add.commute)
    then have "i div 8 = Suc ((i - 8) div 8)" "i mod 8 = (i - 8) mod 8"
      by simp_all
    moreover from False have "\<not> bit b i"
      using bit_imp_le_length[of b i] by auto
    ultimately show ?thesis
      using False Cons.IH[of "i - 8"] by (auto simp: bit_simps)
  qed
qed simp

lemma nth_store_le: "i < n \<Longrightarrow> store_le n w ! i = ucast (drop_bit (8 * i) w)"
  by (simp add: store_le_def)

lemma bit_store_le:
  fixes w :: "'a::len word"
  shows "i < n \<Longrightarrow> j < 8 \<Longrightarrow> bit (store_le n w ! i) j \<longleftrightarrow> bit w (8 * i + j)"
  using bit_imp_le_length[of w "8 * i + j"]
  by (auto simp: nth_store_le bit_simps)

lemma load_store_le:
  fixes w :: "'a::len word"
  assumes "LENGTH('a) = 8 * n"
  shows "load_le (store_le n w) = w"
proof (rule bit_word_eqI)
  fix i assume i: "i < LENGTH('a)"
  with assms have "i div 8 < n" by linarith
  then show "bit (load_le (store_le n w) :: 'a word) i = bit w i"
    using i by (simp add: bit_load_le bit_store_le)
qed

lemma store_load_le:
  assumes "LENGTH('a) = 8 * n" "length bs = n"
  shows "store_le n (load_le bs :: 'a::len word) = bs"
proof (rule nth_equalityI)
  fix i assume "i < length (store_le n (load_le bs :: 'a word))"
  then have i: "i < n" by simp
  show "store_le n (load_le bs :: 'a word) ! i = bs ! i"
  proof (rule bit_word_eqI)
    fix j assume "j < LENGTH(8)"
    then have "j < 8" by simp
    then show "bit (store_le n (load_le bs :: 'a word) ! i) j = bit (bs ! i) j"
      using i assms by (simp add: bit_store_le bit_load_le)
  qed
qed (simp add: assms)

section \<open>Byte order\<close>

definition byte_swap :: "nat \<Rightarrow> 'a::len word \<Rightarrow> 'a word" where
  "byte_swap n w = load_le (rev (store_le n w))"

lemma byte_swap_swap:
  fixes w :: "'a::len word"
  assumes "LENGTH('a) = 8 * n"
  shows "byte_swap n (byte_swap n w) = w"
  using assms by (simp add: byte_swap_def store_load_le load_store_le)

lemma store_byte_swap:
  fixes w :: "'a::len word"
  assumes "LENGTH('a) = 8 * n"
  shows "store_le n (byte_swap n w) = rev (store_le n w)"
  using assms by (simp add: byte_swap_def store_load_le)

definition hostToNetwork64 :: "64 word \<Rightarrow> 64 word" where
  "hostToNetwork64 host64 = byte_swap 8 host64"

definition hostToNetwork32 :: "32 word \<Rightarrow> 32 word" where
  "hostToNetwork32 host32 = byte_swap 4 host32"

definition hostToNetwork16 :: "16 word \<Rightarrow> 16 word" where
  "hostToNetwork16 host16 = byte_swap 2 host16"

definition networkToHost64 :: "64 word \<Rightarrow> 64 word" where
  "networkToHost64 net64 = byte_swap 8 net64"

definition networkToHost32 :: "32 word \<Rightarrow> 32 word" where
  "networkToHost32 net32 = byte_swap 4 net32"

definition networkToHost16 :: "16 word \<Rightarrow> 16 word" where
  "networkToHost16 net16 = byte_swap 2 net16"

lemma network_host_id [simp]:
  "networkToHost64 (hostToNetwork64 x) = x"
  "networkToHost32 (hostToNetwork32 y) = y"
  "networkToHost16 (hostToNetwork16 z) = z"
  by (simp_all add: networkToHost64_def hostToNetwork64_def networkToHost32_def
      hostToNetwork32_def networkToHost16_def hostToNetwork16_def byte_swap_swap)

lemma wire_order_32: "store_le 4 (hostToNetwork32 w) = rev (store_le 4 w)"
  by (simp add: hostToNetwork32_def store_byte_swap)

end
