(* ===== verification/Codec.thy ===== *)
theory Codec
  imports Buffer Endian
begin

text \<open>
  \<^verbatim>\<open>LengthHeaderCodec\<close> (example/chat/codec.h): messages framed by a 32 bit big-endian length.
  \<open>codec_send\<close> builds the buffer that is handed to \<^verbatim>\<open>TcpConnection::send(Buffer*)\<close>;
  \<open>onMessage_loop\<close> is the loop of \<^verbatim>\<open>onMessage\<close> over the input buffer of a connection, with
  the messages given to \<^verbatim>\<open>messageCallback_\<close> so far and whether \<^verbatim>\<open>conn->shutdown()\<close> was called.
\<close>

section \<open>The code\<close>

definition kHeaderLen :: nat where
  "kHeaderLen = 4"

definition codec_send :: "byte list \<Rightarrow> buffer res" where
  "codec_send message =
     bindR (append message buffer_new) (\<lambda>buf.
     let len = (word_of_nat (length message) :: 32 word); be32 = hostToNetwork32 len in
     prepend (store_le 4 be32) buf)"

text \<open>What \<^verbatim>\<open>conn->send(&buf)\<close> takes out of the buffer and puts on the wire.\<close>

definition codec_wire :: "byte list \<Rightarrow> byte list res" where
  "codec_wire message =
     bindR (codec_send message) (\<lambda>buf. bindR (retrieveAsString buf) (\<lambda>(str, buf'). Inr str))"

text \<open>\<open>None\<close> is a loop that does not return.\<close>

partial_function (option) onMessage_loop ::
  "buffer \<Rightarrow> byte list list \<Rightarrow> (buffer \<times> byte list list \<times> bool) res option" where
  "onMessage_loop buf delivered =
     (if kHeaderLen \<le> readableBytes buf then
        (case peek_bytes kHeaderLen buf of
           Inl e \<Rightarrow> Some (Inl e)
         | Inr data \<Rightarrow>
             let be32 = (load_le data :: 32 word); len = sint (networkToHost32 be32) in
             if 65536 < len \<or> len < 0 then Some (Inr (buf, delivered, True))
             else if sz_add (nat len) kHeaderLen \<le> readableBytes buf then
               (case retrieve kHeaderLen buf of
                  Inl e \<Rightarrow> Some (Inl e)
                | Inr buf1 \<Rightarrow>
                    (case peek_bytes (nat len) buf1 of
                       Inl e \<Rightarrow> Some (Inl e)
                     | Inr message \<Rightarrow>
                         (case retrieve (nat len) buf1 of
                            Inl e \<Rightarrow> Some (Inl e)
                          | Inr buf2 \<Rightarrow> onMessage_loop buf2 (delivered @ [message]))))
             else Some (Inr (buf, delivered, False)))
      else Some (Inr (buf, delivered, False)))"

definition onMessage :: "buffer \<Rightarrow> (buffer \<times> byte list list \<times> bool) res option" where
  "onMessage buf = onMessage_loop buf []"

text \<open>
  The input side of a connection that uses the codec: every readable event appends what
  \<^verbatim>\<open>readv\<close> delivered to the input buffer and calls \<^verbatim>\<open>onMessage\<close>
  (\<^verbatim>\<open>TcpConnection::handleRead\<close> with the codec as message callback).
\<close>

fun receive_chunks ::
  "buffer \<Rightarrow> byte list list \<Rightarrow> bool \<Rightarrow> byte list list \<Rightarrow> (buffer \<times> byte list list \<times> bool) res option" where
  "receive_chunks buf delivered closed [] = Some (Inr (buf, delivered, closed))"
| "receive_chunks buf delivered closed (c # cs) =
     (case readFd (ReadOk c) buf of
        Inl e \<Rightarrow> Some (Inl e)
      | Inr (n, err, buf1) \<Rightarrow>
          (case onMessage buf1 of
             None \<Rightarrow> None
           | Some (Inl e) \<Rightarrow> Some (Inl e)
           | Some (Inr (buf2, ms, sh)) \<Rightarrow>
               receive_chunks buf2 (delivered @ ms) (closed \<or> sh) cs))"

section \<open>Specification: parsing a byte string\<close>

definition header_len :: "byte list \<Rightarrow> int" where
  "header_len bs = sint (networkToHost32 (load_le (take 4 bs) :: 32 word))"

definition bad_len :: "int \<Rightarrow> bool" where
  "bad_len len \<longleftrightarrow> 65536 < len \<or> len < 0"

function parse_frames :: "byte list \<Rightarrow> byte list list \<times> byte list \<times> bool" where
  "parse_frames bs =
     (if length bs < 4 then ([], bs, False)
      else if bad_len (header_len bs) then ([], bs, True)
      else if length bs < 4 + nat (header_len bs) then ([], bs, False)
      else let (ms, rest, bad) = parse_frames (drop (4 + nat (header_len bs)) bs)
           in (take (nat (header_len bs)) (drop 4 bs) # ms, rest, bad))"
  by pat_completeness auto
termination
  by (relation "measure length") auto

declare parse_frames.simps [simp del]

text \<open>One frame on the wire.\<close>

definition frame :: "byte list \<Rightarrow> byte list" where
  "frame m = rev (store_le 4 (word_of_nat (length m) :: 32 word)) @ m"

section \<open>The specification\<close>

lemma parse_short: "length bs < 4 \<Longrightarrow> parse_frames bs = ([], bs, False)"
  by (simp add: parse_frames.simps[of bs])

lemma parse_bad: "4 \<le> length bs \<Longrightarrow> bad_len (header_len bs) \<Longrightarrow> parse_frames bs = ([], bs, True)"
  by (simp add: parse_frames.simps[of bs])

lemma parse_incomplete:
  "4 \<le> length bs \<Longrightarrow> \<not> bad_len (header_len bs) \<Longrightarrow> length bs < 4 + nat (header_len bs) \<Longrightarrow>
   parse_frames bs = ([], bs, False)"
  by (simp add: parse_frames.simps[of bs])

lemma parse_frame:
  "\<not> bad_len (header_len bs) \<Longrightarrow> 4 + nat (header_len bs) \<le> length bs \<Longrightarrow>
   parse_frames (drop (4 + nat (header_len bs)) bs) = (ms, rest, bad) \<Longrightarrow>
   parse_frames bs = (take (nat (header_len bs)) (drop 4 bs) # ms, rest, bad)"
  by (simp add: parse_frames.simps[of bs])

lemma parse_idle:
  "\<not> (4 \<le> length bs \<and> \<not> bad_len (header_len bs) \<and> 4 + nat (header_len bs) \<le> length bs) \<Longrightarrow>
   parse_frames bs = ([], bs, 4 \<le> length bs \<and> bad_len (header_len bs))"
  by (auto simp: parse_frames.simps[of bs] not_le)

lemma header_len_append: "4 \<le> length bs \<Longrightarrow> header_len (bs @ ys) = header_len bs"
  by (simp add: header_len_def)

text \<open>Parsing may be interrupted anywhere: what was left over is the front of what comes next.\<close>

lemma parse_append:
  "parse_frames xs = (ms, r, bad) \<Longrightarrow> parse_frames (r @ ys) = (ms', r', bad') \<Longrightarrow>
   parse_frames (xs @ ys) = (ms @ ms', r', bad')"
proof (induction xs arbitrary: ms rule: parse_frames.induct)
  case (1 xs)
  let ?n = "4 + nat (header_len xs)"
  show ?case
  proof (cases "4 \<le> length xs \<and> \<not> bad_len (header_len xs) \<and> ?n \<le> length xs")
    case True
    obtain ms1 r1 bad1 where p1: "parse_frames (drop ?n xs) = (ms1, r1, bad1)"
      by (cases "parse_frames (drop ?n xs)") auto
    with True parse_frame have "parse_frames xs = (take (nat (header_len xs)) (drop 4 xs) # ms1, r1, bad1)"
      by blast
    with "1.prems"(1) have eqs: "ms = take (nat (header_len xs)) (drop 4 xs) # ms1" "r = r1" "bad = bad1"
      by auto
    have "parse_frames (drop ?n xs @ ys) = (ms1 @ ms', r', bad')"
      using "1.IH" True p1 "1.prems"(2) eqs by (auto simp: not_less)
    then have "parse_frames (drop ?n (xs @ ys)) = (ms1 @ ms', r', bad')"
      using True by simp
    then show ?thesis
      using parse_frame[of "xs @ ys" "ms1 @ ms'" r' bad'] True eqs
      by (simp add: header_len_append)
  next
    case False
    then have "parse_frames xs = ([], xs, bad)" "ms = []" "r = xs"
      using "1.prems"(1) parse_idle[of xs] by auto
    with "1.prems"(2) show ?thesis by simp
  qed
qed

lemma parse_rest_idle: "parse_frames xs = (ms, r, bad) \<Longrightarrow> parse_frames r = ([], r, bad)"
proof (induction xs arbitrary: ms rule: parse_frames.induct)
  case (1 xs)
  let ?n = "4 + nat (header_len xs)"
  show ?case
  proof (cases "4 \<le> length xs \<and> \<not> bad_len (header_len xs) \<and> ?n \<le> length xs")
    case True
    obtain ms1 r1 bad1 where p1: "parse_frames (drop ?n xs) = (ms1, r1, bad1)"
      by (cases "parse_frames (drop ?n xs)") auto
    with True parse_frame "1.prems" have "r = r1" "bad = bad1" by fastforce+
    with "1.IH" True p1 show ?thesis by (auto simp: not_less)
  next
    case False
    then show ?thesis using "1.prems" parse_idle[of xs] by auto
  qed
qed

lemma parse_bad_persists:
  assumes "parse_frames r = ([], r, True)"
  shows "parse_frames (r @ ys) = ([], r @ ys, True)"
proof -
  have "4 \<le> length r" "bad_len (header_len r)"
    using assms parse_short[of r] by (auto simp: parse_frames.simps[of r] split: if_splits prod.splits)
  then show ?thesis by (simp add: parse_bad header_len_append)
qed

lemma parse_rest_length: "parse_frames xs = (ms, r, bad) \<Longrightarrow> length r \<le> length xs"
proof (induction xs arbitrary: ms rule: parse_frames.induct)
  case (1 xs)
  then show ?case
    by (subst (asm) parse_frames.simps) (fastforce split: if_splits prod.splits)
qed

text \<open>A frame on the wire parses back to its message.\<close>

lemma sint_small: "n < 2 ^ 31 \<Longrightarrow> sint (word_of_nat n :: 32 word) = int n"
  by (simp add: signed_of_nat signed_take_bit_int_eq_self)

lemma header_len_frame:
  assumes "length m < 2 ^ 31"
  shows "header_len (frame m @ ys) = int (length m)"
proof -
  have "take 4 (frame m @ ys) = store_le 4 (hostToNetwork32 (word_of_nat (length m)))"
    by (simp add: frame_def wire_order_32)
  then show ?thesis
    using assms by (simp add: header_len_def load_store_le sint_small)
qed

lemma parse_frame_append:
  assumes "length m \<le> 65536" "parse_frames ys = (ms, r, bad)"
  shows "parse_frames (frame m @ ys) = (m # ms, r, bad)"
proof -
  have "drop 4 (frame m) = m" and "length (frame m) = 4 + length m"
    by (simp_all add: frame_def)
  then show ?thesis
    using parse_frame[of "frame m @ ys" ms r bad] assms
    by (simp add: header_len_frame bad_len_def)
qed

lemma parse_frames_map_frame:
  "\<forall>m \<in> set msgs. length m \<le> 65536 \<Longrightarrow> parse_frames (concat (map frame msgs)) = (msgs, [], False)"
  by (induction msgs) (simp_all add: parse_short parse_frame_append)

section \<open>The code against the specification\<close>

lemma sz_add_header: "\<not> bad_len len \<Longrightarrow> sz_add (nat len) kHeaderLen = nat len + 4"
  by (subst sz_add_small) (auto simp: size_modulus_def bad_len_def kHeaderLen_def)

lemma onMessage_loop_parse:
  assumes "buffer_ok b" "parse_frames (contents b) = (ms, rest, bad)"
  shows "\<exists>b'. onMessage_loop b del = Some (Inr (b', del @ ms, bad)) \<and> buffer_ok b' \<and>
    contents b' = rest"
  using assms
proof (induction "contents b" arbitrary: b del ms rule: parse_frames.induct)
  case 1
  let ?c = "contents b" and ?len = "header_len (contents b)"
  note ok = \<open>buffer_ok b\<close>
  have pk: "4 \<le> length ?c \<Longrightarrow> peek_bytes 4 b = Inr (take 4 ?c)"
    using ok by (simp add: peek_bytes_contents)
  have hl: "sint (networkToHost32 (load_le (take 4 ?c))) = ?len"
    by (simp add: header_len_def)
  show ?case
  proof (cases "4 \<le> length ?c \<and> \<not> bad_len ?len \<and> 4 + nat ?len \<le> length ?c")
    case True
    obtain ms1 r1 bad1 where p1: "parse_frames (drop (4 + nat ?len) ?c) = (ms1, r1, bad1)"
      by (cases "parse_frames (drop (4 + nat ?len) ?c)") auto
    have eqs: "ms = take (nat ?len) (drop 4 ?c) # ms1" "rest = r1" "bad = bad1"
      using parse_frame[of ?c ms1 r1 bad1] p1 True "1.prems"(2) by auto
    have len: "nat ?len \<le> length ?c - 4" using True by linarith
    obtain b1 where b1: "retrieve 4 b = Inr b1" "buffer_ok b1" "contents b1 = drop 4 ?c"
      using retrieve_ok[OF ok, of 4] True by auto
    obtain b2 where b2: "retrieve (nat ?len) b1 = Inr b2" "buffer_ok b2"
        "contents b2 = drop (4 + nat ?len) ?c"
      using retrieve_ok[OF b1(2), of "nat ?len"] b1(3) len by (auto simp: add.commute)
    have pk1: "peek_bytes (nat ?len) b1 = Inr (take (nat ?len) (drop 4 ?c))"
      using peek_bytes_contents[OF b1(2), of "nat ?len"] b1(3) len by simp
    have "onMessage_loop b del = onMessage_loop b2 (del @ [take (nat ?len) (drop 4 ?c)])"
      using True pk pk1 b1 b2 hl sz_add_header[of ?len]
      by (simp add: onMessage_loop.simps[of b] readableBytes_contents[OF ok] kHeaderLen_def
          bad_len_def Let_def)
    moreover have "\<And>d. \<exists>b'. onMessage_loop b2 d = Some (Inr (b', d @ ms1, bad1)) \<and>
        buffer_ok b' \<and> contents b' = r1"
      using "1.hyps"[OF _ _ _ b2(3)[symmetric] b2(2)] True p1 b2(3) eqs(2,3) by (auto simp: not_less)
    note this[of "del @ [take (nat ?len) (drop 4 ?c)]"]
    ultimately show ?thesis using eqs by auto
  next
    case False
    then have r: "ms = []" "rest = ?c" "bad = (4 \<le> length ?c \<and> bad_len ?len)"
      using "1.prems"(2) parse_idle[of ?c] by auto
    have "onMessage_loop b del = Some (Inr (b, del, 4 \<le> length ?c \<and> bad_len ?len))"
      using False pk hl sz_add_header[of ?len]
      by (cases "4 \<le> length ?c")
         (auto simp: onMessage_loop.simps[of b] readableBytes_contents[OF ok] kHeaderLen_def
          bad_len_def Let_def)
    with r ok show ?thesis by simp
  qed
qed

lemma codec_send_frame:
  assumes "2 * length m + 8 \<le> vec_max"
  shows "\<exists>b. codec_send m = Inr b \<and> buffer_ok b \<and> contents b = frame m"
proof -
  have "length (contents buffer_new) + 2 * length m + 8 \<le> vec_max"
    using assms by simp
  from append_ok[OF buffer_new_ok this] obtain b where
    b: "append m buffer_new = Inr b" "buffer_ok b" "contents b = m"
      "readerIndex b \<in> {readerIndex buffer_new, 8}" by auto
  then have "length (store_le 4 (hostToNetwork32 (word_of_nat (length m)))) \<le> readerIndex b"
    by (auto simp: buffer_new_def kCheapPrepend_def)
  from prepend_ok[OF b(2) this] b show ?thesis
    by (auto simp: codec_send_def Let_def frame_def wire_order_32)
qed

lemma codec_wire_any: "2 * length m + 8 \<le> vec_max \<Longrightarrow> codec_wire m = Inr (frame m)"
  using codec_send_frame[of m] by (auto simp: codec_wire_def retrieveAsString_ok)

lemma codec_wire_frame: "length m \<le> 65536 \<Longrightarrow> codec_wire m = Inr (frame m)"
  by (rule codec_wire_any) (simp add: vec_max_def)

lemma receive_chunks_parse:
  assumes "buffer_ok b" "parse_frames (contents b) = ([], contents b, bad0)" "bad0 \<Longrightarrow> closed"
    "\<forall>c \<in> set cs. length c \<le> extrabuf_size"
    "3 * (length (contents b) + length (concat cs)) + 8 \<le> vec_max"
    "parse_frames (contents b @ concat cs) = (ms, rest, bad)"
  shows "\<exists>b'. receive_chunks b del closed cs = Some (Inr (b', del @ ms, closed \<or> bad)) \<and>
    buffer_ok b' \<and> contents b' = rest"
  using assms
proof (induction cs arbitrary: b del closed bad0 ms rest bad)
  case Nil
  then show ?case by auto
next
  case (Cons c cs)
  obtain b1 where b1: "readFd (ReadOk c) b = Inr (int (length c), None, b1)" "buffer_ok b1"
      "contents b1 = contents b @ c"
    using readFd_ok[OF Cons.prems(1), of c] Cons.prems(4,5) by auto
  obtain ms1 r1 bad1 where p1: "parse_frames (contents b1) = (ms1, r1, bad1)"
    by (cases "parse_frames (contents b1)") auto
  then obtain b2 where b2: "onMessage b1 = Some (Inr (b2, ms1, bad1))" "buffer_ok b2" "contents b2 = r1"
    using onMessage_loop_parse[OF b1(2) p1, of "[]"] by (auto simp: onMessage_def)
  have idle: "parse_frames (contents b2) = ([], contents b2, bad1)"
    using parse_rest_idle[OF p1] b2(3) by simp
  obtain ms2 r2 bad2 where p2: "parse_frames (contents b2 @ concat cs) = (ms2, r2, bad2)"
    by (cases "parse_frames (contents b2 @ concat cs)") auto
  have eqs: "ms = ms1 @ ms2" "rest = r2" "bad = bad2"
    using parse_append[OF p1, of "concat cs" ms2 r2 bad2] p2 b1(3) b2(3) Cons.prems(6) by auto
  have bad: "bad1 \<Longrightarrow> bad2"
    using parse_bad_persists[of "contents b2" "concat cs"] idle p2 by auto
  have "length (contents b2) \<le> length (contents b) + length c"
    using parse_rest_length[OF p1] b1(3) b2(3) by simp
  then have cap: "3 * (length (contents b2) + length (concat cs)) + 8 \<le> vec_max"
    using Cons.prems(5) by simp
  have cl: "bad1 \<Longrightarrow> closed \<or> bad1" by simp
  from Cons.IH[OF b2(2) idle cl _ cap p2, of "del @ ms1"] Cons.prems(4) obtain b' where
    "receive_chunks b2 (del @ ms1) (closed \<or> bad1) cs =
      Some (Inr (b', (del @ ms1) @ ms2, (closed \<or> bad1) \<or> bad2))"
    "buffer_ok b'" "contents b' = r2" by auto
  then show ?case using b1 b2 eqs bad by auto
qed

section \<open>Properties\<close>

text \<open>
  C16: Framing round trip. Encode any messages of at most 65536 bytes with the codec's send,
  cut the concatenated byte stream into chunks at arbitrary places (each at most what one
  readFd takes) and let the receiver's input buffer and onMessage process the chunks one by
  one: the loop returns each time, nothing fails, the connection is not shut down, exactly the
  messages that were sent are delivered in their order, and no byte is left in the buffer.
\<close>

theorem codec_round_trip:
  assumes "\<forall>m \<in> set msgs. length m \<le> 65536"
  shows "\<exists>wires. map codec_wire msgs = map Inr wires \<and>
    (\<forall>chunks. concat chunks = concat wires \<and> (\<forall>c \<in> set chunks. length c \<le> 65536) \<and>
        3 * length (concat chunks) + 8 \<le> vec_max \<longrightarrow>
      (\<exists>b. receive_chunks buffer_new [] False chunks = Some (Inr (b, msgs, False)) \<and>
        buffer_ok b \<and> contents b = []))"
proof (rule exI[of _ "map frame msgs"], intro conjI allI impI)
  show "map codec_wire msgs = map Inr (map frame msgs)"
    using assms codec_wire_frame by simp
next
  fix chunks
  assume c: "concat chunks = concat (map frame msgs) \<and> (\<forall>c \<in> set chunks. length c \<le> 65536) \<and>
    3 * length (concat chunks) + 8 \<le> vec_max"
  from c have cap: "3 * length (concat chunks) + 8 \<le> vec_max" by blast
  from c have "parse_frames (contents buffer_new @ concat chunks) = (msgs, [], False)"
    using assms by (simp add: parse_frames_map_frame)
  moreover have "3 * (length (contents buffer_new) + length (concat chunks)) + 8 \<le> vec_max"
    using cap by simp
  note receive_chunks_parse[OF buffer_new_ok _ _ _ this, of False False msgs "[]" False "[]"]
  ultimately  show "\<exists>b. receive_chunks buffer_new [] False chunks = Some (Inr (b, msgs, False)) \<and>
      buffer_ok b \<and> contents b = []"
    using c by (simp add: parse_short extrabuf_size_def)
qed

theorem codec_round_trip_witness:
  "\<exists>b. codec_wire [7, 8] = Inr [0, 0, 0, 2, 7, 8] \<and> codec_wire [9] = Inr [0, 0, 0, 1, 9] \<and>
    receive_chunks buffer_new [] False [[0, 0], [0, 2, 7, 8, 0], [0, 0, 1, 9]] =
      Some (Inr (b, [[7, 8], [9]], False)) \<and> contents b = []"
proof -
  have f: "frame [7, 8] = [0, 0, 0, 2, 7, 8]" "frame [9] = [0, 0, 0, 1, 9]"
    by code_simp+
  have "\<forall>m \<in> set [[7, 8], [9]]. length (m :: byte list) \<le> 65536" by simp
  from codec_round_trip[OF this] obtain wires where "map codec_wire [[7, 8], [9]] = map Inr wires" and
    "\<forall>chunks. concat chunks = concat wires \<and> (\<forall>c \<in> set chunks. length c \<le> 65536) \<and>
        3 * length (concat chunks) + 8 \<le> vec_max \<longrightarrow>
      (\<exists>b. receive_chunks buffer_new [] False chunks = Some (Inr (b, [[7, 8], [9]], False)) \<and>
        buffer_ok b \<and> contents b = [])"
    by blast
  moreover from this(1) have "wires = [[0, 0, 0, 2, 7, 8], [0, 0, 0, 1, 9]]"
    using codec_wire_frame f by (cases wires; cases "tl wires") auto
  ultimately show ?thesis
    using codec_wire_frame f
    by (auto dest!: spec[of _ "[[0, 0], [0, 2, 7, 8, 0], [0, 0, 1, 9]]"] simp: vec_max_def)
qed

text \<open>
  C15: What the receiver delivers does not depend on how the network cuts the byte stream. For
  an arbitrary byte stream, valid or not, the messages delivered, the bytes left over and
  whether the connection was shut down are those of parsing the whole stream at once.
\<close>

theorem receive_fragmentation_independent:
  assumes "\<forall>c \<in> set chunks. length c \<le> 65536" "3 * length (concat chunks) + 8 \<le> vec_max"
    and "parse_frames (concat chunks) = (ms, rest, bad)"
  shows "\<exists>b. receive_chunks buffer_new [] False chunks = Some (Inr (b, ms, bad)) \<and>
    buffer_ok b \<and> contents b = rest"
  using receive_chunks_parse[OF buffer_new_ok, of False False chunks ms rest bad "[]"] assms
  by (simp add: parse_short extrabuf_size_def)


theorem receive_fragmentation_independent_witness:
  "\<exists>b. receive_chunks buffer_new [] False [[0, 0, 0], [1, 65, 255, 0], [0, 0]] =
    Some (Inr (b, [[65]], True)) \<and> buffer_ok b \<and> contents b = [255, 0, 0, 0]"
proof -
  have "parse_frames (concat [[0, 0, 0], [1, 65, 255, 0], [0, 0]]) = ([[65]], [255, 0, 0, 0], True)"
    by code_simp
  from receive_fragmentation_independent[OF _ _ this] show ?thesis
    by (simp add: vec_max_def)
qed

end
