(* ===== verification/LogStream.thy ===== *)
theory LogStream
  imports Contracts "HOL-Library.Signed_Division" "HOL-Library.Char_ord"
begin

text \<open>
  base/LogStream.h and base/LogStream.cc: the fixed size buffer of one log line (or of a
  batch of lines), the conversion of integers to text, and the insertion operators. The text
  between \<^verbatim>\<open>data_\<close> and \<^verbatim>\<open>cur_\<close> is a string, \<open>fb_size\<close> is the template parameter \<^verbatim>\<open>SIZE\<close>; the
  bytes behind \<^verbatim>\<open>cur_\<close> are never read before they are written.
\<close>

section \<open>FixedBuffer\<close>

definition kSmallBuffer :: nat where
  "kSmallBuffer = 4000"

definition kLargeBuffer :: nat where
  "kLargeBuffer = 4000 * 1000"

definition kMaxNumericSize :: int where
  "kMaxNumericSize = 32"

record fixed_buffer =
  fb_size :: nat
  fb_text :: string

definition fb_new :: "nat \<Rightarrow> fixed_buffer" where
  "fb_new sz = \<lparr>fb_size = sz, fb_text = []\<rparr>"

definition to_int32 :: "nat \<Rightarrow> int" where
  "to_int32 n = sint (word_of_nat n :: 32 word)"

definition fb_avail :: "fixed_buffer \<Rightarrow> int" where
  "fb_avail b = int (fb_size b) - int (length (fb_text b))"

definition fb_append :: "string \<Rightarrow> fixed_buffer \<Rightarrow> fixed_buffer res" where
  "fb_append buf b =
     (if to_int32 (length buf) < fb_avail b
      then if length (fb_text b) + length buf \<le> fb_size b
           then Inr (b\<lparr>fb_text := fb_text b @ buf\<rparr>)
           else Inl OutOfBounds
      else Inr b)"

text \<open>
  The numeric operators write at \<^verbatim>\<open>current()\<close>, including a terminating zero byte, and then call
  \<^verbatim>\<open>add(len)\<close>: \<open>written\<close> is what they write, its first \<open>len\<close> bytes become part of the text.
\<close>

definition fb_write_add :: "string \<Rightarrow> nat \<Rightarrow> fixed_buffer \<Rightarrow> fixed_buffer res" where
  "fb_write_add written len b =
     (if length (fb_text b) + length written \<le> fb_size b \<and> len \<le> length written
      then Inr (b\<lparr>fb_text := fb_text b @ take len written\<rparr>)
      else Inl OutOfBounds)"

definition fb_length :: "fixed_buffer \<Rightarrow> int" where
  "fb_length b = int (length (fb_text b))"

definition fb_reset :: "fixed_buffer \<Rightarrow> fixed_buffer" where
  "fb_reset b = b\<lparr>fb_text := []\<rparr>"

section \<open>Integers to text\<close>

definition digits :: string where
  "digits = ''9876543210123456789''"

definition digitsHex :: string where
  "digitsHex = ''0123456789ABCDEF''"

text \<open>\<^verbatim>\<open>zero[lsd]\<close> with \<^verbatim>\<open>zero = digits + 9\<close>; \<open>lsd\<close> is between -9 and 9.\<close>

definition zero_at :: "int \<Rightarrow> char" where
  "zero_at lsd = digits ! nat (9 + lsd)"

text \<open>The do-while loop; \<open>sdiv\<close> and \<open>smod\<close> truncate towards zero as C++ does.\<close>

function convert_loop :: "int \<Rightarrow> string" where
  "convert_loop i =
     (let lsd = i smod 10; i' = i sdiv 10 in
      zero_at lsd # (if i' \<noteq> 0 then convert_loop i' else []))"
  by pat_completeness auto
termination
proof (relation "measure (\<lambda>i. nat \<bar>i\<bar>)")
  fix i x xa :: int
  assume "x = i smod 10" "xa = i sdiv 10" "xa \<noteq> 0"
  then show "(xa, i) \<in> measure (\<lambda>i. nat \<bar>i\<bar>)"
    by (auto simp: signed_divide_int_def abs_mult sgn_if split: if_splits)
qed simp

declare convert_loop.simps [simp del]

definition convert :: "int \<Rightarrow> string" where
  "convert value = rev (convert_loop value @ (if value < 0 then ''-'' else []))"

function convertHex_loop :: "nat \<Rightarrow> string" where
  "convertHex_loop i =
     (let lsd = i mod 16; i' = i div 16 in
      digitsHex ! lsd # (if i' \<noteq> 0 then convertHex_loop i' else []))"
  by pat_completeness auto
termination
  by (relation "measure id") auto

declare convertHex_loop.simps [simp del]

definition convertHex :: "64 word \<Rightarrow> string" where
  "convertHex value = rev (convertHex_loop (unat value))"

section \<open>The insertion operators\<close>

text \<open>
  One constructor per overload of \<^verbatim>\<open>operator<<\<close>. A \<^verbatim>\<open>const char*\<close> is \<open>None\<close> when it is null.
\<close>

datatype 'd log_arg =
    LInt "32 word"
  | LUInt "32 word"
  | LLong "64 word"
  | LULong "64 word"
  | LChar char
  | LCStr "string option"
  | LString string
  | LPtr "64 word"
  | LDouble 'd

text \<open>The value of an integer argument of the template \<^verbatim>\<open>formatInteger\<close>.\<close>

definition formatInteger :: "int \<Rightarrow> fixed_buffer \<Rightarrow> fixed_buffer res" where
  "formatInteger v b =
     (if kMaxNumericSize \<le> fb_avail b
      then let s = convert v in fb_write_add (s @ [CHR 0x00]) (length s) b
      else Inr b)"

text \<open>
  \<open>fmt12g\<close> stands for \<^verbatim>\<open>snprintf\<close> with the format \<open>%.12g\<close>: the text of a double. At most
  \<open>kMaxNumericSize - 1\<close> characters of it are stored, and \<^verbatim>\<open>add\<close> gets its full length.
\<close>

fun log_insert :: "('d \<Rightarrow> string) \<Rightarrow> fixed_buffer \<Rightarrow> 'd log_arg \<Rightarrow> fixed_buffer res" where
  "log_insert fmt12g b (LInt v) = formatInteger (sint v) b"
| "log_insert fmt12g b (LUInt v) = formatInteger (uint v) b"
| "log_insert fmt12g b (LLong v) = formatInteger (sint v) b"
| "log_insert fmt12g b (LULong v) = formatInteger (uint v) b"
| "log_insert fmt12g b (LChar v) = fb_append [v] b"
| "log_insert fmt12g b (LCStr str) =
     (case str of Some s \<Rightarrow> fb_append s b | None \<Rightarrow> fb_append ''(null)'' b)"
| "log_insert fmt12g b (LString v) = fb_append v b"
| "log_insert fmt12g b (LPtr v) =
     (if kMaxNumericSize \<le> fb_avail b
      then let s = ''0x'' @ convertHex v in fb_write_add (s @ [CHR 0x00]) (length s) b
      else Inr b)"
| "log_insert fmt12g b (LDouble v) =
     (if kMaxNumericSize \<le> fb_avail b
      then let s = fmt12g v in
           fb_write_add (take (nat kMaxNumericSize - 1) s @ [CHR 0x00]) (length s) b
      else Inr b)"

section \<open>The conversion is correct\<close>

lemma abs_sdiv_10: "\<bar>i sdiv 10\<bar> = \<bar>i :: int\<bar> div 10"
  by (cases "i = 0") (simp_all add: signed_divide_int_def abs_mult abs_sgn_eq)

lemma abs_smod_10: "\<bar>i smod 10\<bar> = \<bar>i :: int\<bar> mod 10"
  by (cases "0 \<le> i")
     (simp_all add: signed_modulo_int_def signed_divide_int_def sgn_if minus_div_mult_eq_mod[symmetric])

lemma smod_10_range: "- 9 \<le> i smod 10" "i smod 10 \<le> (9 :: int)"
proof -
  have "\<bar>i smod 10\<bar> < 10" by (simp add: abs_smod_10)
  then show "- 9 \<le> i smod 10" "i smod 10 \<le> 9" by auto
qed

definition dec_digits :: string where
  "dec_digits = ''0123456789''"

lemma zero_at_cases:
  assumes "- 9 \<le> l" "l \<le> 9"
  shows "int (of_char (zero_at l)) = 48 + \<bar>l\<bar> \<and> zero_at l \<in> set dec_digits \<and>
    (zero_at l = CHR ''0'' \<longleftrightarrow> l = 0)"
proof -
  have "l \<in> {-9, -8, -7, -6, -5, -4, -3, -2, -1, 0, 1, 2, 3, 4, 5, 6, 7, 8, 9}"
    using assms by (simp; presburger)
  then show ?thesis by (auto simp: zero_at_def digits_def dec_digits_def)
qed

lemmas zero_at_digit = zero_at_cases[OF smod_10_range]

text \<open>The value of a digit string, and of a text with an optional minus sign.\<close>

definition dec_val :: "string \<Rightarrow> int" where
  "dec_val s = foldl (\<lambda>a c. 10 * a + (int (of_char c) - 48)) 0 s"

definition parse_int :: "string \<Rightarrow> int" where
  "parse_int s = (case s of
     [] \<Rightarrow> 0
   | c # cs \<Rightarrow> if c = CHR ''-'' then - dec_val cs else dec_val s)"

lemma dec_val_loop: "dec_val (rev (convert_loop i)) = \<bar>i\<bar>"
proof (induction i rule: convert_loop.induct)
  case (1 i)
  have split: "10 * (\<bar>i\<bar> div 10) + \<bar>i\<bar> mod 10 = \<bar>i\<bar>" by simp
  show ?case
  proof (cases "i sdiv 10 = 0")
    case True
    then have "\<bar>i\<bar> div 10 = 0" using abs_sdiv_10[of i] by simp
    with True zero_at_digit[of i] split show ?thesis
      by (simp add: convert_loop.simps[of i] dec_val_def abs_smod_10)
  next
    case False
    with 1 have "dec_val (rev (convert_loop (i sdiv 10))) = \<bar>i\<bar> div 10"
      by (simp add: abs_sdiv_10)
    with False zero_at_digit[of i] split show ?thesis
      by (simp add: convert_loop.simps[of i] dec_val_def abs_smod_10)
  qed
qed

lemma set_convert_loop: "set (convert_loop i) \<subseteq> set dec_digits"
proof (induction i rule: convert_loop.induct)
  case (1 i)
  then show ?case
    using zero_at_digit[of i] by (subst convert_loop.simps) (auto simp: Let_def)
qed

lemma convert_loop_nonempty [simp]: "convert_loop i \<noteq> []"
  by (subst convert_loop.simps) (simp add: Let_def)

lemma last_convert_loop: "i \<noteq> 0 \<Longrightarrow> last (convert_loop i) \<noteq> CHR ''0''"
proof (induction i rule: convert_loop.induct)
  case (1 i)
  show ?case
  proof (cases "i sdiv 10 = 0")
    case True
    then have "\<bar>i\<bar> div 10 = 0" using abs_sdiv_10[of i] by simp
    moreover have "10 * (\<bar>i\<bar> div 10) + \<bar>i\<bar> mod 10 = \<bar>i\<bar>" by simp
    ultimately have "\<bar>i smod 10\<bar> = \<bar>i\<bar>" by (simp add: abs_smod_10)
    with "1.prems" have "i smod 10 \<noteq> 0" by auto
    with True zero_at_digit[of i] show ?thesis by (simp add: convert_loop.simps[of i])
  next
    case False
    with 1 show ?thesis by (simp add: convert_loop.simps[of i])
  qed
qed

lemma length_convert_loop: "\<bar>i\<bar> < 10 ^ Suc k \<Longrightarrow> length (convert_loop i) \<le> Suc k"
proof (induction k arbitrary: i)
  case 0
  then have "\<bar>i sdiv 10\<bar> = 0" by (simp add: abs_sdiv_10)
  then show ?case by (simp add: convert_loop.simps[of i])
next
  case (Suc k)
  have "\<bar>i sdiv 10\<bar> < 10 ^ Suc k"
    using Suc.prems by (simp add: abs_sdiv_10 div_less_iff_less_mult)
  from Suc.IH[OF this] show ?case by (simp add: convert_loop.simps[of i] Let_def)
qed

lemma length_convert:
  assumes "- (2 ^ 63) \<le> v" "v < 2 ^ 64"
  shows "length (convert v) \<le> 20"
proof (cases "v < 0")
  case True
  with assms have "\<bar>v\<bar> < 10 ^ Suc 18" by simp
  from length_convert_loop[OF this] True show ?thesis by (simp add: convert_def)
next
  case False
  with assms have "\<bar>v\<bar> < 10 ^ Suc 19" by simp
  from length_convert_loop[OF this] False show ?thesis by (simp add: convert_def)
qed

text \<open>Hexadecimal.\<close>

definition hex_digit :: "char \<Rightarrow> nat" where
  "hex_digit c = (if of_char c < (58 :: nat) then of_char c - 48 else of_char c - 55)"

definition hex_val :: "string \<Rightarrow> nat" where
  "hex_val s = foldl (\<lambda>a c. 16 * a + hex_digit c) 0 s"

lemma hex_digit_digitsHex: "d < 16 \<Longrightarrow> hex_digit (digitsHex ! d) = d"
proof -
  assume "d < 16"
  then have "d \<in> {0, 1, 2, 3, 4, 5, 6, 7, 8, 9, 10, 11, 12, 13, 14, 15}" by (simp; presburger)
  then show ?thesis by (auto simp: hex_digit_def digitsHex_def)
qed

lemma hex_val_loop: "hex_val (rev (convertHex_loop i)) = i"
proof (induction i rule: convertHex_loop.induct)
  case (1 i)
  show ?case
  proof (cases "i div 16 = 0")
    case True
    then have "i mod 16 = i" by (simp add: div_eq_0_iff)
    with True hex_digit_digitsHex[of "i mod 16"] show ?thesis
      by (simp add: convertHex_loop.simps[of i] hex_val_def)
  next
    case False
    with 1 have "hex_val (rev (convertHex_loop (i div 16))) = i div 16" by simp
    with False hex_digit_digitsHex[of "i mod 16"] show ?thesis
      by (simp add: convertHex_loop.simps[of i] hex_val_def)
  qed
qed

lemma length_convertHex_loop: "i < 16 ^ Suc k \<Longrightarrow> length (convertHex_loop i) \<le> Suc k"
proof (induction k arbitrary: i)
  case 0
  then show ?case by (simp add: convertHex_loop.simps[of i])
next
  case (Suc k)
  have "i div 16 < 16 ^ Suc k"
    using Suc.prems by (simp add: div_less_iff_less_mult)
  from Suc.IH[OF this] show ?case by (simp add: convertHex_loop.simps[of i] Let_def)
qed

lemma length_convertHex: "length (convertHex v) \<le> 16"
proof -
  have "unat v < 16 ^ Suc 15" using unsigned_less[of v] by simp
  from length_convertHex_loop[OF this] show ?thesis by (simp add: convertHex_def)
qed

section \<open>The contract of a log line\<close>

text \<open>
  The text an argument stands for, and whether it fits: a text needs one free byte more than
  its length, a number needs \<open>kMaxNumericSize\<close> free bytes.
\<close>

fun render :: "('d \<Rightarrow> string) \<Rightarrow> 'd log_arg \<Rightarrow> string" where
  "render fmt12g (LInt v) = convert (sint v)"
| "render fmt12g (LUInt v) = convert (uint v)"
| "render fmt12g (LLong v) = convert (sint v)"
| "render fmt12g (LULong v) = convert (uint v)"
| "render fmt12g (LChar v) = [v]"
| "render fmt12g (LCStr str) = (case str of Some s \<Rightarrow> s | None \<Rightarrow> ''(null)'')"
| "render fmt12g (LString v) = v"
| "render fmt12g (LPtr v) = ''0x'' @ convertHex v"
| "render fmt12g (LDouble v) = fmt12g v"

fun is_numeric :: "'d log_arg \<Rightarrow> bool" where
  "is_numeric (LChar v) = False"
| "is_numeric (LCStr str) = False"
| "is_numeric (LString v) = False"
| "is_numeric arg = True"

definition arg_fits :: "('d \<Rightarrow> string) \<Rightarrow> nat \<times> string \<Rightarrow> 'd log_arg \<Rightarrow> bool" where
  "arg_fits fmt12g st arg =
     (case st of (sz, t) \<Rightarrow>
        if is_numeric arg then length t + 32 \<le> sz else length t + length (render fmt12g arg) < sz)"

definition line_spec :: "('d \<Rightarrow> string) \<Rightarrow> nat \<times> string \<Rightarrow> 'd log_arg \<Rightarrow> nat \<times> string" where
  "line_spec fmt12g st arg =
     (if arg_fits fmt12g st arg then (fst st, snd st @ render fmt12g arg) else st)"

text \<open>A string is shorter than \<open>2 ^ 31\<close> bytes and a double prints in less than 32.\<close>

definition line_pre :: "('d \<Rightarrow> string) \<Rightarrow> nat \<times> string \<Rightarrow> 'd log_arg \<Rightarrow> bool" where
  "line_pre fmt12g st arg \<longleftrightarrow>
     length (render fmt12g arg) < (if is_numeric arg then 32 else 2 ^ 31)"

definition line_ok :: "fixed_buffer \<Rightarrow> bool" where
  "line_ok b \<longleftrightarrow> length (fb_text b) < fb_size b"

definition line_abs :: "fixed_buffer \<Rightarrow> nat \<times> string" where
  "line_abs b = (fb_size b, fb_text b)"

lemma to_int32_small: "n < 2 ^ 31 \<Longrightarrow> to_int32 n = int n"
  by (simp add: to_int32_def sint_of_nat32)

lemma fb_append_text:
  "length s < 2 ^ 31 \<Longrightarrow>
   fb_append s b = Inr (if length (fb_text b) + length s < fb_size b
                        then b\<lparr>fb_text := fb_text b @ s\<rparr> else b)"
  by (auto simp: fb_append_def to_int32_small fb_avail_def)

lemma fb_write_number:
  "length s < 32 \<Longrightarrow>
   (if kMaxNumericSize \<le> fb_avail b then fb_write_add (s @ [c]) (length s) b else Inr b) =
   Inr (if length (fb_text b) + 32 \<le> fb_size b then b\<lparr>fb_text := fb_text b @ s\<rparr> else b)"
  by (auto simp: fb_write_add_def kMaxNumericSize_def fb_avail_def)

lemma length_convert_words:
  "length (convert (sint (w :: 32 word))) < 32" "length (convert (uint (w :: 32 word))) < 32"
  "length (convert (sint (x :: 64 word))) < 32" "length (convert (uint (x :: 64 word))) < 32"
  using length_convert[of "sint w"] length_convert[of "uint w"]
    length_convert[of "sint x"] length_convert[of "uint x"]
    sint_range_size[of w] sint_range_size[of x] uint_lt2p[of w] uint_lt2p[of x]
    uint_ge_0[of w] uint_ge_0[of x]
  by (simp_all add: word_size)

text \<open>The outcome every operator has: the text grows by \<open>s\<close>, or stays.\<close>

definition grow_if :: "bool \<Rightarrow> string \<Rightarrow> fixed_buffer \<Rightarrow> fixed_buffer" where
  "grow_if c s b = (if c then b\<lparr>fb_text := fb_text b @ s\<rparr> else b)"

lemma append_grow:
  "length s < 2 ^ 31 \<Longrightarrow> fb_append s b = Inr (grow_if (length (fb_text b) + length s < fb_size b) s b)"
  by (simp add: fb_append_text grow_if_def)

lemma number_grow:
  "length s < 32 \<Longrightarrow>
   (if kMaxNumericSize \<le> fb_avail b then fb_write_add (s @ [c]) (length s) b else Inr b) =
   Inr (grow_if (length (fb_text b) + 32 \<le> fb_size b) s b)"
  by (simp only: fb_write_number grow_if_def)

lemma formatInteger_grow:
  "length (convert v) < 32 \<Longrightarrow>
   formatInteger v b = Inr (grow_if (length (fb_text b) + 32 \<le> fb_size b) (convert v) b)"
  by (simp only: formatInteger_def Let_def number_grow)

lemma pointer_grow:
  "log_insert fmt12g b (LPtr v) =
   Inr (grow_if (length (fb_text b) + 32 \<le> fb_size b) (''0x'' @ convertHex v) b)"
proof -
  have "length (''0x'' @ convertHex v) < 32" using length_convertHex[of v] by simp
  then show ?thesis by (simp only: log_insert.simps Let_def number_grow)
qed

lemma double_grow:
  assumes "length (fmt12g v) < 32"
  shows "log_insert fmt12g b (LDouble v) =
    Inr (grow_if (length (fb_text b) + 32 \<le> fb_size b) (fmt12g v) b)"
proof -
  have "take (nat kMaxNumericSize - 1) (fmt12g v) = fmt12g v"
    using assms by (simp add: kMaxNumericSize_def)
  then show ?thesis using assms by (simp only: log_insert.simps Let_def number_grow)
qed

lemma log_insert_grow:
  assumes "line_pre fmt12g (line_abs b) arg"
  shows "log_insert fmt12g b arg =
    Inr (grow_if (arg_fits fmt12g (line_abs b) arg) (render fmt12g arg) b)"
  using assms
  by (cases arg)
     (auto simp: line_pre_def arg_fits_def line_abs_def append_grow double_grow pointer_grow
        formatInteger_grow length_convert_words simp del: log_insert.simps(8,9)
        split: option.splits)

lemma log_insert_ok:
  assumes "line_ok b" "line_pre fmt12g (line_abs b) arg"
  shows "\<exists>b'. log_insert fmt12g b arg = Inr b' \<and> line_ok b' \<and>
    line_abs b' = line_spec fmt12g (line_abs b) arg"
  using assms log_insert_grow[OF assms(2)]
  by (auto simp: line_ok_def grow_if_def line_spec_def line_abs_def arg_fits_def line_pre_def
      split: if_splits)

interpretation log_line: contract "log_insert fmt12g" line_ok line_abs
    "line_pre fmt12g" "line_spec fmt12g" for fmt12g
  by unfold_locales (rule log_insert_ok)

lemma parse_int_convert: "parse_int (convert v) = v"
proof (cases "v < 0")
  case True
  then show ?thesis by (simp add: parse_int_def convert_def dec_val_loop)
next
  case False
  let ?r = "rev (convert_loop v)"
  have "hd ?r \<in> set dec_digits"
    using set_convert_loop[of v] by (auto simp: hd_rev intro: last_in_set)
  then have "hd ?r \<noteq> CHR ''-''" by (auto simp: dec_digits_def)
  moreover obtain c cs where "?r = c # cs" by (cases ?r) auto
  ultimately show ?thesis
    using False dec_val_loop[of v] by (simp add: parse_int_def convert_def)
qed

section \<open>Properties\<close>

text \<open>
  The text convert writes for an integer of any width is its decimal notation: it reads back
  to the same value (also for the most negative one), consists of digits and a minus sign, and
  has no leading zero.
\<close>

theorem convert_decimal:
  "parse_int (convert v) = v \<and> set (convert v) \<subseteq> insert (CHR ''-'') (set dec_digits) \<and>
   (hd (convert \<bar>v\<bar>) = CHR ''0'' \<longleftrightarrow> v = 0)"
proof (intro conjI)
  show "parse_int (convert v) = v" by (rule parse_int_convert)
  show "set (convert v) \<subseteq> insert (CHR ''-'') (set dec_digits)"
    using set_convert_loop[of v] by (auto simp: convert_def)
  show "hd (convert \<bar>v\<bar>) = CHR ''0'' \<longleftrightarrow> v = 0"
    using last_convert_loop[of "\<bar>v\<bar>"] zero_at_digit[of 0]
    by (auto simp: convert_def hd_rev convert_loop.simps[of 0])
qed

text \<open>
  Sixteen upper case hexadecimal digits are enough for a pointer, and they denote it.
\<close>

theorem convertHex_value: "hex_val (convertHex v) = unat v \<and> length (convertHex v) \<le> 16"
  using length_convertHex[of v] by (simp add: convertHex_def hex_val_loop)

lemma log_line_bounded:
  assumes "admissible (line_pre fmt12g) (line_spec fmt12g) (kSmallBuffer, []) args"
  shows "\<exists>b. run_ops (log_insert fmt12g) (fb_new kSmallBuffer) args = Inr b \<and>
    length (fb_text b) < kSmallBuffer \<and>
    (kSmallBuffer, fb_text b) = foldl (line_spec fmt12g) (kSmallBuffer, []) args"
proof -
  have st: "line_ok (fb_new kSmallBuffer)" "line_abs (fb_new kSmallBuffer) = (kSmallBuffer, [])"
    by (simp_all add: line_ok_def fb_new_def kSmallBuffer_def line_abs_def)
  have sz: "fst (foldl (line_spec fmt12g) s args) = fst s" for s
    by (induction args arbitrary: s) (simp_all add: line_spec_def)
  from log_line.run_ok[OF st(1)] assms st(2) obtain b where
    b: "run_ops (log_insert fmt12g) (fb_new kSmallBuffer) args = Inr b" "line_ok b"
      "line_abs b = foldl (line_spec fmt12g) (kSmallBuffer, []) args" by fastforce
  moreover from b(3) sz[of "(kSmallBuffer, [])"] have "fb_size b = kSmallBuffer"
    by (metis fst_conv line_abs_def)
  ultimately show ?thesis by (auto simp: line_ok_def line_abs_def)
qed

text \<open>
  C36: A log line never overflows its 4000 byte buffer. Any sequence of insertions (strings
  shorter than 2 GiB, doubles that print in less than 32 characters) succeeds, leaves at least
  one byte free, and the line is the concatenation of the texts of exactly those arguments that
  fitted when they were inserted; the others are dropped whole.
\<close>

theorem log_line_safe:
  assumes "admissible (line_pre fmt12g) (line_spec fmt12g) (kSmallBuffer, []) args"
  shows "\<exists>b. run_ops (log_insert fmt12g) (fb_new kSmallBuffer) args = Inr b \<and>
    length (fb_text b) < kSmallBuffer \<and>
    (kSmallBuffer, fb_text b) = foldl (line_spec fmt12g) (kSmallBuffer, []) args"
  by (rule log_line_bounded[OF assms])

theorem log_line_safe_witness:
  "\<exists>b. run_ops (log_insert (\<lambda>d :: unit. ''1.5'')) (fb_new kSmallBuffer)
      [LCStr (Some ''fd = ''), LInt 4294967295, LChar (CHR '' ''), LDouble ()] = Inr b \<and>
    fb_text b = ''fd = -1 1.5''"
proof -
  have c: "convert (-1) = ''-1''" by code_simp
  have "admissible (line_pre (\<lambda>d :: unit. ''1.5'')) (line_spec (\<lambda>d. ''1.5'')) (kSmallBuffer, [])
      [LCStr (Some ''fd = ''), LInt 4294967295, LChar (CHR '' ''), LDouble ()]"
    by (simp add: line_pre_def c)
  from log_line_safe[OF this] obtain b where
    b: "run_ops (log_insert (\<lambda>d :: unit. ''1.5'')) (fb_new kSmallBuffer)
      [LCStr (Some ''fd = ''), LInt 4294967295, LChar (CHR '' ''), LDouble ()] = Inr b" and
    t: "(kSmallBuffer, fb_text b) = foldl (line_spec (\<lambda>d. ''1.5'')) (kSmallBuffer, [])
      [LCStr (Some ''fd = ''), LInt 4294967295, LChar (CHR '' ''), LDouble ()]"
    by blast
  from t have "fb_text b = ''fd = -1 1.5''"
    by (simp add: line_spec_def arg_fits_def kSmallBuffer_def c)
  with b show ?thesis by blast
qed

end
