(* ===== verification/InetAddress.thy ===== *)
theory InetAddress
  imports Endian LogStream
begin

text \<open>
  net/InetAddress.h, net/InetAddress.cc and the calls of net/SocketsOps.cc that decide
  something: which results of a system call are fatal, and what the addresses and their text
  are. The system calls themselves are their results.
\<close>

section \<open>Addresses\<close>

text \<open>Port and address are in network byte order, as in \<^verbatim>\<open>struct sockaddr_in\<close>.\<close>

record sockaddr_in =
  sin_family :: int
  sin_port :: "16 word"
  sin_addr :: "32 word"

definition AF_INET :: int where "AF_INET = 2"
definition kInaddrAny :: "32 word" where "kInaddrAny = 0"

definition sockaddr_zero :: sockaddr_in where
  "sockaddr_zero = \<lparr>sin_family = 0, sin_port = 0, sin_addr = 0\<rparr>"

definition inet_any :: "16 word \<Rightarrow> sockaddr_in" where
  "inet_any port = sockaddr_zero\<lparr>sin_family := AF_INET, sin_addr := hostToNetwork32 kInaddrAny,
     sin_port := hostToNetwork16 port\<rparr>"

text \<open>\<open>pton\<close> is \<^verbatim>\<open>inet_pton\<close>: the address of a text, or nothing; then the field is untouched.\<close>

definition fromHostPort ::
  "(string \<Rightarrow> 32 word option) \<Rightarrow> string \<Rightarrow> 16 word \<Rightarrow> sockaddr_in \<Rightarrow> sockaddr_in" where
  "fromHostPort pton ip port addr =
     (let a = addr\<lparr>sin_family := AF_INET, sin_port := hostToNetwork16 port\<rparr>
      in case pton ip of Some x \<Rightarrow> a\<lparr>sin_addr := x\<rparr> | None \<Rightarrow> a)"

definition inet_of :: "(string \<Rightarrow> 32 word option) \<Rightarrow> string \<Rightarrow> 16 word \<Rightarrow> sockaddr_in" where
  "inet_of pton ip port = fromHostPort pton ip port sockaddr_zero"

text \<open>\<open>ntop\<close> is \<^verbatim>\<open>inet_ntop\<close>: the text of an address, or nothing if it fails.\<close>

definition toHostPort :: "(32 word \<Rightarrow> string option) \<Rightarrow> nat \<Rightarrow> sockaddr_in \<Rightarrow> string" where
  "toHostPort ntop n addr =
     (let host = (case ntop (sin_addr addr) of Some h \<Rightarrow> h | None \<Rightarrow> ''INVALID'');
          port = networkToHost16 (sin_port addr)
      in snprintf n (host @ '':'' @ convert (uint port)))"

definition inet_toHostPort :: "(32 word \<Rightarrow> string option) \<Rightarrow> sockaddr_in \<Rightarrow> string" where
  "inet_toHostPort ntop addr = toHostPort ntop 32 addr"

definition isSelfConnect :: "sockaddr_in \<Rightarrow> sockaddr_in \<Rightarrow> bool" where
  "isSelfConnect localaddr peeraddr \<longleftrightarrow>
     sin_port localaddr = sin_port peeraddr \<and> sin_addr localaddr = sin_addr peeraddr"

section \<open>Results of system calls\<close>

definition EPERM :: int where "EPERM = 1"
definition EINTR :: int where "EINTR = 4"
definition EAGAIN :: int where "EAGAIN = 11"
definition EMFILE :: int where "EMFILE = 24"
definition EPROTO :: int where "EPROTO = 71"
definition ECONNABORTED :: int where "ECONNABORTED = 103"

lemmas accept_errnos = EPERM_def EINTR_def EAGAIN_def EMFILE_def EPROTO_def ECONNABORTED_def

definition createNonblockingOrDie :: "int \<Rightarrow> int res" where
  "createNonblockingOrDie sockfd = (if sockfd < 0 then Inl FatalAbort else Inr sockfd)"

definition bindOrDie :: "int \<Rightarrow> unit res" where
  "bindOrDie ret = (if ret < 0 then Inl FatalAbort else Inr ())"

definition listenOrDie :: "int \<Rightarrow> unit res" where
  "listenOrDie ret = (if ret < 0 then Inl FatalAbort else Inr ())"

text \<open>\<open>connfd\<close> is the result of \<^verbatim>\<open>accept4\<close>; errors outside the expected list abort.\<close>

definition sock_accept :: "int \<Rightarrow> int \<Rightarrow> int res" where
  "sock_accept connfd savedErrno =
     (if connfd < 0
      then if savedErrno \<in> {EAGAIN, ECONNABORTED, EINTR, EPROTO, EPERM, EMFILE}
           then Inr connfd else Inl FatalAbort
      else Inr connfd)"

definition getLocalAddr :: "sockaddr_in option \<Rightarrow> sockaddr_in res" where
  "getLocalAddr r = (case r of None \<Rightarrow> Inl FatalAbort | Some a \<Rightarrow> Inr a)"

definition getPeerAddr :: "sockaddr_in option \<Rightarrow> sockaddr_in" where
  "getPeerAddr r = (case r of None \<Rightarrow> sockaddr_zero | Some a \<Rightarrow> a)"

text \<open>\<open>ret\<close>, \<open>optval\<close> and \<open>err\<close> are what \<^verbatim>\<open>getsockopt(SO_ERROR)\<close> returned and left in \<^verbatim>\<open>errno\<close>.\<close>

definition getSocketError :: "int \<Rightarrow> int \<Rightarrow> int \<Rightarrow> int" where
  "getSocketError ret optval err = (if ret < 0 then err else optval)"

section \<open>Properties\<close>

text \<open>\<^verbatim>\<open>inet_ntop\<close> writes at most 15 characters for an IPv4 address (\<^verbatim>\<open>INET_ADDRSTRLEN\<close> is 16).\<close>

definition ntop_ok :: "(32 word \<Rightarrow> string option) \<Rightarrow> bool" where
  "ntop_ok ntop \<longleftrightarrow> (\<forall>a h. ntop a = Some h \<longrightarrow> length h \<le> 15 \<and> CHR '':'' \<notin> set h)"

lemma length_port: "length (convert (uint (p :: 16 word))) \<le> 5"
proof -
  have "\<bar>uint p\<bar> < 10 ^ Suc 4" using uint_lt2p[of p] by simp
  from length_convert_loop[OF this] show ?thesis by (simp add: convert_def)
qed

text \<open>
  The text of an address is never cut off: for an endpoint made from a text and a port it is
  the host, a colon and the decimal port the endpoint was made with, the byte order undone.
\<close>

theorem toHostPort_complete:
  assumes "ntop_ok ntop" "pton ip = Some a" "ntop a = Some ip"
  shows "inet_toHostPort ntop (inet_of pton ip port) = ip @ '':'' @ convert (uint port) \<and>
    length (inet_toHostPort ntop (inet_of pton ip port)) < 32 \<and>
    parse_int (tl (dropWhile (\<lambda>c. c \<noteq> CHR '':'') (inet_toHostPort ntop (inet_of pton ip port)))) = uint port"
proof -
  have h: "length ip \<le> 15" "CHR '':'' \<notin> set ip" using assms(1,3) by (auto simp: ntop_ok_def)
  have "inet_toHostPort ntop (inet_of pton ip port) = ip @ '':'' @ convert (uint port)"
    using assms(2,3) h(1) length_port[of port]
    by (simp add: inet_toHostPort_def toHostPort_def inet_of_def fromHostPort_def snprintf_def Let_def)
  moreover have "dropWhile (\<lambda>c. c \<noteq> CHR '':'') (ip @ '':'' @ convert (uint port)) =
      CHR '':'' # convert (uint port)"
    using h(2) by (subst dropWhile_append2) auto
  ultimately show ?thesis using h(1) length_port[of port] by (simp add: parse_int_convert)
qed

theorem toHostPort_complete_witness:
  "inet_toHostPort (\<lambda>a. if a = 16777343 then Some ''127.0.0.1'' else None)
     (inet_of (\<lambda>s. if s = ''127.0.0.1'' then Some 16777343 else None) ''127.0.0.1'' 9981) =
   ''127.0.0.1'' @ '':'' @ convert (uint (9981 :: 16 word))"
proof -
  let ?ntop = "\<lambda>a :: 32 word. if a = 16777343 then Some ''127.0.0.1'' else None"
  let ?pton = "\<lambda>s. if s = ''127.0.0.1'' then Some (16777343 :: 32 word) else None"
  have "ntop_ok ?ntop" by (simp add: ntop_ok_def)
  from toHostPort_complete[OF this, of ?pton "''127.0.0.1''" 16777343 9981] show ?thesis by simp
qed

end
