(* ===== verification/TcpServer.thy ===== *)
theory TcpServer
  imports Contracts InetAddress
begin

text \<open>
  net/Acceptor.h, net/Acceptor.cc, net/EventLoopThreadPool.h, net/EventLoopThreadPool.cc,
  net/TcpServer.h, net/TcpServer.cc: accepting connections, giving them names and loops, and
  taking them out again. A loop is a number, the base loop is \<open>0\<close>. A connection is what the
  server's map holds of it; its own life is the theory \<open>TcpConnection\<close>. \<open>open_fds\<close> are the
  descriptors accept returned that are not closed.
\<close>

section \<open>EventLoopThreadPool\<close>

record pool =
  pool_started :: bool
  numThreads :: int
  next_loop :: nat
  loops :: "nat list"

definition pool_new :: pool where
  "pool_new = \<lparr>pool_started = False, numThreads = 0, next_loop = 0, loops = []\<rparr>"

definition baseLoop :: nat where "baseLoop = 0"

definition setThreadNum :: "int \<Rightarrow> pool \<Rightarrow> pool res" where
  "setThreadNum n p = bindR (assertR (0 \<le> n)) (\<lambda>_. Inr (p\<lparr>numThreads := n\<rparr>))"

text \<open>\<open>startLoop i\<close> is the loop the i-th new thread reports when it runs.\<close>

definition pool_start :: "(nat \<Rightarrow> nat) \<Rightarrow> pool \<Rightarrow> pool res" where
  "pool_start startLoop p =
     bindR (assertR (\<not> pool_started p)) (\<lambda>_.
     Inr (p\<lparr>pool_started := True, loops := loops p @ map startLoop [0..<nat (numThreads p)]\<rparr>))"

definition getNextLoop :: "pool \<Rightarrow> (nat \<times> pool) res" where
  "getNextLoop p =
     (if loops p = [] then Inr (baseLoop, p)
      else if next_loop p < length (loops p)
      then let next = next_loop p + 1 in
           Inr (loops p ! next_loop p, p\<lparr>next_loop := (if next \<ge> length (loops p) then 0 else next)\<rparr>)
      else Inl OutOfBounds)"

section \<open>TcpServer\<close>

record server_conn =
  c_fd :: int
  c_loop :: nat
  c_established :: bool
  c_close_set :: bool
  c_closing :: bool

record server =
  sv_name :: string
  sv_started :: bool
  sv_listenning :: bool
  sv_pool :: pool
  nextConnId :: int
  connections :: "string \<rightharpoonup> server_conn"
  open_fds :: "int set"
  base_queue :: "string list"
  destroy_queue :: "(nat \<times> string \<times> int) list"

definition server_new :: "string \<Rightarrow> server" where
  "server_new name = \<lparr>sv_name = name, sv_started = False, sv_listenning = False, sv_pool = pool_new,
     nextConnId = 1, connections = Map.empty, open_fds = {}, base_queue = [], destroy_queue = []\<rparr>"

definition server_start :: "(nat \<Rightarrow> nat) \<Rightarrow> server \<Rightarrow> server res" where
  "server_start startLoop s =
     bindR (if sv_started s then Inr s
            else bindR (pool_start startLoop (sv_pool s)) (\<lambda>p.
                 Inr (s\<lparr>sv_started := True, sv_pool := p\<rparr>))) (\<lambda>s1.
     Inr (if sv_listenning s1 then s1 else s1\<lparr>sv_listenning := True\<rparr>))"

definition conn_name :: "string \<Rightarrow> int \<Rightarrow> string" where
  "conn_name name i = name @ snprintf 32 (''#'' @ convert i)"

text \<open>
  \<open>newConnection\<close> up to the point where it has posted \<^verbatim>\<open>connectEstablished\<close> to the loop of the
  connection, and the rest, which sets the close callback. \<open>local\<close> is what \<^verbatim>\<open>getsockname\<close> gave.
\<close>

definition newConnection_post :: "int \<Rightarrow> sockaddr_in option \<Rightarrow> server \<Rightarrow> (string \<times> server) res" where
  "newConnection_post fd local s =
     (let connName = conn_name (sv_name s) (nextConnId s); s1 = s\<lparr>nextConnId := nextConnId s + 1\<rparr> in
      if nextConnId s \<ge> 2 ^ 31 - 1 then Inl SignedOverflow
      else
      bindR (getLocalAddr local) (\<lambda>_.
      bindR (getNextLoop (sv_pool s1)) (\<lambda>(ioLoop, p).
      Inr (connName, s1\<lparr>sv_pool := p, connections := (connections s1)(connName \<mapsto>
        \<lparr>c_fd = fd, c_loop = ioLoop, c_established = True, c_close_set = False, c_closing = False\<rparr>)\<rparr>))))"

definition newConnection_finish :: "string \<Rightarrow> server \<Rightarrow> server res" where
  "newConnection_finish connName s =
     (case connections s connName of
        None \<Rightarrow> Inr s
      | Some c \<Rightarrow> Inr (s\<lparr>connections := (connections s)(connName \<mapsto> c\<lparr>c_close_set := True\<rparr>)\<rparr>))"

definition removeConnectionInLoop :: "string \<Rightarrow> server \<Rightarrow> server res" where
  "removeConnectionInLoop connName s =
     (case connections s connName of
        None \<Rightarrow> Inl AssertFail
      | Some c \<Rightarrow> Inr (s\<lparr>connections := (connections s)(connName := None),
          destroy_queue := destroy_queue s @ [(c_loop c, connName, c_fd c)]\<rparr>))"

text \<open>\<open>in_loop\<close>: the caller, the loop of the connection, is the base loop.\<close>

definition removeConnection :: "bool \<Rightarrow> string \<Rightarrow> server \<Rightarrow> server res" where
  "removeConnection in_loop connName s =
     (if in_loop then removeConnectionInLoop connName s
      else Inr (s\<lparr>base_queue := base_queue s @ [connName]\<rparr>))"

text \<open>
  A connection that is up handles its close: \<^verbatim>\<open>closeCallback_(shared_from_this())\<close>. It does so
  once, as the life cycle of \<open>TcpConnection\<close> says.
\<close>

definition conn_closed :: "string \<Rightarrow> server \<Rightarrow> server res" where
  "conn_closed connName s =
     (case connections s connName of
        None \<Rightarrow> Inr s
      | Some c \<Rightarrow>
          if \<not> c_established c \<or> c_closing c then Inr s
          else if \<not> c_close_set c then Inl BadFunctionCall
          else removeConnection (c_loop c = baseLoop) connName
                 (s\<lparr>connections := (connections s)(connName \<mapsto> c\<lparr>c_closing := True\<rparr>)\<rparr>))"


definition run_destroy :: "server \<Rightarrow> server res" where
  "run_destroy s = (case destroy_queue s of [] \<Rightarrow> Inr s
     | (l, nm, fd) # rest \<Rightarrow> Inr (s\<lparr>destroy_queue := rest, open_fds := open_fds s - {fd}\<rparr>))"

text \<open>
  What the loops of the other threads may do at any time: one of their connections handles its
  close, or one of them runs its next \<^verbatim>\<open>connectDestroyed\<close>.
\<close>

datatype io_op = IoClose string | IoDestroy

fun io_exec :: "server \<Rightarrow> io_op \<Rightarrow> server res" where
  "io_exec s (IoClose nm) =
     (case connections s nm of
        None \<Rightarrow> Inr s
      | Some c \<Rightarrow> if c_loop c = baseLoop then Inr s else conn_closed nm s)"
| "io_exec s IoDestroy =
     (case destroy_queue s of
        [] \<Rightarrow> Inr s
      | (l, _, _) # _ \<Rightarrow> if l = baseLoop then Inr s else run_destroy s)"

text \<open>
  The whole of newConnection: \<open>io\<close> is what the other loops do between the two statements. (At the
  other points of the function it makes no difference when they do it.)
\<close>

definition newConnection :: "io_op list \<Rightarrow> int \<Rightarrow> sockaddr_in option \<Rightarrow> server \<Rightarrow> server res" where
  "newConnection io fd local s =
     bindR (newConnection_post fd local s) (\<lambda>(connName, s1).
     bindR (run_ops io_exec s1 io) (newConnection_finish connName))"

section \<open>Acceptor\<close>

definition kMaxConnections :: int where "kMaxConnections = 20000"

text \<open>
  One call of accept: the descriptor or a negative number, the errno, and what a later
  \<^verbatim>\<open>getsockname\<close> on it gives; the kernel knows which descriptors are open. The list is what
  the calls of the loop get; after it the queue of connections is empty (\<^verbatim>\<open>EAGAIN\<close>).
  \<open>cb\<close> says whether the new-connection callback is set. With each call goes what the other loops
  do while the server makes the connection.
\<close>

type_synonym accept_call = "(int set \<Rightarrow> int \<times> int \<times> sockaddr_in option) \<times> io_op list"

fun acceptor_handleRead :: "bool \<Rightarrow> accept_call list \<Rightarrow> server \<Rightarrow> server res" where
  "acceptor_handleRead cb [] s = Inr s"
| "acceptor_handleRead cb ((acc, io) # accs) s =
     (let (fd, err, local) = acc (open_fds s) in
      bindR (sock_accept fd err) (\<lambda>connfd.
      let s1 = (if connfd \<ge> 0 then s\<lparr>open_fds := insert connfd (open_fds s)\<rparr> else s) in
      if connfd > 0
      then bindR
             (if connfd < kMaxConnections
              then if cb then newConnection io connfd local s1
                   else Inr (s1\<lparr>open_fds := open_fds s1 - {connfd}\<rparr>)
              else Inr s1)
             (acceptor_handleRead cb accs)
      else Inr s1))"

section \<open>The server as an object\<close>





definition pool_ok :: "pool \<Rightarrow> bool" where
  "pool_ok p \<longleftrightarrow> loops p = [] \<or> next_loop p < length (loops p)"

text \<open>
  The invariant: names come from the counter, a connection is in the removal queue of the base
  loop exactly while it is closing, and every descriptor of a live or dying connection is open
  and belongs to one of them only.
\<close>

definition dying :: "server \<Rightarrow> int set" where
  "dying s = (snd \<circ> snd) ` set (destroy_queue s)"

definition entry_ok :: "server \<Rightarrow> string \<Rightarrow> server_conn \<Rightarrow> bool" where
  "entry_ok s nm c \<longleftrightarrow> c_established c \<and> c_close_set c \<and> c_fd c \<in> open_fds s \<and> c_fd c \<notin> dying s \<and>
     (c_closing c \<longleftrightarrow> nm \<in> set (base_queue s)) \<and>
     (\<exists>i. 1 \<le> i \<and> i < nextConnId s \<and> nm = conn_name (sv_name s) i)"

definition sv_ok :: "server \<Rightarrow> bool" where
  "sv_ok s \<longleftrightarrow> pool_ok (sv_pool s) \<and> 1 \<le> nextConnId s \<and> nextConnId s < 2 ^ 31 \<and>
     (\<forall>nm c. connections s nm = Some c \<longrightarrow> entry_ok s nm c) \<and>
     distinct (base_queue s) \<and> set (base_queue s) \<subseteq> dom (connections s) \<and>
     distinct (map (snd \<circ> snd) (destroy_queue s)) \<and> dying s \<subseteq> open_fds s \<and>
     (\<forall>nm nm' c c'. connections s nm = Some c \<longrightarrow> connections s nm' = Some c' \<longrightarrow>
        c_fd c = c_fd c' \<longrightarrow> nm = nm')"



lemma sv_okD:
  assumes "sv_ok s" "connections s nm = Some c"
  shows "c_established c" "c_close_set c" "c_fd c \<in> open_fds s"
    "c_closing c \<longleftrightarrow> nm \<in> set (base_queue s)"
    "\<exists>i. 1 \<le> i \<and> i < nextConnId s \<and> nm = conn_name (sv_name s) i"
    "c_fd c \<notin> dying s"
  using assms by (auto simp: sv_ok_def entry_ok_def)


lemma sv_ok_rest:
  assumes "sv_ok s"
  shows "pool_ok (sv_pool s)" "1 \<le> nextConnId s" "nextConnId s < 2 ^ 31"
    "distinct (base_queue s)" "set (base_queue s) \<subseteq> dom (connections s)"
    "distinct (map (snd \<circ> snd) (destroy_queue s))" "dying s \<subseteq> open_fds s"
  using assms by (simp_all add: sv_ok_def)













section \<open>No descriptor is lost\<close>

text \<open>
  Every open descriptor the server may use belongs to a connection of the map or to one that
  waits for its destruction.
\<close>

definition covered :: "server \<Rightarrow> int \<Rightarrow> bool" where
  "covered s fd \<longleftrightarrow> (\<exists>nm c. connections s nm = Some c \<and> c_fd c = fd) \<or> fd \<in> dying s"

definition no_leak :: "server \<Rightarrow> bool" where
  "no_leak s \<longleftrightarrow> (\<forall>fd. fd \<in> open_fds s \<longrightarrow> 0 < fd \<longrightarrow> fd < kMaxConnections \<longrightarrow> covered s fd)"







definition server_inv :: "server \<Rightarrow> bool" where
  "server_inv s \<longleftrightarrow> sv_ok s \<and> no_leak s"





section \<open>The window of newConnection\<close>













section \<open>Properties\<close>

lemma server_new_ok: "pool_ok p \<Longrightarrow> server_inv ((server_new name)\<lparr>sv_pool := p\<rparr>)"
  by (auto simp: server_inv_def sv_ok_def no_leak_def dying_def server_new_def)






fun next_loops :: "nat \<Rightarrow> pool \<Rightarrow> (nat list \<times> pool) res" where
  "next_loops 0 p = Inr ([], p)"
| "next_loops (Suc k) p =
     bindR (next_loops k p) (\<lambda>(ls, p1). bindR (getNextLoop p1) (\<lambda>(l, p2). Inr (ls @ [l], p2)))"

lemma next_loops_rr:
  assumes "loops p \<noteq> []" "next_loop p = 0"
  shows "next_loops k p = Inr (map (\<lambda>i. loops p ! (i mod length (loops p))) [0..<k],
    p\<lparr>next_loop := k mod length (loops p)\<rparr>)"
proof (induction k)
  case 0
  then show ?case using assms by simp
next
  case (Suc k)
  have lt: "k mod length (loops p) < length (loops p)" using assms(1) by simp
  then have "length (loops p) \<le> Suc (k mod length (loops p)) \<Longrightarrow>
    Suc (k mod length (loops p)) = length (loops p)" by simp
  with lt Suc show ?case by (simp add: getNextLoop_def assms(1) Let_def mod_Suc)
qed

lemma next_loops_base: "loops p = [] \<Longrightarrow> next_loops k p = Inr (replicate k baseLoop, p)"
  by (induction k) (simp_all add: getNextLoop_def replicate_append_same)

text \<open>
  Round robin. The k-th connection of a pool with n threads is given to the loop of thread
  k mod n, and to the base loop when there are no threads.
\<close>

theorem round_robin:
  assumes "0 \<le> n" "bindR (setThreadNum n pool_new) (pool_start startLoop) = Inr p"
  shows "\<exists>p'. next_loops k p =
    Inr (map (\<lambda>i. if n = 0 then baseLoop else startLoop (i mod nat n)) [0..<k], p')"
proof -
  have p: "loops p = map startLoop [0..<nat n]" "next_loop p = 0"
    using assms(2) by (auto simp: setThreadNum_def pool_start_def pool_new_def)
  show ?thesis
  proof (cases "n = 0")
    case True
    with p next_loops_base[of p k] show ?thesis by (simp add: map_replicate_const)
  next
    case False
    then have "i mod nat n < nat n" for i using assms(1) by simp
    with False p assms(1) next_loops_rr[of p k] show ?thesis by simp
  qed
qed

theorem round_robin_witness:
  "\<exists>p p'. bindR (setThreadNum 3 pool_new) (pool_start Suc) = Inr p \<and>
    next_loops 5 p = Inr ([1, 2, 3, 1, 2], p')"
proof -
  obtain p where p: "bindR (setThreadNum 3 pool_new) (pool_start Suc) = Inr p"
    by (simp add: setThreadNum_def pool_start_def pool_new_def)
  from round_robin[OF _ this, of 5] obtain p' where
    "next_loops 5 p = Inr (map (\<lambda>i. if (3::int) = 0 then baseLoop else Suc (i mod nat 3)) [0..<5], p')"
    by auto
  moreover have "map (\<lambda>i. if (3::int) = 0 then baseLoop else Suc (i mod nat 3)) [0..<5] = [1, 2, 3, 1, 2]"
    by code_simp
  ultimately show ?thesis using p by auto
qed

text \<open>
  A descriptor at or above kMaxConnections is neither handed to the server nor closed: the
  brace of the inner if is in the wrong place, so that the close belongs to the missing callback.
\<close>

theorem acceptor_leaks_descriptor:
  assumes "kMaxConnections \<le> fd" "server_inv s" "fd \<notin> open_fds s"
  shows "\<exists>s'. acceptor_handleRead True [(\<lambda>_. (fd, err, local), io)] s = Inr s' \<and>
    fd \<in> open_fds s' \<and> connections s' = connections s \<and> \<not> covered s' fd"
proof -
  have "sv_ok s" using assms(2) by (simp add: server_inv_def)
  then have "\<not> covered s fd"
    using sv_okD(3)[of s] sv_ok_rest(7)[of s] assms(3) by (auto simp: covered_def)
  then have "\<not> covered (s\<lparr>open_fds := insert fd (open_fds s)\<rparr>) fd" by (simp add: covered_def dying_def)
  with assms(1) show ?thesis by (auto simp: sock_accept_def kMaxConnections_def Let_def)
qed

theorem acceptor_leaks_descriptor_witness:
  "\<exists>s'. acceptor_handleRead True [(\<lambda>_. (20000, 0, None), [])] (server_new ''s'') = Inr s' \<and>
    20000 \<in> open_fds s' \<and> connections s' = Map.empty"
proof -
  have "server_inv (server_new ''s'')"
    using server_new_ok[of pool_new "''s''"] by (simp add: pool_ok_def pool_new_def server_new_def)
  moreover have "kMaxConnections \<le> 20000" "20000 \<notin> open_fds (server_new ''s'')"
    "connections (server_new ''s'') = Map.empty"
    by (simp_all add: kMaxConnections_def server_new_def)
  ultimately show ?thesis using acceptor_leaks_descriptor[of 20000 "server_new ''s''" 0 None "[]"]
    by (metis (no_types))
qed

text \<open>
  Descriptor 0, which the kernel gives when the standard input is closed, ends the loop of
  handleRead like an error, and nothing ever closes it.
\<close>

theorem acceptor_leaks_zero:
  assumes "server_inv s" "0 \<notin> open_fds s"
  shows "\<exists>s'. acceptor_handleRead True ((\<lambda>_. (0, err, local), io) # accs) s = Inr s' \<and>
    0 \<in> open_fds s' \<and> connections s' = connections s \<and> \<not> covered s' 0"
proof -
  have "sv_ok s" using assms(1) by (simp add: server_inv_def)
  then have "\<not> covered s 0"
    using sv_okD(3)[of s] sv_ok_rest(7)[of s] assms(2) unfolding covered_def by (metis subsetD)
  then have "\<not> covered (s\<lparr>open_fds := insert 0 (open_fds s)\<rparr>) 0" by (simp add: covered_def dying_def)
  then show ?thesis by (auto simp: sock_accept_def Let_def)
qed

theorem acceptor_leaks_zero_witness:
  "\<exists>s'. acceptor_handleRead True [(\<lambda>_. (0, 0, None), []), (\<lambda>_. (7, 0, None), [])] (server_new ''s'') = Inr s' \<and>
    0 \<in> open_fds s' \<and> connections s' = Map.empty"
proof -
  have "server_inv (server_new ''s'')"
    using server_new_ok[of pool_new "''s''"] by (simp add: pool_ok_def pool_new_def server_new_def)
  moreover have "0 \<notin> open_fds (server_new ''s'')" "connections (server_new ''s'') = Map.empty"
    by (simp_all add: server_new_def)
  ultimately show ?thesis
    using acceptor_leaks_zero[of "server_new ''s''" 0 None "[]" "[(\<lambda>_. (7, 0, None), [])]"] by metis
qed

text \<open>
  newConnection sets the close callback only after it has posted connectEstablished to the
  loop of the connection. A connection whose close that loop handles before calls an empty
  function; after the callback is set it does not.
\<close>

theorem close_before_callback:
  assumes "newConnection_post fd local s = Inr (nm, s1)"
  shows "conn_closed nm s1 = Inl BadFunctionCall \<and>
    (\<exists>s2 s3. newConnection_finish nm s1 = Inr s2 \<and> conn_closed nm s2 = Inr s3)"
proof -
  obtain c where "connections s1 nm = Some c" "c_established c" "\<not> c_close_set c" "\<not> c_closing c"
    using assms by (auto simp: newConnection_post_def Let_def split: if_splits)
  then show ?thesis
    by (simp add: newConnection_finish_def conn_closed_def removeConnection_def removeConnectionInLoop_def)
qed

theorem close_before_callback_witness:
  "\<exists>nm s1. newConnection_post 7 (Some (inet_any 80)) (server_new ''s'') = Inr (nm, s1) \<and>
    conn_closed nm s1 = Inl BadFunctionCall"
proof -
  obtain nm s1 where r: "newConnection_post 7 (Some (inet_any 80)) (server_new ''s'') = Inr (nm, s1)"
    by (simp add: newConnection_post_def getLocalAddr_def getNextLoop_def server_new_def pool_new_def Let_def)
  from close_before_callback[OF r] r show ?thesis by blast
qed

end
