(* ===== verification/Channel.thy ===== *)
theory Channel
  imports Contracts "HOL-Library.Sublist"
begin

text \<open>
  net/Channel.h, net/Channel.cc: one file descriptor registered with the poller, and the
  dispatch of the events the kernel reported for it. The bit masks are 32-bit words, as the
  \<^verbatim>\<open>int\<close> members are. A callback is a \<^verbatim>\<open>std::function\<close>, which may be empty; what a callback does
  is the parameter \<open>run\<close>, over the channel itself and any world \<open>'w\<close> around it.
\<close>

unbundle bit_operations_syntax

section \<open>The poll(2) flags\<close>

definition POLLIN :: "32 word" where "POLLIN = 0x1"
definition POLLPRI :: "32 word" where "POLLPRI = 0x2"
definition POLLOUT :: "32 word" where "POLLOUT = 0x4"
definition POLLERR :: "32 word" where "POLLERR = 0x8"
definition POLLHUP :: "32 word" where "POLLHUP = 0x10"
definition POLLNVAL :: "32 word" where "POLLNVAL = 0x20"
definition POLLRDHUP :: "32 word" where "POLLRDHUP = 0x2000"

lemmas poll_flags = POLLIN_def POLLPRI_def POLLOUT_def POLLERR_def POLLHUP_def POLLNVAL_def
  POLLRDHUP_def

definition kNoneEvent :: "32 word" where "kNoneEvent = 0"
definition kReadEvent :: "32 word" where "kReadEvent = POLLIN OR POLLPRI"
definition kWriteEvent :: "32 word" where "kWriteEvent = POLLOUT"

section \<open>Channel\<close>

record channel =
  ch_fd :: int
  events :: "32 word"
  revents :: "32 word"
  ch_index :: int
  eventHandling :: bool
  readCallback :: bool
  writeCallback :: bool
  errorCallback :: bool
  closeCallback :: bool

definition channel_new :: "int \<Rightarrow> channel" where
  "channel_new fdArg = \<lparr>ch_fd = fdArg, events = 0, revents = 0, ch_index = -1,
     eventHandling = False, readCallback = False, writeCallback = False,
     errorCallback = False, closeCallback = False\<rparr>"

definition isNoneEvent :: "channel \<Rightarrow> bool" where
  "isNoneEvent c \<longleftrightarrow> events c = kNoneEvent"

definition isWriting :: "channel \<Rightarrow> bool" where
  "isWriting c \<longleftrightarrow> events c AND kWriteEvent \<noteq> 0"

text \<open>The four changes of the interest, before \<open>update()\<close> tells the poller.\<close>

datatype interest_change = EnableReading | EnableWriting | DisableWriting | DisableAll

fun change_events :: "interest_change \<Rightarrow> 32 word \<Rightarrow> 32 word" where
  "change_events EnableReading e = e OR kReadEvent"
| "change_events EnableWriting e = e OR kWriteEvent"
| "change_events DisableWriting e = e AND NOT kWriteEvent"
| "change_events DisableAll e = kNoneEvent"

section \<open>handleEvent\<close>

datatype callback = CloseCb | ErrorCb | ReadCb | WriteCb

fun callback_set :: "callback \<Rightarrow> channel \<Rightarrow> bool" where
  "callback_set CloseCb c = closeCallback c"
| "callback_set ErrorCb c = errorCallback c"
| "callback_set ReadCb c = readCallback c"
| "callback_set WriteCb c = writeCallback c"

text \<open>Which bits of \<open>revents_\<close> lead to which callback.\<close>

fun callback_bits :: "callback \<Rightarrow> 32 word \<Rightarrow> bool" where
  "callback_bits CloseCb r \<longleftrightarrow> r AND POLLHUP \<noteq> 0 \<and> \<not> (r AND POLLIN \<noteq> 0)"
| "callback_bits ErrorCb r \<longleftrightarrow> r AND (POLLERR OR POLLNVAL) \<noteq> 0"
| "callback_bits ReadCb r \<longleftrightarrow> r AND (POLLIN OR POLLPRI OR POLLRDHUP) \<noteq> 0"
| "callback_bits WriteCb r \<longleftrightarrow> r AND POLLOUT \<noteq> 0"

definition dispatch ::
  "(channel \<times> 'w \<Rightarrow> callback \<Rightarrow> (channel \<times> 'w) res) \<Rightarrow> channel \<times> 'w \<Rightarrow> callback \<Rightarrow>
   (channel \<times> 'w) res" where
  "dispatch run cw k =
     (if callback_bits k (revents (fst cw)) \<and> callback_set k (fst cw) then run cw k else Inr cw)"

definition handleEvent ::
  "(channel \<times> 'w \<Rightarrow> callback \<Rightarrow> (channel \<times> 'w) res) \<Rightarrow> channel \<times> 'w \<Rightarrow>
   (channel \<times> 'w) res" where
  "handleEvent run cw =
     (let (c, w) = cw in
     bindR (dispatch run (c\<lparr>eventHandling := True\<rparr>, w) CloseCb) (\<lambda>cw.
     bindR (dispatch run cw ErrorCb) (\<lambda>cw.
     bindR (dispatch run cw ReadCb) (\<lambda>cw.
     bindR (dispatch run cw WriteCb) (\<lambda>(c, w).
     Inr (c\<lparr>eventHandling := False\<rparr>, w))))))"

text \<open>The destructor asserts that no event is being handled.\<close>

definition channel_destroy :: "channel \<Rightarrow> unit res" where
  "channel_destroy c = assertR (\<not> eventHandling c)"

section \<open>What is dispatched\<close>

lemma bind_return: "bindR m Inr = m"
  by (cases m) auto

lemma run_ops_none: "(\<lambda>s. run_ops exec s []) = Inr"
  by (rule ext) simp

definition due_callbacks :: "channel \<Rightarrow> callback list" where
  "due_callbacks c =
     filter (\<lambda>k. callback_bits k (revents c) \<and> callback_set k c) [CloseCb, ErrorCb, ReadCb, WriteCb]"

text \<open>Callbacks do not touch what the dispatch looks at.\<close>

definition keeps_dispatch :: "(channel \<times> 'w \<Rightarrow> callback \<Rightarrow> (channel \<times> 'w) res) \<Rightarrow> bool" where
  "keeps_dispatch run \<longleftrightarrow>
     (\<forall>k c w c' w'. run (c, w) k = Inr (c', w') \<longrightarrow>
        revents c' = revents c \<and> (\<forall>l. callback_set l c' = callback_set l c))"

lemma dispatch_keeps:
  assumes "keeps_dispatch run" "dispatch run cw k = Inr cw'"
  shows "revents (fst cw') = revents (fst cw)" "callback_set l (fst cw') = callback_set l (fst cw)"
proof -
  obtain c w c' w' where cw: "cw = (c, w)" "cw' = (c', w')" by (cases cw, cases cw') blast
  have "revents c' = revents c \<and> callback_set l c' = callback_set l c"
  proof (cases "run (c, w) k = Inr (c', w')")
    case True
    then show ?thesis using assms(1) unfolding keeps_dispatch_def by blast
  next
    case False
    then show ?thesis using assms(2) by (auto simp: dispatch_def cw split: if_splits)
  qed
  then show "revents (fst cw') = revents (fst cw)" "callback_set l (fst cw') = callback_set l (fst cw)"
    by (simp_all add: cw)
qed

lemma dispatch_list:
  assumes "keeps_dispatch run"
  shows "bindR (dispatch run cw k) (\<lambda>cw. run_ops (dispatch run) cw ks) =
    run_ops run cw (filter (\<lambda>l. callback_bits l (revents (fst cw)) \<and> callback_set l (fst cw)) (k # ks))"
proof (induction ks arbitrary: k cw)
  case Nil
  then show ?case by (simp add: dispatch_def bind_return run_ops_none)
next
  case (Cons l ks)
  show ?case
  proof (cases "dispatch run cw k")
    case (Inl e)
    then show ?thesis by (auto simp: dispatch_def split: if_splits)
  next
    case (Inr cw')
    then have same: "revents (fst cw') = revents (fst cw)" "\<And>m. callback_set m (fst cw') = callback_set m (fst cw)"
      using dispatch_keeps[OF assms] by blast+
    have "bindR (dispatch run cw k) (\<lambda>cw. run_ops (dispatch run) cw (l # ks)) =
        bindR (dispatch run cw' l) (\<lambda>cw. run_ops (dispatch run) cw ks)" using Inr by simp
    also have "\<dots> = run_ops run cw' (filter (\<lambda>l. callback_bits l (revents (fst cw)) \<and>
        callback_set l (fst cw)) (l # ks))"
      by (simp add: Cons.IH same)
    finally have eq: "bindR (dispatch run cw k) (\<lambda>cw. run_ops (dispatch run) cw (l # ks)) =
      run_ops run cw' (filter (\<lambda>l. callback_bits l (revents (fst cw)) \<and>
        callback_set l (fst cw)) (l # ks))" .
    show ?thesis unfolding eq using Inr
      by (cases "callback_bits k (revents (fst cw)) \<and> callback_set k (fst cw)")
        (auto simp: dispatch_def)
  qed
qed

lemma handleEvent_runs:
  assumes "keeps_dispatch run"
  shows "handleEvent run (c, w) =
    bindR (run_ops run (c\<lparr>eventHandling := True\<rparr>, w) (due_callbacks c))
      (\<lambda>(c', w'). Inr (c'\<lparr>eventHandling := False\<rparr>, w'))"
proof -
  let ?c = "c\<lparr>eventHandling := True\<rparr>"
  have set: "callback_set l ?c = callback_set l c" for l by (cases l) simp_all
  have "handleEvent run (c, w) =
    bindR (bindR (dispatch run (?c, w) CloseCb) (\<lambda>cw. run_ops (dispatch run) cw [ErrorCb, ReadCb, WriteCb]))
      (\<lambda>(c', w'). Inr (c'\<lparr>eventHandling := False\<rparr>, w'))"
    by (simp add: handleEvent_def bindR_assoc bind_return)
  also have "bindR (dispatch run (?c, w) CloseCb) (\<lambda>cw. run_ops (dispatch run) cw [ErrorCb, ReadCb, WriteCb]) =
    run_ops run (?c, w) (due_callbacks c)"
    unfolding dispatch_list[OF assms] by (simp add: due_callbacks_def set)
  finally show ?thesis .
qed

section \<open>Bits\<close>

text \<open>What the masks do to the write interest and to the read interest.\<close>

lemma isWriting_change [simp]:
  "isWriting (c\<lparr>events := change_events EnableWriting (events c)\<rparr>)"
  "\<not> isWriting (c\<lparr>events := change_events DisableWriting (events c)\<rparr>)"
  "\<not> isWriting (c\<lparr>events := change_events DisableAll (events c)\<rparr>)"
  "isWriting (c\<lparr>events := change_events EnableReading (events c)\<rparr>) = isWriting c"
proof -
  show "isWriting (c\<lparr>events := change_events EnableWriting (events c)\<rparr>)"
    by (simp add: isWriting_def kWriteEvent_def bit.conj_disj_distrib2 POLLOUT_def)
  show "\<not> isWriting (c\<lparr>events := change_events DisableWriting (events c)\<rparr>)"
    by (simp add: isWriting_def kWriteEvent_def and.assoc)
  show "\<not> isWriting (c\<lparr>events := change_events DisableAll (events c)\<rparr>)"
    by (simp add: isWriting_def kNoneEvent_def)
  show "isWriting (c\<lparr>events := change_events EnableReading (events c)\<rparr>) = isWriting c"
    by (simp add: isWriting_def kWriteEvent_def kReadEvent_def bit.conj_disj_distrib2 poll_flags)
qed

section \<open>Properties\<close>

text \<open>
  handleEvent runs, between setting and clearing its flag, exactly the callbacks the
  reported events call for, each at most once and in the order close, error, read, write; the
  close callback is not run while data is still to be read.
\<close>

theorem handleEvent_order:
  assumes "keeps_dispatch run"
  shows "\<exists>ks. handleEvent run (c, w) =
      bindR (run_ops run (c\<lparr>eventHandling := True\<rparr>, w) ks)
        (\<lambda>(c', w'). Inr (c'\<lparr>eventHandling := False\<rparr>, w')) \<and>
    subseq ks [CloseCb, ErrorCb, ReadCb, WriteCb] \<and>
    (\<forall>k. k \<in> set ks \<longleftrightarrow> callback_bits k (revents c) \<and> callback_set k c) \<and>
    (revents c AND POLLIN \<noteq> 0 \<longrightarrow> CloseCb \<notin> set ks)"
proof (intro exI[of _ "due_callbacks c"] conjI)
  show "\<forall>k. k \<in> set (due_callbacks c) \<longleftrightarrow> callback_bits k (revents c) \<and> callback_set k c"
  proof
    fix k show "k \<in> set (due_callbacks c) \<longleftrightarrow> callback_bits k (revents c) \<and> callback_set k c"
      by (cases k) (auto simp: due_callbacks_def)
  qed
qed (simp_all add: handleEvent_runs[OF assms] due_callbacks_def)

theorem handleEvent_order_witness:
  "handleEvent (\<lambda>(c, w) k. Inr (c, w @ [k]))
     ((channel_new 5)\<lparr>revents := POLLHUP OR POLLERR, readCallback := True, writeCallback := True,
        errorCallback := True, closeCallback := True\<rparr>, []) =
   Inr ((channel_new 5)\<lparr>revents := POLLHUP OR POLLERR, readCallback := True, writeCallback := True,
        errorCallback := True, closeCallback := True\<rparr>, [CloseCb, ErrorCb])"
proof -
  let ?run = "\<lambda>(c :: channel, w) k. Inr (c, w @ [k])" and ?c = "(channel_new 5)\<lparr>revents :=
    POLLHUP OR POLLERR, readCallback := True, writeCallback := True,
        errorCallback := True, closeCallback := True\<rparr>"
  have "keeps_dispatch ?run" by (auto simp: keeps_dispatch_def)
  from handleEvent_order[OF this, of ?c "[]"] obtain ks where
    h: "handleEvent ?run (?c, []) = bindR (run_ops ?run (?c\<lparr>eventHandling := True\<rparr>, []) ks)
        (\<lambda>(c', w'). Inr (c'\<lparr>eventHandling := False\<rparr>, w'))"
    "subseq ks [CloseCb, ErrorCb, ReadCb, WriteCb]"
    "\<forall>k. k \<in> set ks \<longleftrightarrow> callback_bits k (revents ?c) \<and> callback_set k ?c" by blast
  have "ks \<in> set (subseqs [CloseCb, ErrorCb, ReadCb, WriteCb])"
    using h(2) unfolding in_set_subseqs .
  moreover have "CloseCb \<in> set ks" "ErrorCb \<in> set ks" "ReadCb \<notin> set ks" "WriteCb \<notin> set ks"
    using h(3) by (simp_all add: poll_flags)
  ultimately have "ks = [CloseCb, ErrorCb]" by (auto simp: Let_def)
  with h(1) show ?thesis by (simp add: channel_new_def)
qed

end
