(* ===== verification/EPoller.thy ===== *)
theory EPoller
  imports Channel
begin

text \<open>
  net/EPoller.h, net/EPoller.cc: the poller of an event loop over epoll. The state has the map
  from descriptors to channel pointers, the size of the event array, the channel objects (a map
  from addresses, absent when deleted) and the interest list the kernel keeps, which is what the
  map must stay in step with. \<^verbatim>\<open>epoll_ctl\<close> is modelled as documented for open descriptors:
  adding a registered one fails (EEXIST), changing or deleting an unregistered one fails (ENOENT).
\<close>

section \<open>State\<close>

definition kNew :: int where "kNew = -1"
definition kAdded :: int where "kAdded = 1"
definition kDeleted :: int where "kDeleted = 2"
definition kInitEventListSize :: nat where "kInitEventListSize = 16"

lemmas index_defs = kNew_def kAdded_def kDeleted_def

record epoller =
  ep_channels :: "int \<rightharpoonup> nat"
  ep_events_size :: nat
  ep_objects :: "nat \<rightharpoonup> channel"
  ep_interest :: "int \<rightharpoonup> 32 word \<times> nat"

definition ep_new :: epoller where
  "ep_new = \<lparr>ep_channels = Map.empty, ep_events_size = kInitEventListSize,
     ep_objects = Map.empty, ep_interest = Map.empty\<rparr>"

definition ep_deref :: "epoller \<Rightarrow> nat \<Rightarrow> channel res" where
  "ep_deref s p = (case ep_objects s p of None \<Rightarrow> Inl UseAfterFree | Some c \<Rightarrow> Inr c)"

definition ep_put :: "nat \<Rightarrow> channel \<Rightarrow> epoller \<Rightarrow> epoller" where
  "ep_put p c s = s\<lparr>ep_objects := (ep_objects s)(p \<mapsto> c)\<rparr>"

section \<open>epoll_ctl\<close>

datatype ctl_op = CtlAdd | CtlMod | CtlDel

fun epoll_ctl :: "ctl_op \<Rightarrow> int \<Rightarrow> 32 word \<times> nat \<Rightarrow> (int \<rightharpoonup> 32 word \<times> nat) \<Rightarrow>
   (int \<rightharpoonup> 32 word \<times> nat) option" where
  "epoll_ctl CtlAdd fd ev k = (if k fd = None then Some (k(fd \<mapsto> ev)) else None)"
| "epoll_ctl CtlMod fd ev k = (if k fd \<noteq> None then Some (k(fd \<mapsto> ev)) else None)"
| "epoll_ctl CtlDel fd ev k = (if k fd \<noteq> None then Some (k(fd := None)) else None)"

text \<open>A failed deletion is logged, any other failure is fatal.\<close>

definition ep_update :: "ctl_op \<Rightarrow> nat \<Rightarrow> epoller \<Rightarrow> epoller res" where
  "ep_update operation p s =
     bindR (ep_deref s p) (\<lambda>c.
     case epoll_ctl operation (ch_fd c) (events c, p) (ep_interest s) of
       Some k \<Rightarrow> Inr (s\<lparr>ep_interest := k\<rparr>)
     | None \<Rightarrow> (if operation = CtlDel then Inr s else Inl FatalAbort))"

section \<open>updateChannel and removeChannel\<close>

definition ep_updateChannel :: "nat \<Rightarrow> epoller \<Rightarrow> epoller res" where
  "ep_updateChannel p s =
     bindR (ep_deref s p) (\<lambda>c.
     let fd = ch_fd c in
     if ch_index c = kNew \<or> ch_index c = kDeleted
     then bindR
            (if ch_index c = kNew
             then bindR (assertR (ep_channels s fd = None)) (\<lambda>_.
                  Inr (s\<lparr>ep_channels := (ep_channels s)(fd \<mapsto> p)\<rparr>))
             else bindR (assertR (ep_channels s fd \<noteq> None)) (\<lambda>_.
                  bindR (assertR (ep_channels s fd = Some p)) (\<lambda>_. Inr s)))
            (\<lambda>s1. ep_update CtlAdd p (ep_put p (c\<lparr>ch_index := kAdded\<rparr>) s1))
     else bindR (assertR (ep_channels s fd \<noteq> None)) (\<lambda>_.
          bindR (assertR (ep_channels s fd = Some p)) (\<lambda>_.
          bindR (assertR (ch_index c = kAdded)) (\<lambda>_.
          if isNoneEvent c
          then bindR (ep_update CtlDel p s) (\<lambda>s1.
               Inr (ep_put p (c\<lparr>ch_index := kDeleted\<rparr>) s1))
          else ep_update CtlMod p s))))"

definition ep_removeChannel :: "nat \<Rightarrow> epoller \<Rightarrow> epoller res" where
  "ep_removeChannel p s =
     bindR (ep_deref s p) (\<lambda>c.
     let fd = ch_fd c in
     bindR (assertR (ep_channels s fd \<noteq> None)) (\<lambda>_.
     bindR (assertR (ep_channels s fd = Some p)) (\<lambda>_.
     bindR (assertR (isNoneEvent c)) (\<lambda>_.
     bindR (assertR (ch_index c = kAdded \<or> ch_index c = kDeleted)) (\<lambda>_.
     let s1 = s\<lparr>ep_channels := (ep_channels s)(fd := None)\<rparr> in
     bindR (if ch_index c = kAdded then ep_update CtlDel p s1 else Inr s1) (\<lambda>s2.
     Inr (ep_put p (c\<lparr>ch_index := kNew\<rparr>) s2)))))))"

section \<open>poll\<close>

text \<open>
  \<open>evs\<close> are the entries \<^verbatim>\<open>epoll_wait\<close> wrote, each the user data and the events, and
  \<open>numEvents\<close> its result.
\<close>

fun fillActiveChannels :: "(nat \<times> 32 word) list \<Rightarrow> nat list \<Rightarrow> epoller \<Rightarrow> (nat list \<times> epoller) res" where
  "fillActiveChannels [] active s = Inr (active, s)"
| "fillActiveChannels ((p, ev) # evs) active s =
     bindR (ep_deref s p) (\<lambda>c.
     bindR (assertR (ep_channels s (ch_fd c) \<noteq> None)) (\<lambda>_.
     bindR (assertR (ep_channels s (ch_fd c) = Some p)) (\<lambda>_.
     fillActiveChannels evs (active @ [p]) (ep_put p (c\<lparr>revents := ev\<rparr>) s))))"

definition ep_poll :: "int \<Rightarrow> (nat \<times> 32 word) list \<Rightarrow> nat list \<Rightarrow> epoller \<Rightarrow> (nat list \<times> epoller) res" where
  "ep_poll numEvents evs active s =
     (if numEvents > 0
      then bindR (assertR (nat numEvents \<le> ep_events_size s)) (\<lambda>_.
           bindR (fillActiveChannels (take (nat numEvents) evs) active s) (\<lambda>(active', s').
           Inr (active', if nat numEvents = ep_events_size s'
                then s'\<lparr>ep_events_size := ep_events_size s' * 2\<rparr> else s')))
      else Inr (active, s))"

section \<open>The channel calls that reach the poller\<close>

definition change_interest :: "interest_change \<Rightarrow> nat \<Rightarrow> epoller \<Rightarrow> epoller res" where
  "change_interest k p s =
     bindR (ep_deref s p) (\<lambda>c.
     ep_updateChannel p (ep_put p (c\<lparr>events := change_events k (events c)\<rparr>) s))"

datatype ep_op =
    EpCreate nat int
  | EpChange nat interest_change
  | EpRemove nat
  | EpDestroy nat

fun ep_exec :: "epoller \<Rightarrow> ep_op \<Rightarrow> epoller res" where
  "ep_exec s (EpCreate p fd) = Inr (ep_put p (channel_new fd) s)"
| "ep_exec s (EpChange p k) = change_interest k p s"
| "ep_exec s (EpRemove p) = ep_removeChannel p s"
| "ep_exec s (EpDestroy p) =
     bindR (ep_deref s p) (\<lambda>c. bindR (channel_destroy c) (\<lambda>_.
     Inr (s\<lparr>ep_objects := (ep_objects s)(p := None)\<rparr>)))"

section \<open>The abstract poller\<close>

text \<open>
  What a client sees: for each channel object its descriptor, its interest, and whether the
  poller knows it.
\<close>

type_synonym ep_view = "nat \<rightharpoonup> int \<times> 32 word \<times> bool"

definition ep_abs :: "epoller \<Rightarrow> ep_view" where
  "ep_abs s p = map_option (\<lambda>c. (ch_fd c, events c, ch_index c \<noteq> kNew)) (ep_objects s p)"

definition fd_free :: "int \<Rightarrow> ep_view \<Rightarrow> bool" where
  "fd_free fd v \<longleftrightarrow> (\<forall>q e. v q \<noteq> Some (fd, e, True))"

fun ep_pre :: "ep_view \<Rightarrow> ep_op \<Rightarrow> bool" where
  "ep_pre v (EpCreate p fd) = (v p = None)"
| "ep_pre v (EpChange p k) =
     (case v p of None \<Rightarrow> False | Some (fd, e, reg) \<Rightarrow> reg \<or> fd_free fd v)"
| "ep_pre v (EpRemove p) =
     (case v p of None \<Rightarrow> False | Some (fd, e, reg) \<Rightarrow> e = 0 \<and> reg)"
| "ep_pre v (EpDestroy p) = (case v p of None \<Rightarrow> False | Some (fd, e, reg) \<Rightarrow> \<not> reg)"

fun ep_spec :: "ep_view \<Rightarrow> ep_op \<Rightarrow> ep_view" where
  "ep_spec v (EpCreate p fd) = v(p \<mapsto> (fd, 0, False))"
| "ep_spec v (EpChange p k) =
     (case v p of None \<Rightarrow> v | Some (fd, e, reg) \<Rightarrow> v(p \<mapsto> (fd, change_events k e, True)))"
| "ep_spec v (EpRemove p) =
     (case v p of None \<Rightarrow> v | Some (fd, e, reg) \<Rightarrow> v(p \<mapsto> (fd, e, False)))"
| "ep_spec v (EpDestroy p) = v(p := None)"

text \<open>
  The invariant. A registered channel is in the map under its descriptor and nothing else is;
  the kernel has exactly the channels whose index is \<open>kAdded\<close>, with their present interest.
\<close>

definition ep_core :: "epoller \<Rightarrow> bool" where
  "ep_core s \<longleftrightarrow> 0 < ep_events_size s \<and>
     (\<forall>p c. ep_objects s p = Some c \<longrightarrow> ch_index c \<in> {kNew, kAdded, kDeleted} \<and>
        (ch_index c = kDeleted \<longrightarrow> events c = 0)) \<and>
     (\<forall>fd p. ep_channels s fd = Some p \<longleftrightarrow>
        (\<exists>c. ep_objects s p = Some c \<and> ch_fd c = fd \<and> ch_index c \<noteq> kNew)) \<and>
     (\<forall>fd e p. ep_interest s fd = Some (e, p) \<longleftrightarrow>
        (\<exists>c. ep_objects s p = Some c \<and> ch_fd c = fd \<and> ch_index c = kAdded \<and> events c = e))"

text \<open>Between the rounds of the loop no channel is being handled.\<close>

definition ep_ok :: "epoller \<Rightarrow> bool" where
  "ep_ok s \<longleftrightarrow> ep_core s \<and> (\<forall>p c. ep_objects s p = Some c \<longrightarrow> \<not> eventHandling c)"

lemma ep_coreD:
  assumes "ep_core s"
  shows "0 < ep_events_size s"
    "ep_objects s p = Some c \<Longrightarrow> ch_index c = kNew \<or> ch_index c = kAdded \<or> ch_index c = kDeleted"
    "ep_objects s p = Some c \<Longrightarrow> ch_index c = kDeleted \<Longrightarrow> events c = 0"
    "ep_channels s fd = Some q \<longleftrightarrow>
       (\<exists>c. ep_objects s q = Some c \<and> ch_fd c = fd \<and> ch_index c \<noteq> kNew)"
    "ep_interest s fd = Some (e, q) \<longleftrightarrow>
       (\<exists>c. ep_objects s q = Some c \<and> ch_fd c = fd \<and> ch_index c = kAdded \<and> events c = e)"
  using assms unfolding ep_core_def by blast+

lemma ep_ok_core: "ep_ok s \<Longrightarrow> ep_core s"
  by (simp add: ep_ok_def)

lemma ep_okD:
  assumes "ep_ok s"
  shows "0 < ep_events_size s"
    "ep_objects s p = Some c \<Longrightarrow> ch_index c = kNew \<or> ch_index c = kAdded \<or> ch_index c = kDeleted"
    "ep_objects s p = Some c \<Longrightarrow> \<not> eventHandling c"
    "ep_objects s p = Some c \<Longrightarrow> ch_index c = kDeleted \<Longrightarrow> events c = 0"
    "ep_channels s fd = Some q \<longleftrightarrow>
       (\<exists>c. ep_objects s q = Some c \<and> ch_fd c = fd \<and> ch_index c \<noteq> kNew)"
    "ep_interest s fd = Some (e, q) \<longleftrightarrow>
       (\<exists>c. ep_objects s q = Some c \<and> ch_fd c = fd \<and> ch_index c = kAdded \<and> events c = e)"
  using assms ep_coreD[OF ep_ok_core[OF assms]] unfolding ep_ok_def by blast+

text \<open>What the dispatch of events looks at, and the poller's operations leave alone.\<close>

definition ep_dispatch :: "epoller \<Rightarrow> nat \<rightharpoonup> 32 word \<times> bool \<times> (callback \<Rightarrow> bool)" where
  "ep_dispatch s p = map_option (\<lambda>c. (revents c, eventHandling c, \<lambda>k. callback_set k c)) (ep_objects s p)"

lemma ep_ok_dispatch:
  "ep_ok s \<longleftrightarrow> ep_core s \<and> (\<forall>p r h f. ep_dispatch s p = Some (r, h, f) \<longrightarrow> \<not> h)"
  by (auto simp: ep_ok_def ep_dispatch_def)

text \<open>
  A descriptor has one registered channel, and the kernel holds nothing else for it.
\<close>

lemma core_unique:
  assumes "ep_core s" "ep_objects s p = Some c" "ep_objects s q = Some d"
    "ch_fd c = ch_fd d" "ch_index c \<noteq> kNew" "ch_index d \<noteq> kNew"
  shows "p = q"
  using assms(2-6) ep_coreD(4)[OF assms(1), of "ch_fd c" p] ep_coreD(4)[OF assms(1), of "ch_fd d" q]
  by auto

lemma core_interest:
  assumes "ep_core s" "ep_objects s p = Some c" "ch_index c \<noteq> kNew"
  shows "ep_interest s (ch_fd c) =
    (if ch_index c = kAdded then Some (events c, p) else None)"
proof (cases "ch_index c = kAdded")
  case True
  with assms(2) show ?thesis using ep_coreD(5)[OF assms(1)] by auto
next
  case False
  have "ep_interest s (ch_fd c) \<noteq> Some (e, q)" for e q
  proof
    assume "ep_interest s (ch_fd c) = Some (e, q)"
    then obtain d where d: "ep_objects s q = Some d" "ch_fd d = ch_fd c" "ch_index d = kAdded"
      using ep_coreD(5)[OF assms(1)] by blast
    then have "p = q" using core_unique[OF assms(1,2) d(1) _ assms(3)] by (simp add: index_defs)
    with d assms(2) False show False by simp
  qed
  with False show ?thesis by (cases "ep_interest s (ch_fd c)") auto
qed

lemma core_free_fd:
  assumes "ep_core s" "fd_free fd (ep_abs s)"
  shows "ep_channels s fd = None \<and> ep_interest s fd = None"
proof -
  have none: "ep_objects s q = Some d \<Longrightarrow> ch_fd d = fd \<Longrightarrow> ch_index d = kNew" for q d
    using assms(2) by (force simp: fd_free_def ep_abs_def)
  have "ep_channels s fd \<noteq> Some q" for q using none ep_coreD(4)[OF assms(1)] by blast
  moreover have "ep_interest s fd \<noteq> Some (e, q)" for e q
  proof
    assume "ep_interest s fd = Some (e, q)"
    then obtain d where "ep_objects s q = Some d" "ch_fd d = fd" "ch_index d = kAdded"
      using ep_coreD(5)[OF assms(1)] by blast
    with none show False by (force simp: index_defs)
  qed
  ultimately show ?thesis by (metis not_None_eq surj_pair)
qed

text \<open>
  Every operation on the channel \<open>p\<close> changes the object, the map and the kernel at its
  descriptor only, so that the invariant is checked there.
\<close>

lemma ep_core_update:
  assumes ok: "ep_core s" and obj: "ep_objects s p = Some c"
    and free: "ch_index c = kNew \<Longrightarrow> fd_free (ch_fd c) (ep_abs s)"
    and c': "ch_fd c' = ch_fd c"
      "ch_index c' = kNew \<or> ch_index c' = kAdded \<or> ch_index c' = kDeleted \<and> events c' = 0"
    and s': "0 < ep_events_size s'" "ep_objects s' = (ep_objects s)(p \<mapsto> c')"
      "ep_channels s' = (ep_channels s)(ch_fd c := if ch_index c' = kNew then None else Some p)"
      "ep_interest s' = (ep_interest s)(ch_fd c :=
         if ch_index c' = kAdded then Some (events c', p) else None)"
  shows "ep_core s'"
proof -
  have other: "ch_index d = kNew" if "ep_objects s q = Some d" "ch_fd d = ch_fd c" "q \<noteq> p" for q d
  proof (cases "ch_index c = kNew")
    case True
    with free that show ?thesis by (force simp: fd_free_def ep_abs_def)
  next
    case False
    with core_unique[OF ok obj that(1)] that show ?thesis by auto
  qed
  have a: "ep_channels s' fd = Some q \<longleftrightarrow>
    (\<exists>d. ep_objects s' q = Some d \<and> ch_fd d = fd \<and> ch_index d \<noteq> kNew)" for fd q
    using other ep_coreD(4)[OF ok, of fd q] obj c'(1) by (auto simp: s')
  have b: "ep_interest s' fd = Some (e, q) \<longleftrightarrow>
    (\<exists>d. ep_objects s' q = Some d \<and> ch_fd d = fd \<and> ch_index d = kAdded \<and> events d = e)" for fd e q
    using other ep_coreD(5)[OF ok, of fd e q] obj c'(1) by (auto simp: s' index_defs)
  have c: "ch_index d \<in> {kNew, kAdded, kDeleted} \<and>
      (ch_index d = kDeleted \<longrightarrow> events d = 0)" if "ep_objects s' q = Some d" for q d
    using that c'(2) ep_coreD(2,3)[OF ok, of q d]
    by (auto simp: s' index_defs split: if_splits)
  show ?thesis unfolding ep_core_def using a b c s'(1) by blast
qed

lemma abs_update:
  "ep_objects s' = (ep_objects s)(p \<mapsto> c') \<Longrightarrow>
   ep_abs s' = (ep_abs s)(p \<mapsto> (ch_fd c', events c', ch_index c' \<noteq> kNew))"
  by (rule ext) (simp add: ep_abs_def)

lemma dispatch_update:
  "ep_objects s p = Some c \<Longrightarrow> ep_objects s' = (ep_objects s)(p \<mapsto> c') \<Longrightarrow>
   revents c' = revents c \<Longrightarrow> eventHandling c' = eventHandling c \<Longrightarrow>
   (\<And>k. callback_set k c' = callback_set k c) \<Longrightarrow> ep_dispatch s' = ep_dispatch s"
  by (rule ext) (simp add: ep_dispatch_def)

lemma callback_set_eq [simp]:
  "callback_set k (c\<lparr>events := e\<rparr>) = callback_set k c"
  "callback_set k (c\<lparr>ch_index := i\<rparr>) = callback_set k c"
  "callback_set k (c\<lparr>revents := r\<rparr>) = callback_set k c"
  "callback_set k (c\<lparr>eventHandling := h\<rparr>) = callback_set k c"
  by (cases k; simp)+

lemma change_interest_core:
  assumes "ep_core s" "ep_pre (ep_abs s) (EpChange p k)"
  shows "\<exists>s'. change_interest k p s = Inr s' \<and> ep_core s' \<and>
    ep_abs s' = ep_spec (ep_abs s) (EpChange p k) \<and>
    ep_dispatch s' = ep_dispatch s \<and> ep_events_size s' = ep_events_size s"
proof -
  obtain c where c: "ep_objects s p = Some c"
    using assms(2) by (auto simp: ep_abs_def split: option.splits)
  have free: "ch_index c = kNew \<Longrightarrow> fd_free (ch_fd c) (ep_abs s)"
    using assms(2) c by (auto simp: ep_abs_def)
  let ?e = "change_events k (events c)" and ?fd = "ch_fd c"
  let ?del = "ch_index c = kAdded \<and> ?e = 0"
  let ?c = "c\<lparr>events := ?e, ch_index := (if ?del then kDeleted else kAdded)\<rparr>"
  let ?s = "s\<lparr>ep_objects := (ep_objects s)(p \<mapsto> ?c),
     ep_channels := (ep_channels s)(?fd \<mapsto> p),
     ep_interest := (ep_interest s)(?fd := if ?del then None else Some (?e, p))\<rparr>"
  note D = ep_coreD[OF assms(1)]
  have run: "change_interest k p s = Inr ?s"
  proof (cases "ch_index c = kNew")
    case True
    with c core_free_fd[OF assms(1) free[OF True]] show ?thesis
      by (simp add: change_interest_def ep_updateChannel_def ep_update_def ep_deref_def ep_put_def
          index_defs Let_def)
  next
    case False
    then have ch: "ep_channels s ?fd = Some p" using D(4) c by blast
    then have triv: "(ep_channels s)(?fd \<mapsto> p) = ep_channels s" by (rule fun_upd_idem)
    show ?thesis
    proof (cases "ch_index c = kAdded")
      case True
      then have idem: "c\<lparr>events := ?e, ch_index := 1\<rparr> = c\<lparr>events := ?e\<rparr>"
        by (cases c) (simp add: index_defs)
      with True c ch triv core_interest[OF assms(1) c False] show ?thesis
        by (simp add: change_interest_def ep_updateChannel_def ep_update_def ep_deref_def ep_put_def
            Let_def index_defs isNoneEvent_def kNoneEvent_def idem)
    next
      case no: False
      with False D(2)[OF c] have "ch_index c = kDeleted" by blast
      with c ch triv no core_interest[OF assms(1) c False] show ?thesis
        by (simp add: change_interest_def ep_updateChannel_def ep_update_def ep_deref_def ep_put_def
            Let_def index_defs)
    qed
  qed
  have "ep_core ?s"
    by (rule ep_core_update[OF assms(1) c free, of ?c]) (use D(1) in \<open>auto simp: index_defs\<close>)
  moreover have "ep_abs ?s = (ep_abs s)(p \<mapsto> (ch_fd ?c, events ?c, ch_index ?c \<noteq> kNew))"
    by (rule abs_update) simp
  moreover have "ep_dispatch ?s = ep_dispatch s" "ep_events_size ?s = ep_events_size s"
    by (intro dispatch_update[where c' = ?c, OF c]) (simp_all add: callback_set_eq)
  ultimately show ?thesis using run c by (auto simp: ep_abs_def index_defs)
qed

lemma removeChannel_core:
  assumes "ep_core s" "ep_pre (ep_abs s) (EpRemove p)"
  shows "\<exists>s'. ep_removeChannel p s = Inr s' \<and> ep_core s' \<and>
    ep_abs s' = ep_spec (ep_abs s) (EpRemove p) \<and>
    ep_dispatch s' = ep_dispatch s \<and> ep_events_size s' = ep_events_size s"
proof -
  obtain c where c: "ep_objects s p = Some c" "ch_index c \<noteq> kNew" "events c = 0"
    using assms(2) by (auto simp: ep_abs_def split: option.splits)
  let ?fd = "ch_fd c" and ?c = "c\<lparr>ch_index := kNew\<rparr>"
  let ?s = "s\<lparr>ep_objects := (ep_objects s)(p \<mapsto> ?c), ep_channels := (ep_channels s)(?fd := None),
     ep_interest := (ep_interest s)(?fd := None)\<rparr>"
  note D = ep_coreD[OF assms(1)] and int = core_interest[OF assms(1) c(1,2)]
  have ch: "ep_channels s ?fd = Some p" using D(4) c by blast
  have "ch_index c \<noteq> kAdded \<Longrightarrow> (ep_interest s)(?fd := None) = ep_interest s"
    using int by (intro fun_upd_idem) simp
  then have "ep_removeChannel p s = Inr ?s"
    using c ch int D(2)[OF c(1)]
    by (auto simp: ep_removeChannel_def ep_deref_def ep_update_def ep_put_def Let_def isNoneEvent_def
        kNoneEvent_def index_defs)
  moreover have "ep_core ?s"
    by (rule ep_core_update[OF assms(1) c(1), of ?c]) (use c D(1) in \<open>auto simp: index_defs\<close>)
  moreover have "ep_abs ?s = (ep_abs s)(p \<mapsto> (ch_fd ?c, events ?c, ch_index ?c \<noteq> kNew))"
    by (rule abs_update) simp
  moreover have "ep_dispatch ?s = ep_dispatch s" "ep_events_size ?s = ep_events_size s"
    by (intro dispatch_update[where c' = ?c, OF c(1)]) (simp_all add: callback_set_eq)
  ultimately show ?thesis using c by (auto simp: ep_abs_def)
qed

lemmas registered_unique = core_unique[OF ep_ok_core]
lemmas interest_of = core_interest[OF ep_ok_core]
lemmas free_fd = core_free_fd[OF ep_ok_core]

lemma change_interest_ok:
  assumes "ep_ok s" "ep_pre (ep_abs s) (EpChange p k)"
  shows "\<exists>s'. change_interest k p s = Inr s' \<and> ep_ok s' \<and>
    ep_abs s' = ep_spec (ep_abs s) (EpChange p k)"
  using change_interest_core[OF ep_ok_core[OF assms(1)] assms(2)] assms(1)
  unfolding ep_ok_dispatch by metis

lemma removeChannel_ok:
  assumes "ep_ok s" "ep_pre (ep_abs s) (EpRemove p)"
  shows "\<exists>s'. ep_removeChannel p s = Inr s' \<and> ep_ok s' \<and>
    ep_abs s' = ep_spec (ep_abs s) (EpRemove p)"
  using removeChannel_core[OF ep_ok_core[OF assms(1)] assms(2)] assms(1)
  unfolding ep_ok_dispatch by metis

lemma ep_put_core:
  assumes "ep_core s" "ep_objects s p = None" "ch_index c = kNew"
  shows "ep_core (ep_put p c s)" "ep_abs (ep_put p c s) = (ep_abs s)(p \<mapsto> (ch_fd c, events c, False))"
proof -
  show "ep_core (ep_put p c s)"
    using assms unfolding ep_core_def by (auto simp: ep_put_def index_defs)
  show "ep_abs (ep_put p c s) = (ep_abs s)(p \<mapsto> (ch_fd c, events c, False))"
    using assms(3) by (intro ext) (simp add: ep_abs_def ep_put_def)
qed

lemma ep_put_ok:
  assumes "ep_ok s" "ep_objects s p = None" "ch_index c = kNew" "\<not> eventHandling c"
  shows "ep_ok (ep_put p c s) \<and> ep_abs (ep_put p c s) = (ep_abs s)(p \<mapsto> (ch_fd c, events c, False))"
  using assms ep_put_core[OF ep_ok_core[OF assms(1)] assms(2,3)]
  by (auto simp: ep_ok_def ep_put_def)

lemma ep_drop_core:
  assumes "ep_core s" "ep_objects s p = Some c" "ch_index c = kNew"
  shows "ep_core (s\<lparr>ep_objects := (ep_objects s)(p := None)\<rparr>)"
    "ep_abs (s\<lparr>ep_objects := (ep_objects s)(p := None)\<rparr>) = (ep_abs s)(p := None)"
proof -
  show "ep_core (s\<lparr>ep_objects := (ep_objects s)(p := None)\<rparr>)"
    using assms unfolding ep_core_def by (auto simp: index_defs)
  show "ep_abs (s\<lparr>ep_objects := (ep_objects s)(p := None)\<rparr>) = (ep_abs s)(p := None)"
    by (rule ext) (simp add: ep_abs_def)
qed

text \<open>The fields the dispatch sets are not the poller's.\<close>

lemma ep_mark_core:
  assumes "ep_core s" "ep_objects s p = Some c"
    "ch_fd c' = ch_fd c" "events c' = events c" "ch_index c' = ch_index c"
  shows "ep_core (ep_put p c' s)" "ep_abs (ep_put p c' s) = ep_abs s"
proof -
  show "ep_core (ep_put p c' s)"
    using assms unfolding ep_core_def by (auto simp: ep_put_def split: if_splits)
  show "ep_abs (ep_put p c' s) = ep_abs s"
    using assms by (intro ext) (simp add: ep_abs_def ep_put_def)
qed

lemma ep_grow_core: "ep_core s \<Longrightarrow> 0 < n \<Longrightarrow> ep_core (s\<lparr>ep_events_size := n\<rparr>)"
  by (auto simp: ep_core_def)

lemma ep_exec_ok:
  assumes "ep_ok s" "ep_pre (ep_abs s) x"
  shows "\<exists>s'. ep_exec s x = Inr s' \<and> ep_ok s' \<and> ep_abs s' = ep_spec (ep_abs s) x"
proof (cases x)
  case (EpCreate p fd)
  then have none: "ep_objects s p = None" using assms(2) by (simp add: ep_abs_def)
  from ep_put_ok[OF assms(1) this, of "channel_new fd"] show ?thesis
    using EpCreate by (simp add: channel_new_def index_defs)
next
  case (EpChange p k)
  with change_interest_ok[OF assms(1)] assms(2) show ?thesis by simp
next
  case (EpRemove p)
  with removeChannel_ok[OF assms(1)] assms(2) show ?thesis by simp
next
  case (EpDestroy p)
  obtain c where c: "ep_objects s p = Some c" "ch_index c = kNew"
    using assms(2) EpDestroy by (auto simp: ep_abs_def split: option.splits)
  note D = ep_drop_core[OF ep_ok_core[OF assms(1)] c]
  then show ?thesis
    using EpDestroy c assms(1) by (auto simp: ep_deref_def channel_destroy_def ep_ok_def)
qed

interpretation poll_set: contract ep_exec ep_ok ep_abs ep_pre ep_spec
  by unfold_locales (rule ep_exec_ok)

section \<open>Properties\<close>

lemma ep_new_ok: "ep_ok ep_new"
  by (simp add: ep_ok_def ep_core_def ep_new_def kInitEventListSize_def)

lemma ep_new_abs: "ep_abs ep_new = Map.empty"
  by (rule ext) (simp add: ep_abs_def ep_new_def)

text \<open>
  C11: The kernel's interest set follows the channels. After any sequence of creations, changes
  of interest, removals and destructions a client may make, nothing has failed, every entry of
  the kernel belongs to a live registered channel and has its descriptor and its present
  interest, and every registered channel with an interest is in the kernel.
\<close>

theorem poll_set_in_sync:
  assumes "admissible ep_pre ep_spec Map.empty ops"
  shows "\<exists>s. run_ops ep_exec ep_new ops = Inr s \<and> ep_ok s \<and>
    (let v = foldl ep_spec Map.empty ops in ep_abs s = v \<and>
      (\<forall>fd e p. ep_interest s fd = Some (e, p) \<longrightarrow> v p = Some (fd, e, True)) \<and>
      (\<forall>p fd e. v p = Some (fd, e, True) \<and> e \<noteq> 0 \<longrightarrow> ep_interest s fd = Some (e, p)))"
proof -
  obtain s where s: "run_ops ep_exec ep_new ops = Inr s" "ep_ok s"
    "ep_abs s = foldl ep_spec Map.empty ops"
    using poll_set.run_ok[OF ep_new_ok] assms by (auto simp: ep_new_abs)
  have "ep_interest s fd = Some (e, p) \<Longrightarrow> ep_abs s p = Some (fd, e, True)" for fd e p
    using ep_okD(6)[OF s(2), of fd e p] by (auto simp: ep_abs_def index_defs)
  moreover have "ep_interest s fd = Some (e, p)" if v: "ep_abs s p = Some (fd, e, True)" and e: "e \<noteq> 0"
    for fd e p
  proof -
    obtain c where c: "ep_objects s p = Some c" "ch_fd c = fd" "events c = e" "ch_index c \<noteq> kNew"
      using v by (auto simp: ep_abs_def)
    with e ep_okD(2,4)[OF s(2) c(1)] interest_of[OF s(2) c(1,4)] show ?thesis by auto
  qed
  ultimately show ?thesis using s(1,2) unfolding Let_def s(3) [symmetric] by blast
qed

theorem poll_set_in_sync_witness:
  "\<exists>s. run_ops ep_exec ep_new [EpCreate 8 5, EpChange 8 EnableReading, EpChange 8 DisableAll,
     EpRemove 8, EpCreate 9 5, EpChange 9 EnableWriting, EpDestroy 8] = Inr s \<and>
     ep_interest s 5 = Some (kWriteEvent, 9)"
proof -
  let ?ops = "[EpCreate 8 5, EpChange 8 EnableReading, EpChange 8 DisableAll,
     EpRemove 8, EpCreate 9 5, EpChange 9 EnableWriting, EpDestroy 8]"
  have "admissible ep_pre ep_spec Map.empty ?ops"
    by (simp add: fd_free_def kNoneEvent_def)
  from poll_set_in_sync[OF this] obtain s where "run_ops ep_exec ep_new ?ops = Inr s"
    and i: "\<forall>p fd e. foldl ep_spec Map.empty ?ops p = Some (fd, e, True) \<and> e \<noteq> 0 \<longrightarrow>
      ep_interest s fd = Some (e, p)" unfolding Let_def by blast
  moreover have "foldl ep_spec Map.empty ?ops 9 = Some (5, kWriteEvent, True)" by simp
  moreover have "kWriteEvent \<noteq> 0" by (simp add: kWriteEvent_def POLLOUT_def)
  ultimately show ?thesis by blast
qed

lemma fillActiveChannels_core:
  assumes "ep_core s" "\<forall>(p, ev) \<in> set evs. \<exists>c. ep_objects s p = Some c \<and> ch_index c \<noteq> kNew"
  shows "\<exists>s'. fillActiveChannels evs active s = Inr (active @ map fst evs, s') \<and> ep_core s' \<and>
    ep_abs s' = ep_abs s \<and> ep_events_size s' = ep_events_size s \<and>
    ep_interest s' = ep_interest s \<and>
    (\<forall>p. ep_dispatch s' p = map_option (\<lambda>(r, h, f).
       (case map_of (rev evs) p of Some ev \<Rightarrow> ev | None \<Rightarrow> r, h, f)) (ep_dispatch s p))"
  using assms
proof (induction evs arbitrary: active s)
  case Nil
  then show ?case by (auto simp: option.map_ident_strong split_beta)
next
  case (Cons x evs)
  obtain p ev where x: "x = (p, ev)" by fastforce
  obtain c where c: "ep_objects s p = Some c" "ch_index c \<noteq> kNew" using Cons.prems(2) x by auto
  let ?s = "ep_put p (c\<lparr>revents := ev\<rparr>) s"
  have ch: "ep_channels s (ch_fd c) = Some p" using c ep_coreD(4)[OF Cons.prems(1)] by blast
  have m: "ep_core ?s" "ep_abs ?s = ep_abs s"
    using ep_mark_core[OF Cons.prems(1) c(1), of "c\<lparr>revents := ev\<rparr>"] by simp_all
  have "\<forall>(q, ev) \<in> set evs. \<exists>d. ep_objects ?s q = Some d \<and> ch_index d \<noteq> kNew"
    using Cons.prems(2) c by (fastforce simp: ep_put_def)
  with m(1) obtain s' where s': "fillActiveChannels evs (active @ [p]) ?s =
      Inr ((active @ [p]) @ map fst evs, s')" "ep_core s'" "ep_abs s' = ep_abs ?s"
      "ep_events_size s' = ep_events_size ?s" "ep_interest s' = ep_interest ?s"
      "\<forall>q. ep_dispatch s' q = map_option (\<lambda>(r, h, f).
       (case map_of (rev evs) q of Some ev \<Rightarrow> ev | None \<Rightarrow> r, h, f)) (ep_dispatch ?s q)"
    using Cons.IH[of ?s "active @ [p]"] by blast
  have "fillActiveChannels (x # evs) active s = fillActiveChannels evs (active @ [p]) ?s"
    using c ch by (simp add: x ep_deref_def)
  moreover have "ep_dispatch ?s = (ep_dispatch s)(p \<mapsto> (ev, eventHandling c, \<lambda>k. callback_set k c))"
    by (rule ext) (simp add: ep_dispatch_def ep_put_def)
  then have "ep_dispatch s' q = map_option (\<lambda>(r, h, f).
       (case map_of (rev (x # evs)) q of Some ev \<Rightarrow> ev | None \<Rightarrow> r, h, f)) (ep_dispatch s q)" for q
    using s'(6) [rule_format, of q] c
    by (auto simp: x map_add_def ep_dispatch_def split: option.splits)
  moreover have "ep_events_size ?s = ep_events_size s" "ep_interest ?s = ep_interest s"
    by (simp_all add: ep_put_def)
  moreover have "(active @ [p]) @ map fst evs = active @ map fst (x # evs)" by (simp add: x)
  ultimately show ?case using s'(1-5) m(2) by (intro exI[of _ s'] conjI allI) simp_all
qed

lemma fillActiveChannels_ok:
  assumes "ep_ok s" "\<forall>(p, ev) \<in> set evs. \<exists>c. ep_objects s p = Some c \<and> ch_index c \<noteq> kNew"
  shows "\<exists>s'. fillActiveChannels evs active s = Inr (active @ map fst evs, s') \<and> ep_ok s' \<and>
    ep_abs s' = ep_abs s \<and> ep_events_size s' = ep_events_size s \<and>
    ep_interest s' = ep_interest s \<and>
    (\<forall>p. map_option revents (ep_objects s' p) =
       (case map_of (rev evs) p of Some ev \<Rightarrow> Some ev | None \<Rightarrow> map_option revents (ep_objects s p)))"
proof -
  obtain s' where s': "fillActiveChannels evs active s = Inr (active @ map fst evs, s')" "ep_core s'"
    "ep_abs s' = ep_abs s" "ep_events_size s' = ep_events_size s" "ep_interest s' = ep_interest s"
    "\<And>p. ep_dispatch s' p = map_option (\<lambda>(r, h, f).
       (case map_of (rev evs) p of Some ev \<Rightarrow> ev | None \<Rightarrow> r, h, f)) (ep_dispatch s p)"
    using fillActiveChannels_core[OF ep_ok_core[OF assms(1)] assms(2)] by blast
  have "ep_ok s'" using s'(2,6) assms(1) unfolding ep_ok_dispatch by fastforce
  moreover have "map_option revents (ep_objects s' p) =
      (case map_of (rev evs) p of Some ev \<Rightarrow> Some ev | None \<Rightarrow> map_option revents (ep_objects s p))" for p
  proof -
    have "map_of (rev evs) p = Some ev \<Longrightarrow> \<exists>c. ep_objects s p = Some c" for ev
      using assms(2) by (fastforce dest!: map_of_SomeD)
    with s'(6)[of p] show ?thesis
      by (cases "ep_objects s p"; cases "map_of (rev evs) p") (auto simp: ep_dispatch_def)
  qed
  ultimately show ?thesis using s'(1,3,4,5) by blast
qed

text \<open>
  Whatever epoll_wait reports for its interest set reaches the right channel: poll never
  fails, the channels returned are live and are those of the reported entries in their order,
  each has the reported events and the descriptor it was registered for, and the event array,
  doubled when it was full, is never empty.
\<close>

theorem poll_dispatches:
  assumes "ep_ok s" "length evs \<le> ep_events_size s" "distinct (map fst evs)"
    "\<forall>(p, ev) \<in> set evs. \<exists>fd e. ep_interest s fd = Some (e, p)"
  shows "\<exists>s'. ep_poll (int (length evs)) evs [] s = Inr (map fst evs, s') \<and> ep_ok s' \<and>
    ep_abs s' = ep_abs s \<and> ep_interest s' = ep_interest s \<and> length evs < ep_events_size s' \<and>
    (\<forall>(p, ev) \<in> set evs. \<exists>c e. ep_objects s' p = Some c \<and> revents c = ev \<and>
       ep_interest s (ch_fd c) = Some (e, p))"
proof -
  note D = ep_okD[OF assms(1)]
  have reg: "\<forall>(p, ev) \<in> set evs. \<exists>c. ep_objects s p = Some c \<and> ch_index c \<noteq> kNew"
    using assms(4) D(6) by (fastforce simp: index_defs)
  obtain s1 where s1: "fillActiveChannels evs [] s = Inr (map fst evs, s1)" "ep_ok s1"
    "ep_abs s1 = ep_abs s" "ep_events_size s1 = ep_events_size s" "ep_interest s1 = ep_interest s"
    "\<And>p. map_option revents (ep_objects s1 p) =
       (case map_of (rev evs) p of Some ev \<Rightarrow> Some ev | None \<Rightarrow> map_option revents (ep_objects s p))"
    using fillActiveChannels_ok[OF assms(1) reg, of "[]"] by auto
  let ?s = "if length evs = ep_events_size s1
    then s1\<lparr>ep_events_size := ep_events_size s1 * 2\<rparr> else s1"
  have r: "\<exists>c e. ep_objects s1 p = Some c \<and> revents c = ev \<and> ep_interest s (ch_fd c) = Some (e, p)"
    if m: "(p, ev) \<in> set evs" for p ev
  proof -
    have "map_of (rev evs) p = Some ev"
      using m assms(3) by (simp add: map_of_eq_Some_iff rev_map [symmetric])
    then obtain c where c: "ep_objects s1 p = Some c" "revents c = ev"
      using s1(6)[of p] by auto
    obtain fd e where "ep_interest s fd = Some (e, p)" using assms(4) m by blast
    moreover from this have "ch_fd c = fd"
      using ep_okD(6)[OF s1(2), of fd e p] c s1(5) by auto
    ultimately show ?thesis using c by blast
  qed
  have "ep_poll (int (length evs)) evs [] s = Inr (map fst evs, ?s)"
  proof (cases evs)
    case Nil
    with s1 D(1) show ?thesis by (simp add: ep_poll_def)
  qed (use s1 assms(2) in \<open>simp add: ep_poll_def\<close>)
  moreover have "ep_ok ?s"
    using s1(2) ep_grow_core[OF ep_ok_core[OF s1(2)]] D(1) s1(4) by (auto simp: ep_ok_def)
  moreover have "ep_abs ?s = ep_abs s" using s1(3) by (auto simp: ep_abs_def fun_eq_iff)
  moreover have "length evs < ep_events_size ?s" using assms(2) s1(4) D(1) by simp
  moreover have "ep_interest ?s = ep_interest s" "ep_objects ?s = ep_objects s1"
    using s1(5) by simp_all
  moreover have "\<forall>(p, ev) \<in> set evs. \<exists>c e. ep_objects s1 p = Some c \<and> revents c = ev \<and>
      ep_interest s (ch_fd c) = Some (e, p)" using r by blast
  ultimately show ?thesis by (intro exI[of _ ?s] conjI) simp_all
qed

theorem poll_dispatches_witness:
  "\<exists>s s'. run_ops ep_exec ep_new [EpCreate 8 5, EpChange 8 EnableReading] = Inr s \<and>
     ep_poll 1 [(8, POLLIN)] [] s = Inr ([8], s') \<and>
     map_option revents (ep_objects s' 8) = Some POLLIN"
proof -
  let ?ops = "[EpCreate 8 5, EpChange 8 EnableReading]"
  have "admissible ep_pre ep_spec (ep_abs ep_new) ?ops" by (simp add: fd_free_def ep_new_abs)
  with poll_set.run_ok[OF ep_new_ok this] obtain s where
    s: "run_ops ep_exec ep_new ?ops = Inr s" "ep_ok s" by blast
  have "case run_ops ep_exec ep_new ?ops of Inl _ \<Rightarrow> False
    | Inr s \<Rightarrow> ep_events_size s = 16 \<and> ep_interest s 5 = Some (kReadEvent, 8)" by code_simp
  with s(1) have i: "ep_events_size s = 16" "ep_interest s 5 = Some (kReadEvent, 8)" by simp_all
  have "\<forall>(p, ev) \<in> set [(8, POLLIN)]. \<exists>fd e. ep_interest s fd = Some (e, p)" using i by auto
  with i poll_dispatches[OF s(2), of "[(8, POLLIN)]"] obtain s' where
    "ep_poll 1 [(8, POLLIN)] [] s = Inr ([8], s')" "map_option revents (ep_objects s' 8) = Some POLLIN"
    by fastforce
  with s(1) show ?thesis by blast
qed

text \<open>
  A second disableAll takes a channel back into the interest set: the first one leaves the
  index \<open>kDeleted\<close>, for which updateChannel adds the descriptor again without looking at the
  interest. The entry asks for no event, but the kernel reports errors and hang-ups for it.
\<close>

theorem disableAll_twice_rearms:
  assumes "ep_ok s" "ep_objects s p = Some c" "ch_index c = kAdded"
  shows "\<exists>s1 s2. change_interest DisableAll p s = Inr s1 \<and> ep_interest s1 (ch_fd c) = None \<and>
    change_interest DisableAll p s1 = Inr s2 \<and> ep_interest s2 (ch_fd c) = Some (0, p)"
proof -
  have ch: "ep_channels s (ch_fd c) = Some p" "ep_interest s (ch_fd c) = Some (events c, p)"
    using assms ep_okD(5,6)[OF assms(1)] by (auto simp: index_defs)
  with assms show ?thesis
    by (simp add: change_interest_def ep_updateChannel_def ep_update_def ep_deref_def ep_put_def
        index_defs isNoneEvent_def kNoneEvent_def Let_def)
qed

theorem disableAll_twice_rearms_witness:
  "\<exists>s s1 s2. run_ops ep_exec ep_new [EpCreate 8 5, EpChange 8 EnableReading] = Inr s \<and>
     change_interest DisableAll 8 s = Inr s1 \<and> change_interest DisableAll 8 s1 = Inr s2 \<and>
     ep_interest s1 5 = None \<and> ep_interest s2 5 = Some (0, 8)"
proof -
  let ?ops = "[EpCreate 8 5, EpChange 8 EnableReading]"
    and ?c = "(channel_new 5)\<lparr>events := kReadEvent, ch_index := kAdded\<rparr>"
  have "admissible ep_pre ep_spec (ep_abs ep_new) ?ops" by (simp add: fd_free_def ep_new_abs)
  with poll_set.run_ok[OF ep_new_ok this] obtain s where
    s: "run_ops ep_exec ep_new ?ops = Inr s" "ep_ok s" by blast
  have "ep_objects s 8 = Some ?c"
    using s(1) by (auto simp: change_interest_def ep_updateChannel_def ep_update_def ep_deref_def
        ep_put_def index_defs Let_def ep_new_def channel_new_def)
  from disableAll_twice_rearms[OF s(2) this] s(1) show ?thesis by (auto simp: channel_new_def)
qed

end
