(* ===== verification/Connector.thy ===== *)
theory Connector
  imports EPoller InetAddress
begin

text \<open>
  net/Connector.h, net/Connector.cc: connecting a socket to a server without blocking, with
  retries after a growing delay. The channel of an attempt is registered with the poller of
  \<open>EPoller\<close> and deleted by a posted functor, because its own handler is running when the attempt
  ends. The timers are those of \<open>TimerQueue\<close>, of which the connector sees the delay it asked for
  and the identifier it got. \<open>cn_open\<close> and \<open>cn_handed\<close> record which sockets the connector has
  open and which it gave to the client.
\<close>

section \<open>State\<close>

datatype states = kDisconnected | kConnecting | kConnected

definition kMaxRetryDelayMs :: int where "kMaxRetryDelayMs = 30 * 1000"
definition kInitRetryDelayMs :: int where "kInitRetryDelayMs = 500"

record connector =
  connect_flag :: bool
  cn_state :: states
  cn_channel :: "nat option"
  retryDelayMs :: int
  timerId :: nat
  cn_timers :: "(nat \<times> int) list"
  cn_seq :: nat
  cn_posted :: nat
  cn_poller :: epoller
  cn_open :: "int set"
  cn_handed :: "int list"

definition connector_new :: "epoller \<Rightarrow> connector" where
  "connector_new ep = \<lparr>connect_flag = False, cn_state = kDisconnected, cn_channel = None,
     retryDelayMs = kInitRetryDelayMs, timerId = 0, cn_timers = [], cn_seq = 0, cn_posted = 0,
     cn_poller = ep, cn_open = {}, cn_handed = []\<rparr>"

section \<open>Timers and the end of an attempt\<close>

text \<open>\<open>loop_->runAfter(delay, startInLoop)\<close> and \<open>loop_->cancel(timerId)\<close>.\<close>

definition cn_runAfter :: "int \<Rightarrow> connector \<Rightarrow> connector" where
  "cn_runAfter delay s = s\<lparr>cn_seq := cn_seq s + 1, timerId := cn_seq s + 1,
     cn_timers := cn_timers s @ [(cn_seq s + 1, delay)]\<rparr>"

definition cn_cancel :: "connector \<Rightarrow> connector" where
  "cn_cancel s = s\<lparr>cn_timers := filter (\<lambda>(i, d). i \<noteq> timerId s) (cn_timers s)\<rparr>"

definition retry :: "int \<Rightarrow> connector \<Rightarrow> connector" where
  "retry fd s =
     (let s1 = s\<lparr>cn_open := cn_open s - {fd}, cn_state := kDisconnected\<rparr> in
      if connect_flag s1
      then (cn_runAfter (retryDelayMs s1) s1)\<lparr>retryDelayMs := min (retryDelayMs s1 * 2) kMaxRetryDelayMs\<rparr>
      else s1)"

section \<open>Starting\<close>

text \<open>The channel has a write and an error callback only.\<close>

definition connector_channel :: "int \<Rightarrow> channel" where
  "connector_channel fd = (channel_new fd)\<lparr>writeCallback := True, errorCallback := True\<rparr>"

text \<open>\<open>p\<close> is the address of the new channel.\<close>

definition connecting :: "nat \<Rightarrow> int \<Rightarrow> connector \<Rightarrow> connector res" where
  "connecting p fd s =
     (let s1 = s\<lparr>cn_state := kConnecting\<rparr> in
      bindR (assertR (cn_channel s1 = None)) (\<lambda>_.
      bindR (change_interest EnableWriting p (ep_put p (connector_channel fd) (cn_poller s1))) (\<lambda>ep.
      Inr (s1\<lparr>cn_channel := Some p, cn_poller := ep\<rparr>))))"

definition EINPROGRESS :: int where "EINPROGRESS = 115"
definition EISCONN :: int where "EISCONN = 106"
definition EADDRINUSE :: int where "EADDRINUSE = 98"
definition EADDRNOTAVAIL :: int where "EADDRNOTAVAIL = 99"
definition ECONNREFUSED :: int where "ECONNREFUSED = 111"
definition ENETUNREACH :: int where "ENETUNREACH = 101"

text \<open>
  What the kernel and the allocator answer to one attempt: the result of \<^verbatim>\<open>socket\<close>, the errno of
  \<^verbatim>\<open>connect\<close> (0 when it returned 0), and the address of the channel should there be one.
\<close>

type_synonym attempt = "int \<times> int \<times> nat"

definition connector_connect :: "attempt \<Rightarrow> connector \<Rightarrow> connector res" where
  "connector_connect att s =
     (let (sock, savedErrno, p) = att in
      bindR (createNonblockingOrDie sock) (\<lambda>fd.
      let s1 = s\<lparr>cn_open := insert fd (cn_open s)\<rparr> in
      if savedErrno \<in> {0, EINPROGRESS, EINTR, EISCONN} then connecting p fd s1
      else if savedErrno \<in> {EAGAIN, EADDRINUSE, EADDRNOTAVAIL, ECONNREFUSED, ENETUNREACH}
      then Inr (retry fd s1)
      else Inr (s1\<lparr>cn_open := cn_open s1 - {fd}\<rparr>)))"

definition startInLoop :: "attempt \<Rightarrow> connector \<Rightarrow> connector res" where
  "startInLoop att s =
     bindR (assertR (cn_state s = kDisconnected)) (\<lambda>_.
     if connect_flag s then connector_connect att s else Inr s)"

definition connector_start :: "attempt \<Rightarrow> connector \<Rightarrow> connector res" where
  "connector_start att s = startInLoop att (s\<lparr>connect_flag := True\<rparr>)"

definition connector_restart :: "attempt \<Rightarrow> connector \<Rightarrow> connector res" where
  "connector_restart att s =
     startInLoop att (s\<lparr>cn_state := kDisconnected, retryDelayMs := kInitRetryDelayMs, connect_flag := True\<rparr>)"

definition connector_stop :: "connector \<Rightarrow> connector" where
  "connector_stop s = cn_cancel (s\<lparr>connect_flag := False\<rparr>)"

section \<open>Events\<close>

definition removeAndResetChannel :: "connector \<Rightarrow> (int \<times> connector) res" where
  "removeAndResetChannel s =
     (case cn_channel s of
        None \<Rightarrow> Inl NullDeref
      | Some p \<Rightarrow>
          bindR (change_interest DisableAll p (cn_poller s)) (\<lambda>ep1.
          bindR (ep_removeChannel p ep1) (\<lambda>ep2.
          bindR (ep_deref ep2 p) (\<lambda>c.
          Inr (ch_fd c, s\<lparr>cn_poller := ep2, cn_posted := cn_posted s + 1\<rparr>)))))"

definition resetChannel :: "connector \<Rightarrow> connector res" where
  "resetChannel s =
     (case cn_channel s of
        None \<Rightarrow> Inr s
      | Some p \<Rightarrow> bindR (ep_exec (cn_poller s) (EpDestroy p)) (\<lambda>ep.
          Inr (s\<lparr>cn_poller := ep, cn_channel := None\<rparr>)))"

text \<open>
  \<open>err\<close> is the \<^verbatim>\<open>SO_ERROR\<close> of the socket, \<open>local\<close> and \<open>peer\<close> are its two addresses.
\<close>

type_synonym sock_info = "int \<times> sockaddr_in option \<times> sockaddr_in option"

definition connector_handleWrite :: "sock_info \<Rightarrow> connector \<Rightarrow> connector res" where
  "connector_handleWrite info s =
     (let (err, local, peer) = info in
      if cn_state s = kConnecting
      then bindR (removeAndResetChannel s) (\<lambda>(fd, s1).
           if err \<noteq> 0 then Inr (retry fd s1)
           else bindR (getLocalAddr local) (\<lambda>localaddr.
                if isSelfConnect localaddr (getPeerAddr peer) then Inr (retry fd s1)
                else let s2 = s1\<lparr>cn_state := kConnected, cn_open := cn_open s1 - {fd}\<rparr> in
                     Inr (if connect_flag s2 then s2\<lparr>cn_handed := cn_handed s2 @ [fd]\<rparr> else s2)))
      else bindR (assertR (cn_state s = kDisconnected)) (\<lambda>_. Inr s))"

definition connector_handleError :: "connector \<Rightarrow> connector res" where
  "connector_handleError s =
     bindR (assertR (cn_state s = kConnecting)) (\<lambda>_.
     bindR (removeAndResetChannel s) (\<lambda>(fd, s1). Inr (retry fd s1)))"

fun connector_callback :: "sock_info \<Rightarrow> connector \<Rightarrow> callback \<Rightarrow> connector res" where
  "connector_callback info s WriteCb = connector_handleWrite info s"
| "connector_callback info s ErrorCb = connector_handleError s"
| "connector_callback info s _ = Inl BadFunctionCall"

text \<open>
  The kernel reports \<open>ev\<close> for the channel, if it is registered, and the channel runs the
  callbacks that are due.
\<close>

definition connector_events :: "32 word \<Rightarrow> sock_info \<Rightarrow> connector \<Rightarrow> connector res" where
  "connector_events ev info s =
     (case cn_channel s of
        None \<Rightarrow> Inr s
      | Some p \<Rightarrow>
          bindR (ep_deref (cn_poller s) p) (\<lambda>c.
          if ep_interest (cn_poller s) (ch_fd c) = Some (events c, p)
          then run_ops (connector_callback info) s
                 (due_callbacks ((connector_channel (ch_fd c))\<lparr>revents := ev\<rparr>))
          else Inr s))"

text \<open>The next timer fires; the posted functors run.\<close>

definition connector_timer :: "attempt \<Rightarrow> connector \<Rightarrow> connector res" where
  "connector_timer att s =
     (case cn_timers s of [] \<Rightarrow> Inr s | _ # ts \<Rightarrow> startInLoop att (s\<lparr>cn_timers := ts\<rparr>))"

fun connector_posted :: "nat \<Rightarrow> connector \<Rightarrow> connector res" where
  "connector_posted 0 s = Inr s"
| "connector_posted (Suc n) s = bindR (resetChannel s) (connector_posted n)"

definition connector_pending :: "connector \<Rightarrow> connector res" where
  "connector_pending s = connector_posted (cn_posted s) (s\<lparr>cn_posted := 0\<rparr>)"

text \<open>The destructor cancels the timer and asserts that no channel is left.\<close>

definition connector_destroy :: "connector \<Rightarrow> connector res" where
  "connector_destroy s =
     (let s1 = cn_cancel s in bindR (assertR (cn_channel s1 = None)) (\<lambda>_. Inr s1))"

datatype connector_op =
    CnStart attempt | CnRestart attempt | CnStop | CnEvents "32 word" sock_info
  | CnTimer attempt | CnPending

fun connector_exec :: "connector \<Rightarrow> connector_op \<Rightarrow> connector res" where
  "connector_exec s (CnStart att) = connector_start att s"
| "connector_exec s (CnRestart att) = connector_restart att s"
| "connector_exec s CnStop = Inr (connector_stop s)"
| "connector_exec s (CnEvents ev info) = connector_events ev info s"
| "connector_exec s (CnTimer att) = connector_timer att s"
| "connector_exec s CnPending = connector_pending s"

section \<open>The abstract connector\<close>

text \<open>
  What a client relies on: whether it wants a connection, the phase (nothing going on, waiting
  for a retry, an attempt on a descriptor, connected), the next delay, the channel that is still
  to be deleted, the sockets handed over, and the poller as its clients see it.
\<close>

datatype phase = Idle | Waiting int | Trying nat int | Linked

record connector_view =
  wanted :: bool
  doing :: phase
  delay :: int
  doomed :: "nat option"
  handed :: "int list"
  polled :: ep_view

definition connector_abs :: "connector \<Rightarrow> connector_view" where
  "connector_abs s = \<lparr>wanted = connect_flag s,
     doing = (case cn_state s of
         kConnecting \<Rightarrow> (case cn_channel s of None \<Rightarrow> Idle
           | Some p \<Rightarrow> (case ep_abs (cn_poller s) p of None \<Rightarrow> Idle | Some (fd, _) \<Rightarrow> Trying p fd))
       | kConnected \<Rightarrow> Linked
       | kDisconnected \<Rightarrow> (case cn_timers s of [] \<Rightarrow> Idle | (i, d) # _ \<Rightarrow> Waiting d)),
     delay = retryDelayMs s,
     doomed = (if cn_posted s = 0 then None else cn_channel s),
     handed = cn_handed s,
     polled = ep_abs (cn_poller s)\<rparr>"

definition fail_view :: "connector_view \<Rightarrow> connector_view" where
  "fail_view a = (if wanted a
     then a\<lparr>doing := Waiting (delay a), delay := min (delay a * 2) kMaxRetryDelayMs\<rparr>
     else a\<lparr>doing := Idle\<rparr>)"

definition attempt_view :: "attempt \<Rightarrow> connector_view \<Rightarrow> connector_view" where
  "attempt_view att a = (let (fd, e, p) = att in
     if e \<in> {0, EINPROGRESS, EINTR, EISCONN}
     then a\<lparr>doing := Trying p fd, polled := (polled a)(p \<mapsto> (fd, kWriteEvent, True))\<rparr>
     else if e \<in> {EAGAIN, EADDRINUSE, EADDRNOTAVAIL, ECONNREFUSED, ENETUNREACH} then fail_view a
     else a\<lparr>doing := Idle\<rparr>)"

text \<open>What the end of an attempt does: the channel is unregistered and waits for its deletion.\<close>

definition ended_view :: "nat \<Rightarrow> int \<Rightarrow> connector_view \<Rightarrow> connector_view" where
  "ended_view p fd a = a\<lparr>doomed := Some p, polled := (polled a)(p \<mapsto> (fd, 0, False))\<rparr>"

definition socket_good :: "sock_info \<Rightarrow> bool" where
  "socket_good info = (case info of (err, local, peer) \<Rightarrow>
     err = 0 \<and> (case local of None \<Rightarrow> True | Some l \<Rightarrow> \<not> isSelfConnect l (getPeerAddr peer)))"

fun connector_spec :: "connector_view \<Rightarrow> connector_op \<Rightarrow> connector_view" where
  "connector_spec a (CnStart att) = attempt_view att (a\<lparr>wanted := True\<rparr>)"
| "connector_spec a (CnRestart att) = attempt_view att (a\<lparr>wanted := True, delay := kInitRetryDelayMs\<rparr>)"
| "connector_spec a CnStop =
     (case doing a of Waiting d \<Rightarrow> a\<lparr>wanted := False, doing := Idle\<rparr> | _ \<Rightarrow> a\<lparr>wanted := False\<rparr>)"
| "connector_spec a (CnEvents ev info) =
     (case doing a of
        Trying p fd \<Rightarrow>
          if callback_bits ErrorCb ev then fail_view (ended_view p fd a)
          else if callback_bits WriteCb ev
          then (if socket_good info
                then (ended_view p fd a)\<lparr>doing := Linked,
                       handed := handed a @ (if wanted a then [fd] else [])\<rparr>
                else fail_view (ended_view p fd a))
          else a
      | _ \<Rightarrow> a)"
| "connector_spec a (CnTimer att) = (case doing a of Waiting d \<Rightarrow> attempt_view att a | _ \<Rightarrow> a)"
| "connector_spec a CnPending =
     (case doomed a of None \<Rightarrow> a | Some p \<Rightarrow> a\<lparr>doomed := None, polled := (polled a)(p := None)\<rparr>)"

text \<open>
  When a call is allowed. A new attempt starts only when the channel of the last one is deleted
  (the functor that does it was posted before the poll in which the next timer fires), on a
  descriptor no channel of the poller has registered and at an address that is free. The client
  starts only when nothing is going on, restarts also when it was connected.
\<close>

definition attempt_pre :: "attempt \<Rightarrow> connector_view \<Rightarrow> bool" where
  "attempt_pre att a = (case att of (fd, e, p) \<Rightarrow>
     0 \<le> fd \<and> fd_free fd (polled a) \<and> polled a p = None \<and> doomed a = None)"

fun connector_pre :: "connector_view \<Rightarrow> connector_op \<Rightarrow> bool" where
  "connector_pre a (CnStart att) = (doing a = Idle \<and> attempt_pre att a)"
| "connector_pre a (CnRestart att) = ((doing a = Idle \<or> doing a = Linked) \<and> attempt_pre att a)"
| "connector_pre a (CnTimer att) = attempt_pre att a"
| "connector_pre a (CnEvents ev info) = (fst (snd info) \<noteq> None)"
| "connector_pre a _ = True"

section \<open>Invariant\<close>

definition trying_ok :: "connector \<Rightarrow> bool" where
  "trying_ok s \<longleftrightarrow> cn_posted s = 0 \<and> cn_timers s = [] \<and>
     (\<exists>p fd. cn_channel s = Some p \<and> ep_abs (cn_poller s) p = Some (fd, kWriteEvent, True) \<and>
        cn_open s = {fd})"

definition resting_ok :: "connector \<Rightarrow> bool" where
  "resting_ok s \<longleftrightarrow> cn_open s = {} \<and>
     (cn_posted s = 0 \<and> cn_channel s = None \<or>
      cn_posted s = 1 \<and> (\<exists>p fd. cn_channel s = Some p \<and> ep_abs (cn_poller s) p = Some (fd, 0, False))) \<and>
     (cn_timers s = [] \<or>
      cn_state s = kDisconnected \<and> connect_flag s \<and> (\<exists>d. cn_timers s = [(timerId s, d)]))"

definition connector_ok :: "connector \<Rightarrow> bool" where
  "connector_ok s \<longleftrightarrow> ep_ok (cn_poller s) \<and>
     kInitRetryDelayMs \<le> retryDelayMs s \<and> retryDelayMs s \<le> kMaxRetryDelayMs \<and>
     (if cn_state s = kConnecting then trying_ok s else resting_ok s)"

definition gives :: "connector res \<Rightarrow> connector_view \<Rightarrow> bool" where
  "gives r a \<longleftrightarrow> (\<exists>s. r = Inr s \<and> connector_ok s \<and> connector_abs s = a)"

lemma givesI: "connector_ok s \<Longrightarrow> connector_abs s = a \<Longrightarrow> gives (Inr s) a"
  by (auto simp: gives_def)

lemma resting_disconnected:
  assumes "resting_ok s" "doing (connector_abs s) = Idle" "cn_state s = kDisconnected"
  shows "cn_timers s = []"
  using assms by (auto simp: connector_abs_def resting_ok_def split: list.splits)

section \<open>Each operation\<close>

lemma retry_gives:
  assumes "ep_ok (cn_poller s)" "kInitRetryDelayMs \<le> retryDelayMs s" "retryDelayMs s \<le> kMaxRetryDelayMs"
    "cn_open s \<subseteq> {fd}" "cn_timers s = []"
    "cn_posted s = 0 \<and> cn_channel s = None \<or>
     cn_posted s = 1 \<and> (\<exists>p f. cn_channel s = Some p \<and> ep_abs (cn_poller s) p = Some (f, 0, False))"
  shows "gives (Inr (retry fd s)) (fail_view (connector_abs s))"
proof (rule givesI)
  have empty: "cn_open s - {fd} = {}" using assms(4) by blast
  show "connector_ok (retry fd s)"
    using assms(1-3,5,6) empty
    by (auto simp: connector_ok_def retry_def cn_runAfter_def resting_ok_def Let_def
        kInitRetryDelayMs_def kMaxRetryDelayMs_def)
  show "connector_abs (retry fd s) = fail_view (connector_abs s)"
    using assms(5) by (simp add: connector_abs_def retry_def fail_view_def cn_runAfter_def Let_def)
qed

lemma connecting_ok:
  assumes ok: "ep_ok ep" and new: "ep_objects ep p = None" "fd_free fd (ep_abs ep)"
  shows "\<exists>ep'. change_interest EnableWriting p (ep_put p (connector_channel fd) ep) = Inr ep' \<and>
    ep_ok ep' \<and> ep_abs ep' = (ep_abs ep)(p \<mapsto> (fd, kWriteEvent, True))"
proof -
  let ?ep = "ep_put p (connector_channel fd) ep"
  have put: "ep_ok ?ep" "ep_abs ?ep = (ep_abs ep)(p \<mapsto> (fd, 0, False))"
    using ep_put_ok[OF ok new(1), of "connector_channel fd"]
    by (simp_all add: connector_channel_def channel_new_def index_defs)
  have "fd_free fd (ep_abs ?ep)" using new(2) by (simp add: put(2) fd_free_def)
  with put(2) have "ep_pre (ep_abs ?ep) (EpChange p EnableWriting)" by simp
  from poll_set.exec_ok[OF put(1) this] put(2) show ?thesis by auto
qed

lemma attempt_gives:
  assumes ok: "connector_ok s" and st: "cn_state s = kDisconnected" "cn_timers s = []" "connect_flag s"
    and pre: "attempt_pre att (connector_abs s)"
  shows "gives (connector_connect att s) (attempt_view att (connector_abs s))"
proof -
  obtain fd e p where att: "att = (fd, e, p)" by (metis prod_cases3)
  have rest: "resting_ok s" "ep_ok (cn_poller s)" and d: "kInitRetryDelayMs \<le> retryDelayMs s"
    "retryDelayMs s \<le> kMaxRetryDelayMs"
    using ok st(1) by (simp_all add: connector_ok_def)
  have fd: "0 \<le> fd" "fd_free fd (ep_abs (cn_poller s))" "ep_objects (cn_poller s) p = None"
    using pre by (simp_all add: attempt_pre_def connector_abs_def att ep_abs_def)
  have ch: "cn_channel s = None" "cn_posted s = 0" "cn_open s = {}"
    using pre rest(1) by (auto simp: attempt_pre_def connector_abs_def att resting_ok_def split: if_splits)
  let ?s = "s\<lparr>cn_open := insert fd (cn_open s)\<rparr>"
  have abs: "connector_abs ?s = connector_abs s" using st by (simp add: connector_abs_def)
  consider "e \<in> {0, EINPROGRESS, EINTR, EISCONN}"
    | "e \<notin> {0, EINPROGRESS, EINTR, EISCONN}"
      "e \<in> {EAGAIN, EADDRINUSE, EADDRNOTAVAIL, ECONNREFUSED, ENETUNREACH}"
    | "e \<notin> {0, EINPROGRESS, EINTR, EISCONN}"
      "e \<notin> {EAGAIN, EADDRINUSE, EADDRNOTAVAIL, ECONNREFUSED, ENETUNREACH}" by blast
  then show ?thesis
  proof cases
    case 1
    obtain ep where ep: "change_interest EnableWriting p (ep_put p (connector_channel fd) (cn_poller s)) = Inr ep"
      "ep_ok ep" "ep_abs ep = (ep_abs (cn_poller s))(p \<mapsto> (fd, kWriteEvent, True))"
      using connecting_ok[OF rest(2) fd(3,2)] by blast
    let ?t = "?s\<lparr>cn_state := kConnecting, cn_channel := Some p, cn_poller := ep\<rparr>"
    have "connector_connect att s = Inr ?t"
      using 1 fd(1) ch(1) ep(1)
      by (simp add: connector_connect_def att createNonblockingOrDie_def connecting_def Let_def)
    moreover have "connector_ok ?t"
      using ep(2,3) d ch st(2) by (simp add: connector_ok_def trying_ok_def)
    moreover have "connector_abs ?t = attempt_view att (connector_abs s)"
      using 1 ch st ep(3) by (simp add: connector_abs_def attempt_view_def att)
    ultimately show ?thesis by (simp add: givesI)
  next
    case 2
    have "gives (Inr (retry fd ?s)) (fail_view (connector_abs ?s))"
      by (rule retry_gives) (use rest d st(2) ch in simp_all)
    moreover have "connector_connect att s = Inr (retry fd ?s)"
      unfolding connector_connect_def att createNonblockingOrDie_def using 2 fd(1)
      by (simp only: Let_def split_conv not_less[symmetric] if_True if_False bindR.simps)
    moreover have "attempt_view att (connector_abs s) = fail_view (connector_abs s)"
      unfolding attempt_view_def att using 2 by (simp only: Let_def split_conv if_True if_False)
    ultimately show ?thesis by (simp only: abs)
  next
    case 3
    let ?t = "?s\<lparr>cn_open := cn_open ?s - {fd}\<rparr>"
    have "connector_connect att s = Inr ?t"
      unfolding connector_connect_def att createNonblockingOrDie_def using 3 fd(1)
      by (simp only: Let_def split_conv not_less[symmetric] if_True if_False bindR.simps)
    moreover have t: "?t = s" using ch(3) by simp
    moreover have "attempt_view att (connector_abs s) = (connector_abs s)\<lparr>doing := Idle\<rparr>"
      unfolding attempt_view_def att using 3 by (simp only: Let_def split_conv if_True if_False)
    moreover have "doing (connector_abs s) = Idle" using st by (simp add: connector_abs_def)
    ultimately show ?thesis using ok by (simp add: gives_def)
  qed
qed

lemma remove_gives:
  assumes ok: "ep_ok (cn_poller s)" and ch: "cn_channel s = Some p"
    and v: "ep_abs (cn_poller s) p = Some (fd, e, True)"
  shows "\<exists>ep. removeAndResetChannel s = Inr (fd, s\<lparr>cn_poller := ep, cn_posted := cn_posted s + 1\<rparr>) \<and>
    ep_ok ep \<and> ep_abs ep = (ep_abs (cn_poller s))(p \<mapsto> (fd, 0, False))"
proof -
  have "ep_pre (ep_abs (cn_poller s)) (EpChange p DisableAll)" using v by simp
  from poll_set.exec_ok[OF ok this] v obtain ep1 where
    ep1: "change_interest DisableAll p (cn_poller s) = Inr ep1" "ep_ok ep1"
      "ep_abs ep1 = (ep_abs (cn_poller s))(p \<mapsto> (fd, 0, True))"
    by (auto simp: kNoneEvent_def)
  then have "ep_pre (ep_abs ep1) (EpRemove p)" by simp
  from poll_set.exec_ok[OF ep1(2) this] ep1(3) obtain ep2 where
    ep2: "ep_removeChannel p ep1 = Inr ep2" "ep_ok ep2"
      "ep_abs ep2 = (ep_abs (cn_poller s))(p \<mapsto> (fd, 0, False))" by auto
  then have "ep_abs ep2 p = Some (fd, 0, False)" by simp
  then obtain c where "ep_deref ep2 p = Inr c" "ch_fd c = fd" by (auto simp: ep_abs_def ep_deref_def)
  with ch ep1(1) ep2(1) have
    "removeAndResetChannel s = Inr (fd, s\<lparr>cn_poller := ep2, cn_posted := cn_posted s + 1\<rparr>)"
    by (simp add: removeAndResetChannel_def)
  with ep2(2,3) show ?thesis by blast
qed

text \<open>An attempt that is being made: what its end leaves, and how it is handled.\<close>

lemma trying_end:
  assumes ok: "connector_ok s" and st: "cn_state s = kConnecting"
  shows "\<exists>p fd ep. cn_channel s = Some p \<and> ep_abs (cn_poller s) p = Some (fd, kWriteEvent, True) \<and>
    removeAndResetChannel s = Inr (fd, s\<lparr>cn_poller := ep, cn_posted := 1\<rparr>) \<and> ep_ok ep \<and>
    ep_abs ep = (ep_abs (cn_poller s))(p \<mapsto> (fd, 0, False)) \<and> cn_open s = {fd} \<and>
    cn_posted s = 0 \<and> cn_timers s = [] \<and> doing (connector_abs s) = Trying p fd \<and>
    gives (Inr (retry fd (s\<lparr>cn_poller := ep, cn_posted := 1\<rparr>)))
      (fail_view (ended_view p fd (connector_abs s)))"
proof -
  have ep0: "ep_ok (cn_poller s)" and d: "kInitRetryDelayMs \<le> retryDelayMs s"
    "retryDelayMs s \<le> kMaxRetryDelayMs" and "trying_ok s"
    using ok st by (simp_all add: connector_ok_def)
  then obtain p fd where p: "cn_channel s = Some p" "ep_abs (cn_poller s) p = Some (fd, kWriteEvent, True)"
    "cn_open s = {fd}" "cn_posted s = 0" "cn_timers s = []" by (auto simp: trying_ok_def)
  from remove_gives[OF ep0 p(1,2)] p(4) obtain ep where
    ep: "removeAndResetChannel s = Inr (fd, s\<lparr>cn_poller := ep, cn_posted := 1\<rparr>)" "ep_ok ep"
      "ep_abs ep = (ep_abs (cn_poller s))(p \<mapsto> (fd, 0, False))" by auto
  let ?t = "s\<lparr>cn_poller := ep, cn_posted := 1\<rparr>"
  have "gives (Inr (retry fd ?t)) (fail_view (connector_abs ?t))"
    by (rule retry_gives) (use ep d p in auto)
  moreover have "fail_view (connector_abs ?t) = fail_view (ended_view p fd (connector_abs s))"
    using p ep(3) by (simp add: connector_abs_def ended_view_def fail_view_def)
  moreover have "doing (connector_abs s) = Trying p fd" using st p by (simp add: connector_abs_def)
  ultimately show ?thesis using p ep by metis
qed

lemma handleError_gives:
  assumes "connector_ok s" "doing (connector_abs s) = Trying p fd"
  shows "gives (connector_handleError s) (fail_view (ended_view p fd (connector_abs s)))"
proof -
  have st: "cn_state s = kConnecting"
    using assms(2) by (auto simp: connector_abs_def split: states.splits list.splits)
  from trying_end[OF assms(1) st] assms(2) show ?thesis
    by (auto simp: connector_handleError_def st)
qed

lemma handleWrite_gives:
  assumes ok: "connector_ok s" and tr: "doing (connector_abs s) = Trying p fd"
    and info: "fst (snd info) \<noteq> None"
  shows "gives (connector_handleWrite info s)
    (if socket_good info
     then (ended_view p fd (connector_abs s))\<lparr>doing := Linked,
            handed := handed (connector_abs s) @ (if wanted (connector_abs s) then [fd] else [])\<rparr>
     else fail_view (ended_view p fd (connector_abs s)))"
proof -
  have st: "cn_state s = kConnecting"
    using tr by (auto simp: connector_abs_def split: states.splits list.splits)
  obtain err l peer where i: "info = (err, Some l, peer)" using info by (cases info) auto
  from trying_end[OF ok st] tr obtain ep where
    e: "cn_channel s = Some p" "ep_abs (cn_poller s) p = Some (fd, kWriteEvent, True)"
      "removeAndResetChannel s = Inr (fd, s\<lparr>cn_poller := ep, cn_posted := 1\<rparr>)" "ep_ok ep"
      "ep_abs ep = (ep_abs (cn_poller s))(p \<mapsto> (fd, 0, False))" "cn_open s = {fd}"
      "cn_timers s = []"
      "gives (Inr (retry fd (s\<lparr>cn_poller := ep, cn_posted := 1\<rparr>))) (fail_view (ended_view p fd (connector_abs s)))"
    by auto
  show ?thesis
  proof (cases "socket_good info")
    case False
    then have "connector_handleWrite info s = Inr (retry fd (s\<lparr>cn_poller := ep, cn_posted := 1\<rparr>))"
      using st e(3) by (auto simp: connector_handleWrite_def i socket_good_def getLocalAddr_def)
    with e(8) False show ?thesis by simp
  next
    case True
    let ?t = "s\<lparr>cn_poller := ep, cn_posted := 1, cn_state := kConnected, cn_open := {},
      cn_handed := cn_handed s @ (if connect_flag s then [fd] else [])\<rparr>"
    have "connector_handleWrite info s = Inr ?t"
      using True st e(3,6) by (simp add: connector_handleWrite_def i socket_good_def getLocalAddr_def Let_def)
    moreover have "connector_ok ?t"
      using ok st e by (simp add: connector_ok_def resting_ok_def)
    moreover have "connector_abs ?t = (ended_view p fd (connector_abs s))\<lparr>doing := Linked,
        handed := handed (connector_abs s) @ (if wanted (connector_abs s) then [fd] else [])\<rparr>"
      using e by (simp add: connector_abs_def ended_view_def)
    ultimately show ?thesis using True by (simp add: givesI)
  qed
qed

text \<open>A late write event of an attempt that has already failed is ignored.\<close>

lemma handleWrite_late:
  "doing (connector_abs s) \<in> {Idle, Waiting d} \<Longrightarrow> cn_state s \<noteq> kConnecting \<Longrightarrow>
   connector_handleWrite info s = Inr s"
  by (cases "cn_state s") (auto simp: connector_handleWrite_def connector_abs_def)

lemma connector_due:
  "due_callbacks ((connector_channel fd)\<lparr>revents := ev\<rparr>) =
    (if callback_bits ErrorCb ev then [ErrorCb] else []) @ (if callback_bits WriteCb ev then [WriteCb] else [])"
  by (simp add: due_callbacks_def connector_channel_def channel_new_def del: callback_bits.simps)

lemma fail_view_doing: "doing (fail_view a) \<in> {Idle, Waiting (delay a)}"
  by (simp add: fail_view_def)

lemma events_gives:
  assumes ok: "connector_ok s" and info: "fst (snd info) \<noteq> None"
  shows "gives (connector_events ev info s) (connector_spec (connector_abs s) (CnEvents ev info))"
proof (cases "cn_state s = kConnecting")
  case True
  from trying_end[OF ok True] obtain p fd where
    p: "cn_channel s = Some p" "ep_abs (cn_poller s) p = Some (fd, kWriteEvent, True)"
      "doing (connector_abs s) = Trying p fd" by blast
  obtain c where c: "ep_objects (cn_poller s) p = Some c" "ch_fd c = fd" "events c = kWriteEvent"
    "ch_index c \<noteq> kNew" using p(2) by (auto simp: ep_abs_def)
  have epk: "ep_ok (cn_poller s)" using ok by (simp add: connector_ok_def)
  have "events c \<noteq> 0" using c(3) by (simp add: kWriteEvent_def POLLOUT_def)
  then have "ep_interest (cn_poller s) fd = Some (events c, p)"
    using interest_of[OF epk c(1,4)] ep_okD(2,4)[OF epk c(1)] c(2,4) by auto
  then have run: "connector_events ev info s = run_ops (connector_callback info) s
      ((if callback_bits ErrorCb ev then [ErrorCb] else []) @ (if callback_bits WriteCb ev then [WriteCb] else []))"
    using p(1) c(1,2) by (simp add: connector_events_def ep_deref_def connector_due del: callback_bits.simps)
  show ?thesis
  proof (cases "callback_bits ErrorCb ev")
    case err: True
    from handleError_gives[OF ok p(3)] obtain s1 where
      s1: "connector_handleError s = Inr s1" "connector_ok s1"
        "connector_abs s1 = fail_view (ended_view p fd (connector_abs s))" by (auto simp: gives_def)
    have "cn_state s1 \<noteq> kConnecting"
      using s1(3) fail_view_doing[of "ended_view p fd (connector_abs s)"] trying_end[OF s1(2)] by force
    then have "connector_handleWrite info s1 = Inr s1"
      using handleWrite_late[of s1] fail_view_doing[of "ended_view p fd (connector_abs s)"] by (simp add: s1(3))
    with run err s1 p(3) show ?thesis by (simp add: gives_def del: callback_bits.simps)
  next
    case False
    with handleWrite_gives[OF ok p(3) info] run p(3) ok show ?thesis
      by (cases "callback_bits WriteCb ev") (simp_all add: bind_return gives_def del: callback_bits.simps)
  qed
next
  case False
  then have rest: "resting_ok s" using ok by (simp add: connector_ok_def)
  have "connector_events ev info s = Inr s"
  proof (cases "cn_channel s")
    case (Some p)
    then obtain fd where "ep_abs (cn_poller s) p = Some (fd, 0, False)" using rest by (auto simp: resting_ok_def)
    then obtain c where c: "ep_objects (cn_poller s) p = Some c" "ch_fd c = fd" "ch_index c = kNew"
      by (auto simp: ep_abs_def)
    have epk: "ep_ok (cn_poller s)" using ok by (simp add: connector_ok_def)
    have "ep_interest (cn_poller s) fd \<noteq> Some (events c, p)"
      using ep_okD(6)[OF epk, of fd "events c" p] c by (auto simp: index_defs)
    with Some c show ?thesis by (simp add: connector_events_def ep_deref_def)
  qed (simp add: connector_events_def)
  moreover have "doing (connector_abs s) \<noteq> Trying p fd" for p fd
    using False by (auto simp: connector_abs_def split: states.splits list.splits)
  ultimately show ?thesis using ok by (cases "doing (connector_abs s)") (auto simp: gives_def)
qed

lemma posted_gives:
  assumes ok: "connector_ok s"
  shows "gives (connector_pending s) (connector_spec (connector_abs s) CnPending)"
proof (cases "cn_posted s = 0")
  case True
  then have "connector_pending s = Inr s" by (simp add: connector_pending_def)
  with True ok show ?thesis by (simp add: gives_def connector_abs_def)
next
  case False
  then have ncon: "cn_state s \<noteq> kConnecting" and rest: "resting_ok s"
    using ok by (auto simp: connector_ok_def trying_ok_def split: if_splits)
  then obtain p fd where p: "cn_posted s = 1" "cn_channel s = Some p"
    "ep_abs (cn_poller s) p = Some (fd, 0, False)" using False by (auto simp: resting_ok_def)
  have "ep_ok (cn_poller s)" using ok by (simp add: connector_ok_def)
  moreover have "ep_pre (ep_abs (cn_poller s)) (EpDestroy p)" using p(3) by simp
  ultimately obtain ep where ep: "ep_exec (cn_poller s) (EpDestroy p) = Inr ep" "ep_ok ep"
    "ep_abs ep = (ep_abs (cn_poller s))(p := None)" using poll_set.exec_ok by fastforce
  let ?t = "s\<lparr>cn_posted := 0, cn_poller := ep, cn_channel := None\<rparr>"
  have "connector_pending s = Inr ?t"
    using p(1,2) ep(1) by (simp add: connector_pending_def resetChannel_def del: ep_exec.simps)
  moreover have "connector_ok ?t" using ok ncon rest ep(2) by (auto simp: connector_ok_def resting_ok_def)
  moreover have "connector_abs ?t = connector_spec (connector_abs s) CnPending"
    using ncon p ep(3) by (cases "cn_state s") (simp_all add: connector_abs_def)
  ultimately show ?thesis by (simp add: givesI)
qed

lemma stop_gives:
  assumes ok: "connector_ok s"
  shows "gives (Inr (connector_stop s)) (connector_spec (connector_abs s) CnStop)"
proof (cases "cn_timers s")
  case Nil
  then have "connector_stop s = s\<lparr>connect_flag := False\<rparr>"
    by (simp add: connector_stop_def cn_cancel_def)
  moreover have "connector_ok (s\<lparr>connect_flag := False\<rparr>)"
    using ok Nil by (auto simp: connector_ok_def trying_ok_def resting_ok_def split: if_splits)
  moreover have "connector_abs (s\<lparr>connect_flag := False\<rparr>) = connector_spec (connector_abs s) CnStop"
    using Nil by (auto simp: connector_abs_def split: states.splits option.splits)
  ultimately show ?thesis by (simp add: givesI)
next
  case (Cons x xs)
  then have "cn_state s \<noteq> kConnecting" "resting_ok s"
    using ok by (auto simp: connector_ok_def trying_ok_def split: if_splits)
  with Cons obtain d where d: "cn_timers s = [(timerId s, d)]" "cn_state s = kDisconnected"
    by (auto simp: resting_ok_def)
  let ?t = "s\<lparr>connect_flag := False, cn_timers := []\<rparr>"
  have "connector_stop s = ?t" using d(1) by (simp add: connector_stop_def cn_cancel_def)
  moreover have "connector_ok ?t"
    using ok d(2) by (auto simp: connector_ok_def resting_ok_def)
  moreover have "connector_abs ?t = connector_spec (connector_abs s) CnStop"
    using d by (simp add: connector_abs_def)
  ultimately show ?thesis by (simp add: givesI)
qed

lemma connector_exec_ok:
  assumes ok: "connector_ok s" and pre: "connector_pre (connector_abs s) x"
  shows "\<exists>s'. connector_exec s x = Inr s' \<and> connector_ok s' \<and>
    connector_abs s' = connector_spec (connector_abs s) x"
proof -
  have "gives (connector_exec s x) (connector_spec (connector_abs s) x)"
  proof (cases x)
    case (CnStart att)
    then have idle: "doing (connector_abs s) = Idle" and att: "attempt_pre att (connector_abs s)"
      using pre by simp_all
    have st: "cn_state s = kDisconnected"
    proof (cases "cn_state s")
      case kConnecting
      with trying_end[OF ok] idle show ?thesis by force
    qed (use idle in \<open>simp_all add: connector_abs_def\<close>)
    then have rest: "resting_ok s" using ok by (simp add: connector_ok_def)
    have t: "cn_timers s = []" by (rule resting_disconnected[OF rest idle st])
    let ?s = "s\<lparr>connect_flag := True\<rparr>"
    have a: "connector_abs ?s = (connector_abs s)\<lparr>wanted := True\<rparr>"
      using st t by (simp add: connector_abs_def)
    have "gives (connector_connect att ?s) (attempt_view att (connector_abs ?s))"
      by (rule attempt_gives) (use ok st t rest att in
        \<open>auto simp: connector_ok_def resting_ok_def attempt_pre_def a\<close>)
    then show ?thesis using CnStart st by (simp add: connector_start_def startInLoop_def a)
  next
    case (CnRestart att)
    then have ph: "doing (connector_abs s) \<in> {Idle, Linked}" and att: "attempt_pre att (connector_abs s)"
      using pre by auto
    have ncon: "cn_state s \<noteq> kConnecting" using trying_end[OF ok] ph by force
    then have rest: "resting_ok s" using ok by (simp add: connector_ok_def)
    have t: "cn_timers s = []"
      using ph rest by (auto simp: connector_abs_def resting_ok_def split: states.splits list.splits)
    let ?s = "s\<lparr>cn_state := kDisconnected, retryDelayMs := kInitRetryDelayMs, connect_flag := True\<rparr>"
    have a: "attempt_view att (connector_abs ?s) = connector_spec (connector_abs s) (CnRestart att)"
    proof -
      have "connector_abs ?s = (connector_abs s)\<lparr>wanted := True, delay := kInitRetryDelayMs, doing := Idle\<rparr>"
        using t by (simp add: connector_abs_def)
      then show ?thesis by (simp add: attempt_view_def fail_view_def split: prod.splits)
    qed
    have "gives (connector_connect att ?s) (attempt_view att (connector_abs ?s))"
      by (rule attempt_gives) (use ok ncon t rest att in
        \<open>auto simp: connector_ok_def resting_ok_def attempt_pre_def connector_abs_def kInitRetryDelayMs_def
          kMaxRetryDelayMs_def\<close>)
    then show ?thesis using CnRestart by (simp add: connector_restart_def startInLoop_def a)
  next
    case (CnTimer att)
    show ?thesis
    proof (cases "cn_timers s")
      case Nil
      then have "doing (connector_abs s) \<noteq> Waiting d" for d
        by (auto simp: connector_abs_def split: states.splits option.splits)
      with CnTimer Nil ok show ?thesis
        by (cases "doing (connector_abs s)") (auto simp: connector_timer_def gives_def)
    next
      case (Cons y ys)
      then have ncon: "cn_state s \<noteq> kConnecting" using ok by (auto simp: connector_ok_def trying_ok_def)
      then have rest: "resting_ok s" using ok by (simp add: connector_ok_def)
      with Cons obtain d where d: "cn_timers s = [(timerId s, d)]" "cn_state s = kDisconnected" "connect_flag s"
        by (auto simp: resting_ok_def)
      let ?s = "s\<lparr>cn_timers := []\<rparr>"
      have a: "connector_abs ?s = (connector_abs s)\<lparr>doing := Idle\<rparr>" using d by (simp add: connector_abs_def)
      have b: "attempt_view att (connector_abs ?s) = attempt_view att (connector_abs s)"
        by (simp add: a attempt_view_def fail_view_def split: prod.splits)
      have "gives (connector_connect att ?s) (attempt_view att (connector_abs ?s))"
        by (rule attempt_gives) (use ok d rest pre CnTimer in
          \<open>auto simp: connector_ok_def resting_ok_def attempt_pre_def a\<close>)
      moreover have "doing (connector_abs s) = Waiting d" using d by (simp add: connector_abs_def)
      ultimately show ?thesis using CnTimer d by (simp add: connector_timer_def startInLoop_def b)
    qed
  next
    case (CnEvents ev info)
    with events_gives[OF ok, of info ev] pre show ?thesis by (simp del: connector_spec.simps)
  next
    case CnPending
    with posted_gives[OF ok] show ?thesis by (simp del: connector_spec.simps)
  next
    case CnStop
    with stop_gives[OF ok] show ?thesis by (simp del: connector_spec.simps)
  qed
  then show ?thesis by (auto simp: gives_def)
qed

interpretation client_socket: contract connector_exec connector_ok connector_abs connector_pre connector_spec
  by unfold_locales (rule connector_exec_ok)

section \<open>Properties\<close>

lemma connector_new_ok:
  "ep_ok ep \<Longrightarrow> connector_ok (connector_new ep) \<and>
   connector_abs (connector_new ep) = \<lparr>wanted = False, doing = Idle, delay = kInitRetryDelayMs,
     doomed = None, handed = [], polled = ep_abs ep\<rparr>"
  by (simp add: connector_ok_def resting_ok_def connector_new_def connector_abs_def
      kInitRetryDelayMs_def kMaxRetryDelayMs_def)

lemma connector_sockets:
  assumes "connector_ok s"
  shows "cn_open s = (case doing (connector_abs s) of Trying p fd \<Rightarrow> {fd} | _ \<Rightarrow> {})"
proof (cases "cn_state s = kConnecting")
  case True
  from trying_end[OF assms True] obtain p fd where
    "cn_open s = {fd}" "doing (connector_abs s) = Trying p fd" by blast
  then show ?thesis by simp
next
  case False
  then have "cn_open s = {}" using assms by (simp add: connector_ok_def resting_ok_def)
  moreover have "doing (connector_abs s) \<noteq> Trying p fd" for p fd
    using False by (auto simp: connector_abs_def split: states.splits list.splits)
  ultimately show ?thesis by (auto split: phase.splits)
qed

text \<open>
  C12: The connector implements its abstract automaton, under the rules of its client: it starts
  only when nothing is going on, restarts only then or after a connection, and a new attempt gets
  a free descriptor and begins only when the channel of the last one is deleted; and the kernel can
  name the local address of a socket. Every sequence of
  starts, stops, restarts, events, timers and posted functors that keeps these rules succeeds, no
  assert of the connector, the poller or the channel fails, and what a client sees is what the
  automaton says. The connector owns one open socket while an attempt is being made and none
  otherwise, so each socket it creates is handed over or closed; and the delay of a retry is
  between half a second and thirty seconds. The rule about starting is needed: in every reached
  state in which it is connecting or connected, start fails its assert.
\<close>

theorem connector_refines:
  assumes "ep_ok ep" "admissible connector_pre connector_spec (connector_abs (connector_new ep)) ops"
  shows "\<exists>s. run_ops connector_exec (connector_new ep) ops = Inr s \<and>
    connector_abs s = foldl connector_spec (connector_abs (connector_new ep)) ops \<and>
    cn_open s = (case doing (connector_abs s) of Trying p fd \<Rightarrow> {fd} | _ \<Rightarrow> {}) \<and>
    500 \<le> retryDelayMs s \<and> retryDelayMs s \<le> 30000 \<and>
    (doing (connector_abs s) = Linked \<or> (\<exists>p fd. doing (connector_abs s) = Trying p fd) \<longrightarrow>
      connector_exec s (CnStart att) = Inl AssertFail)"
proof -
  have "connector_ok (connector_new ep)" using connector_new_ok[OF assms(1)] by simp
  from client_socket.run_ok[OF this assms(2)] obtain s where
    s: "run_ops connector_exec (connector_new ep) ops = Inr s" "connector_ok s"
      "connector_abs s = foldl connector_spec (connector_abs (connector_new ep)) ops" by blast
  moreover have "500 \<le> retryDelayMs s" "retryDelayMs s \<le> 30000"
    using s(2) by (simp_all add: connector_ok_def kInitRetryDelayMs_def kMaxRetryDelayMs_def)
  moreover have "connector_exec s (CnStart att) = Inl AssertFail"
    if "doing (connector_abs s) = Linked \<or> (\<exists>p fd. doing (connector_abs s) = Trying p fd)"
  proof -
    have "cn_state s \<noteq> kDisconnected" using that by (auto simp: connector_abs_def split: list.splits prod.splits)
    then show ?thesis by (simp add: connector_start_def startInLoop_def)
  qed
  ultimately show ?thesis using connector_sockets[OF s(2)] by blast
qed

text \<open>A refused attempt, one that fails later, and one that succeeds.\<close>

definition third_time :: "connector_op list" where
  "third_time = [CnStart (5, ECONNREFUSED, 64), CnTimer (5, EINPROGRESS, 64),
     CnEvents (POLLERR OR POLLOUT) (111, Some sockaddr_zero, None), CnPending,
     CnTimer (5, EINPROGRESS, 64), CnEvents POLLOUT (0, Some sockaddr_zero, Some (sockaddr_zero\<lparr>sin_port := 1\<rparr>)), CnPending]"

lemmas connector_eval = attempt_pre_def attempt_view_def fail_view_def ended_view_def
  socket_good_def poll_flags fd_free_def accept_errnos EINPROGRESS_def EISCONN_def EADDRINUSE_def
  EADDRNOTAVAIL_def ECONNREFUSED_def ENETUNREACH_def kInitRetryDelayMs_def kMaxRetryDelayMs_def
  isSelfConnect_def getPeerAddr_def sockaddr_zero_def

theorem connector_refines_witness:
  "\<exists>s. run_ops connector_exec (connector_new ep_new) third_time = Inr s \<and>
    handed (connector_abs s) = [5] \<and> cn_open s = {}"
proof -
  have a: "connector_abs (connector_new ep_new) = \<lparr>wanted = False, doing = Idle,
      delay = kInitRetryDelayMs, doomed = None, handed = [], polled = Map.empty\<rparr>"
    using connector_new_ok[OF ep_new_ok] by (simp add: ep_new_abs)
  have adm: "admissible connector_pre connector_spec (connector_abs (connector_new ep_new)) third_time"
    unfolding a by (simp add: third_time_def connector_eval)
  have "foldl connector_spec (connector_abs (connector_new ep_new)) third_time =
    \<lparr>wanted = True, doing = Linked, delay = 2000, doomed = None, handed = [5], polled = Map.empty\<rparr>"
    unfolding a by (simp add: third_time_def connector_eval)
  with connector_refines[OF ep_new_ok adm, of "(5, EINPROGRESS, 64)"] show ?thesis
    by (auto simp del: connector_exec.simps)
qed

text \<open>After the k-th refusal.\<close>

definition refused_view :: "nat \<Rightarrow> connector_view" where
  "refused_view k = \<lparr>wanted = True, doing = Waiting (min (500 * 2 ^ k) 30000),
     delay = min (500 * 2 ^ Suc k) 30000, doomed = None, handed = [], polled = Map.empty\<rparr>"

lemma refused_again:
  assumes "0 \<le> fd"
  shows "connector_pre (refused_view k) (CnTimer (fd, ECONNREFUSED, p)) \<and>
    connector_spec (refused_view k) (CnTimer (fd, ECONNREFUSED, p)) = refused_view (Suc k)"
  using assms by (simp add: refused_view_def connector_eval)

lemma refused_repeatedly:
  assumes "0 \<le> fd"
  shows "admissible connector_pre connector_spec (refused_view j) (replicate k (CnTimer (fd, ECONNREFUSED, p))) \<and>
    foldl connector_spec (refused_view j) (replicate k (CnTimer (fd, ECONNREFUSED, p))) = refused_view (j + k)"
  using refused_again[OF assms]
  by (induction k arbitrary: j) (simp_all del: connector_pre.simps connector_spec.simps)

text \<open>
  C38: The delays double. When the server refuses every attempt, the delay before the next one
  after k retries is 500 ms times 2 to the k, but never more than 30 s.
\<close>

theorem connector_backoff:
  assumes "0 \<le> fd"
  shows "\<exists>s. run_ops connector_exec (connector_new ep_new)
      (CnStart (fd, ECONNREFUSED, p) # replicate k (CnTimer (fd, ECONNREFUSED, p))) = Inr s \<and>
    cn_timers s = [(timerId s, min (500 * 2 ^ k) 30000)]"
proof -
  let ?x = "CnStart (fd, ECONNREFUSED, p)" and ?xs = "replicate k (CnTimer (fd, ECONNREFUSED, p))"
  let ?a = "connector_abs (connector_new ep_new)"
  have a: "?a = \<lparr>wanted = False, doing = Idle, delay = kInitRetryDelayMs, doomed = None, handed = [],
      polled = Map.empty\<rparr>" and ok: "connector_ok (connector_new ep_new)"
    using connector_new_ok[OF ep_new_ok] by (simp_all add: ep_new_abs)
  have first: "connector_pre ?a ?x" "connector_spec ?a ?x = refused_view 0"
    unfolding a using assms by (simp_all add: refused_view_def connector_eval)
  have "admissible connector_pre connector_spec ?a (?x # ?xs)"
    using first refused_repeatedly[OF assms] by (simp del: connector_pre.simps connector_spec.simps)
  from client_socket.run_ok[OF ok this] obtain s where
    s: "run_ops connector_exec (connector_new ep_new) (?x # ?xs) = Inr s" "connector_ok s"
      "connector_abs s = foldl connector_spec ?a (?x # ?xs)" by blast
  have "foldl connector_spec ?a (?x # ?xs) = refused_view k"
    using first(2) refused_repeatedly[OF assms, of 0 k p] by (simp del: connector_spec.simps)
  with s(3) have w: "doing (connector_abs s) = Waiting (min (500 * 2 ^ k) 30000)"
    by (simp add: refused_view_def)
  have ncon: "cn_state s \<noteq> kConnecting" using trying_end[OF s(2)] w by force
  then have "resting_ok s" using s(2) by (simp add: connector_ok_def)
  with w have "cn_timers s = [(timerId s, min (500 * 2 ^ k) 30000)]"
    using ncon by (cases "cn_state s") (auto simp: connector_abs_def resting_ok_def)
  with s(1) show ?thesis by blast
qed

theorem connector_backoff_witness:
  "\<exists>s. run_ops connector_exec (connector_new ep_new)
      (CnStart (5, ECONNREFUSED, 64) # replicate 7 (CnTimer (5, ECONNREFUSED, 64))) = Inr s \<and>
    cn_timers s = [(timerId s, 30000)]"
  using connector_backoff[of 5 64 7] by simp

text \<open>
  stop() gives up the attempts to come, not the one that is being made: its channel stays
  registered, and the destructor of a connector stopped there fails its assert.
\<close>

theorem stopped_while_trying:
  assumes "connector_ok s" "cn_state s = kConnecting"
  shows "connector_destroy (connector_stop s) = Inl AssertFail"
proof -
  obtain p where "cn_channel s = Some p" using trying_end[OF assms] by blast
  then show ?thesis by (simp add: connector_destroy_def connector_stop_def cn_cancel_def)
qed

theorem stopped_while_trying_witness:
  "\<exists>s. run_ops connector_exec (connector_new ep_new) [CnStart (5, EINPROGRESS, 64)] = Inr s \<and>
    connector_destroy (connector_stop s) = Inl AssertFail"
proof -
  let ?x = "CnStart (5, EINPROGRESS, 64)"
  let ?a = "connector_abs (connector_new ep_new)"
  have a: "?a = \<lparr>wanted = False, doing = Idle, delay = kInitRetryDelayMs, doomed = None, handed = [],
      polled = Map.empty\<rparr>" and ok: "connector_ok (connector_new ep_new)"
    using connector_new_ok[OF ep_new_ok] by (simp_all add: ep_new_abs)
  have "admissible connector_pre connector_spec ?a [?x]" unfolding a by (simp add: connector_eval)
  from client_socket.run_ok[OF ok this] obtain s where
    s: "run_ops connector_exec (connector_new ep_new) [?x] = Inr s" "connector_ok s"
      "connector_abs s = connector_spec ?a ?x" by (auto simp del: connector_spec.simps)
  have "doing (connector_abs s) = Trying 64 5" unfolding s(3) a by (simp add: connector_eval)
  then have "cn_state s = kConnecting"
    by (auto simp: connector_abs_def split: states.splits list.splits)
  from stopped_while_trying[OF s(2) this] s(1) show ?thesis by blast
qed

end
