(* ===== verification/TcpClient.thy ===== *)
theory TcpClient
  imports Connector
begin

text \<open>
  net/TcpClient.h, net/TcpClient.cc: one connection to a server, made by a connector, and made
  again when it is lost if the user enabled that. The connection is what the client holds of it
  (\<open>TcpConnection\<close> is its own life): its name and its descriptor. \<open>ntop\<close> is \<^verbatim>\<open>inet_ntop\<close>.
\<close>

section \<open>State\<close>

record client_conn =
  cc_name :: string
  cc_fd :: int
  cc_shutdown :: bool

record client =
  tc_connector :: connector
  retry_flag :: bool
  tc_connect_flag :: bool
  tc_nextConnId :: int
  connection :: "client_conn option"
  tc_destroying :: "client_conn list"

definition client_new :: "epoller \<Rightarrow> client" where
  "client_new ep = \<lparr>tc_connector = connector_new ep, retry_flag = False, tc_connect_flag = True,
     tc_nextConnId = 1, connection = None, tc_destroying = []\<rparr>"

section \<open>The calls of the user\<close>

definition enableRetry :: "client \<Rightarrow> client" where
  "enableRetry s = s\<lparr>retry_flag := True\<rparr>"

definition client_connect :: "attempt \<Rightarrow> client \<Rightarrow> client res" where
  "client_connect att s =
     bindR (connector_start att (tc_connector s)) (\<lambda>c.
     Inr (s\<lparr>tc_connect_flag := True, tc_connector := c\<rparr>))"

definition client_disconnect :: "client \<Rightarrow> client" where
  "client_disconnect s =
     (let s1 = s\<lparr>tc_connect_flag := False\<rparr> in
      case connection s1 of
        None \<Rightarrow> s1
      | Some c \<Rightarrow> s1\<lparr>connection := Some (c\<lparr>cc_shutdown := True\<rparr>)\<rparr>)"

definition client_stop :: "client \<Rightarrow> client" where
  "client_stop s = s\<lparr>tc_connect_flag := False, tc_connector := connector_stop (tc_connector s)\<rparr>"

section \<open>A connection comes and goes\<close>

definition client_conn_name :: "(32 word \<Rightarrow> string option) \<Rightarrow> sockaddr_in \<Rightarrow> int \<Rightarrow> string" where
  "client_conn_name ntop peerAddr i =
     snprintf 32 ('':'' @ inet_toHostPort ntop peerAddr @ ''#'' @ convert i)"

definition client_newConnection ::
  "(32 word \<Rightarrow> string option) \<Rightarrow> sock_info \<Rightarrow> int \<Rightarrow> client \<Rightarrow> client res" where
  "client_newConnection ntop info sockfd s =
     (let (err, local, peer) = info;
          connName = client_conn_name ntop (getPeerAddr peer) (tc_nextConnId s) in
      if tc_nextConnId s \<ge> 2 ^ 31 - 1 then Inl SignedOverflow
      else
      bindR (getLocalAddr local) (\<lambda>_.
      Inr (s\<lparr>tc_nextConnId := tc_nextConnId s + 1,
             connection := Some \<lparr>cc_name = connName, cc_fd = sockfd, cc_shutdown = False\<rparr>\<rparr>)))"

definition client_removeConnection :: "attempt \<Rightarrow> client_conn \<Rightarrow> client \<Rightarrow> client res" where
  "client_removeConnection att conn s =
     bindR (assertR (connection s = Some conn)) (\<lambda>_.
     let s1 = s\<lparr>connection := None, tc_destroying := tc_destroying s @ [conn]\<rparr> in
     if retry_flag s1 \<and> tc_connect_flag s1
     then bindR (connector_restart att (tc_connector s1)) (\<lambda>c. Inr (s1\<lparr>tc_connector := c\<rparr>))
     else Inr s1)"

text \<open>
  The handlers of the connector, where handing over a socket is the last thing it does: the
  client makes a connection of it. The present connection handles its close.
\<close>

definition client_events ::
  "(32 word \<Rightarrow> string option) \<Rightarrow> 32 word \<Rightarrow> sock_info \<Rightarrow> client \<Rightarrow> client res" where
  "client_events ntop ev info s =
     bindR (connector_events ev info (tc_connector s)) (\<lambda>c.
     case drop (length (cn_handed (tc_connector s))) (cn_handed c) of
       [] \<Rightarrow> Inr (s\<lparr>tc_connector := c\<rparr>)
     | fd # _ \<Rightarrow> client_newConnection ntop info fd (s\<lparr>tc_connector := c\<rparr>))"

definition client_closed :: "attempt \<Rightarrow> client \<Rightarrow> client res" where
  "client_closed att s =
     (case connection s of None \<Rightarrow> Inr s | Some conn \<Rightarrow> client_removeConnection att conn s)"

definition client_timer :: "attempt \<Rightarrow> client \<Rightarrow> client res" where
  "client_timer att s =
     bindR (connector_timer att (tc_connector s)) (\<lambda>c. Inr (s\<lparr>tc_connector := c\<rparr>))"

definition client_pending :: "client \<Rightarrow> client res" where
  "client_pending s =
     bindR (connector_pending (tc_connector s)) (\<lambda>c. Inr (s\<lparr>tc_connector := c, tc_destroying := []\<rparr>))"

text \<open>
  The destructor. With a connection the connector goes at once; without one it is stopped and
  goes a second later, when the functor that holds it has run.
\<close>

definition client_destroy :: "client \<Rightarrow> client res" where
  "client_destroy s =
     (case connection s of
        Some conn \<Rightarrow> bindR (connector_destroy (tc_connector s)) (\<lambda>c. Inr (s\<lparr>tc_connector := c\<rparr>))
      | None \<Rightarrow> Inr (s\<lparr>tc_connector := connector_stop (tc_connector s)\<rparr>))"

definition removeConnector :: "client \<Rightarrow> client res" where
  "removeConnector s = bindR (connector_destroy (tc_connector s)) (\<lambda>c. Inr (s\<lparr>tc_connector := c\<rparr>))"

datatype client_op =
    TcConnect attempt | TcDisconnect | TcStop | TcEnableRetry
  | TcEvents "32 word" sock_info | TcClosed attempt | TcTimer attempt | TcPending

fun client_exec :: "(32 word \<Rightarrow> string option) \<Rightarrow> client \<Rightarrow> client_op \<Rightarrow> client res" where
  "client_exec ntop s (TcConnect att) = client_connect att s"
| "client_exec ntop s TcDisconnect = Inr (client_disconnect s)"
| "client_exec ntop s TcStop = Inr (client_stop s)"
| "client_exec ntop s TcEnableRetry = Inr (enableRetry s)"
| "client_exec ntop s (TcEvents ev info) = client_events ntop ev info s"
| "client_exec ntop s (TcClosed att) = client_closed att s"
| "client_exec ntop s (TcTimer att) = client_timer att s"
| "client_exec ntop s TcPending = client_pending s"

section \<open>The abstract client\<close>

text \<open>
  The automaton of the connector with the wishes of the user, the descriptor of the connection
  and the number of connections made.
\<close>

record client_view =
  socket :: connector_view
  keep :: bool
  wish :: bool
  connected_fd :: "int option"
  made :: int

definition client_abs :: "client \<Rightarrow> client_view" where
  "client_abs s = \<lparr>socket = connector_abs (tc_connector s), keep = retry_flag s,
     wish = tc_connect_flag s, connected_fd = map_option cc_fd (connection s),
     made = tc_nextConnId s - 1\<rparr>"

fun client_spec :: "client_view \<Rightarrow> client_op \<Rightarrow> client_view" where
  "client_spec a (TcConnect att) = a\<lparr>wish := True, socket := connector_spec (socket a) (CnStart att)\<rparr>"
| "client_spec a TcDisconnect = a\<lparr>wish := False\<rparr>"
| "client_spec a TcStop = a\<lparr>wish := False, socket := connector_spec (socket a) CnStop\<rparr>"
| "client_spec a TcEnableRetry = a\<lparr>keep := True\<rparr>"
| "client_spec a (TcEvents ev info) =
     (let b = connector_spec (socket a) (CnEvents ev info) in
      case drop (length (handed (socket a))) (handed b) of
        [] \<Rightarrow> a\<lparr>socket := b\<rparr>
      | fd # _ \<Rightarrow> a\<lparr>socket := b, connected_fd := Some fd, made := made a + 1\<rparr>)"
| "client_spec a (TcClosed att) =
     (case connected_fd a of
        None \<Rightarrow> a
      | Some fd \<Rightarrow>
          if keep a \<and> wish a
          then a\<lparr>connected_fd := None, socket := connector_spec (socket a) (CnRestart att)\<rparr>
          else a\<lparr>connected_fd := None\<rparr>)"
| "client_spec a (TcTimer att) = a\<lparr>socket := connector_spec (socket a) (CnTimer att)\<rparr>"
| "client_spec a TcPending = a\<lparr>socket := connector_spec (socket a) CnPending\<rparr>"

fun client_pre :: "client_view \<Rightarrow> client_op \<Rightarrow> bool" where
  "client_pre a (TcConnect att) = connector_pre (socket a) (CnStart att)"
| "client_pre a (TcEvents ev info) = (connector_pre (socket a) (CnEvents ev info) \<and> made a < 2 ^ 31 - 2)"
| "client_pre a (TcClosed att) = attempt_pre att (socket a)"
| "client_pre a (TcTimer att) = connector_pre (socket a) (CnTimer att)"
| "client_pre a _ = True"

text \<open>While there is a connection, the connector has nothing to do.\<close>

definition client_ok :: "client \<Rightarrow> bool" where
  "client_ok s \<longleftrightarrow> connector_ok (tc_connector s) \<and> 1 \<le> tc_nextConnId s \<and>
     tc_nextConnId s = 1 + int (length (cn_handed (tc_connector s))) \<and>
     (connection s \<noteq> None \<longrightarrow> cn_state (tc_connector s) = kConnected)"

lemma linked_iff: "doing (connector_abs c) = Linked \<longleftrightarrow> cn_state c = kConnected"
  by (auto simp: connector_abs_def split: states.splits list.splits option.splits)

lemma handed_abs [simp]: "handed (connector_abs c) = cn_handed c"
  by (simp add: connector_abs_def)

text \<open>Only a successful attempt hands over a socket, and then one.\<close>

lemma attempt_view_handed [simp]: "handed (attempt_view att a) = handed a"
  by (simp add: attempt_view_def fail_view_def split: prod.splits)

lemma spec_handed:
  "(\<And>ev info. x \<noteq> CnEvents ev info) \<Longrightarrow> handed (connector_spec a x) = handed a"
  by (cases x) (auto split: phase.splits option.splits)

lemma events_handed:
  "let b = connector_spec a (CnEvents ev info) in
     handed b = handed a \<and> (doing a = Linked \<longrightarrow> doing b = Linked) \<or>
     (\<exists>fd. handed b = handed a @ [fd] \<and> doing b = Linked \<and> doing a \<noteq> Linked)"
  by (cases "doing a") (auto simp: fail_view_def ended_view_def Let_def simp del: callback_bits.simps)

lemma spec_linked:
  assumes "doing a = Linked" "\<And>att. y \<noteq> CnStart att" "\<And>att. y \<noteq> CnRestart att"
  shows "doing (connector_spec a y) = Linked"
  using assms by (cases y) (auto split: option.splits)

text \<open>An operation that is one call of the connector.\<close>

lemma delegated:
  assumes ok: "client_ok s" and pre: "connector_pre (connector_abs (tc_connector s)) y"
    and y: "\<And>ev info. y \<noteq> CnEvents ev info"
    and idle: "connection s = None \<or> (\<forall>att. y \<noteq> CnStart att \<and> y \<noteq> CnRestart att)"
  shows "\<exists>c. connector_exec (tc_connector s) y = Inr c \<and> client_ok (s\<lparr>tc_connector := c\<rparr>) \<and>
    connector_abs c = connector_spec (connector_abs (tc_connector s)) y"
proof -
  have "connector_ok (tc_connector s)" using ok by (simp add: client_ok_def)
  from client_socket.exec_ok[OF this pre] obtain c where
    c: "connector_exec (tc_connector s) y = Inr c" "connector_ok c"
      "connector_abs c = connector_spec (connector_abs (tc_connector s)) y" by blast
  have "cn_handed c = cn_handed (tc_connector s)"
    using spec_handed[OF y, of "connector_abs (tc_connector s)"] by (simp add: c(3)[symmetric])
  moreover have "cn_state c = kConnected" if "connection s \<noteq> None"
  proof -
    have "doing (connector_abs (tc_connector s)) = Linked" using that ok by (simp add: linked_iff client_ok_def)
    moreover have "y \<noteq> CnStart att" "y \<noteq> CnRestart att" for att using idle that by blast+
    ultimately have "doing (connector_abs c) = Linked" unfolding c(3) by (rule spec_linked)
    then show ?thesis by (simp add: linked_iff)
  qed
  ultimately have "client_ok (s\<lparr>tc_connector := c\<rparr>)" using ok c(2) by (simp add: client_ok_def)
  with c show ?thesis by blast
qed

lemma client_ok_flags [simp]:
  "client_ok (s\<lparr>tc_connect_flag := b\<rparr>) = client_ok s"
  "client_ok (s\<lparr>retry_flag := b\<rparr>) = client_ok s"
  "client_ok (s\<lparr>tc_destroying := q\<rparr>) = client_ok s"
  by (simp_all add: client_ok_def)

lemma client_events_ok:
  assumes ok: "client_ok s" and pre: "client_pre (client_abs s) (TcEvents ev info)"
  shows "\<exists>s'. client_events ntop ev info s = Inr s' \<and> client_ok s' \<and>
    client_abs s' = client_spec (client_abs s) (TcEvents ev info)"
proof -
  let ?a = "connector_abs (tc_connector s)" and ?x = "CnEvents ev info"
  have cok: "connector_ok (tc_connector s)" using ok by (simp add: client_ok_def)
  have cpre: "connector_pre ?a ?x" using pre by (simp add: client_abs_def)
  from client_socket.exec_ok[OF cok cpre] obtain c where
    c: "connector_events ev info (tc_connector s) = Inr c" "connector_ok c"
      "connector_abs c = connector_spec ?a ?x" by auto
  have cases: "cn_handed c = cn_handed (tc_connector s) \<and> (doing ?a = Linked \<longrightarrow> doing (connector_abs c) = Linked) \<or>
     (\<exists>fd. cn_handed c = cn_handed (tc_connector s) @ [fd] \<and> doing (connector_abs c) = Linked \<and> doing ?a \<noteq> Linked)"
    using events_handed[of ?a ev info] by (simp add: c(3)[symmetric] Let_def del: connector_spec.simps)
  show ?thesis
  proof (cases "cn_handed c = cn_handed (tc_connector s)")
    case True
    then have "client_ok (s\<lparr>tc_connector := c\<rparr>)"
      using ok c(2) cases by (auto simp: client_ok_def linked_iff)
    moreover have "client_events ntop ev info s = Inr (s\<lparr>tc_connector := c\<rparr>)"
      using c(1) True by (simp add: client_events_def)
    moreover have "client_spec (client_abs s) (TcEvents ev info) = client_abs (s\<lparr>tc_connector := c\<rparr>)"
      using True by (simp add: client_abs_def c(3)[symmetric] Let_def del: connector_spec.simps)
    ultimately show ?thesis by auto
  next
    case False
    with cases obtain fd where fd: "cn_handed c = cn_handed (tc_connector s) @ [fd]"
      "cn_state c = kConnected" "cn_state (tc_connector s) \<noteq> kConnected" by (auto simp: linked_iff)
    obtain err l peer where info: "info = (err, Some l, peer)" using cpre by (cases info) auto
    let ?c = "\<lparr>cc_name = client_conn_name ntop (getPeerAddr peer) (tc_nextConnId s), cc_fd = fd, cc_shutdown = False\<rparr>"
    let ?s = "s\<lparr>tc_connector := c, tc_nextConnId := tc_nextConnId s + 1, connection := Some ?c\<rparr>"
    have "tc_nextConnId s < 2 ^ 31 - 1" using pre by (simp add: client_abs_def)
    then have "client_events ntop ev info s = Inr ?s"
      using c(1) fd(1) by (simp add: client_events_def client_newConnection_def info getLocalAddr_def Let_def)
    moreover have "client_ok ?s" using ok c(2) fd by (simp add: client_ok_def)
    moreover have "client_abs ?s = client_spec (client_abs s) (TcEvents ev info)"
      using fd(1) by (simp add: client_abs_def c(3)[symmetric] Let_def del: connector_spec.simps)
    ultimately show ?thesis by blast
  qed
qed

lemma client_closed_ok:
  assumes ok: "client_ok s" and pre: "attempt_pre att (connector_abs (tc_connector s))"
  shows "\<exists>s'. client_closed att s = Inr s' \<and> client_ok s' \<and>
    client_abs s' = client_spec (client_abs s) (TcClosed att)"
proof (cases "connection s")
  case None
  with ok show ?thesis by (simp add: client_closed_def client_abs_def)
next
  case (Some conn)
  let ?s = "s\<lparr>connection := None, tc_destroying := tc_destroying s @ [conn]\<rparr>"
  have sok: "client_ok ?s" using ok by (simp add: client_ok_def)
  show ?thesis
  proof (cases "retry_flag s \<and> tc_connect_flag s")
    case False
    then have "client_closed att s = Inr ?s"
      using Some by (auto simp: client_closed_def client_removeConnection_def Let_def)
    moreover have "client_abs ?s = client_spec (client_abs s) (TcClosed att)"
      using Some False by (auto simp: client_abs_def)
    ultimately show ?thesis using sok by blast
  next
    case True
    have "doing (connector_abs (tc_connector s)) = Linked" using ok Some by (simp add: client_ok_def linked_iff)
    then have "connector_pre (connector_abs (tc_connector ?s)) (CnRestart att)" using pre by simp
    from delegated[OF sok this] obtain c where
      c: "connector_restart att (tc_connector s) = Inr c" "client_ok (?s\<lparr>tc_connector := c\<rparr>)"
        "connector_abs c = connector_spec (connector_abs (tc_connector s)) (CnRestart att)"
      by (auto simp del: connector_spec.simps)
    then have "client_closed att s = Inr (?s\<lparr>tc_connector := c\<rparr>)"
      using Some True by (auto simp: client_closed_def client_removeConnection_def Let_def)
    moreover have "client_abs (?s\<lparr>tc_connector := c\<rparr>) = client_spec (client_abs s) (TcClosed att)"
      using Some True c(3) by (simp add: client_abs_def del: connector_spec.simps)
    ultimately show ?thesis using c(2) by blast
  qed
qed

lemma client_exec_ok:
  assumes ok: "client_ok s" and pre: "client_pre (client_abs s) x"
  shows "\<exists>s'. client_exec ntop s x = Inr s' \<and> client_ok s' \<and> client_abs s' = client_spec (client_abs s) x"
proof (cases x)
  case (TcConnect att)
  then have p: "connector_pre (connector_abs (tc_connector s)) (CnStart att)"
    using pre by (simp add: client_abs_def)
  then have "cn_state (tc_connector s) \<noteq> kConnected" by (auto simp: linked_iff[symmetric])
  then have "connection s = None" using ok by (auto simp: client_ok_def)
  with delegated[OF ok p] obtain c where
    c: "connector_start att (tc_connector s) = Inr c" "client_ok (s\<lparr>tc_connector := c\<rparr>)"
      "connector_abs c = connector_spec (connector_abs (tc_connector s)) (CnStart att)"
    by (auto simp del: connector_spec.simps)
  then have "client_ok (s\<lparr>tc_connect_flag := True, tc_connector := c\<rparr>)" by (simp add: client_ok_def)
  with c TcConnect show ?thesis
    by (simp add: client_connect_def client_abs_def del: connector_spec.simps)
next
  case TcDisconnect
  with ok show ?thesis
    by (simp add: client_disconnect_def client_abs_def client_ok_def Let_def split: option.splits)
next
  case TcStop
  from delegated[OF ok, of CnStop] have
    c: "client_ok (s\<lparr>tc_connector := connector_stop (tc_connector s)\<rparr>)"
      "connector_abs (connector_stop (tc_connector s)) = connector_spec (connector_abs (tc_connector s)) CnStop"
    by (auto simp del: connector_spec.simps)
  then have "client_ok (client_stop s)" by (simp add: client_stop_def client_ok_def)
  with c TcStop show ?thesis
    by (simp add: client_stop_def client_abs_def del: connector_spec.simps)
next
  case TcEnableRetry
  with ok show ?thesis by (simp add: enableRetry_def client_abs_def)
next
  case (TcEvents ev info)
  with client_events_ok[OF ok] pre show ?thesis by (simp del: client_spec.simps client_pre.simps)
next
  case (TcClosed att)
  with client_closed_ok[OF ok, of att] pre show ?thesis
    by (simp add: client_abs_def del: client_spec.simps)
next
  case (TcTimer att)
  then have "connector_pre (connector_abs (tc_connector s)) (CnTimer att)"
    using pre by (simp add: client_abs_def)
  from delegated[OF ok this] TcTimer show ?thesis
    by (auto simp: client_timer_def client_abs_def simp del: connector_spec.simps)
next
  case TcPending
  from delegated[OF ok, of CnPending] obtain c where
    c: "connector_pending (tc_connector s) = Inr c" "client_ok (s\<lparr>tc_connector := c\<rparr>)"
      "connector_abs c = connector_spec (connector_abs (tc_connector s)) CnPending"
    by (auto simp del: connector_spec.simps)
  then have "client_ok (s\<lparr>tc_connector := c, tc_destroying := []\<rparr>)" by (simp add: client_ok_def)
  with c TcPending show ?thesis
    by (simp add: client_pending_def client_abs_def del: connector_spec.simps)
qed

interpretation tcp_client: contract "client_exec ntop" client_ok client_abs client_pre client_spec
  for ntop
  by unfold_locales (rule client_exec_ok)

section \<open>Properties\<close>

lemma client_new_ok:
  assumes "ep_ok ep"
  shows "client_ok (client_new ep)"
  using connector_new_ok[OF assms] by (simp add: client_ok_def client_new_def connector_new_def)

text \<open>
  C13: The client implements its automaton. Through every admissible sequence of calls, events of
  the connector, closes of the connection and timers nothing fails; every socket that the
  connector hands over becomes the connection, and no connection is ever overwritten: while there
  is one, the connector is at rest. In particular a lost connection is made again exactly when
  the user has enabled that and has not disconnected or stopped.
\<close>

theorem client_refines:
  assumes "ep_ok ep" "admissible client_pre client_spec (client_abs (client_new ep)) ops"
  shows "\<exists>s. run_ops (client_exec ntop) (client_new ep) ops = Inr s \<and>
    client_abs s = foldl client_spec (client_abs (client_new ep)) ops \<and>
    made (client_abs s) = int (length (handed (socket (client_abs s)))) \<and>
    (connection s \<noteq> None \<longrightarrow> doing (socket (client_abs s)) = Linked)"
proof -
  from tcp_client.run_ok[OF client_new_ok[OF assms(1)] assms(2), of ntop] obtain s where
    s: "run_ops (client_exec ntop) (client_new ep) ops = Inr s" "client_ok s"
      "client_abs s = foldl client_spec (client_abs (client_new ep)) ops" by blast
  moreover have "made (client_abs s) = int (length (handed (socket (client_abs s))))"
    using s(2) by (simp add: client_ok_def client_abs_def)
  moreover have "connection s \<noteq> None \<longrightarrow> doing (socket (client_abs s)) = Linked"
    using s(2) by (simp add: client_ok_def client_abs_def linked_iff)
  ultimately show ?thesis by blast
qed

text \<open>A connection is made, lost, and made again.\<close>

definition reconnecting :: "client_op list" where
  "reconnecting = [TcEnableRetry, TcConnect (5, EINPROGRESS, 64),
     TcEvents POLLOUT (0, Some sockaddr_zero, Some (sockaddr_zero\<lparr>sin_port := 1\<rparr>)), TcPending,
     TcClosed (6, EINPROGRESS, 64),
     TcEvents POLLOUT (0, Some sockaddr_zero, Some (sockaddr_zero\<lparr>sin_port := 1\<rparr>)), TcPending]"

lemma client_new_view:
  "client_abs (client_new ep_new) = \<lparr>socket = \<lparr>wanted = False, doing = Idle, delay = kInitRetryDelayMs,
     doomed = None, handed = [], polled = Map.empty\<rparr>, keep = False, wish = True,
     connected_fd = None, made = 0\<rparr>"
  using connector_new_ok[OF ep_new_ok] by (simp add: client_abs_def client_new_def ep_new_abs)

theorem client_refines_witness:
  "\<exists>s. run_ops (client_exec (\<lambda>_. None)) (client_new ep_new) reconnecting = Inr s \<and>
    connected_fd (client_abs s) = Some 6 \<and> made (client_abs s) = 2"
proof -
  have "admissible client_pre client_spec (client_abs (client_new ep_new)) reconnecting"
    unfolding client_new_view by (simp add: reconnecting_def connector_eval)
  from client_refines[OF ep_new_ok this, of "\<lambda>_. None"] obtain s where
    s: "run_ops (client_exec (\<lambda>_. None)) (client_new ep_new) reconnecting = Inr s"
      "client_abs s = foldl client_spec (client_abs (client_new ep_new)) reconnecting" by blast
  have "connected_fd (foldl client_spec (client_abs (client_new ep_new)) reconnecting) = Some 6 \<and>
    made (foldl client_spec (client_abs (client_new ep_new)) reconnecting) = 2"
    unfolding client_new_view by (simp add: reconnecting_def connector_eval)
  with s show ?thesis by auto
qed

text \<open>
  connect() works once. The connector stays in the state connected after its connection is
  lost, so a client that was connected and calls connect() again, without having enabled retry,
  fails the assert of startInLoop.
\<close>

theorem connect_again_aborts:
  assumes "admissible client_pre client_spec (client_abs (client_new ep_new)) ops"
    "run_ops (client_exec ntop) (client_new ep_new) ops = Inr s"
    "connection s \<noteq> None" "\<not> retry_flag s" "client_closed att s = Inr s'"
  shows "connection s' = None \<and> client_connect att' s' = Inl AssertFail"
proof -
  have "client_ok s" by (rule tcp_client.run_inv[OF client_new_ok[OF ep_new_ok] assms(1,2)])
  then have "cn_state (tc_connector s) = kConnected" using assms(3) by (simp add: client_ok_def)
  with assms(3-5) show ?thesis
    by (auto simp: client_closed_def client_removeConnection_def client_connect_def connector_start_def
        startInLoop_def Let_def)
qed

theorem connect_again_aborts_witness:
  "\<exists>s s'. run_ops (client_exec (\<lambda>_. None)) (client_new ep_new)
      [TcConnect (5, EINPROGRESS, 64),
       TcEvents POLLOUT (0, Some sockaddr_zero, Some (sockaddr_zero\<lparr>sin_port := 1\<rparr>)), TcPending] = Inr s \<and>
    client_closed (6, EINPROGRESS, 64) s = Inr s' \<and> client_connect (6, EINPROGRESS, 64) s' = Inl AssertFail"
proof -
  let ?ops = "[TcConnect (5, EINPROGRESS, 64),
       TcEvents POLLOUT (0, Some sockaddr_zero, Some (sockaddr_zero\<lparr>sin_port := 1\<rparr>)), TcPending]"
  have adm: "admissible client_pre client_spec (client_abs (client_new ep_new)) ?ops"
    unfolding client_new_view by (simp add: connector_eval)
  from tcp_client.run_ok[OF client_new_ok[OF ep_new_ok] this, of "\<lambda>_. None"] obtain s where
    s: "run_ops (client_exec (\<lambda>_. None)) (client_new ep_new) ?ops = Inr s"
      "client_abs s = foldl client_spec (client_abs (client_new ep_new)) ?ops" by blast
  have "connected_fd (client_abs s) = Some 5" "\<not> keep (client_abs s)"
    unfolding s(2) client_new_view by (simp_all add: connector_eval)
  then have c: "connection s \<noteq> None" "\<not> retry_flag s" by (auto simp: client_abs_def)
  then obtain s' where s': "client_closed (6, EINPROGRESS, 64) s = Inr s'"
    by (auto simp: client_closed_def client_removeConnection_def Let_def)
  from connect_again_aborts[OF adm s(1) c s'] s(1) s' show ?thesis by blast
qed

end
