(* ===== verification/Poller.thy ===== *)
theory Poller
  imports EPoller
begin

text \<open>
  net/Poller.h, net/Poller.cc: the other poller, on poll(2). It keeps a vector of \<^verbatim>\<open>pollfd\<close>
  in which each registered channel knows its position; a channel without interest has its
  descriptor \<open>fd\<close> replaced by \<open>-fd-1\<close>, which the kernel ignores, and a channel is taken out by
  swapping it with the last one. Channels are objects at addresses, as in \<open>EPoller\<close>, whose
  operations (\<open>ep_op\<close>) are the calls of the clients here too.
\<close>

section \<open>State\<close>

record pollfd =
  pfd_fd :: int
  pfd_events :: "16 word"
  pfd_revents :: "16 word"

record pollfd_list =
  pollfds :: "pollfd list"
  pl_channels :: "int \<rightharpoonup> nat"
  pl_objects :: "nat \<rightharpoonup> channel"

definition pl_new :: pollfd_list where
  "pl_new = \<lparr>pollfds = [], pl_channels = Map.empty, pl_objects = Map.empty\<rparr>"

definition pl_deref :: "pollfd_list \<Rightarrow> nat \<Rightarrow> channel res" where
  "pl_deref s p = (case pl_objects s p of None \<Rightarrow> Inl UseAfterFree | Some c \<Rightarrow> Inr c)"

definition pl_put :: "nat \<Rightarrow> channel \<Rightarrow> pollfd_list \<Rightarrow> pollfd_list" where
  "pl_put p c s = s\<lparr>pl_objects := (pl_objects s)(p \<mapsto> c)\<rparr>"

section \<open>Operations\<close>

definition pl_updateChannel :: "nat \<Rightarrow> pollfd_list \<Rightarrow> pollfd_list res" where
  "pl_updateChannel p s =
     bindR (pl_deref s p) (\<lambda>c.
     let fd = ch_fd c; idx = ch_index c; evs = ucast (events c) :: 16 word in
     if idx < 0
     then bindR (assertR (pl_channels s fd = None)) (\<lambda>_.
          Inr (pl_put p (c\<lparr>ch_index := int (length (pollfds s))\<rparr>)
            (s\<lparr>pollfds := pollfds s @ [\<lparr>pfd_fd = fd, pfd_events = evs, pfd_revents = 0\<rparr>],
               pl_channels := (pl_channels s)(fd \<mapsto> p)\<rparr>)))
     else bindR (assertR (pl_channels s fd \<noteq> None)) (\<lambda>_.
          bindR (assertR (pl_channels s fd = Some p)) (\<lambda>_.
          bindR (assertR (0 \<le> idx \<and> idx < int (length (pollfds s)))) (\<lambda>_.
          let pfd = pollfds s ! nat idx in
          bindR (assertR (pfd_fd pfd = fd \<or> pfd_fd pfd = - fd - 1)) (\<lambda>_.
          let pfd1 = pfd\<lparr>pfd_events := evs, pfd_revents := 0\<rparr>;
              pfd2 = (if isNoneEvent c then pfd1\<lparr>pfd_fd := - fd - 1\<rparr> else pfd1) in
          Inr (s\<lparr>pollfds := (pollfds s)[nat idx := pfd2]\<rparr>))))))"

text \<open>
  Indexing a \<^verbatim>\<open>std::map\<close> at a key it does not have makes a null pointer, whose use fails.
\<close>

definition pl_removeChannel :: "nat \<Rightarrow> pollfd_list \<Rightarrow> pollfd_list res" where
  "pl_removeChannel p s =
     bindR (pl_deref s p) (\<lambda>c.
     let fd = ch_fd c; idx = ch_index c; n = length (pollfds s) in
     bindR (assertR (pl_channels s fd \<noteq> None)) (\<lambda>_.
     bindR (assertR (pl_channels s fd = Some p)) (\<lambda>_.
     bindR (assertR (isNoneEvent c)) (\<lambda>_.
     bindR (assertR (0 \<le> idx \<and> idx < int n)) (\<lambda>_.
     let pfd = pollfds s ! nat idx in
     bindR (assertR (pfd_fd pfd = - fd - 1 \<and> sint (pfd_events pfd) = sint (events c))) (\<lambda>_.
     let s1 = s\<lparr>pl_channels := (pl_channels s)(fd := None)\<rparr> in
     if nat idx = n - 1 then Inr (s1\<lparr>pollfds := butlast (pollfds s1)\<rparr>)
     else
       let back = last (pollfds s1); f = pfd_fd back;
           channelAtEnd = (if f < 0 then - f - 1 else f);
           swapped = (pollfds s1)[nat idx := back, n - 1 := pfd] in
       (case pl_channels s1 channelAtEnd of
          None \<Rightarrow> Inl NullDeref
        | Some q \<Rightarrow> bindR (pl_deref s1 q) (\<lambda>d.
            Inr (pl_put q (d\<lparr>ch_index := idx\<rparr>) (s1\<lparr>pollfds := butlast swapped\<rparr>))))))))))"

text \<open>The kernel wrote \<open>revents\<close> into the vector; \<open>numEvents\<close> is the result of poll(2).\<close>

fun pl_fillActive :: "int \<Rightarrow> pollfd list \<Rightarrow> nat list \<Rightarrow> pollfd_list \<Rightarrow> (nat list \<times> pollfd_list) res" where
  "pl_fillActive n [] active s = Inr (active, s)"
| "pl_fillActive n (pfd # pfds) active s =
     (if n > 0
      then if sint (pfd_revents pfd) > 0
           then (case pl_channels s (pfd_fd pfd) of
               None \<Rightarrow> Inl AssertFail
             | Some p \<Rightarrow>
                 bindR (pl_deref s p) (\<lambda>c.
                 bindR (assertR (ch_fd c = pfd_fd pfd)) (\<lambda>_.
                 pl_fillActive (n - 1) pfds (active @ [p])
                   (pl_put p (c\<lparr>revents := ucast (pfd_revents pfd)\<rparr>) s))))
           else pl_fillActive n pfds active s
      else Inr (active, s))"

definition pl_poll :: "int \<Rightarrow> 16 word list \<Rightarrow> nat list \<Rightarrow> pollfd_list \<Rightarrow> (nat list \<times> pollfd_list) res" where
  "pl_poll numEvents revs active s =
     (let s1 = s\<lparr>pollfds := map2 (\<lambda>e r. e\<lparr>pfd_revents := r\<rparr>) (pollfds s) revs\<rparr> in
      if numEvents > 0 then pl_fillActive numEvents (pollfds s1) active s1
      else if numEvents = 0 then Inr (active, s1)
      else Inl FatalAbort)"

definition pl_change :: "interest_change \<Rightarrow> nat \<Rightarrow> pollfd_list \<Rightarrow> pollfd_list res" where
  "pl_change k p s =
     bindR (pl_deref s p) (\<lambda>c.
     pl_updateChannel p (pl_put p (c\<lparr>events := change_events k (events c)\<rparr>) s))"

fun pl_exec :: "pollfd_list \<Rightarrow> ep_op \<Rightarrow> pollfd_list res" where
  "pl_exec s (EpCreate p fd) = Inr (pl_put p (channel_new fd) s)"
| "pl_exec s (EpChange p k) = pl_change k p s"
| "pl_exec s (EpRemove p) = pl_removeChannel p s"
| "pl_exec s (EpDestroy p) =
     bindR (pl_deref s p) (\<lambda>c. bindR (channel_destroy c) (\<lambda>_.
     Inr (s\<lparr>pl_objects := (pl_objects s)(p := None)\<rparr>)))"

section \<open>The abstract poller\<close>

text \<open>
  A channel is fresh, watched, muted (registered with its descriptor inverted), or taken out.
  The code has no way back from muted to watched: \<open>updateChannel\<close> does not turn the descriptor
  round again. So a client of this poller must not enable a muted channel, nor register one that
  was taken out, nor take out one that is not muted.
\<close>

datatype stage = Fresh | Watched | Muted | Gone

type_synonym pl_view = "nat \<rightharpoonup> int \<times> 32 word \<times> stage"

definition registered :: "stage \<Rightarrow> bool" where
  "registered g \<longleftrightarrow> g = Watched \<or> g = Muted"

definition pl_abs :: "pollfd_list \<Rightarrow> pl_view" where
  "pl_abs s p = map_option (\<lambda>c. (ch_fd c, events c,
     if pl_channels s (ch_fd c) = Some p
     then (if pfd_fd (pollfds s ! nat (ch_index c)) = ch_fd c then Watched else Muted)
     else if ch_index c < 0 then Fresh else Gone)) (pl_objects s p)"

fun pl_pre :: "pl_view \<Rightarrow> ep_op \<Rightarrow> bool" where
  "pl_pre v (EpCreate p fd) = (v p = None \<and> 0 \<le> fd)"
| "pl_pre v (EpChange p k) =
     (case v p of None \<Rightarrow> False
      | Some (fd, e, g) \<Rightarrow> g = Watched \<or> g = Muted \<and> change_events k e = 0 \<or>
          g = Fresh \<and> (\<forall>q e' g'. v q = Some (fd, e', g') \<longrightarrow> \<not> registered g'))"
| "pl_pre v (EpRemove p) = (case v p of None \<Rightarrow> False | Some (fd, e, g) \<Rightarrow> g = Muted)"
| "pl_pre v (EpDestroy p) = (case v p of None \<Rightarrow> False | Some (fd, e, g) \<Rightarrow> \<not> registered g)"

fun pl_spec :: "pl_view \<Rightarrow> ep_op \<Rightarrow> pl_view" where
  "pl_spec v (EpCreate p fd) = v(p \<mapsto> (fd, 0, Fresh))"
| "pl_spec v (EpChange p k) =
     (case v p of None \<Rightarrow> v
      | Some (fd, e, g) \<Rightarrow> let e' = change_events k e in
          v(p \<mapsto> (fd, e', if g \<noteq> Fresh \<and> e' = 0 then Muted else Watched)))"
| "pl_spec v (EpRemove p) = (case v p of None \<Rightarrow> v | Some (fd, e, g) \<Rightarrow> v(p \<mapsto> (fd, e, Gone)))"
| "pl_spec v (EpDestroy p) = v(p := None)"

section \<open>Invariant\<close>

text \<open>The descriptor an entry stands for.\<close>

definition fd_of :: "pollfd \<Rightarrow> int" where
  "fd_of e = (if pfd_fd e < 0 then - pfd_fd e - 1 else pfd_fd e)"

definition entry_of :: "channel \<Rightarrow> pollfd \<Rightarrow> bool" where
  "entry_of c e \<longleftrightarrow> pfd_events e = ucast (events c) \<and>
     (pfd_fd e = ch_fd c \<or> pfd_fd e = - ch_fd c - 1 \<and> events c = 0)"

definition pl_ok :: "pollfd_list \<Rightarrow> bool" where
  "pl_ok s \<longleftrightarrow>
     (\<forall>p c. pl_objects s p = Some c \<longrightarrow> \<not> eventHandling c \<and> 0 \<le> ch_fd c) \<and>
     (\<forall>fd p. pl_channels s fd = Some p \<longrightarrow>
        (\<exists>c. pl_objects s p = Some c \<and> ch_fd c = fd \<and> 0 \<le> ch_index c \<and>
           nat (ch_index c) < length (pollfds s) \<and> entry_of c (pollfds s ! nat (ch_index c)))) \<and>
     (\<forall>i<length (pollfds s). \<exists>p c. pl_channels s (fd_of (pollfds s ! i)) = Some p \<and>
        pl_objects s p = Some c \<and> ch_index c = int i)"

lemma pl_okD:
  assumes "pl_ok s"
  shows "pl_objects s p = Some c \<Longrightarrow> \<not> eventHandling c" "pl_objects s p = Some c \<Longrightarrow> 0 \<le> ch_fd c"
    "pl_channels s fd = Some p \<Longrightarrow> \<exists>c. pl_objects s p = Some c \<and> ch_fd c = fd \<and> 0 \<le> ch_index c \<and>
       nat (ch_index c) < length (pollfds s) \<and> entry_of c (pollfds s ! nat (ch_index c))"
    "i < length (pollfds s) \<Longrightarrow> \<exists>p c. pl_channels s (fd_of (pollfds s ! i)) = Some p \<and>
        pl_objects s p = Some c \<and> ch_index c = int i"
  using assms unfolding pl_ok_def by blast+

lemma pl_okI:
  assumes "\<And>p c. pl_objects s p = Some c \<Longrightarrow> \<not> eventHandling c \<and> 0 \<le> ch_fd c"
    and "\<And>fd p. pl_channels s fd = Some p \<Longrightarrow> \<exists>c. pl_objects s p = Some c \<and> ch_fd c = fd \<and> 0 \<le> ch_index c \<and>
       nat (ch_index c) < length (pollfds s) \<and> entry_of c (pollfds s ! nat (ch_index c))"
    and "\<And>i. i < length (pollfds s) \<Longrightarrow> \<exists>p c. pl_channels s (fd_of (pollfds s ! i)) = Some p \<and>
        pl_objects s p = Some c \<and> ch_index c = int i"
  shows "pl_ok s"
  using assms unfolding pl_ok_def by blast

lemma entry_fd: "entry_of c e \<Longrightarrow> 0 \<le> ch_fd c \<Longrightarrow> fd_of e = ch_fd c"
  by (auto simp: entry_of_def fd_of_def)

text \<open>Positions are distinct.\<close>

lemma position_unique:
  assumes "pl_ok s" "pl_channels s fd = Some p" "pl_objects s p = Some c"
    "pl_channels s fd' = Some q" "pl_objects s q = Some d" "ch_index c = ch_index d"
  shows "fd = fd' \<and> p = q"
proof -
  from pl_okD(3)[OF assms(1,2)] assms(3) have c: "ch_fd c = fd" "entry_of c (pollfds s ! nat (ch_index c))" by auto
  from pl_okD(3)[OF assms(1,4)] assms(5) have d: "ch_fd d = fd'" "entry_of d (pollfds s ! nat (ch_index d))" by auto
  from entry_fd[OF c(2)] entry_fd[OF d(2)] pl_okD(2)[OF assms(1)] assms(3,5,6) c(1) d(1)
  have "fd = fd'" by auto
  with assms(2,4) show ?thesis by simp
qed

section \<open>Each operation\<close>

text \<open>Two channels look the same to a client when their entries do.\<close>

lemma pl_abs_same:
  assumes "pl_objects s q = Some d" "pl_objects s' q = Some d'" "ch_fd d' = ch_fd d" "events d' = events d"
    and "pl_channels s' (ch_fd d) = Some q \<longleftrightarrow> pl_channels s (ch_fd d) = Some q"
    and "pl_channels s (ch_fd d) = Some q \<Longrightarrow>
      pfd_fd (pollfds s' ! nat (ch_index d')) = pfd_fd (pollfds s ! nat (ch_index d))"
    and "pl_channels s (ch_fd d) \<noteq> Some q \<Longrightarrow> ch_index d' = ch_index d"
  shows "pl_abs s' q = pl_abs s q"
  using assms by (auto simp: pl_abs_def)

lemma pl_abs_objects:
  "pl_objects s' q = pl_objects s q \<Longrightarrow> pollfds s' = pollfds s \<Longrightarrow> pl_channels s' = pl_channels s \<Longrightarrow>
   pl_abs s' q = pl_abs s q"
  by (simp add: pl_abs_def cong: if_cong)

lemma pl_abs_registered:
  assumes "pl_ok s" "pl_objects s p = Some c"
  shows "(\<exists>e g. pl_abs s p = Some (ch_fd c, e, g) \<and> registered g) \<longleftrightarrow> pl_channels s (ch_fd c) = Some p"
  using assms(2) by (auto simp: pl_abs_def registered_def)

lemma free_channel:
  assumes ok: "pl_ok s" and free: "\<forall>q e' g'. pl_abs s q = Some (fd, e', g') \<longrightarrow> \<not> registered g'"
  shows "pl_channels s fd = None"
proof (rule ccontr)
  assume "pl_channels s fd \<noteq> None"
  then obtain q where q: "pl_channels s fd = Some q" by blast
  from pl_okD(3)[OF ok this] obtain d where d: "pl_objects s q = Some d" "ch_fd d = fd" by blast
  from pl_abs_registered[OF ok d(1)] q d(2) free show False by blast
qed

text \<open>A fresh channel is added at the end.\<close>

lemma add_ok:
  assumes ok: "pl_ok s" and c: "pl_objects s p = Some c" "ch_index c < 0"
    and free: "pl_channels s (ch_fd c) = None"
    and c': "c' = c\<lparr>events := e, ch_index := int (length (pollfds s))\<rparr>"
    and s': "s' = s\<lparr>pl_objects := (pl_objects s)(p \<mapsto> c'),
      pollfds := pollfds s @ [\<lparr>pfd_fd = ch_fd c, pfd_events = ucast e, pfd_revents = 0\<rparr>],
      pl_channels := (pl_channels s)(ch_fd c \<mapsto> p)\<rparr>"
  shows "pl_ok s' \<and> pl_abs s' = (pl_abs s)(p \<mapsto> (ch_fd c, e, Watched))"
proof
  have np: "pl_channels s fd \<noteq> Some p" for fd using pl_okD(3)[OF ok, of fd p] c free by auto
  have fd: "0 \<le> ch_fd c" using pl_okD(2)[OF ok c(1)] .
  show "pl_ok s'"
  proof (rule pl_okI)
    show "\<not> eventHandling d \<and> 0 \<le> ch_fd d" if "pl_objects s' q = Some d" for q d
      using that pl_okD(1,2)[OF ok, of q d] pl_okD(1,2)[OF ok c(1)] by (auto simp: s' c' split: if_splits)
  next
    fix f q assume q: "pl_channels s' f = Some q"
    show "\<exists>d. pl_objects s' q = Some d \<and> ch_fd d = f \<and> 0 \<le> ch_index d \<and>
       nat (ch_index d) < length (pollfds s') \<and> entry_of d (pollfds s' ! nat (ch_index d))"
    proof (cases "f = ch_fd c")
      case True
      with q show ?thesis by (simp add: s' c' entry_of_def)
    next
      case False
      then have f: "pl_channels s f = Some q" using q by (simp add: s')
      then have "q \<noteq> p" using np by auto
      with pl_okD(3)[OF ok f] show ?thesis by (auto simp: s' nth_append)
    qed
  next
    fix i assume i: "i < length (pollfds s')"
    show "\<exists>q d. pl_channels s' (fd_of (pollfds s' ! i)) = Some q \<and> pl_objects s' q = Some d \<and> ch_index d = int i"
    proof (cases "i = length (pollfds s)")
      case True
      then show ?thesis using fd by (simp add: s' c' fd_of_def)
    next
      case False
      then have lt: "i < length (pollfds s)" using i by (simp add: s')
      from pl_okD(4)[OF ok lt] obtain q d where
        "pl_channels s (fd_of (pollfds s ! i)) = Some q" "pl_objects s q = Some d" "ch_index d = int i" by blast
      moreover from this free np have "fd_of (pollfds s ! i) \<noteq> ch_fd c" "q \<noteq> p" by auto
      ultimately show ?thesis using lt by (auto simp: s' nth_append)
    qed
  qed
  show "pl_abs s' = (pl_abs s)(p \<mapsto> (ch_fd c, e, Watched))"
  proof
    fix q show "pl_abs s' q = ((pl_abs s)(p \<mapsto> (ch_fd c, e, Watched))) q"
    proof (cases "q = p")
      case True
      then show ?thesis by (simp add: pl_abs_def s' c')
    next
      case no: False
      show ?thesis
      proof (cases "pl_objects s q")
        case None
        with no show ?thesis by (simp add: pl_abs_def s')
      next
        case (Some d)
        have "pl_abs s' q = pl_abs s q"
        proof (rule pl_abs_same[OF Some])
          show "pl_objects s' q = Some d" using Some no by (simp add: s')
          show "pl_channels s' (ch_fd d) = Some q \<longleftrightarrow> pl_channels s (ch_fd d) = Some q"
            using no free by (simp add: s')
          show "pfd_fd (pollfds s' ! nat (ch_index d)) = pfd_fd (pollfds s ! nat (ch_index d))"
            if "pl_channels s (ch_fd d) = Some q"
            using pl_okD(3)[OF ok that] Some by (auto simp: s' nth_append)
        qed simp_all
        with no show ?thesis by simp
      qed
    qed
  qed
qed

text \<open>The entry of a registered channel is rewritten in place.\<close>

lemma rewrite_ok:
  assumes ok: "pl_ok s" and c: "pl_objects s p = Some c" and reg: "pl_channels s (ch_fd c) = Some p"
    and c': "c' = c\<lparr>events := e\<rparr>" and x: "entry_of c' x"
    and s': "s' = s\<lparr>pl_objects := (pl_objects s)(p \<mapsto> c'), pollfds := (pollfds s)[nat (ch_index c) := x]\<rparr>"
  shows "pl_ok s' \<and> pl_abs s' = (pl_abs s)(p \<mapsto> (ch_fd c, e, if pfd_fd x = ch_fd c then Watched else Muted))"
proof
  have fd: "0 \<le> ch_fd c" using pl_okD(2)[OF ok c] .
  have idx: "0 \<le> ch_index c" "nat (ch_index c) < length (pollfds s)"
    using pl_okD(3)[OF ok reg] c by auto
  have other: "nat (ch_index d) \<noteq> nat (ch_index c)"
    if "pl_channels s f = Some q" "pl_objects s q = Some d" "q \<noteq> p" for f q d
    using position_unique[OF ok reg c that(1,2)] that pl_okD(3)[OF ok that(1)] idx(1)
    by (auto simp: eq_nat_nat_iff)
  show "pl_ok s'"
  proof (rule pl_okI)
    show "\<not> eventHandling d \<and> 0 \<le> ch_fd d" if "pl_objects s' q = Some d" for q d
      using that pl_okD(1,2)[OF ok, of q d] pl_okD(1,2)[OF ok c] by (auto simp: s' c' split: if_splits)
  next
    fix f q assume "pl_channels s' f = Some q"
    then have q: "pl_channels s f = Some q" by (simp add: s')
    from pl_okD(3)[OF ok q] obtain d where d: "pl_objects s q = Some d" "ch_fd d = f" "0 \<le> ch_index d"
      "nat (ch_index d) < length (pollfds s)" "entry_of d (pollfds s ! nat (ch_index d))" by blast
    show "\<exists>d. pl_objects s' q = Some d \<and> ch_fd d = f \<and> 0 \<le> ch_index d \<and>
       nat (ch_index d) < length (pollfds s') \<and> entry_of d (pollfds s' ! nat (ch_index d))"
    proof (cases "q = p")
      case True
      with d c have "f = ch_fd c" by simp
      with True idx x show ?thesis by (simp add: s' c')
    next
      case False
      with d other[OF q d(1)] show ?thesis by (simp add: s')
    qed
  next
    fix i assume i: "i < length (pollfds s')"
    then have lt: "i < length (pollfds s)" by (simp add: s')
    from pl_okD(4)[OF ok lt] obtain q d where
      q: "pl_channels s (fd_of (pollfds s ! i)) = Some q" "pl_objects s q = Some d" "ch_index d = int i" by blast
    show "\<exists>q d. pl_channels s' (fd_of (pollfds s' ! i)) = Some q \<and> pl_objects s' q = Some d \<and> ch_index d = int i"
    proof (cases "q = p")
      case True
      then have i: "i = nat (ch_index c)" "ch_index c = int i" using q c by auto
      have "fd_of x = ch_fd c" using entry_fd[OF x] fd by (simp add: c')
      with True i lt reg show ?thesis by (simp add: s' c')
    next
      case False
      with other[OF q(1,2)] q have "i \<noteq> nat (ch_index c)" by auto
      with q False show ?thesis by (auto simp: s')
    qed
  qed
  show "pl_abs s' = (pl_abs s)(p \<mapsto> (ch_fd c, e, if pfd_fd x = ch_fd c then Watched else Muted))"
  proof
    fix q show "pl_abs s' q = ((pl_abs s)(p \<mapsto> (ch_fd c, e, if pfd_fd x = ch_fd c then Watched else Muted))) q"
    proof (cases "q = p")
      case True
      then show ?thesis using reg idx by (simp add: pl_abs_def s' c')
    next
      case no: False
      show ?thesis
      proof (cases "pl_objects s q")
        case None
        with no show ?thesis by (simp add: pl_abs_def s')
      next
        case (Some d)
        have "pl_abs s' q = pl_abs s q"
        proof (rule pl_abs_same[OF Some])
          show "pl_objects s' q = Some d" using Some no by (simp add: s')
          show "pfd_fd (pollfds s' ! nat (ch_index d)) = pfd_fd (pollfds s ! nat (ch_index d))"
            if "pl_channels s (ch_fd d) = Some q"
            using other[OF that Some no] by (simp add: s')
        qed (simp_all add: s')
        with no show ?thesis by simp
      qed
    qed
  qed
qed

text \<open>
  Taking out \<open>p\<close>: the channel at the end, if it is another one, moves to its position.
\<close>

lemma swap_remove_ok:
  assumes ok: "pl_ok s" and c: "pl_objects s p = Some c" and reg: "pl_channels s (ch_fd c) = Some p"
    and n: "length (pollfds s) = Suc n" and idx: "ch_index c = int i"
    and bk: "fd_of (pollfds s ! n) = f" "pl_channels s f = Some q" "pl_objects s q = Some d" "ch_index d = int n"
    and s': "s' = s\<lparr>pl_channels := (pl_channels s)(ch_fd c := None),
      pl_objects := (if q = p then pl_objects s else (pl_objects s)(q \<mapsto> d\<lparr>ch_index := int i\<rparr>)),
      pollfds := take n ((pollfds s)[i := pollfds s ! n])\<rparr>"
  shows "pl_ok s' \<and> pl_abs s' = (pl_abs s)(p \<mapsto> (ch_fd c, events c, Gone))"
proof
  have i: "i \<le> n" using pl_okD(3)[OF ok reg] c idx n by auto
  have len: "length (pollfds s') = n" using n by (simp add: s')
  have pos: "\<exists>j. ch_index x = int j \<and> j \<le> n \<and> entry_of x (pollfds s ! j) \<and> ch_fd x = g \<and> j \<noteq> i \<and> (j = n \<longleftrightarrow> r = q)"
    if r: "pl_channels s g = Some r" "pl_objects s r = Some x" "r \<noteq> p" for g r x
  proof -
    from pl_okD(3)[OF ok r(1)] r(2) have x: "ch_fd x = g" "0 \<le> ch_index x"
      "nat (ch_index x) < Suc n" "entry_of x (pollfds s ! nat (ch_index x))" by (auto simp: n)
    obtain j where j: "ch_index x = int j" using x(2) nonneg_int_cases by metis
    have "j \<noteq> i" using position_unique[OF ok reg c r(1,2)] idx j r(3) by auto
    moreover have "j = n \<longleftrightarrow> r = q"
    proof
      assume "j = n"
      then show "r = q" using position_unique[OF ok bk(2,3) r(1,2)] bk(4) j by auto
    next
      assume "r = q"
      then show "j = n" using r(2) bk(3,4) j by simp
    qed
    ultimately show ?thesis using x j by auto
  qed
  have pq: "p = q \<longleftrightarrow> i = n"
  proof
    assume "p = q"
    then show "i = n" using c bk(3,4) idx by simp
  next
    assume "i = n"
    then show "p = q" using position_unique[OF ok reg c bk(2,3)] bk(4) idx by auto
  qed
  have entry: "j < n \<Longrightarrow> pollfds s' ! j = (if j = i then pollfds s ! n else pollfds s ! j)" for j
    using n by (simp add: s' nth_list_update)
  show "pl_ok s'"
  proof (rule pl_okI)
    show "\<not> eventHandling x \<and> 0 \<le> ch_fd x" if "pl_objects s' r = Some x" for r x
      using that pl_okD(1,2)[OF ok, of r x] pl_okD(1,2)[OF ok bk(3)] by (auto simp: s' split: if_splits)
  next
    fix g r assume "pl_channels s' g = Some r"
    then have r: "pl_channels s g = Some r" "g \<noteq> ch_fd c" by (auto simp: s' split: if_splits)
    from pl_okD(3)[OF ok r(1)] obtain x where x: "pl_objects s r = Some x" "ch_fd x = g" by blast
    with r c have "r \<noteq> p" by auto
    from pos[OF r(1) x(1) this] obtain j where
      j: "ch_index x = int j" "j \<le> n" "entry_of x (pollfds s ! j)" "j \<noteq> i" "j = n \<longleftrightarrow> r = q" by blast
    show "\<exists>x. pl_objects s' r = Some x \<and> ch_fd x = g \<and> 0 \<le> ch_index x \<and>
       nat (ch_index x) < length (pollfds s') \<and> entry_of x (pollfds s' ! nat (ch_index x))"
    proof (cases "r = q")
      case True
      with j \<open>r \<noteq> p\<close> pq i have "i < n" by auto
      moreover have "x = d" using True x(1) bk(3) by simp
      ultimately show ?thesis using True j x \<open>r \<noteq> p\<close> len entry[of i] by (simp add: s' entry_of_def)
    next
      case False
      then have "j < n" using j(2,5) by simp
      with False j x len entry[of j] show ?thesis by (simp add: s')
    qed
  next
    fix j assume "j < length (pollfds s')"
    then have j: "j < n" using len by simp
    show "\<exists>r x. pl_channels s' (fd_of (pollfds s' ! j)) = Some r \<and> pl_objects s' r = Some x \<and> ch_index x = int j"
    proof (cases "j = i")
      case True
      then have ne: "q \<noteq> p" using pq j by auto
      then have "f \<noteq> ch_fd c" using bk(2) reg by auto
      with True ne bk j entry[of j] show ?thesis by (auto simp: s')
    next
      case False
      from pl_okD(4)[OF ok, of j] j n obtain r x where
        r: "pl_channels s (fd_of (pollfds s ! j)) = Some r" "pl_objects s r = Some x" "ch_index x = int j" by auto
      then have "r \<noteq> p" using c idx False by auto
      moreover have "r \<noteq> q" using r(2,3) bk(3,4) j by auto
      moreover have "fd_of (pollfds s ! j) \<noteq> ch_fd c" using r(1) reg \<open>r \<noteq> p\<close> by auto
      ultimately show ?thesis using r entry[OF j] False by (auto simp: s')
    qed
  qed
  show "pl_abs s' = (pl_abs s)(p \<mapsto> (ch_fd c, events c, Gone))"
  proof
    fix r show "pl_abs s' r = ((pl_abs s)(p \<mapsto> (ch_fd c, events c, Gone))) r"
    proof (cases "r = p")
      case True
      have "pl_objects s' p = Some c" using c by (simp add: s')
      with True idx show ?thesis by (simp add: pl_abs_def s')
    next
      case no: False
      show ?thesis
      proof (cases "pl_objects s r")
        case None
        then have "pl_objects s' r = None" using bk(3) by (auto simp: s')
        with None no show ?thesis by (simp add: pl_abs_def)
      next
        case (Some x)
        let ?x = "if r = q then d\<lparr>ch_index := int i\<rparr> else x"
        have "pl_abs s' r = pl_abs s r"
        proof (rule pl_abs_same[OF Some])
          show "pl_objects s' r = Some ?x" using Some no by (auto simp: s')
          show "ch_fd ?x = ch_fd x" "events ?x = events x" using Some bk(3) by auto
          show "pl_channels s' (ch_fd x) = Some r \<longleftrightarrow> pl_channels s (ch_fd x) = Some r"
            using no reg by (auto simp: s')
          show "pfd_fd (pollfds s' ! nat (ch_index ?x)) = pfd_fd (pollfds s ! nat (ch_index x))"
            if reg': "pl_channels s (ch_fd x) = Some r"
          proof -
            from pos[OF reg' Some no] obtain j where
              j: "ch_index x = int j" "j \<le> n" "j \<noteq> i" "j = n \<longleftrightarrow> r = q" by blast
            show ?thesis
            proof (cases "r = q")
              case True
              with j no pq i have "i < n" by auto
              with True j entry[of i] show ?thesis by simp
            next
              case False
              with j have "j < n" by simp
              with False j entry[of j] show ?thesis by simp
            qed
          qed
          show "ch_index ?x = ch_index x" if "pl_channels s (ch_fd x) \<noteq> Some r"
          proof (cases "r = q")
            case True
            from pl_okD(3)[OF ok bk(2)] bk(3) have "ch_fd d = f" by simp
            with True that bk(2,3) Some show ?thesis by auto
          qed simp
        qed
        with no show ?thesis by simp
      qed
    qed
  qed
qed

lemma pl_create_ok:
  assumes ok: "pl_ok s" and new: "pl_objects s p = None" "0 \<le> fd"
  shows "pl_ok (pl_put p (channel_new fd) s) \<and>
    pl_abs (pl_put p (channel_new fd) s) = (pl_abs s)(p \<mapsto> (fd, 0, Fresh))"
proof
  let ?s = "pl_put p (channel_new fd) s"
  have np: "pl_channels s f \<noteq> Some p" for f using pl_okD(3)[OF ok, of f p] new(1) by auto
  have keep: "pl_objects ?s q = pl_objects s q" if "pl_objects s q = Some d" for q d
    using that new(1) by (auto simp: pl_put_def)
  show "pl_ok ?s"
  proof (rule pl_okI)
    show "\<not> eventHandling d \<and> 0 \<le> ch_fd d" if "pl_objects ?s q = Some d" for q d
      using that pl_okD(1,2)[OF ok, of q d] new(2) by (auto simp: pl_put_def channel_new_def split: if_splits)
    show "\<exists>c. pl_objects ?s q = Some c \<and> ch_fd c = f \<and> 0 \<le> ch_index c \<and>
       nat (ch_index c) < length (pollfds ?s) \<and> entry_of c (pollfds ?s ! nat (ch_index c))"
      if "pl_channels ?s f = Some q" for f q
    proof -
      from that have "pl_channels s f = Some q" by (simp add: pl_put_def)
      from pl_okD(3)[OF ok this] obtain d where "pl_objects s q = Some d" "ch_fd d = f" "0 \<le> ch_index d"
        "nat (ch_index d) < length (pollfds s)" "entry_of d (pollfds s ! nat (ch_index d))" by blast
      with keep show ?thesis by (auto simp: pl_put_def)
    qed
    show "\<exists>q d. pl_channels ?s (fd_of (pollfds ?s ! i)) = Some q \<and> pl_objects ?s q = Some d \<and> ch_index d = int i"
      if "i < length (pollfds ?s)" for i
    proof -
      from that have "i < length (pollfds s)" by (simp add: pl_put_def)
      from pl_okD(4)[OF ok this] keep show ?thesis by (fastforce simp: pl_put_def)
    qed
  qed
  show "pl_abs ?s = (pl_abs s)(p \<mapsto> (fd, 0, Fresh))"
  proof
    fix q show "pl_abs ?s q = ((pl_abs s)(p \<mapsto> (fd, 0, Fresh))) q"
    proof (cases "q = p")
      case True
      then show ?thesis using np by (simp add: pl_abs_def pl_put_def channel_new_def)
    next
      case False
      then have "pl_abs ?s q = pl_abs s q" by (intro pl_abs_objects) (simp_all add: pl_put_def)
      with False show ?thesis by simp
    qed
  qed
qed

lemma pl_change_ok:
  assumes ok: "pl_ok s" and pre: "pl_pre (pl_abs s) (EpChange p k)"
  shows "\<exists>s'. pl_change k p s = Inr s' \<and> pl_ok s' \<and> pl_abs s' = pl_spec (pl_abs s) (EpChange p k)"
proof -
  obtain c where c: "pl_objects s p = Some c" using pre by (auto simp: pl_abs_def split: option.splits)
  let ?e = "change_events k (events c)" and ?fd = "ch_fd c"
  show ?thesis
  proof (cases "pl_channels s ?fd = Some p")
    case False
    have idx: "ch_index c < 0" and free: "pl_channels s ?fd = None"
    proof -
      have v: "pl_abs s p = Some (?fd, events c, if ch_index c < 0 then Fresh else Gone)"
        using False c by (simp add: pl_abs_def)
      show "ch_index c < 0" using pre v by (auto split: if_splits)
      with pre v have "\<forall>q e' g'. pl_abs s q = Some (?fd, e', g') \<longrightarrow> \<not> registered g'" by simp
      then show "pl_channels s ?fd = None" by (rule free_channel[OF ok])
    qed
    let ?c = "c\<lparr>events := ?e, ch_index := int (length (pollfds s))\<rparr>"
    let ?s = "s\<lparr>pl_objects := (pl_objects s)(p \<mapsto> ?c),
      pollfds := pollfds s @ [\<lparr>pfd_fd = ?fd, pfd_events = ucast ?e, pfd_revents = 0\<rparr>],
      pl_channels := (pl_channels s)(?fd \<mapsto> p)\<rparr>"
    from add_ok[OF ok c idx free refl refl, of ?e]
    have "pl_ok ?s" "pl_abs ?s = (pl_abs s)(p \<mapsto> (?fd, ?e, Watched))" by blast+
    moreover have "pl_change k p s = Inr ?s"
      using c idx free by (simp add: pl_change_def pl_deref_def pl_put_def pl_updateChannel_def Let_def)
    moreover have "pl_spec (pl_abs s) (EpChange p k) = (pl_abs s)(p \<mapsto> (?fd, ?e, Watched))"
      using c False idx by (simp add: pl_abs_def Let_def)
    ultimately show ?thesis by (auto simp del: pl_spec.simps)
  next
    case True
    note D = pl_okD(3)[OF ok True]
    have fd: "0 \<le> ?fd" by (rule pl_okD(2)[OF ok c])
    let ?i = "nat (ch_index c)"
    let ?o = "pollfds s ! ?i"
    have idx: "0 \<le> ch_index c" "?i < length (pollfds s)" "entry_of c ?o" using D c by auto
    let ?x = "?o\<lparr>pfd_events := ucast ?e, pfd_revents := 0,
      pfd_fd := (if ?e = 0 then - ?fd - 1 else pfd_fd ?o)\<rparr>"
    let ?c = "c\<lparr>events := ?e\<rparr>"
    let ?s = "s\<lparr>pl_objects := (pl_objects s)(p \<mapsto> ?c), pollfds := (pollfds s)[?i := ?x]\<rparr>"
    have sign: "pfd_fd ?o = ?fd \<or> pfd_fd ?o = - ?fd - 1" using idx(3) by (auto simp: entry_of_def)
    have v: "pl_abs s p = Some (?fd, events c, if pfd_fd ?o = ?fd then Watched else Muted)"
      using True c by (simp add: pl_abs_def)
    have same: "?e \<noteq> 0 \<Longrightarrow> pfd_fd ?o = ?fd" using pre v by (auto split: if_splits)
    have "entry_of ?c ?x" using same by (simp add: entry_of_def)
    from rewrite_ok[OF ok c True refl this refl]
    have "pl_ok ?s" "pl_abs ?s = (pl_abs s)(p \<mapsto> (?fd, ?e, if pfd_fd ?x = ?fd then Watched else Muted))" by blast+
    moreover have "pl_change k p s = Inr ?s"
    proof -
      have "pl_change k p s = Inr (s\<lparr>pl_objects := (pl_objects s)(p \<mapsto> ?c), pollfds := (pollfds s)[?i :=
        (if ?e = 0 then ?o\<lparr>pfd_events := ucast ?e, pfd_revents := 0, pfd_fd := - ?fd - 1\<rparr>
         else ?o\<lparr>pfd_events := ucast ?e, pfd_revents := 0\<rparr>)]\<rparr>)"
        using c idx sign True by (simp add: pl_change_def pl_deref_def pl_put_def pl_updateChannel_def Let_def
            isNoneEvent_def kNoneEvent_def)
      moreover have "(if ?e = 0 then ?o\<lparr>pfd_events := ucast ?e, pfd_revents := 0, pfd_fd := - ?fd - 1\<rparr>
         else ?o\<lparr>pfd_events := ucast ?e, pfd_revents := 0\<rparr>) = ?x"
        by (cases "pollfds s ! nat (ch_index c)") simp
      ultimately show ?thesis by (simp only:)
    qed
    moreover have "pl_spec (pl_abs s) (EpChange p k) =
        (pl_abs s)(p \<mapsto> (?fd, ?e, if pfd_fd ?x = ?fd then Watched else Muted))"
      using v fd same by (simp add: Let_def)
    ultimately show ?thesis by (auto simp del: pl_spec.simps)
  qed
qed

lemma pl_remove_ok:
  assumes ok: "pl_ok s" and pre: "pl_pre (pl_abs s) (EpRemove p)"
  shows "\<exists>s'. pl_removeChannel p s = Inr s' \<and> pl_ok s' \<and> pl_abs s' = pl_spec (pl_abs s) (EpRemove p)"
proof -
  obtain c where c: "pl_objects s p = Some c" using pre by (auto simp: pl_abs_def split: option.splits)
  let ?fd = "ch_fd c" and ?o = "pollfds s ! nat (ch_index c)"
  have reg: "pl_channels s ?fd = Some p" and ne: "pfd_fd ?o \<noteq> ?fd"
    using pre c by (auto simp: pl_abs_def split: if_splits)
  from pl_okD(3)[OF ok reg] c have idx: "0 \<le> ch_index c" "nat (ch_index c) < length (pollfds s)"
    "entry_of c ?o" by auto
  then have e: "pfd_fd ?o = - ?fd - 1" "events c = 0" "pfd_events ?o = 0"
    using ne by (auto simp: entry_of_def)
  obtain i where i: "ch_index c = int i" using idx(1) nonneg_int_cases by metis
  obtain n where n: "length (pollfds s) = Suc n" using idx(2) by (cases "length (pollfds s)") auto
  from pl_okD(4)[OF ok, of n] n obtain q d where
    q: "pl_channels s (fd_of (pollfds s ! n)) = Some q" "pl_objects s q = Some d" "ch_index d = int n" by auto
  define s' where "s' = s\<lparr>pl_channels := (pl_channels s)(?fd := None),
      pl_objects := (if q = p then pl_objects s else (pl_objects s)(q \<mapsto> d\<lparr>ch_index := int i\<rparr>)),
      pollfds := take n ((pollfds s)[i := pollfds s ! n])\<rparr>"
  from swap_remove_ok[OF ok c reg n i refl q s'_def]
  have r: "pl_ok s'" "pl_abs s' = (pl_abs s)(p \<mapsto> (?fd, events c, Gone))" by blast+
  have "pl_removeChannel p s = Inr s'"
  proof (cases "i = n")
    case True
    then have "q = p" using position_unique[OF ok reg c q(1,2)] q(3) i by auto
    moreover have "take n ((pollfds s)[n := pollfds s ! n]) = butlast (pollfds s)"
      using n by (simp add: butlast_conv_take)
    ultimately show ?thesis
      using True c reg i n e idx by (simp add: pl_removeChannel_def pl_deref_def Let_def isNoneEvent_def
          kNoneEvent_def s'_def)
  next
    case False
    then have qp: "q \<noteq> p" using c q(2,3) i by auto
    have lastn: "last (pollfds s) = pollfds s ! n" using n by (cases "pollfds s") (auto simp: last_conv_nth)
    have ne: "fd_of (pollfds s ! n) \<noteq> ?fd" using q(1) reg qp by auto
    have "take n ((pollfds s)[i := pollfds s ! n]) = butlast ((pollfds s)[i := pollfds s ! n, n := ?o])"
      using n by (simp add: butlast_conv_take)
    then show ?thesis
      using False c reg i n e idx q qp ne lastn
      by (simp add: pl_removeChannel_def pl_deref_def pl_put_def Let_def isNoneEvent_def kNoneEvent_def s'_def
          fd_of_def split: if_splits)
  qed
  moreover have "pl_spec (pl_abs s) (EpRemove p) = (pl_abs s)(p \<mapsto> (?fd, events c, Gone))"
    using c by (simp add: pl_abs_def)
  ultimately show ?thesis using r by metis
qed

lemma pl_destroy_ok:
  assumes ok: "pl_ok s" and pre: "pl_pre (pl_abs s) (EpDestroy p)"
  shows "\<exists>s'. pl_exec s (EpDestroy p) = Inr s' \<and> pl_ok s' \<and> pl_abs s' = (pl_abs s)(p := None)"
proof -
  obtain c where c: "pl_objects s p = Some c" using pre by (auto simp: pl_abs_def split: option.splits)
  have unreg: "pl_channels s (ch_fd c) \<noteq> Some p"
    using pre c by (auto simp: pl_abs_def registered_def split: if_splits)
  have np: "pl_channels s f \<noteq> Some p" for f using pl_okD(3)[OF ok, of f p] c unreg by auto
  let ?s = "s\<lparr>pl_objects := (pl_objects s)(p := None)\<rparr>"
  have "pl_ok ?s"
  proof (rule pl_okI)
    show "\<not> eventHandling d \<and> 0 \<le> ch_fd d" if "pl_objects ?s q = Some d" for q d
      using that pl_okD(1,2)[OF ok, of q d] by (auto split: if_splits)
    show "\<exists>c. pl_objects ?s q = Some c \<and> ch_fd c = f \<and> 0 \<le> ch_index c \<and>
       nat (ch_index c) < length (pollfds ?s) \<and> entry_of c (pollfds ?s ! nat (ch_index c))"
      if "pl_channels ?s f = Some q" for f q
      using pl_okD(3)[OF ok, of f q] that np[of f] by auto
    show "\<exists>q d. pl_channels ?s (fd_of (pollfds ?s ! i)) = Some q \<and> pl_objects ?s q = Some d \<and> ch_index d = int i"
      if "i < length (pollfds ?s)" for i
      using pl_okD(4)[OF ok, of i] that np[of "fd_of (pollfds s ! i)"] by fastforce
  qed
  moreover have "pl_abs ?s = (pl_abs s)(p := None)"
  proof
    fix q show "pl_abs ?s q = ((pl_abs s)(p := None)) q"
    proof (cases "q = p")
      case True
      then show ?thesis by (simp add: pl_abs_def)
    next
      case False
      then have "pl_abs ?s q = pl_abs s q" by (intro pl_abs_objects) simp_all
      with False show ?thesis by simp
    qed
  qed
  ultimately show ?thesis
    using c pl_okD(1)[OF ok c] by (simp add: pl_deref_def channel_destroy_def)
qed

lemma pl_exec_ok:
  assumes ok: "pl_ok s" and pre: "pl_pre (pl_abs s) x"
  shows "\<exists>s'. pl_exec s x = Inr s' \<and> pl_ok s' \<and> pl_abs s' = pl_spec (pl_abs s) x"
proof (cases x)
  case (EpCreate p fd)
  with pre have "pl_objects s p = None" "0 \<le> fd" by (auto simp: pl_abs_def)
  from pl_create_ok[OF ok this] show ?thesis by (simp add: EpCreate)
next
  case (EpChange p k)
  with pl_change_ok[OF ok] pre show ?thesis by (simp del: pl_spec.simps pl_pre.simps)
next
  case (EpRemove p)
  with pl_remove_ok[OF ok] pre show ?thesis by (simp del: pl_spec.simps pl_pre.simps)
next
  case (EpDestroy p)
  with pl_destroy_ok[OF ok, of p] pre show ?thesis by (simp del: pl_pre.simps pl_exec.simps)
qed

interpretation poll_list: contract pl_exec pl_ok pl_abs pl_pre pl_spec
  by unfold_locales (rule pl_exec_ok)

section \<open>Properties\<close>

lemma pl_new_ok: "pl_ok pl_new"
  by (simp add: pl_ok_def pl_new_def)

lemma pl_new_abs: "pl_abs pl_new = Map.empty"
  by (rule ext) (simp add: pl_abs_def pl_new_def)

text \<open>What the kernel watches: descriptors with the events asked for.\<close>

definition pl_watched :: "pollfd_list \<Rightarrow> (int \<times> 16 word) set" where
  "pl_watched s = {(fd, x). 0 \<le> fd \<and> x \<noteq> 0 \<and>
     (\<exists>e \<in> set (pollfds s). pfd_fd e = fd \<and> pfd_events e = x)}"

definition ep_watched :: "epoller \<Rightarrow> (int \<times> 16 word) set" where
  "ep_watched s = {(fd, x). x \<noteq> 0 \<and> (\<exists>e p. ep_interest s fd = Some (e, p) \<and> ucast e = x)}"

text \<open>A client that is allowed to use this poller is allowed to use EPoller.\<close>

definition reg_view :: "pl_view \<Rightarrow> ep_view" where
  "reg_view v p = map_option (\<lambda>(fd, e, g). (fd, e, registered g)) (v p)"

definition muted_quiet :: "pl_view \<Rightarrow> bool" where
  "muted_quiet v \<longleftrightarrow> (\<forall>p fd e. v p = Some (fd, e, Muted) \<longrightarrow> e = 0)"

lemma reg_view_step:
  assumes "pl_pre v x" "muted_quiet v"
  shows "ep_pre (reg_view v) x \<and> ep_spec (reg_view v) x = reg_view (pl_spec v x) \<and> muted_quiet (pl_spec v x)"
proof (cases x)
  case (EpChange p k)
  with assms(1) obtain fd e g where v: "v p = Some (fd, e, g)" by (auto split: option.splits)
  have "registered g \<or> fd_free fd (reg_view v)"
    using assms(1) EpChange v by (auto simp: registered_def fd_free_def reg_view_def split: prod.splits)
  moreover have "reg_view (pl_spec v x) = (reg_view v)(p \<mapsto> (fd, change_events k e, True))"
    by (rule ext) (simp add: EpChange v reg_view_def registered_def Let_def)
  moreover have "muted_quiet (pl_spec v x)"
    using assms(2) by (auto simp: EpChange v muted_quiet_def Let_def)
  ultimately show ?thesis by (simp add: EpChange reg_view_def[of v p] v)
next
  case (EpRemove p)
  with assms obtain fd where v: "v p = Some (fd, 0, Muted)"
    by (auto simp: muted_quiet_def split: option.splits)
  have "reg_view (pl_spec v x) = (reg_view v)(p \<mapsto> (fd, 0, False))"
    by (rule ext) (simp add: EpRemove v reg_view_def registered_def)
  moreover have "muted_quiet (pl_spec v x)" using assms(2) by (auto simp: EpRemove v muted_quiet_def)
  ultimately show ?thesis by (simp add: EpRemove reg_view_def[of v p] v registered_def)
next
  case (EpCreate p fd)
  have "reg_view (pl_spec v x) = (reg_view v)(p \<mapsto> (fd, 0, False))"
    by (rule ext) (simp add: EpCreate reg_view_def registered_def)
  with assms show ?thesis by (auto simp: EpCreate reg_view_def muted_quiet_def)
next
  case (EpDestroy p)
  have "reg_view (pl_spec v x) = (reg_view v)(p := None)"
    by (rule ext) (simp add: EpDestroy reg_view_def)
  with assms show ?thesis by (auto simp: EpDestroy reg_view_def muted_quiet_def split: option.splits)
qed

lemma reg_view_run:
  "admissible pl_pre pl_spec v ops \<Longrightarrow> muted_quiet v \<Longrightarrow>
   admissible ep_pre ep_spec (reg_view v) ops \<and>
   foldl ep_spec (reg_view v) ops = reg_view (foldl pl_spec v ops) \<and> muted_quiet (foldl pl_spec v ops)"
proof (induction ops arbitrary: v)
  case (Cons x ops)
  from reg_view_step[of v x] Cons.prems have
    "ep_pre (reg_view v) x" "ep_spec (reg_view v) x = reg_view (pl_spec v x)" "muted_quiet (pl_spec v x)"
    by auto
  with Cons.IH[of "pl_spec v x"] Cons.prems(1) show ?case by simp
qed simp

lemma pl_absD:
  assumes "pl_abs s p = Some (fd, e, g)" "registered g"
  shows "\<exists>c. pl_objects s p = Some c \<and> ch_fd c = fd \<and> events c = e \<and> pl_channels s fd = Some p \<and>
    (pfd_fd (pollfds s ! nat (ch_index c)) = fd \<longleftrightarrow> g = Watched)"
proof -
  obtain c where c: "pl_objects s p = Some c" using assms(1) by (auto simp: pl_abs_def)
  then have v: "fd = ch_fd c" "e = events c"
    "g = (if pl_channels s (ch_fd c) = Some p
      then (if pfd_fd (pollfds s ! nat (ch_index c)) = ch_fd c then Watched else Muted)
      else if ch_index c < 0 then Fresh else Gone)"
    using assms(1) unfolding pl_abs_def c option.map option.inject prod.inject by blast+
  show ?thesis
    using c assms(2) unfolding v
    by (cases "pl_channels s (ch_fd c) = Some p"; cases "pfd_fd (pollfds s ! nat (ch_index c)) = ch_fd c")
      (simp_all add: registered_def split: if_splits)
qed

lemma pl_watched_view:
  assumes "pl_ok s"
  shows "(fd, x) \<in> pl_watched s \<longleftrightarrow> x \<noteq> 0 \<and> (\<exists>p e. pl_abs s p = Some (fd, e, Watched) \<and> ucast e = x)"
proof
  assume "(fd, x) \<in> pl_watched s"
  then obtain i where i: "i < length (pollfds s)" "pfd_fd (pollfds s ! i) = fd"
    "pfd_events (pollfds s ! i) = x" "0 \<le> fd" "x \<noteq> 0" by (auto simp: pl_watched_def in_set_conv_nth)
  then have "fd_of (pollfds s ! i) = fd" by (simp add: fd_of_def)
  with pl_okD(4)[OF assms i(1)] obtain p c where
    p: "pl_channels s fd = Some p" "pl_objects s p = Some c" "ch_index c = int i" by auto
  from pl_okD(3)[OF assms p(1)] p(2,3) have c: "ch_fd c = fd" "entry_of c (pollfds s ! i)" by auto
  with p i have "pl_abs s p = Some (fd, events c, Watched)" by (simp add: pl_abs_def)
  with c(2) i(3,5) show "x \<noteq> 0 \<and> (\<exists>p e. pl_abs s p = Some (fd, e, Watched) \<and> ucast e = x)"
    by (auto simp: entry_of_def)
next
  assume "x \<noteq> 0 \<and> (\<exists>p e. pl_abs s p = Some (fd, e, Watched) \<and> ucast e = x)"
  then obtain p e where r: "x \<noteq> 0" "pl_abs s p = Some (fd, e, Watched)" "ucast e = x" by blast
  from pl_absD[OF r(2)] obtain c where
    c: "pl_objects s p = Some c" "ch_fd c = fd" "events c = e" "pl_channels s fd = Some p"
    "pfd_fd (pollfds s ! nat (ch_index c)) = fd" by (auto simp: registered_def)
  from pl_okD(3)[OF assms c(4)] c(1) have
    i: "nat (ch_index c) < length (pollfds s)" "entry_of c (pollfds s ! nat (ch_index c))" by auto
  have "pollfds s ! nat (ch_index c) \<in> set (pollfds s)" using i(1) by (rule nth_mem)
  moreover have "pfd_events (pollfds s ! nat (ch_index c)) = x" using i(2) c(3) r(3) by (simp add: entry_of_def)
  moreover have "0 \<le> fd" using pl_okD(2)[OF assms c(1)] c(2) by simp
  ultimately show "(fd, x) \<in> pl_watched s" using r(1) c(5) unfolding pl_watched_def by blast
qed

lemma ep_watched_view:
  assumes "ep_ok s"
  shows "(fd, x) \<in> ep_watched s \<longleftrightarrow> x \<noteq> 0 \<and> (\<exists>p e. ep_abs s p = Some (fd, e, True) \<and> ucast e = x)"
proof
  assume "(fd, x) \<in> ep_watched s"
  then obtain e p where x: "x \<noteq> 0" "ep_interest s fd = Some (e, p)" "ucast e = x" by (auto simp: ep_watched_def)
  with ep_okD(6)[OF assms, of fd e p] have "ep_abs s p = Some (fd, e, True)"
    by (auto simp: ep_abs_def index_defs)
  with x show "x \<noteq> 0 \<and> (\<exists>p e. ep_abs s p = Some (fd, e, True) \<and> ucast e = x)" by blast
next
  assume "x \<noteq> 0 \<and> (\<exists>p e. ep_abs s p = Some (fd, e, True) \<and> ucast e = x)"
  then obtain p c where r: "x \<noteq> 0" "ep_objects s p = Some c" "ch_fd c = fd" "ch_index c \<noteq> kNew"
    "ucast (events c) = x" by (auto simp: ep_abs_def)
  then have "events c \<noteq> 0" by auto
  with ep_okD(2,4)[OF assms r(2)] r(4) have "ch_index c = kAdded" by auto
  with interest_of[OF assms r(2,4)] r show "(fd, x) \<in> ep_watched s" by (auto simp: ep_watched_def)
qed

text \<open>
  C14: The two pollers are interchangeable for a client that keeps the rules of the one on
  poll(2): both run every sequence of calls without a failing assert, and afterwards the kernel
  watches the same descriptors for the same events.
\<close>

theorem pollers_agree:
  assumes "admissible pl_pre pl_spec Map.empty ops"
  shows "\<exists>s t. run_ops pl_exec pl_new ops = Inr s \<and> run_ops ep_exec ep_new ops = Inr t \<and>
    pl_watched s = ep_watched t"
proof -
  have "muted_quiet Map.empty" by (simp add: muted_quiet_def)
  have e: "reg_view Map.empty = Map.empty" by (rule ext) (simp add: reg_view_def)
  from poll_list.run_ok[OF pl_new_ok] assms obtain s where
    s: "run_ops pl_exec pl_new ops = Inr s" "pl_ok s" "pl_abs s = foldl pl_spec Map.empty ops"
    by (auto simp: pl_new_abs)
  note r = reg_view_run[OF assms \<open>muted_quiet Map.empty\<close>, unfolded e]
  from r have "admissible ep_pre ep_spec (ep_abs ep_new) ops" by (simp add: ep_new_abs)
  from poll_set.run_ok[OF ep_new_ok this] obtain t where
    t: "run_ops ep_exec ep_new ops = Inr t" "ep_ok t" "ep_abs t = foldl ep_spec Map.empty ops"
    unfolding ep_new_abs by blast
  have rel: "ep_abs t = reg_view (pl_abs s)" and q: "muted_quiet (pl_abs s)" using r s(3) t(3) by simp_all
  have "(\<exists>p e. pl_abs s p = Some (fd, e, Watched) \<and> ucast e = x) \<longleftrightarrow>
      (\<exists>p e. ep_abs t p = Some (fd, e, True) \<and> ucast e = x)" if "x \<noteq> 0" for fd and x :: "16 word"
  proof
    assume "\<exists>p e. pl_abs s p = Some (fd, e, Watched) \<and> ucast e = x"
    then show "\<exists>p e. ep_abs t p = Some (fd, e, True) \<and> ucast e = x"
      by (force simp: rel reg_view_def registered_def)
  next
    assume "\<exists>p e. ep_abs t p = Some (fd, e, True) \<and> ucast e = x"
    then obtain p e g where g: "pl_abs s p = Some (fd, e, g)" "registered g" "ucast e = x"
      by (auto simp: rel reg_view_def)
    have "g \<noteq> Muted"
    proof
      assume "g = Muted"
      with q g(1) have "e = 0" unfolding muted_quiet_def by blast
      with g(3) that show False by simp
    qed
    with g show "\<exists>p e. pl_abs s p = Some (fd, e, Watched) \<and> ucast e = x"
      by (auto simp: registered_def)
  qed
  then have "pl_watched s = ep_watched t"
    using pl_watched_view[OF s(2)] ep_watched_view[OF t(2)] by (intro set_eqI) (metis surj_pair)
  with s(1) t(1) show ?thesis by blast
qed

text \<open>Three channels, of which the first is taken out and the last moves to its place.\<close>

theorem pollers_agree_witness:
  "\<exists>s t. run_ops pl_exec pl_new [EpCreate 1 5, EpCreate 2 6, EpCreate 3 7, EpChange 1 EnableReading,
      EpChange 2 EnableWriting, EpChange 3 EnableReading, EpChange 1 DisableAll, EpRemove 1, EpDestroy 1] = Inr s \<and>
    run_ops ep_exec ep_new [EpCreate 1 5, EpCreate 2 6, EpCreate 3 7, EpChange 1 EnableReading,
      EpChange 2 EnableWriting, EpChange 3 EnableReading, EpChange 1 DisableAll, EpRemove 1, EpDestroy 1] = Inr t \<and>
    pl_watched s = ep_watched t"
  by (rule pollers_agree)
    (simp add: kReadEvent_def kWriteEvent_def poll_flags registered_def kNoneEvent_def)

text \<open>
  A channel that was disabled cannot be enabled again with this poller: its entry keeps the
  inverted descriptor, which the kernel ignores, whatever interest the channel has.
\<close>

theorem reenabled_is_ignored:
  assumes "pl_ok s" "pl_abs s p = Some (fd, 0, Muted)" "change_events k 0 \<noteq> 0"
  shows "\<exists>s' c. pl_change k p s = Inr s' \<and> pl_objects s' p = Some c \<and> events c \<noteq> 0 \<and>
    pfd_fd (pollfds s' ! nat (ch_index c)) = - fd - 1"
proof -
  obtain c where c: "pl_objects s p = Some c" "ch_fd c = fd" "events c = 0" "pl_channels s fd = Some p"
    "pfd_fd (pollfds s ! nat (ch_index c)) \<noteq> fd"
    using pl_absD[OF assms(2)] by (auto simp: registered_def)
  from pl_okD(3)[OF assms(1) c(4)] c(1) have
    i: "0 \<le> ch_index c" "nat (ch_index c) < length (pollfds s)" "entry_of c (pollfds s ! nat (ch_index c))" by auto
  with c have f: "pfd_fd (pollfds s ! nat (ch_index c)) = - fd - 1" by (auto simp: entry_of_def)
  have "pl_change k p s = Inr (s\<lparr>pl_objects := (pl_objects s)(p \<mapsto> c\<lparr>events := change_events k 0\<rparr>),
    pollfds := (pollfds s)[nat (ch_index c) := (pollfds s ! nat (ch_index c))
      \<lparr>pfd_events := ucast (change_events k 0), pfd_revents := 0\<rparr>]\<rparr>)"
    using c(1-4) i(1,2) assms(3) f
    by (simp add: pl_change_def pl_deref_def pl_put_def pl_updateChannel_def Let_def isNoneEvent_def
        kNoneEvent_def del: change_events.simps)
  then show ?thesis using i(2) assms(3) f by (simp del: change_events.simps)
qed

theorem reenabled_is_ignored_witness:
  "\<exists>s s' c. run_ops pl_exec pl_new [EpCreate 1 5, EpChange 1 EnableReading, EpChange 1 DisableAll] = Inr s \<and>
    pl_change EnableReading 1 s = Inr s' \<and> pl_objects s' 1 = Some c \<and> events c \<noteq> 0 \<and>
    pfd_fd (pollfds s' ! nat (ch_index c)) = -6"
proof -
  let ?ops = "[EpCreate 1 5, EpChange 1 EnableReading, EpChange 1 DisableAll]"
  have adm: "admissible pl_pre pl_spec (pl_abs pl_new) ?ops"
    unfolding pl_new_abs by (simp add: kReadEvent_def poll_flags registered_def)
  from poll_list.run_ok[OF pl_new_ok adm] obtain s where
    s: "run_ops pl_exec pl_new ?ops = Inr s" "pl_ok s" "pl_abs s = foldl pl_spec (pl_abs pl_new) ?ops" by blast
  have "pl_abs s 1 = Some (5, 0, Muted)"
    unfolding s(3) pl_new_abs by (simp add: kReadEvent_def poll_flags kNoneEvent_def)
  moreover have "change_events EnableReading 0 \<noteq> 0" by (simp add: kReadEvent_def poll_flags)
  ultimately show ?thesis using reenabled_is_ignored[OF s(2), of 1 5 EnableReading] s(1) by auto
qed

end
