(* ===== verification/ThreadPool.thy ===== *)
theory ThreadPool
  imports Contracts
begin

text \<open>
  base/ThreadPool.h, base/ThreadPool.cc: tasks handed to a fixed set of worker threads through a
  bounded queue. A step is what one thread does between two points where it can be stopped: a
  critical section from taking the mutex to its end or to the wait on a condition is one step,
  since a thread that waits gives the mutex back. A condition variable is the set of threads that
  wait on it; a notification wakes one of them, which the scheduler chooses, and a thread may
  also wake up by itself, as pthread allows. The workers and the threads that call run() are
  numbered.
\<close>

section \<open>State\<close>

datatype 'f worker = WLoop | WTake | WWait | WRun 'f | WDone

datatype 'f caller = PIdle | PTry 'f | PWait 'f

record 'f thread_pool =
  tp_queue :: "'f list"
  maxQueueSize :: nat
  running :: bool
  tp_workers :: "'f worker list"
  tp_callers :: "'f caller list"
  accepted :: "'f list"
  taken_tasks :: "'f list"
  finished :: "'f list"

text \<open>
  The last three fields record the tasks put into the queue, those taken out and those run, each
  in order.
\<close>

definition tp_new :: "nat \<Rightarrow> nat \<Rightarrow> 'f thread_pool" where
  "tp_new maxSize m = \<lparr>tp_queue = [], maxQueueSize = maxSize, running = False, tp_workers = [],
     tp_callers = replicate m PIdle, accepted = [], taken_tasks = [], finished = []\<rparr>"

definition tp_start :: "nat \<Rightarrow> 'f thread_pool \<Rightarrow> 'f thread_pool res" where
  "tp_start numThreads s =
     bindR (assertR (tp_workers s = [])) (\<lambda>_.
     Inr (s\<lparr>running := True, tp_workers := replicate numThreads WLoop\<rparr>))"

definition isFull :: "'f thread_pool \<Rightarrow> bool" where
  "isFull s \<longleftrightarrow> maxQueueSize s > 0 \<and> length (tp_queue s) \<ge> maxQueueSize s"

section \<open>Condition variables\<close>

fun wake_worker :: "'f worker \<Rightarrow> 'f worker" where
  "wake_worker WWait = WTake"
| "wake_worker w = w"

fun wake_caller :: "'f caller \<Rightarrow> 'f caller" where
  "wake_caller (PWait f) = PTry f"
| "wake_caller p = p"

definition waits :: "('a \<Rightarrow> 'a) \<Rightarrow> 'a \<Rightarrow> bool" where
  "waits wake x \<longleftrightarrow> wake x \<noteq> x"

text \<open>The thread \<open>k\<close> is the one the scheduler wakes; if none waits, nothing happens.\<close>

definition notify :: "('a \<Rightarrow> 'a) \<Rightarrow> nat \<Rightarrow> 'a list \<Rightarrow> 'a list option" where
  "notify wake k xs =
     (if \<exists>x \<in> set xs. waits wake x
      then if k < length xs \<and> waits wake (xs ! k) then Some (xs[k := wake (xs ! k)]) else None
      else Some xs)"

section \<open>Steps\<close>

text \<open>
  run(): at once when there are no workers, otherwise into the queue, or wait for a place, or give
  up when the pool is stopped.
\<close>

definition tp_run :: "nat \<Rightarrow> nat \<Rightarrow> 'f \<Rightarrow> 'f thread_pool \<Rightarrow> 'f thread_pool option" where
  "tp_run p k task s =
     (if tp_workers s = [] then Some (s\<lparr>finished := finished s @ [task], tp_callers := (tp_callers s)[p := PIdle]\<rparr>)
      else if isFull s \<and> running s then Some (s\<lparr>tp_callers := (tp_callers s)[p := PWait task]\<rparr>)
      else if \<not> running s then Some (s\<lparr>tp_callers := (tp_callers s)[p := PIdle]\<rparr>)
      else (case notify wake_worker k (tp_workers s) of
              None \<Rightarrow> None
            | Some ws \<Rightarrow> Some (s\<lparr>tp_queue := tp_queue s @ [task], accepted := accepted s @ [task],
                tp_workers := ws, tp_callers := (tp_callers s)[p := PIdle]\<rparr>)))"

definition take_task :: "nat \<Rightarrow> nat \<Rightarrow> 'f thread_pool \<Rightarrow> 'f thread_pool option" where
  "take_task i k s =
     (if tp_queue s = [] \<and> running s then Some (s\<lparr>tp_workers := (tp_workers s)[i := WWait]\<rparr>)
      else (case tp_queue s of
              [] \<Rightarrow> Some (s\<lparr>tp_workers := (tp_workers s)[i := WLoop]\<rparr>)
            | task # q \<Rightarrow>
                (case (if maxQueueSize s > 0 then notify wake_caller k (tp_callers s)
                       else Some (tp_callers s)) of
                   None \<Rightarrow> None
                 | Some ps \<Rightarrow> Some (s\<lparr>tp_queue := q, taken_tasks := taken_tasks s @ [task],
                     tp_callers := ps, tp_workers := (tp_workers s)[i := WRun task]\<rparr>))))"

definition tp_stop :: "'f thread_pool \<Rightarrow> 'f thread_pool" where
  "tp_stop s = s\<lparr>running := False, tp_workers := map wake_worker (tp_workers s),
     tp_callers := map wake_caller (tp_callers s)\<rparr>"

text \<open>
  \<^verbatim>\<open>stop()\<close> returns when every thread can be joined; the destructor stops a pool that is running.
\<close>

definition tp_joined :: "'f thread_pool \<Rightarrow> bool" where
  "tp_joined s \<longleftrightarrow> list_all (\<lambda>w. case w of WDone \<Rightarrow> True | _ \<Rightarrow> False) (tp_workers s)"

definition tp_destroy :: "'f thread_pool \<Rightarrow> 'f thread_pool" where
  "tp_destroy s = (if running s then tp_stop s else s)"

definition queueSize :: "'f thread_pool \<Rightarrow> nat" where
  "queueSize s = length (tp_queue s)"

inductive worker_step :: "nat \<Rightarrow> 'f thread_pool \<Rightarrow> 'f thread_pool \<Rightarrow> bool" for i :: nat where
  loop: "i < length (tp_workers s) \<Longrightarrow> tp_workers s ! i = WLoop \<Longrightarrow>
    worker_step i s (s\<lparr>tp_workers := (tp_workers s)[i := if running s then WTake else WDone]\<rparr>)"
| take_t: "i < length (tp_workers s) \<Longrightarrow> tp_workers s ! i = WTake \<Longrightarrow> take_task i k s = Some s' \<Longrightarrow>
    worker_step i s s'"
| run_t: "i < length (tp_workers s) \<Longrightarrow> tp_workers s ! i = WRun task \<Longrightarrow>
    worker_step i s (s\<lparr>tp_workers := (tp_workers s)[i := WLoop], finished := finished s @ [task]\<rparr>)"

inductive tp_step :: "'f thread_pool \<Rightarrow> 'f thread_pool \<Rightarrow> bool" where
  work: "worker_step i s s' \<Longrightarrow> tp_step s s'"
| call_run: "p < length (tp_callers s) \<Longrightarrow> tp_callers s ! p = PIdle \<Longrightarrow>
    tp_step s (s\<lparr>tp_callers := (tp_callers s)[p := PTry task]\<rparr>)"
| try_run: "p < length (tp_callers s) \<Longrightarrow> tp_callers s ! p = PTry task \<Longrightarrow> tp_run p k task s = Some s' \<Longrightarrow>
    tp_step s s'"
| stop: "tp_step s (tp_stop s)"
| spurious_w: "i < length (tp_workers s) \<Longrightarrow>
    tp_step s (s\<lparr>tp_workers := (tp_workers s)[i := wake_worker (tp_workers s ! i)]\<rparr>)"
| spurious_p: "p < length (tp_callers s) \<Longrightarrow>
    tp_step s (s\<lparr>tp_callers := (tp_callers s)[p := wake_caller (tp_callers s ! p)]\<rparr>)"

inductive_cases worker_stepE: "worker_step i s s'"
inductive_cases tp_stepE: "tp_step s s'"

section \<open>Invariant\<close>

text \<open>
  Tasks leave the queue in the order in which they came. Some worker is awake whenever a task
  waits; the callers that are awake are at least as many as the free places whenever a caller
  waits; and nobody waits once the pool is stopped.
\<close>

definition awake_callers :: "'f caller list \<Rightarrow> nat" where
  "awake_callers ps = length (filter (\<lambda>p. \<exists>f. p = PTry f) ps)"

definition waiting_callers :: "'f caller list \<Rightarrow> nat" where
  "waiting_callers ps = length (filter (waits wake_caller) ps)"

definition tp_inv :: "'f thread_pool \<Rightarrow> bool" where
  "tp_inv s \<longleftrightarrow> accepted s = taken_tasks s @ tp_queue s \<and>
     (maxQueueSize s > 0 \<longrightarrow> length (tp_queue s) \<le> maxQueueSize s) \<and>
     (running s \<and> tp_queue s \<noteq> [] \<longrightarrow> (\<exists>w \<in> set (tp_workers s). w \<noteq> WWait \<and> w \<noteq> WDone)) \<and>
     (running s \<longrightarrow> WDone \<notin> set (tp_workers s)) \<and> 
     (tp_workers s = [] \<longrightarrow> tp_queue s = [] \<and> waiting_callers (tp_callers s) = 0) \<and>
     (running s \<and> waiting_callers (tp_callers s) > 0 \<longrightarrow> maxQueueSize s > 0 \<and>
        maxQueueSize s \<le> length (tp_queue s) + awake_callers (tp_callers s)) \<and>
     (\<not> running s \<longrightarrow> WWait \<notin> set (tp_workers s) \<and> waiting_callers (tp_callers s) = 0)"

lemma tp_invD:
  assumes "tp_inv s"
  shows "accepted s = taken_tasks s @ tp_queue s"
    "maxQueueSize s > 0 \<Longrightarrow> length (tp_queue s) \<le> maxQueueSize s"
    "running s \<Longrightarrow> tp_queue s \<noteq> [] \<Longrightarrow> \<exists>w \<in> set (tp_workers s). w \<noteq> WWait \<and> w \<noteq> WDone"
    "running s \<Longrightarrow> WDone \<notin> set (tp_workers s)" "tp_workers s = [] \<Longrightarrow> tp_queue s = [] \<and> waiting_callers (tp_callers s) = 0"
    "running s \<Longrightarrow> waiting_callers (tp_callers s) > 0 \<Longrightarrow> maxQueueSize s > 0 \<and>
        maxQueueSize s \<le> length (tp_queue s) + awake_callers (tp_callers s)"
    "\<not> running s \<Longrightarrow> WWait \<notin> set (tp_workers s) \<and> waiting_callers (tp_callers s) = 0"
  using assms unfolding tp_inv_def by blast+

lemma length_filter_update:
  "i < length xs \<Longrightarrow> length (filter P (xs[i := y])) + (if P (xs ! i) then 1 else 0) =
   length (filter P xs) + (if P y then 1 else 0)"
proof (induction xs arbitrary: i)
  case (Cons x xs)
  then show ?case by (cases i) auto
qed simp

lemma waits_simps [simp]:
  "waits wake_caller p \<longleftrightarrow> (\<exists>f. p = PWait f)" "waits wake_worker w \<longleftrightarrow> w = WWait"
  by (cases p; simp add: waits_def) (cases w; simp add: waits_def)

text \<open>How a change of one caller changes the two counts.\<close>

lemma callers_update:
  assumes "i < length ps"
  shows "waiting_callers (ps[i := y]) + (if \<exists>f. ps ! i = PWait f then 1 else 0) =
      waiting_callers ps + (if \<exists>f. y = PWait f then 1 else 0)"
    "awake_callers (ps[i := y]) + (if \<exists>f. ps ! i = PTry f then 1 else 0) =
      awake_callers ps + (if \<exists>f. y = PTry f then 1 else 0)"
  using length_filter_update[OF assms, of "waits wake_caller" y]
    length_filter_update[OF assms, of "\<lambda>p. \<exists>f. p = PTry f" y]
  by (simp_all add: waiting_callers_def awake_callers_def)

lemma notify_worker:
  assumes "notify wake_worker k ws = Some ws'"
  shows "length ws' = length ws \<and> set ws' \<subseteq> insert WTake (set ws) \<and> (WWait \<in> set ws \<longrightarrow> WTake \<in> set ws') \<and>
    (WWait \<notin> set ws \<longrightarrow> ws' = ws)"
  using assms set_update_subset_insert[of ws k WTake]
  by (auto simp: notify_def set_update_memI split: if_splits)

lemma notify_caller:
  assumes "notify wake_caller k ps = Some ps'"
  shows "(waiting_callers ps = 0 \<longrightarrow> ps' = ps) \<and>
    (waiting_callers ps > 0 \<longrightarrow> waiting_callers ps' + 1 = waiting_callers ps \<and>
       awake_callers ps' = awake_callers ps + 1)"
proof (cases "\<exists>x \<in> set ps. waits wake_caller x")
  case True
  then have k: "k < length ps" "waits wake_caller (ps ! k)" "ps' = ps[k := wake_caller (ps ! k)]"
    using assms by (auto simp: notify_def split: if_splits)
  then obtain f where f: "ps ! k = PWait f" by auto
  have "waiting_callers ps > 0"
    using True by (auto simp: waiting_callers_def filter_empty_conv)
  with callers_update[OF k(1), of "PTry f"] f k(3) show ?thesis by auto
next
  case False
  then have "waiting_callers ps = 0" by (auto simp: waiting_callers_def filter_empty_conv)
  with False assms show ?thesis by (auto simp: notify_def)
qed

lemma tp_invI:
  assumes "accepted s = taken_tasks s @ tp_queue s"
    "maxQueueSize s > 0 \<Longrightarrow> length (tp_queue s) \<le> maxQueueSize s"
    "running s \<Longrightarrow> tp_queue s \<noteq> [] \<Longrightarrow> \<exists>w \<in> set (tp_workers s). w \<noteq> WWait \<and> w \<noteq> WDone"
    "running s \<Longrightarrow> WDone \<notin> set (tp_workers s)" "tp_workers s = [] \<Longrightarrow> tp_queue s = [] \<and> waiting_callers (tp_callers s) = 0"
    "running s \<Longrightarrow> waiting_callers (tp_callers s) > 0 \<Longrightarrow> maxQueueSize s > 0 \<and>
        maxQueueSize s \<le> length (tp_queue s) + awake_callers (tp_callers s)"
    "\<not> running s \<Longrightarrow> WWait \<notin> set (tp_workers s) \<and> waiting_callers (tp_callers s) = 0"
  shows "tp_inv s"
  using assms unfolding tp_inv_def by blast

text \<open>A worker that changes to a state in which it is neither waiting nor done.\<close>

lemma worker_update_inv:
  assumes inv: "tp_inv s" and i: "i < length (tp_workers s)" and w: "w \<noteq> WWait" "w = WDone \<longrightarrow> \<not> running s"
    and s': "s' = s\<lparr>tp_workers := (tp_workers s)[i := w], finished := fs\<rparr>"
  shows "tp_inv s'"
proof (rule tp_invI)
  note D = tp_invD[OF inv]
  have sub: "set (tp_workers s') \<subseteq> insert w (set (tp_workers s))" by (simp add: s' set_update_subset_insert)
  have w_in: "w \<in> set (tp_workers s')" using i by (simp add: s' set_update_memI)
  show "accepted s' = taken_tasks s' @ tp_queue s'" using D(1) by (simp add: s')
  show "maxQueueSize s' > 0 \<Longrightarrow> length (tp_queue s') \<le> maxQueueSize s'" using D(2) by (simp add: s')
  show "\<exists>w \<in> set (tp_workers s'). w \<noteq> WWait \<and> w \<noteq> WDone" if "running s'" "tp_queue s' \<noteq> []"
    using w w_in that by (auto simp: s')
  show "WDone \<notin> set (tp_workers s')" if "running s'" using that D(4) sub w by (auto simp: s')
  show "tp_workers s' = [] \<Longrightarrow> tp_queue s' = [] \<and> waiting_callers (tp_callers s') = 0"
    using D(5) by (simp add: s')
  show "maxQueueSize s' > 0 \<and> maxQueueSize s' \<le> length (tp_queue s') + awake_callers (tp_callers s')"
    if "running s'" "waiting_callers (tp_callers s') > 0" using that D(6) by (simp add: s')
  show "WWait \<notin> set (tp_workers s') \<and> waiting_callers (tp_callers s') = 0" if "\<not> running s'"
    using that D(7) sub w by (auto simp: s')
qed

lemma take_inv:
  assumes inv: "tp_inv s" and i: "i < length (tp_workers s)" and t: "take_task i k s = Some s'"
  shows "tp_inv s'"
proof -
  note D = tp_invD[OF inv]
  consider "tp_queue s = []" "running s" | "tp_queue s = []" "\<not> running s" | task q where "tp_queue s = task # q"
    by (cases "tp_queue s") auto
  then show ?thesis
  proof cases
    case 1
    then have s': "s' = s\<lparr>tp_workers := (tp_workers s)[i := WWait]\<rparr>" using t by (simp add: take_task_def)
    have sub: "set (tp_workers s') \<subseteq> insert WWait (set (tp_workers s))" by (simp add: s' set_update_subset_insert)
    show ?thesis
      by (rule tp_invI) (use 1 D sub in \<open>auto simp: s'\<close>)
  next
    case 2
    then have "s' = s\<lparr>tp_workers := (tp_workers s)[i := WLoop], finished := finished s\<rparr>"
      using t by (auto simp: take_task_def)
    then show ?thesis by (rule worker_update_inv[OF inv i, rotated 2]) simp_all
  next
    case 3
    then obtain ps where ps: "(if maxQueueSize s > 0 then notify wake_caller k (tp_callers s)
        else Some (tp_callers s)) = Some ps"
      "s' = s\<lparr>tp_queue := q, taken_tasks := taken_tasks s @ [task], tp_callers := ps,
         tp_workers := (tp_workers s)[i := WRun task]\<rparr>"
      using t by (auto simp: take_task_def split: option.splits)
    have sub: "set (tp_workers s') \<subseteq> insert (WRun task) (set (tp_workers s))"
      by (simp add: ps(2) set_update_subset_insert)
    have run_in: "WRun task \<in> set (tp_workers s')" using i by (simp add: ps(2) set_update_memI)
    have zero: "waiting_callers (tp_callers s) = 0 \<Longrightarrow> waiting_callers (tp_callers s') = 0"
      using notify_caller[of k "tp_callers s" ps] ps by (auto split: if_splits)
    show ?thesis
    proof (rule tp_invI)
      show "accepted s' = taken_tasks s' @ tp_queue s'" using D(1) 3 by (simp add: ps(2))
      show "length (tp_queue s') \<le> maxQueueSize s'" if "maxQueueSize s' > 0"
        using D(2) 3 that by (simp add: ps(2))
      show "\<exists>w \<in> set (tp_workers s'). w \<noteq> WWait \<and> w \<noteq> WDone" using run_in by blast
      show "WDone \<notin> set (tp_workers s')" if "running s'" using that D(4) sub by (auto simp: ps(2))
      show "tp_queue s' = [] \<and> waiting_callers (tp_callers s') = 0" if "tp_workers s' = []"
        using that i by (simp add: ps(2))
      show "maxQueueSize s' > 0 \<and> maxQueueSize s' \<le> length (tp_queue s') + awake_callers (tp_callers s')"
        if r: "running s'" and w: "waiting_callers (tp_callers s') > 0"
      proof -
        have "waiting_callers (tp_callers s) > 0" using zero w by (cases "waiting_callers (tp_callers s)") auto
        moreover have "running s" using r by (simp add: ps(2))
        ultimately have m: "maxQueueSize s > 0" "maxQueueSize s \<le> length (tp_queue s) + awake_callers (tp_callers s)"
          using D(6) by auto
        then have "awake_callers (tp_callers s') = awake_callers (tp_callers s) + 1"
          using notify_caller[of k "tp_callers s" ps] ps \<open>waiting_callers (tp_callers s) > 0\<close> by simp
        with m 3 show ?thesis by (simp add: ps(2))
      qed
      show "WWait \<notin> set (tp_workers s') \<and> waiting_callers (tp_callers s') = 0" if "\<not> running s'"
        using that D(7) sub zero by (auto simp: ps(2))
    qed
  qed
qed

text \<open>A caller that changes its state, when no task comes in.\<close>

lemma caller_update_inv:
  assumes inv: "tp_inv s" and p: "p < length (tp_callers s)"
    and q: "\<forall>f. q = PWait f \<longrightarrow> running s \<and> isFull s"
    and awake: "(\<exists>f. tp_callers s ! p = PTry f) \<and> \<not> (\<exists>f. q = PTry f) \<longrightarrow> \<not> running s \<or> isFull s \<or> tp_workers s = []"
    and s': "s' = s\<lparr>tp_callers := (tp_callers s)[p := q], finished := fs\<rparr>"
  shows "tp_inv s'"
proof (rule tp_invI)
  note D = tp_invD[OF inv]
  note U = callers_update[OF p, of q]
  have c: "tp_callers s' = (tp_callers s)[p := q]" by (simp add: s')
  show "maxQueueSize s' > 0 \<and> maxQueueSize s' \<le> length (tp_queue s') + awake_callers (tp_callers s')"
    if r: "running s'" and w: "waiting_callers (tp_callers s') > 0"
  proof (cases "isFull s")
    case True
    then show ?thesis by (simp add: isFull_def s')
  next
    case False
    then have nw: "\<not> (\<exists>f. q = PWait f)" using q by blast
    then have "waiting_callers (tp_callers s) > 0" using U(1) w by (simp add: c split: if_splits)
    then have m: "maxQueueSize s > 0" "maxQueueSize s \<le> length (tp_queue s) + awake_callers (tp_callers s)"
      and "tp_workers s \<noteq> []" using D(5,6) r by (auto simp: s')
    then have "\<not> ((\<exists>f. tp_callers s ! p = PTry f) \<and> \<not> (\<exists>f. q = PTry f))" using awake False r by (auto simp: s')
    then have "awake_callers (tp_callers s) \<le> awake_callers (tp_callers s')" using U(2) by (auto simp: c split: if_splits)
    with m show ?thesis by (simp add: s')
  qed
  show "WWait \<notin> set (tp_workers s') \<and> waiting_callers (tp_callers s') = 0" if "\<not> running s'"
    using that D(7) U(1) q by (auto simp: c s' split: if_splits)
  show "tp_queue s' = [] \<and> waiting_callers (tp_callers s') = 0" if "tp_workers s' = []"
  proof -
    have w: "tp_queue s = []" "waiting_callers (tp_callers s) = 0" using D(5) that by (simp_all add: s')
    then have "\<not> isFull s" by (auto simp: isFull_def)
    with w U(1) q show ?thesis by (auto simp: c s' split: if_splits)
  qed
qed (use tp_invD[OF inv] in \<open>auto simp: s'\<close>)

text \<open>A task comes in: a worker is woken if one waits, and a place is used up.\<close>

lemma push_inv:
  assumes inv: "tp_inv s" and p: "p < length (tp_callers s)" "tp_callers s ! p = PTry task"
    and st: "running s" "\<not> isFull s" "tp_workers s \<noteq> []"
    and ws: "notify wake_worker k (tp_workers s) = Some ws"
    and s': "s' = s\<lparr>tp_queue := tp_queue s @ [task], accepted := accepted s @ [task],
      tp_workers := ws, tp_callers := (tp_callers s)[p := PIdle]\<rparr>"
  shows "tp_inv s'"
proof (rule tp_invI)
  note D = tp_invD[OF inv]
  note N = notify_worker[OF ws]
  note U = callers_update[OF p(1), of PIdle]
  show "\<exists>w \<in> set (tp_workers s'). w \<noteq> WWait \<and> w \<noteq> WDone"
  proof (cases "WWait \<in> set (tp_workers s)")
    case True
    then have "WTake \<in> set ws" using N by blast
    then show ?thesis by (auto simp: s')
  next
    case False
    obtain w where w: "w \<in> set (tp_workers s)" using st(3) by (cases "tp_workers s") auto
    with False D(4) st(1) have "w \<noteq> WWait" "w \<noteq> WDone" by auto
    with w False N show ?thesis by (auto simp: s')
  qed
  show "WDone \<notin> set (tp_workers s')" using D(4) st(1) N by (auto simp: s')
  show "tp_queue s' = [] \<and> waiting_callers (tp_callers s') = 0" if "tp_workers s' = []"
    using that N st(3) by (simp add: s')
  show "maxQueueSize s' > 0 \<and> maxQueueSize s' \<le> length (tp_queue s') + awake_callers (tp_callers s')"
    if "waiting_callers (tp_callers s') > 0"
  proof -
    have "waiting_callers (tp_callers s) > 0" using that U(1) p(2) by (simp add: s')
    then have m: "maxQueueSize s > 0" "maxQueueSize s \<le> length (tp_queue s) + awake_callers (tp_callers s)"
      using D(6) st(1) by auto
    moreover have "awake_callers ((tp_callers s)[p := PIdle]) + 1 = awake_callers (tp_callers s)"
      using U(2) p(2) by simp
    ultimately show ?thesis by (simp add: s')
  qed
  show "maxQueueSize s' > 0 \<Longrightarrow> length (tp_queue s') \<le> maxQueueSize s'"
    using st(2) by (simp add: s' isFull_def)
qed (use tp_invD[OF inv] st(1) in \<open>auto simp: s'\<close>)

lemma tp_run_inv:
  assumes inv: "tp_inv s" and p: "p < length (tp_callers s)" "tp_callers s ! p = PTry task"
    and r: "tp_run p k task s = Some s'"
  shows "tp_inv s'"
proof -
  consider "tp_workers s = []" | "tp_workers s \<noteq> []" "isFull s" "running s"
    | "tp_workers s \<noteq> []" "\<not> running s" | "tp_workers s \<noteq> []" "\<not> isFull s" "running s" by blast
  then show ?thesis
  proof cases
    case 1
    then have "s' = s\<lparr>tp_callers := (tp_callers s)[p := PIdle], finished := finished s @ [task]\<rparr>"
      using r by (auto simp: tp_run_def)
    then show ?thesis by (rule caller_update_inv[OF inv p(1), rotated 2]) (use 1 in auto)
  next
    case 2
    then have "s' = s\<lparr>tp_callers := (tp_callers s)[p := PWait task], finished := finished s\<rparr>"
      using r by (auto simp: tp_run_def)
    then show ?thesis by (rule caller_update_inv[OF inv p(1), rotated 2]) (use 2 in auto)
  next
    case 3
    then have "s' = s\<lparr>tp_callers := (tp_callers s)[p := PIdle], finished := finished s\<rparr>"
      using r by (auto simp: tp_run_def)
    then show ?thesis by (rule caller_update_inv[OF inv p(1), rotated 2]) (use 3 in auto)
  next
    case 4
    then obtain ws where ws: "notify wake_worker k (tp_workers s) = Some ws"
      "s' = s\<lparr>tp_queue := tp_queue s @ [task], accepted := accepted s @ [task],
         tp_workers := ws, tp_callers := (tp_callers s)[p := PIdle]\<rparr>"
      using r by (auto simp: tp_run_def split: option.splits)
    show ?thesis by (rule push_inv[OF inv p 4(3,2,1) ws])
  qed
qed

lemma stop_inv:
  assumes inv: "tp_inv s"
  shows "tp_inv (tp_stop s)"
proof -
  have "WWait \<notin> set (map wake_worker ws)" for ws :: "'a worker list"
  proof
    assume "WWait \<in> set (map wake_worker ws)"
    then obtain w :: "'a worker" where "WWait = wake_worker w" by auto
    then show False by (cases w) auto
  qed
  moreover have "waiting_callers (map wake_caller ps) = 0" for ps :: "'a caller list"
  proof -
    have "\<not> waits wake_caller (wake_caller p)" for p :: "'a caller" by (cases p) auto
    then show ?thesis by (simp add: waiting_callers_def filter_map o_def)
  qed
  ultimately show ?thesis using tp_invD[OF inv] by (intro tp_invI) (auto simp: tp_stop_def)
qed

lemma worker_step_inv: "worker_step i s s' \<Longrightarrow> tp_inv s \<Longrightarrow> tp_inv s'"
proof (induction rule: worker_step.induct)
  case (loop s)
  show ?case
    by (rule worker_update_inv[OF loop.prems loop.hyps(1), of "if running s then WTake else WDone" _ "finished s"])
      simp_all
next
  case (take_t s k s')
  show ?case by (rule take_inv[OF take_t.prems take_t.hyps(1,3)])
next
  case (run_t s task)
  show ?case
    by (rule worker_update_inv[OF run_t.prems run_t.hyps(1), of WLoop _ "finished s @ [task]"]) simp_all
qed

lemma tp_step_inv: "tp_step s s' \<Longrightarrow> tp_inv s \<Longrightarrow> tp_inv s'"
proof (induction rule: tp_step.induct)
  case (work i s s')
  then show ?case by (rule worker_step_inv)
next
  case (call_run p s task)
  show ?case
    by (rule caller_update_inv[OF call_run.prems call_run.hyps(1), of "PTry task" _ "finished s"]) simp_all
next
  case (try_run p s task k s')
  show ?case by (rule tp_run_inv[OF try_run.prems try_run.hyps])
next
  case (stop s)
  then show ?case by (rule stop_inv)
next
  case (spurious_w i s)
  show ?case
  proof (cases "tp_workers s ! i = WWait")
    case True
    show ?thesis
      by (rule worker_update_inv[OF spurious_w.prems spurious_w.hyps, of WTake _ "finished s"]) (simp_all add: True)
  next
    case False
    then have "wake_worker (tp_workers s ! i) = tp_workers s ! i" by (cases "tp_workers s ! i") auto
    with spurious_w.prems show ?thesis by simp
  qed
next
  case (spurious_p p s)
  show ?case
  proof (cases "\<exists>f. tp_callers s ! p = PWait f")
    case True
    then obtain f where f: "tp_callers s ! p = PWait f" by blast
    show ?thesis
      by (rule caller_update_inv[OF spurious_p.prems spurious_p.hyps, of "PTry f" _ "finished s"]) (simp_all add: f)
  next
    case False
    then have "wake_caller (tp_callers s ! p) = tp_callers s ! p" by (cases "tp_callers s ! p") auto
    with spurious_p.prems show ?thesis by simp
  qed
qed

definition tp_started :: "'f thread_pool \<Rightarrow> bool" where
  "tp_started s \<longleftrightarrow> (\<exists>maxSize m n. tp_start n (tp_new maxSize m) = Inr s)"

lemma tp_started_inv: "tp_started s \<Longrightarrow> tp_inv s"
  by (auto simp: tp_started_def tp_start_def tp_new_def tp_inv_def waiting_callers_def)

interpretation task_pool: machine tp_started tp_step tp_inv
  by unfold_locales (auto intro: tp_started_inv tp_step_inv)

section \<open>Properties\<close>

text \<open>A pool of one worker and a queue of one place, two tasks, and the stop.\<close>

definition small_pool :: "nat thread_pool" where
  "small_pool = (tp_new 1 2)\<lparr>running := True, tp_workers := [WLoop]\<rparr>"

lemma small_pool_reach: "reach tp_started tp_step small_pool"
  by (rule reach_init) (auto simp: tp_started_def small_pool_def tp_start_def tp_new_def intro: exI[of _ 1] exI[of _ 2])

lemma two_tasks:
  assumes "reach tp_started tp_step small_pool"
  shows "reach tp_started tp_step (small_pool\<lparr>tp_queue := [8], accepted := [7, 8], taken_tasks := [7],
    tp_workers := [WRun 7]\<rparr>)"
proof -
  let ?s1 = "small_pool\<lparr>tp_callers := [PTry 7, PIdle]\<rparr>"
  let ?s2 = "small_pool\<lparr>tp_queue := [7], accepted := [7]\<rparr>"
  let ?s3 = "small_pool\<lparr>tp_queue := [7], accepted := [7], tp_workers := [WTake]\<rparr>"
  let ?s4 = "small_pool\<lparr>accepted := [7], taken_tasks := [7], tp_workers := [WRun 7]\<rparr>"
  let ?s5 = "small_pool\<lparr>accepted := [7], taken_tasks := [7], tp_workers := [WRun 7], tp_callers := [PTry 8, PIdle]\<rparr>"
  let ?s6 = "small_pool\<lparr>tp_queue := [8], accepted := [7, 8], taken_tasks := [7], tp_workers := [WRun 7]\<rparr>"
  note defs = small_pool_def tp_new_def numeral_2_eq_2 notify_def isFull_def
  have "tp_step small_pool ?s1" using call_run[of 0 small_pool 7] by (simp add: defs)
  moreover have "tp_step ?s1 ?s2" by (rule try_run[of 0 _ 7 0]) (simp_all add: defs tp_run_def)
  moreover have "tp_step ?s2 ?s3" using work[OF loop[of 0 ?s2]] by (simp add: defs)
  moreover have "tp_step ?s3 ?s4" by (rule work, rule take_t[of 0 _ 0]) (simp_all add: defs take_task_def)
  moreover have "tp_step ?s4 ?s5" using call_run[of 0 ?s4 8] by (simp add: defs)
  moreover have "tp_step ?s5 ?s6" by (rule try_run[of 0 _ 8 0]) (simp_all add: defs tp_run_def)
  ultimately show ?thesis using assms by (meson reach_step)
qed

text \<open>
  C33: Tasks are taken out in the order in which they were put in, none is lost or taken twice,
  and the queue never grows past its bound, whatever the threads do.
\<close>

theorem pool_fifo_bounded:
  assumes "reach tp_started tp_step s"
  shows "accepted s = taken_tasks s @ tp_queue s \<and>
    (maxQueueSize s > 0 \<longrightarrow> length (tp_queue s) \<le> maxQueueSize s)"
  using tp_invD(1,2)[OF task_pool.reach_inv[OF assms]] by blast

theorem pool_fifo_bounded_witness:
  "\<exists>s. reach tp_started tp_step s \<and> accepted s = [7, 8] \<and> tp_queue s = [8 :: nat] \<and>
    accepted s = taken_tasks s @ tp_queue s"
  using pool_fifo_bounded[OF two_tasks[OF small_pool_reach]] two_tasks[OF small_pool_reach]
  by (intro exI[of _ "small_pool\<lparr>tp_queue := [8], accepted := [7, 8], taken_tasks := [7], tp_workers := [WRun 7]\<rparr>"]) simp

text \<open>
  C20: No wake-up is lost. While the pool runs, a task in the queue always finds a worker that is
  awake, although a notification wakes one worker only; and a caller that waits for a place while
  there is one is not alone: another one is awake for it. Once the pool is stopped nobody waits.
\<close>

theorem pool_no_lost_wakeup:
  assumes "reach tp_started tp_step s"
  shows "(running s \<and> tp_queue s \<noteq> [] \<longrightarrow> (\<exists>w \<in> set (tp_workers s). w \<noteq> WWait \<and> w \<noteq> WDone)) \<and>
    (running s \<and> (\<exists>f. PWait f \<in> set (tp_callers s)) \<longrightarrow> isFull s \<or> (\<exists>f. PTry f \<in> set (tp_callers s))) \<and>
    (\<not> running s \<longrightarrow> WWait \<notin> set (tp_workers s) \<and> (\<forall>f. PWait f \<notin> set (tp_callers s)))"
proof -
  note D = tp_invD[OF task_pool.reach_inv[OF assms]]
  have w: "waiting_callers (tp_callers s) > 0 \<longleftrightarrow> (\<exists>f. PWait f \<in> set (tp_callers s))"
    by (force simp: waiting_callers_def filter_empty_conv)
  have a: "awake_callers (tp_callers s) > 0 \<longleftrightarrow> (\<exists>f. PTry f \<in> set (tp_callers s))"
    by (force simp: awake_callers_def filter_empty_conv)
  have "isFull s \<or> (\<exists>f. PTry f \<in> set (tp_callers s))" if "running s" "\<exists>f. PWait f \<in> set (tp_callers s)"
    using D(6) that unfolding w[symmetric] a[symmetric] by (auto simp: isFull_def)
  with D(3,7) w show ?thesis by auto
qed

theorem pool_no_lost_wakeup_witness:
  "\<exists>s. reach tp_started tp_step s \<and> running s \<and> tp_queue s = [8 :: nat] \<and>
    (\<exists>w \<in> set (tp_workers s). w \<noteq> WWait \<and> w \<noteq> WDone)"
  using pool_no_lost_wakeup[OF two_tasks[OF small_pool_reach]] two_tasks[OF small_pool_reach]
  by (intro exI[of _ "small_pool\<lparr>tp_queue := [8], accepted := [7, 8], taken_tasks := [7], tp_workers := [WRun 7]\<rparr>"])
    (simp add: small_pool_def)

text \<open>How many steps a worker has left once the pool is stopped.\<close>

fun worker_left :: "'f worker \<Rightarrow> nat" where
  "worker_left WDone = 0"
| "worker_left WLoop = 1"
| "worker_left (WRun f) = 2"
| "worker_left WTake = 3"
| "worker_left WWait = 4"

definition work_left :: "'f thread_pool \<Rightarrow> nat" where
  "work_left s = sum_list (map worker_left (tp_workers s))"

lemma work_left_update:
  assumes "i < length ws" "worker_left w < worker_left (ws ! i)"
  shows "sum_list (map worker_left (ws[i := w])) < sum_list (map worker_left ws)"
  using assms
proof (induction ws arbitrary: i)
  case (Cons x ws)
  then show ?case by (cases i) auto
qed simp

lemma stopped_worker_step:
  "worker_step i s s' \<Longrightarrow> \<not> running s \<Longrightarrow> \<not> running s' \<and> work_left s' < work_left s"
  by (induction rule: worker_step.induct)
    (auto simp: work_left_def take_task_def intro!: work_left_update split: list.splits option.splits if_splits)

lemma stopped_step:
  assumes "tp_step s s'" "\<not> running s" "tp_inv s"
  shows "\<not> running s' \<and> work_left s' \<le> work_left s"
proof -
  have nw: "WWait \<notin> set (tp_workers s)" using tp_invD(7)[OF assms(3)] assms(2) by simp
  have same: "wake_worker w = w" if "w \<in> set (tp_workers s)" for w
  proof -
    from that nw have "w \<noteq> WWait" by auto
    then show ?thesis by (cases w) simp_all
  qed
  show ?thesis using assms(1)
  proof (cases rule: tp_step.cases)
    case (work i)
    from stopped_worker_step[OF work assms(2)] show ?thesis by simp
  next
    case (try_run p task k)
    with assms(2) show ?thesis by (auto simp: tp_run_def work_left_def split: if_splits option.splits)
  next
    case stop
    have "map wake_worker (tp_workers s) = tp_workers s" using same by (intro map_idI)
    with stop show ?thesis by (simp add: tp_stop_def work_left_def)
  next
    case (spurious_w i)
    then have "wake_worker (tp_workers s ! i) = tp_workers s ! i" by (intro same) simp
    with spurious_w assms(2) show ?thesis by (simp add: work_left_def)
  qed (use assms(2) in \<open>simp_all add: work_left_def\<close>)
qed

lemma worker_can_step:
  assumes "i < length (tp_workers s)" "tp_workers s ! i \<noteq> WDone" "tp_workers s ! i \<noteq> WWait" "\<not> running s"
  shows "\<exists>s'. worker_step i s s'"
proof (cases "tp_workers s ! i")
  case WTake
  show ?thesis
  proof (cases "\<exists>x \<in> set (tp_callers s). waits wake_caller x")
    case True
    then obtain k where "k < length (tp_callers s)" "waits wake_caller (tp_callers s ! k)"
      by (metis in_set_conv_nth)
    with True have "\<exists>ps. notify wake_caller k (tp_callers s) = Some ps" unfolding notify_def by simp
    then have "\<exists>s'. take_task i k s = Some s'"
      using assms(4) by (auto simp: take_task_def split: list.splits)
    with WTake assms(1) show ?thesis by (blast intro: take_t)
  next
    case False
    then have "\<exists>ps. notify wake_caller 0 (tp_callers s) = Some ps" unfolding notify_def by simp
    then have "\<exists>s'. take_task i 0 s = Some s'"
      using assms(4) by (auto simp: take_task_def split: list.splits)
    with WTake assms(1) show ?thesis by (blast intro: take_t)
  qed
next
  case WLoop
  with assms(1) show ?thesis by (blast intro: loop)
next
  case (WRun task)
  with assms(1) show ?thesis by (blast intro: run_t)
qed (use assms in simp_all)

text \<open>
  C34: stop() returns. Once the pool is stopped it stays stopped, every worker that is not done
  can go on, each of its steps makes a measure smaller that no step of any other thread makes
  larger: so all workers reach their end and can be joined.
\<close>

theorem pool_stops:
  assumes "reach tp_started tp_step s" "\<not> running s"
  shows "(\<forall>s'. tp_step s s' \<longrightarrow> \<not> running s' \<and> work_left s' \<le> work_left s) \<and>
    (\<forall>i s'. worker_step i s s' \<longrightarrow> work_left s' < work_left s) \<and>
    (\<forall>i < length (tp_workers s). tp_workers s ! i \<noteq> WDone \<longrightarrow> (\<exists>s'. worker_step i s s'))"
proof -
  have inv: "tp_inv s" by (rule task_pool.reach_inv[OF assms(1)])
  have "tp_workers s ! i \<noteq> WWait" if "i < length (tp_workers s)" for i
    using tp_invD(7)[OF inv assms(2)] that by (metis nth_mem)
  then show ?thesis
    using stopped_step[OF _ assms(2) inv] stopped_worker_step[OF _ assms(2)] worker_can_step[OF _ _ _ assms(2)]
    by blast
qed

lemma stopped_pool:
  "reach tp_started tp_step (small_pool\<lparr>running := False, tp_queue := [8], accepted := [7, 8], taken_tasks := [7],
    tp_workers := [WRun 7]\<rparr>)"
proof -
  have "tp_stop (small_pool\<lparr>tp_queue := [8], accepted := [7, 8], taken_tasks := [7], tp_workers := [WRun 7]\<rparr>) =
    small_pool\<lparr>running := False, tp_queue := [8], accepted := [7, 8], taken_tasks := [7], tp_workers := [WRun 7]\<rparr>"
    by (simp add: tp_stop_def small_pool_def tp_new_def numeral_2_eq_2)
  with reach_step[OF two_tasks[OF small_pool_reach] stop] show ?thesis by simp
qed

theorem pool_stops_witness:
  "\<exists>s :: nat thread_pool. reach tp_started tp_step s \<and> \<not> running s \<and> tp_workers s = [WRun 7] \<and>
    (\<exists>s'. worker_step 0 s s' \<and> work_left s' < work_left s)"
proof -
  let ?s = "small_pool\<lparr>running := False, tp_queue := [8], accepted := [7, 8], taken_tasks := [7], tp_workers := [WRun 7]\<rparr>"
  have "\<not> running ?s" by simp
  from pool_stops[OF stopped_pool this] have "\<exists>s'. worker_step 0 ?s s' \<and> work_left s' < work_left ?s" by force
  with stopped_pool show ?thesis by (intro exI[of _ ?s]) simp
qed

text \<open>
  stop() drops what is left: the worker that was busy ends without taking the task that
  waits in the queue, which was accepted and never runs.
\<close>

theorem stop_drops_tasks:
  "\<exists>s :: nat thread_pool. reach tp_started tp_step s \<and> set (tp_workers s) = {WDone} \<and>
    tp_queue s = [8] \<and> accepted s = [7, 8] \<and> finished s = [7]"
proof -
  let ?s = "small_pool\<lparr>running := False, tp_queue := [8], accepted := [7, 8], taken_tasks := [7], tp_workers := [WRun 7]\<rparr>"
  let ?t = "?s\<lparr>tp_workers := [WLoop], finished := [7]\<rparr>" and ?u = "?s\<lparr>tp_workers := [WDone], finished := [7]\<rparr>"
  have "tp_step ?s ?t" using work[OF run_t[of 0 ?s 7]] by (simp add: small_pool_def tp_new_def)
  moreover have "tp_step ?t ?u" using work[OF loop[of 0 ?t]] by (simp add: small_pool_def tp_new_def)
  ultimately have "reach tp_started tp_step ?u" using stopped_pool by (meson reach_step)
  then show ?thesis by (intro exI[of _ ?u]) (simp add: small_pool_def tp_new_def)
qed

end
