(* ===== verification/TcpConnection.thy ===== *)
theory TcpConnection
  imports Buffer EPoller
begin

text \<open>
  net/TcpConnection.h, net/TcpConnection.cc: one TCP connection in its event loop, over the
  models of its two buffers and of its channel in the poller. The socket is its two ends as the
  peer sees them: the bytes the kernel took from \<^verbatim>\<open>write\<close> and whether a FIN was sent. The user
  callbacks and the calls of other handlers are lists of calls of the public interface.

  The close callback is the server's: \<^verbatim>\<open>TcpServer::removeConnection\<close> takes the connection out of
  its map, which asserts that it was there, and queues \<^verbatim>\<open>connectDestroyed\<close>. The object lives
  while the map, or a functor that was bound to a \<^verbatim>\<open>shared_ptr\<close>, refers to it.
\<close>

section \<open>State\<close>

datatype conn_state = kConnecting | kConnected | kDisconnecting | kDisconnected

text \<open>What was queued into the loop for the connection; the first two hold a raw \<^verbatim>\<open>this\<close>.\<close>

datatype conn_functor =
    FSendInLoop "byte list"
  | FShutdownInLoop
  | FEstablished
  | FDestroyed
  | FWriteComplete

text \<open>What the kernel does with a request to write that many bytes, or to read into that room.\<close>

datatype write_result = Wrote nat | WriteErr int

type_synonym kernel_write = "nat \<Rightarrow> write_result"
type_synonym kernel_read = "nat \<Rightarrow> readv_result"

record conn =
  conn_st :: conn_state
  sockfd :: int
  chan :: nat
  poller :: epoller
  inputBuffer :: buffer
  outputBuffer :: buffer
  hasWriteComplete :: bool
  inServerMap :: bool
  alive :: bool
  pending :: "conn_functor list"
  handled :: bool
  sent :: "byte list"
  finSent :: bool
  asked :: "byte list"
  received :: "byte list"
  taken :: "byte list"
  conn_calls :: "bool list"

text \<open>
  \<open>handled\<close> is whether the channel was already handled since the last poll: a channel is active
  at most once per poll, and the pending functors run before the next one. The last five fields
  record what the properties speak of: the bytes given to \<open>sendInLoop\<close>,
  the bytes read from the socket, those the user took out of the input buffer, and the calls of
  the connection callback with what \<^verbatim>\<open>connected()\<close> returned.
\<close>

section \<open>Access to the channel\<close>

definition conn_change :: "interest_change \<Rightarrow> conn \<Rightarrow> conn res" where
  "conn_change k s = bindR (change_interest k (chan s) (poller s)) (\<lambda>p. Inr (s\<lparr>poller := p\<rparr>))"

definition conn_isWriting :: "conn \<Rightarrow> bool res" where
  "conn_isWriting s = bindR (ep_deref (poller s) (chan s)) (\<lambda>c. Inr (isWriting c))"

section \<open>Sending and shutting down\<close>

definition sendInLoop :: "kernel_write \<Rightarrow> byte list \<Rightarrow> conn \<Rightarrow> conn res" where
  "sendInLoop wr message s =
     bindR (conn_isWriting s) (\<lambda>writing.
     let direct = (\<not> writing \<and> readableBytes (outputBuffer s) = 0);
         nwrote = (if direct then (case wr (length message) of Wrote n \<Rightarrow> n | WriteErr _ \<Rightarrow> 0) else 0);
         complete = (direct \<and> wr (length message) = Wrote nwrote \<and> \<not> nwrote < length message \<and>
                     hasWriteComplete s);
         s1 = s\<lparr>asked := asked s @ message, sent := sent s @ take nwrote message,
                pending := pending s @ (if complete then [FWriteComplete] else [])\<rparr>
     in if nwrote < length message
        then bindR (append (drop nwrote message) (outputBuffer s1)) (\<lambda>b.
             let s2 = s1\<lparr>outputBuffer := b\<rparr> in
             bindR (conn_isWriting s2) (\<lambda>w.
             if \<not> w then conn_change EnableWriting s2 else Inr s2))
        else Inr s1)"

definition conn_send :: "bool \<Rightarrow> kernel_write \<Rightarrow> byte list \<Rightarrow> conn \<Rightarrow> conn res" where
  "conn_send in_loop wr message s =
     (if conn_st s = kConnected
      then if in_loop then sendInLoop wr message s
           else Inr (s\<lparr>pending := pending s @ [FSendInLoop message]\<rparr>)
      else Inr s)"

definition shutdownInLoop :: "conn \<Rightarrow> conn res" where
  "shutdownInLoop s =
     bindR (conn_isWriting s) (\<lambda>w. Inr (if \<not> w then s\<lparr>finSent := True\<rparr> else s))"

definition conn_shutdown :: "bool \<Rightarrow> conn \<Rightarrow> conn res" where
  "conn_shutdown in_loop s =
     (if conn_st s = kConnected
      then let s1 = s\<lparr>conn_st := kDisconnecting\<rparr> in
           if in_loop then shutdownInLoop s1
           else Inr (s1\<lparr>pending := pending s1 @ [FShutdownInLoop]\<rparr>)
      else Inr s)"

section \<open>User callbacks\<close>

datatype user_call = USend "byte list" kernel_write | UShutdown | UConsume nat

text \<open>\<open>UConsume n\<close> takes up to \<open>n\<close> readable bytes from the input buffer.\<close>

fun user_exec :: "conn \<Rightarrow> user_call \<Rightarrow> conn res" where
  "user_exec s (USend message wr) = conn_send True wr message s"
| "user_exec s UShutdown = conn_shutdown True s"
| "user_exec s (UConsume n) =
     (let k = min n (readableBytes (inputBuffer s)) in
      bindR (peek_bytes k (inputBuffer s)) (\<lambda>xs.
      bindR (retrieve k (inputBuffer s)) (\<lambda>b.
      Inr (s\<lparr>inputBuffer := b, taken := taken s @ xs\<rparr>))))"

datatype user_event = OnConnection bool | OnMessage "byte list" | OnWriteComplete

type_synonym user = "user_event \<Rightarrow> user_call list"

definition connectionCallback :: "user \<Rightarrow> conn \<Rightarrow> conn res" where
  "connectionCallback u s =
     (let up = (conn_st s = kConnected) in
      run_ops user_exec (s\<lparr>conn_calls := conn_calls s @ [up]\<rparr>) (u (OnConnection up)))"

section \<open>The life of the connection\<close>

definition connectEstablished :: "user \<Rightarrow> conn \<Rightarrow> conn res" where
  "connectEstablished u s =
     bindR (assertR (conn_st s = kConnecting)) (\<lambda>_.
     bindR (conn_change EnableReading (s\<lparr>conn_st := kConnected\<rparr>)) (connectionCallback u))"

definition connectDestroyed :: "user \<Rightarrow> conn \<Rightarrow> conn res" where
  "connectDestroyed u s =
     bindR (assertR (conn_st s = kConnected \<or> conn_st s = kDisconnecting)) (\<lambda>_.
     bindR (conn_change DisableAll (s\<lparr>conn_st := kDisconnected\<rparr>)) (\<lambda>s1.
     bindR (connectionCallback u s1) (\<lambda>s2.
     bindR (ep_removeChannel (chan s2) (poller s2)) (\<lambda>p. Inr (s2\<lparr>poller := p\<rparr>)))))"

definition closeCallback_server :: "conn \<Rightarrow> conn res" where
  "closeCallback_server s =
     bindR (assertR (inServerMap s)) (\<lambda>_.
     Inr (s\<lparr>inServerMap := False, pending := pending s @ [FDestroyed]\<rparr>))"

definition handleClose :: "conn \<Rightarrow> conn res" where
  "handleClose s =
     bindR (assertR (conn_st s = kConnected \<or> conn_st s = kDisconnecting)) (\<lambda>_.
     bindR (conn_change DisableAll s) closeCallback_server)"

definition handleRead :: "kernel_read \<Rightarrow> user \<Rightarrow> conn \<Rightarrow> conn res" where
  "handleRead rd u s =
     (let r = rd (writableBytes (inputBuffer s) + extrabuf_size) in
      bindR (readFd r (inputBuffer s)) (\<lambda>(n, savedErrno, b).
      let s1 = s\<lparr>inputBuffer := b,
                 received := received s @ (case r of ReadOk xs \<Rightarrow> xs | ReadErr _ \<Rightarrow> [])\<rparr> in
      if n > 0
      then bindR (peek_bytes (readableBytes b) b) (\<lambda>xs. run_ops user_exec s1 (u (OnMessage xs)))
      else if n = 0 then handleClose s1
      else Inr s1))"

definition handleWrite :: "kernel_write \<Rightarrow> conn \<Rightarrow> conn res" where
  "handleWrite wr s =
     bindR (conn_isWriting s) (\<lambda>writing.
     if writing
     then (case wr (readableBytes (outputBuffer s)) of
             Wrote n \<Rightarrow>
               if n > 0
               then bindR (peek_bytes n (outputBuffer s)) (\<lambda>xs.
                    bindR (retrieve n (outputBuffer s)) (\<lambda>b.
                    let s1 = s\<lparr>outputBuffer := b, sent := sent s @ xs\<rparr> in
                    if readableBytes b = 0
                    then bindR (conn_change DisableWriting s1) (\<lambda>s2.
                         let s3 = s2\<lparr>pending := pending s2 @
                                       (if hasWriteComplete s2 then [FWriteComplete] else [])\<rparr>
                         in if conn_st s3 = kDisconnecting then shutdownInLoop s3 else Inr s3)
                    else Inr s1))
               else Inr s
           | WriteErr _ \<Rightarrow> Inr s)
     else Inr s)"

text \<open>\<open>handleError\<close> reads \<^verbatim>\<open>SO_ERROR\<close> and logs it.\<close>

definition handleError :: "conn \<Rightarrow> conn res" where
  "handleError s = Inr s"

section \<open>The loop's view\<close>

text \<open>
  The channel runs the callbacks the events call for (\<open>due_callbacks\<close> of \<open>Channel\<close>, all four
  callbacks being set by the constructor).
\<close>

fun conn_callback :: "kernel_read \<Rightarrow> kernel_write \<Rightarrow> user \<Rightarrow> conn \<Rightarrow> callback \<Rightarrow> conn res" where
  "conn_callback rd wr u s CloseCb = handleClose s"
| "conn_callback rd wr u s ErrorCb = handleError s"
| "conn_callback rd wr u s ReadCb = handleRead rd u s"
| "conn_callback rd wr u s WriteCb = handleWrite wr s"

definition conn_channel :: "int \<Rightarrow> channel" where
  "conn_channel fd = (channel_new fd)\<lparr>readCallback := True, writeCallback := True,
     closeCallback := True, errorCallback := True\<rparr>"

definition conn_events :: "32 word \<Rightarrow> kernel_read \<Rightarrow> kernel_write \<Rightarrow> user \<Rightarrow> conn \<Rightarrow> conn res" where
  "conn_events ev rd wr u s =
     (if ep_interest (poller s) (sockfd s) \<noteq> None
      then run_ops (conn_callback rd wr u) s
             (due_callbacks ((conn_channel (sockfd s))\<lparr>revents := ev\<rparr>))
      else Inr s)"

definition holds_ref :: "conn_functor \<Rightarrow> bool" where
  "holds_ref f \<longleftrightarrow> f \<in> {FEstablished, FDestroyed, FWriteComplete}"

text \<open>
  The last reference is dropped: \<^verbatim>\<open>~TcpConnection\<close> deletes the channel and closes the socket,
  and the kernel forgets a closed descriptor.
\<close>

definition conn_release :: "conn \<Rightarrow> conn res" where
  "conn_release s =
     (if alive s \<and> \<not> inServerMap s \<and> \<not> list_ex holds_ref (pending s)
      then bindR (ep_exec (poller s) (EpDestroy (chan s))) (\<lambda>p.
           Inr (s\<lparr>poller := p\<lparr>ep_interest := (ep_interest p)(sockfd s := None)\<rparr>, alive := False\<rparr>))
      else Inr s)"

text \<open>
  \<^verbatim>\<open>doPendingFunctors\<close>: the queue is swapped into a local vector, whose functors run in order
  and keep their references until all have run. \<open>wr i\<close> is the kernel's answer to the i-th.
\<close>

fun run_functor :: "kernel_write \<Rightarrow> user \<Rightarrow> conn_functor \<Rightarrow> conn \<Rightarrow> conn res" where
  "run_functor wr u (FSendInLoop message) s = sendInLoop wr message s"
| "run_functor wr u FShutdownInLoop s = shutdownInLoop s"
| "run_functor wr u FEstablished s = connectEstablished u s"
| "run_functor wr u FDestroyed s = connectDestroyed u s"
| "run_functor wr u FWriteComplete s = run_ops user_exec s (u OnWriteComplete)"

fun run_batch :: "(nat \<Rightarrow> kernel_write) \<Rightarrow> user \<Rightarrow> nat \<Rightarrow> conn_functor list \<Rightarrow> conn \<Rightarrow> conn res" where
  "run_batch wr u i [] s = Inr s"
| "run_batch wr u i (f # fs) s =
     (if alive s then bindR (run_functor (wr i) u f s) (run_batch wr u (i + 1) fs)
      else Inl UseAfterFree)"

definition conn_pending :: "(nat \<Rightarrow> kernel_write) \<Rightarrow> user \<Rightarrow> conn \<Rightarrow> conn res" where
  "conn_pending wr u s = run_batch wr u 0 (pending s) (s\<lparr>pending := []\<rparr>)"

datatype conn_op =
    CEvents "32 word" kernel_read kernel_write user
  | CCall user_call
  | COther user_call
  | CPending "nat \<Rightarrow> kernel_write" user

text \<open>
  \<open>CCall\<close> is a call another handler of the loop makes, \<open>COther\<close> a call of another thread; both
  need a reference to an object that is alive.
\<close>

fun conn_exec :: "conn \<Rightarrow> conn_op \<Rightarrow> conn res" where
  "conn_exec s (CEvents ev rd wr u) =
     (if handled s then Inr s
      else bindR (conn_events ev rd wr u (s\<lparr>handled := True\<rparr>)) conn_release)"
| "conn_exec s (CCall c) = bindR (if alive s then user_exec s c else Inr s) conn_release"
| "conn_exec s (COther c) =
     bindR (if alive s
            then (case c of
                    USend message wr \<Rightarrow> conn_send False wr message s
                  | UShutdown \<Rightarrow> conn_shutdown False s
                  | UConsume n \<Rightarrow> Inr s)
            else Inr s) conn_release"
| "conn_exec s (CPending wr u) = bindR (conn_pending wr u (s\<lparr>handled := False\<rparr>)) conn_release"

text \<open>A new connection: in the map, its channel constructed, \<^verbatim>\<open>connectEstablished\<close> queued.\<close>

definition conn_new :: "int \<Rightarrow> nat \<Rightarrow> bool \<Rightarrow> epoller \<Rightarrow> conn" where
  "conn_new fd p wc ep = \<lparr>conn_st = kConnecting, sockfd = fd, chan = p,
     poller = ep_put p (conn_channel fd) ep, inputBuffer = buffer_new, outputBuffer = buffer_new,
     hasWriteComplete = wc, inServerMap = True, alive = True, pending = [FEstablished], handled = False,
     sent = [], finSent = False, asked = [], received = [], taken = [], conn_calls = []\<rparr>"

section \<open>Invariant\<close>

definition writes :: "32 word \<Rightarrow> bool" where
  "writes e \<longleftrightarrow> e AND kWriteEvent \<noteq> 0"

text \<open>No byte is lost, repeated or reordered: given is sent plus buffered, read is taken plus buffered.\<close>

definition streams_ok :: "conn \<Rightarrow> bool" where
  "streams_ok s \<longleftrightarrow> buffer_ok (inputBuffer s) \<and> buffer_ok (outputBuffer s) \<and>
     asked s = sent s @ contents (outputBuffer s) \<and>
     received s = taken s @ contents (inputBuffer s)"

text \<open>The channel as the poller sees it; no other channel has the descriptor.\<close>

definition channel_ok :: "32 word \<Rightarrow> bool \<Rightarrow> conn \<Rightarrow> bool" where
  "channel_ok e reg s \<longleftrightarrow> ep_ok (poller s) \<and>
     ep_abs (poller s) (chan s) = Some (sockfd s, e, reg) \<and>
     (\<forall>q. q \<noteq> chan s \<longrightarrow> (\<forall>e' r. ep_abs (poller s) q \<noteq> Some (sockfd s, e', r)))"

text \<open>
  The functors that are outstanding, queued or in the batch that is running: one
  \<open>FDestroyed\<close> between the close and the destruction, none before or after.
\<close>

definition queue_ok :: "conn_functor list \<Rightarrow> conn \<Rightarrow> bool" where
  "queue_ok fs s \<longleftrightarrow>
     set fs \<subseteq> {FDestroyed, FWriteComplete} \<and>
     filter (\<lambda>f. f = FDestroyed) fs =
       (if inServerMap s \<or> conn_st s = kDisconnected then [] else [FDestroyed]) \<and>
     (FDestroyed \<in> set (pending s) \<longrightarrow> handled s)"

definition phase_ok :: "32 word \<Rightarrow> bool \<Rightarrow> conn \<Rightarrow> bool" where
  "phase_ok e reg s \<longleftrightarrow> conn_st s \<noteq> kConnecting \<and>
     (conn_st s = kDisconnected \<longrightarrow>
        \<not> inServerMap s \<and> e = 0 \<and> conn_calls s = [True, False]) \<and>
     (conn_st s \<noteq> kDisconnected \<longrightarrow> reg \<and> conn_calls s = [True]) \<and>
     (inServerMap s \<longrightarrow> (writes e \<longleftrightarrow> contents (outputBuffer s) \<noteq> []) \<and>
        (finSent s \<longrightarrow> contents (outputBuffer s) = []))"

definition conn_active :: "conn_functor list \<Rightarrow> conn \<Rightarrow> bool" where
  "conn_active fs s \<longleftrightarrow> alive s \<and> streams_ok s \<and> queue_ok (fs @ pending s) s \<and>
     (\<exists>e reg. channel_ok e reg s \<and> phase_ok e reg s) \<and>
     (finSent s \<longrightarrow> conn_st s \<noteq> kConnected)"

lemma conn_activeI:
  "alive s \<Longrightarrow> streams_ok s \<Longrightarrow> queue_ok (fs @ pending s) s \<Longrightarrow> channel_ok e reg s \<Longrightarrow>
   phase_ok e reg s \<Longrightarrow> (finSent s \<Longrightarrow> conn_st s \<noteq> kConnected) \<Longrightarrow> conn_active fs s"
  unfolding conn_active_def by blast

text \<open>What a call of the user may change.\<close>

definition user_frame :: "conn \<Rightarrow> conn \<Rightarrow> bool" where
  "user_frame s s' \<longleftrightarrow> sockfd s' = sockfd s \<and> chan s' = chan s \<and> alive s' = alive s \<and>
     inServerMap s' = inServerMap s \<and> handled s' = handled s \<and> conn_calls s' = conn_calls s \<and>
     received s' = received s \<and>
     (conn_st s = kDisconnected \<longrightarrow> conn_st s' = kDisconnected \<and> poller s' = poller s)"

lemma user_frame_refl: "user_frame s s"
  by (simp add: user_frame_def)

lemma user_frame_trans: "user_frame s s1 \<Longrightarrow> user_frame s1 s2 \<Longrightarrow> user_frame s s2"
  by (auto simp: user_frame_def)

definition wr_ok :: "kernel_write \<Rightarrow> bool" where
  "wr_ok wr \<longleftrightarrow> (\<forall>k n. wr k = Wrote n \<longrightarrow> n \<le> k)"

definition rd_ok :: "kernel_read \<Rightarrow> bool" where
  "rd_ok rd \<longleftrightarrow> (\<forall>k xs. rd k = ReadOk xs \<longrightarrow> length xs \<le> k)"

fun call_ok :: "user_call \<Rightarrow> bool" where
  "call_ok (USend message wr) = (length message \<le> vec_max \<and> wr_ok wr)"
| "call_ok _ = True"

text \<open>What the callback of a message is given is the content of a buffer.\<close>

fun event_ok :: "user_event \<Rightarrow> bool" where
  "event_ok (OnMessage xs) = (length xs \<le> vec_max)"
| "event_ok _ = True"

definition user_ok :: "user \<Rightarrow> bool" where
  "user_ok u \<longleftrightarrow> (\<forall>ev. event_ok ev \<longrightarrow> list_all call_ok (u ev))"

abbreviation conn_ends :: "(conn \<Rightarrow> bool) \<Rightarrow> conn res \<Rightarrow> bool" where
  "conn_ends \<equiv> ends (\<lambda>e. e = LengthError)"

section \<open>The channel\<close>

lemma writes_change [simp]:
  "writes (change_events EnableWriting e)" "\<not> writes (change_events DisableWriting e)"
  "\<not> writes (change_events DisableAll e)"
  "writes (change_events EnableReading e) = writes e"
  using isWriting_change[of "(channel_new 0)\<lparr>events := e\<rparr>"] by (simp_all add: writes_def isWriting_def)

lemma writes_zero [simp]: "\<not> writes 0"
  by (simp add: writes_def)

lemma channel_deref:
  assumes "channel_ok e reg s"
  shows "\<exists>c. ep_deref (poller s) (chan s) = Inr c \<and> events c = e \<and> ch_fd c = sockfd s \<and>
    (ch_index c \<noteq> kNew) = reg \<and> \<not> eventHandling c"
  using assms ep_okD(3)[of "poller s" "chan s"] by (auto simp: channel_ok_def ep_abs_def ep_deref_def)

lemma conn_isWriting_ok: "channel_ok e reg s \<Longrightarrow> conn_isWriting s = Inr (writes e)"
  using channel_deref[of e reg s] by (auto simp: conn_isWriting_def isWriting_def writes_def)

lemma conn_isWriting_fields [simp]:
  "conn_isWriting (s\<lparr>asked := x1\<rparr>) = conn_isWriting s"
  "conn_isWriting (s\<lparr>sent := x2\<rparr>) = conn_isWriting s"
  "conn_isWriting (s\<lparr>pending := x3\<rparr>) = conn_isWriting s"
  "conn_isWriting (s\<lparr>outputBuffer := x4\<rparr>) = conn_isWriting s"
  by (simp_all add: conn_isWriting_def)

lemma conn_change_ok:
  assumes "channel_ok e reg s"
  shows "\<exists>p. conn_change k s = Inr (s\<lparr>poller := p\<rparr>) \<and>
    channel_ok (change_events k e) True (s\<lparr>poller := p\<rparr>)"
proof -
  have ok: "ep_ok (poller s)" and v: "ep_abs (poller s) (chan s) = Some (sockfd s, e, reg)"
    and ex: "\<And>q e' r. q \<noteq> chan s \<Longrightarrow> ep_abs (poller s) q \<noteq> Some (sockfd s, e', r)"
    using assms by (auto simp: channel_ok_def)
  have "reg \<or> fd_free (sockfd s) (ep_abs (poller s))"
    unfolding fd_free_def using ex v by (metis option.inject prod.inject)
  then have "ep_pre (ep_abs (poller s)) (EpChange (chan s) k)" by (simp add: v)
  from change_interest_ok[OF ok this] obtain p where
    p: "change_interest k (chan s) (poller s) = Inr p" "ep_ok p"
      "ep_abs p = (ep_abs (poller s))(chan s \<mapsto> (sockfd s, change_events k e, True))"
    by (auto simp: v)
  then have "channel_ok (change_events k e) True (s\<lparr>poller := p\<rparr>)"
    using ex by (simp add: channel_ok_def)
  with p(1) show ?thesis by (auto simp: conn_change_def)
qed

lemma channel_ok_fields [simp]:
  "channel_ok e reg (s\<lparr>conn_st := x1\<rparr>) = channel_ok e reg s"
  "channel_ok e reg (s\<lparr>inputBuffer := x2\<rparr>) = channel_ok e reg s"
  "channel_ok e reg (s\<lparr>outputBuffer := x3\<rparr>) = channel_ok e reg s"
  "channel_ok e reg (s\<lparr>pending := x4\<rparr>) = channel_ok e reg s"
  "channel_ok e reg (s\<lparr>sent := x5\<rparr>) = channel_ok e reg s"
  "channel_ok e reg (s\<lparr>finSent := x6\<rparr>) = channel_ok e reg s"
  "channel_ok e reg (s\<lparr>asked := x7\<rparr>) = channel_ok e reg s"
  "channel_ok e reg (s\<lparr>received := x8\<rparr>) = channel_ok e reg s"
  "channel_ok e reg (s\<lparr>taken := x9\<rparr>) = channel_ok e reg s"
  "channel_ok e reg (s\<lparr>conn_calls := x10\<rparr>) = channel_ok e reg s"
  "channel_ok e reg (s\<lparr>inServerMap := x11\<rparr>) = channel_ok e reg s"
  "channel_ok e reg (s\<lparr>handled := x12\<rparr>) = channel_ok e reg s"
  by (simp_all add: channel_ok_def)

section \<open>Each operation keeps the invariant\<close>

lemma queue_ok_complete:
  "queue_ok (fs @ pending s) s \<Longrightarrow> conn_st s' = conn_st s \<or> conn_st s \<noteq> kDisconnected \<and> conn_st s' \<noteq> kDisconnected \<Longrightarrow>
   inServerMap s' = inServerMap s \<Longrightarrow> handled s' = handled s \<Longrightarrow>
   pending s' = pending s @ (if b then [FWriteComplete] else []) \<Longrightarrow> queue_ok (fs @ pending s') s'"
  by (auto simp: queue_ok_def)

lemma append_out:
  assumes "streams_ok s" "length bs \<le> vec_max"
  shows "append bs (outputBuffer s) = Inl LengthError \<or>
    (\<exists>b. append bs (outputBuffer s) = Inr b \<and> buffer_ok b \<and> contents b = contents (outputBuffer s) @ bs)"
  using append_total assms by (simp add: streams_ok_def)

text \<open>
  \<open>sendInLoop\<close> in the states that have a registered channel: what the kernel did not take is
  appended behind what is buffered, and writing is watched exactly while something is.
\<close>

lemma sendInLoop_ok:
  assumes act: "conn_active fs s" and st: "conn_st s = kConnected"
    and msg: "length m \<le> vec_max" and wr: "wr_ok wr"
  shows "conn_ends (\<lambda>s'. conn_active fs s' \<and> user_frame s s' \<and> conn_st s' = kConnected)
    (sendInLoop wr m s)"
proof -
  obtain e reg where ch: "channel_ok e reg s" and ph: "phase_ok e reg s"
    using act by (auto simp: conn_active_def)
  have str: "streams_ok s" and q: "queue_ok (fs @ pending s) s" and al: "alive s"
    and fin: "\<not> finSent s" using act st by (auto simp: conn_active_def)
  let ?out = "contents (outputBuffer s)"
  have rb: "readableBytes (outputBuffer s) = length ?out"
    using str by (simp add: streams_ok_def readableBytes_contents)
  let ?direct = "\<not> writes e \<and> ?out = []"
  define n where "n = (if ?direct then (case wr (length m) of Wrote n \<Rightarrow> n | WriteErr _ \<Rightarrow> 0) else 0)"
  have nle: "n \<le> length m" using wr by (auto simp: n_def wr_ok_def split: write_result.splits)
  define wc where "wc = (?direct \<and> wr (length m) = Wrote n \<and> \<not> n < length m \<and> hasWriteComplete s)"
  let ?s1 = "s\<lparr>asked := asked s @ m, sent := sent s @ take n m,
                pending := pending s @ (if wc then [FWriteComplete] else [])\<rparr>"
  have run: "sendInLoop wr m s =
    (if n < length m
     then bindR (append (drop n m) (outputBuffer s)) (\<lambda>b.
          if \<not> writes e then conn_change EnableWriting (?s1\<lparr>outputBuffer := b\<rparr>)
          else Inr (?s1\<lparr>outputBuffer := b\<rparr>))
     else Inr ?s1)"
    by (simp add: sendInLoop_def conn_isWriting_ok[OF ch] rb Let_def n_def wc_def cong: if_cong)
  have q1: "queue_ok (fs @ pending s') s'"
    if "pending s' = pending ?s1" "conn_st s' = conn_st s" "inServerMap s' = inServerMap s"
      "handled s' = handled s" for s'
    using queue_ok_complete[OF q, of s' wc] that by simp
  have asked: "asked s @ m = (sent s @ take n m) @ (?out @ drop n m)"
  proof (cases ?direct)
    case True
    then show ?thesis using str by (simp add: streams_ok_def)
  next
    case False
    then have "n = 0" by (auto simp: n_def)
    then show ?thesis using str by (simp add: streams_ok_def)
  qed
  have regd: "reg" "conn_calls s = [True]" using ph st by (auto simp: phase_ok_def)
  show ?thesis
  proof (cases "n < length m")
    case False
    then have n: "n = length m" using nle by simp
    have "conn_active fs ?s1"
      using str asked al ch ph q1[of ?s1] fin n unfolding conn_active_def
      by (auto simp: streams_ok_def phase_ok_def st intro!: exI[of _ e] exI[of _ reg])
    then show ?thesis using False by (simp add: run user_frame_def st)
  next
    case True
    have "length (drop n m) \<le> vec_max" using msg by simp
    from append_out[OF str this] consider "append (drop n m) (outputBuffer s) = Inl LengthError"
      | b where "append (drop n m) (outputBuffer s) = Inr b" "buffer_ok b" "contents b = ?out @ drop n m"
      by blast
    then show ?thesis
    proof cases
      case 1
      then show ?thesis using True by (simp add: run)
    next
      case (2 b)
      let ?s2 = "?s1\<lparr>outputBuffer := b\<rparr>"
      have ch2: "channel_ok e reg ?s2" using ch by simp
      have str2: "streams_ok ?s2" using str asked 2 by (simp add: streams_ok_def)
      have ne: "contents b \<noteq> []" using 2(3) True by simp
      show ?thesis
      proof (cases "writes e")
        case w: True
        have "phase_ok e reg ?s2" using ph st ne w fin by (simp add: phase_ok_def)
        with str2 al ch2 q1[of ?s2] fin have "conn_active fs ?s2"
          by (intro conn_activeI[of _ _ e reg]) simp_all
        then show ?thesis using True 2 w by (simp add: run user_frame_def st)
      next
        case w: False
        obtain p where p: "conn_change EnableWriting ?s2 = Inr (?s2\<lparr>poller := p\<rparr>)"
          "channel_ok (change_events EnableWriting e) True (?s2\<lparr>poller := p\<rparr>)"
          using conn_change_ok[OF ch2] by blast
        have "phase_ok (change_events EnableWriting e) True (?s2\<lparr>poller := p\<rparr>)"
          using regd st ne fin by (simp add: phase_ok_def del: change_events.simps)
        moreover have "streams_ok (?s2\<lparr>poller := p\<rparr>)" using str2 by (simp add: streams_ok_def)
        ultimately have "conn_active fs (?s2\<lparr>poller := p\<rparr>)"
          using al p(2) q1[of "?s2\<lparr>poller := p\<rparr>"] fin
          by (intro conn_activeI[of _ _ "change_events EnableWriting e" True])
            (simp_all del: change_events.simps)
        then show ?thesis using True 2 w p(1) by (simp add: run user_frame_def st)
      qed
    qed
  qed
qed

lemma shutdownInLoop_ok:
  assumes "conn_active fs s" "conn_st s = kDisconnecting"
  shows "conn_ends (\<lambda>s'. conn_active fs s' \<and> user_frame s s') (shutdownInLoop s)"
proof -
  obtain e reg where ch: "channel_ok e reg s" and ph: "phase_ok e reg s"
    using assms(1) by (auto simp: conn_active_def)
  have "conn_active fs (s\<lparr>finSent := True\<rparr>)" if "\<not> writes e"
    using assms ch ph that unfolding conn_active_def
    by (auto simp: streams_ok_def queue_ok_def phase_ok_def intro!: exI[of _ e] exI[of _ reg])
  then show ?thesis using assms
    by (simp add: shutdownInLoop_def conn_isWriting_ok[OF ch] user_frame_def)
qed

lemma user_exec_ok:
  assumes act: "conn_active fs s" and c: "call_ok c"
  shows "conn_ends (\<lambda>s'. conn_active fs s' \<and> user_frame s s') (user_exec s c)"
proof (cases c)
  case (USend m wr)
  show ?thesis
  proof (cases "conn_st s = kConnected")
    case True
    with sendInLoop_ok[OF act True, of m wr] c USend show ?thesis
      by (auto simp: conn_send_def intro: ends_mono)
  qed (use act USend in \<open>simp add: conn_send_def user_frame_refl\<close>)
next
  case UShutdown
  show ?thesis
  proof (cases "conn_st s = kConnected")
    case True
    let ?s = "s\<lparr>conn_st := kDisconnecting\<rparr>"
    have "conn_active fs ?s"
      using act True unfolding conn_active_def by (auto simp: streams_ok_def queue_ok_def phase_ok_def)
    from shutdownInLoop_ok[OF this] have "conn_ends (\<lambda>s'. conn_active fs s' \<and> user_frame ?s s') (shutdownInLoop ?s)"
      by simp
    then have "conn_ends (\<lambda>s'. conn_active fs s' \<and> user_frame s s') (shutdownInLoop ?s)"
      by (rule ends_mono) (use True in \<open>simp add: user_frame_def\<close>)
    then show ?thesis using UShutdown True by (simp add: conn_shutdown_def)
  qed (use act UShutdown in \<open>simp add: conn_shutdown_def user_frame_refl\<close>)
next
  case (UConsume n)
  let ?c = "contents (inputBuffer s)"
  let ?k = "min n (length ?c)"
  have ok: "buffer_ok (inputBuffer s)" using act by (simp add: conn_active_def streams_ok_def)
  obtain b where b: "retrieve ?k (inputBuffer s) = Inr b" "buffer_ok b" "contents b = drop ?k ?c"
    using retrieve_ok[OF ok, of ?k] by auto
  let ?s = "s\<lparr>inputBuffer := b, taken := taken s @ take ?k ?c\<rparr>"
  have "user_exec s c = Inr ?s"
    using b(1) by (simp add: UConsume readableBytes_contents[OF ok] peek_bytes_contents[OF ok])
  moreover have "conn_active fs ?s"
    using act b(2,3) unfolding conn_active_def
    by (auto simp: streams_ok_def queue_ok_def phase_ok_def)
  ultimately show ?thesis by (simp add: user_frame_def)
qed

lemma users_ok:
  "conn_active fs s \<Longrightarrow> list_all call_ok cs \<Longrightarrow>
   conn_ends (\<lambda>s'. conn_active fs s' \<and> user_frame s s') (run_ops user_exec s cs)"
proof (induction cs arbitrary: s)
  case Nil
  then show ?case by (simp add: user_frame_refl)
next
  case (Cons c cs)
  have "conn_ends (\<lambda>s'. conn_active fs s' \<and> user_frame s s') (user_exec s c)"
    using Cons.prems by (simp add: user_exec_ok)
  then have "conn_ends (\<lambda>s'. conn_active fs s' \<and> user_frame s s')
      (bindR (user_exec s c) (\<lambda>s'. run_ops user_exec s' cs))"
  proof (rule ends_bind)
    fix s1 assume s1: "conn_active fs s1 \<and> user_frame s s1"
    then have "conn_ends (\<lambda>s'. conn_active fs s' \<and> user_frame s1 s') (run_ops user_exec s1 cs)"
      using Cons by simp
    then show "conn_ends (\<lambda>s'. conn_active fs s' \<and> user_frame s s') (run_ops user_exec s1 cs)"
      by (rule ends_mono) (use s1 user_frame_trans in blast)
  qed
  then show ?case by simp
qed

section \<open>The handlers\<close>

lemma handleWrite_ok:
  assumes act: "conn_active fs s" and wr: "wr_ok wr"
  shows "conn_ends (conn_active fs) (handleWrite wr s)"
proof -
  obtain e reg where ch: "channel_ok e reg s" and ph: "phase_ok e reg s"
    using act by (auto simp: conn_active_def)
  have str: "streams_ok s" and q: "queue_ok (fs @ pending s) s" and al: "alive s"
    and fin: "finSent s \<Longrightarrow> conn_st s \<noteq> kConnected" using act by (auto simp: conn_active_def)
  let ?out = "contents (outputBuffer s)"
  have ok: "buffer_ok (outputBuffer s)" using str by (simp add: streams_ok_def)
  note rb = readableBytes_contents[OF ok]
  show ?thesis
  proof (cases "writes e \<and> (\<exists>n > 0. wr (length ?out) = Wrote n)")
    case False
    then have "\<not> writes e \<or> (\<forall>n. wr (length ?out) = Wrote n \<longrightarrow> n = 0)" by auto
    then have "handleWrite wr s = Inr s"
      by (auto simp: handleWrite_def conn_isWriting_ok[OF ch] rb split: write_result.splits)
    with act show ?thesis by simp
  next
    case True
    then obtain n where w: "writes e" and n: "0 < n" "wr (length ?out) = Wrote n" by blast
    have nle: "n \<le> length ?out" using wr n(2) by (simp add: wr_ok_def)
    obtain b where b: "retrieve n (outputBuffer s) = Inr b" "buffer_ok b" "contents b = drop n ?out"
      using retrieve_ok[OF ok nle] by blast
    let ?s1 = "s\<lparr>outputBuffer := b, sent := sent s @ take n ?out\<rparr>"
    have str1: "streams_ok ?s1" using str b by (simp add: streams_ok_def)
    have st: "conn_st s \<noteq> kDisconnected" using ph w by (auto simp: phase_ok_def)
    have run: "handleWrite wr s =
      (if contents b = []
       then bindR (conn_change DisableWriting ?s1) (\<lambda>s2.
            let s3 = s2\<lparr>pending := pending s2 @ (if hasWriteComplete s2 then [FWriteComplete] else [])\<rparr>
            in if conn_st s3 = kDisconnecting then shutdownInLoop s3 else Inr s3)
       else Inr ?s1)"
      using w n b(1) readableBytes_contents[OF b(2)]
      by (simp add: handleWrite_def conn_isWriting_ok[OF ch] rb peek_bytes_contents[OF ok nle])
    show ?thesis
    proof (cases "contents b = []")
      case False
      have "conn_active fs ?s1"
        using str1 q al ch ph w False fin
        by (intro conn_activeI[of _ _ e reg]) (auto simp: queue_ok_def phase_ok_def)
      then show ?thesis using False by (simp add: run)
    next
      case True
      have ch1: "channel_ok e reg ?s1" using ch by simp
      obtain p where p: "conn_change DisableWriting ?s1 = Inr (?s1\<lparr>poller := p\<rparr>)"
        "channel_ok (change_events DisableWriting e) True (?s1\<lparr>poller := p\<rparr>)"
        using conn_change_ok[OF ch1] by blast
      let ?s3 = "?s1\<lparr>poller := p, pending := pending s @ (if hasWriteComplete s then [FWriteComplete] else [])\<rparr>"
      have "conn_active fs ?s3"
      proof (intro conn_activeI[of _ _ "change_events DisableWriting e" True])
        show "queue_ok (fs @ pending ?s3) ?s3"
          by (rule queue_ok_complete[OF q, of _ "hasWriteComplete s"]) simp_all
        show "phase_ok (change_events DisableWriting e) True ?s3"
          using ph st True by (auto simp: phase_ok_def simp del: change_events.simps)
        show "channel_ok (change_events DisableWriting e) True ?s3"
          using p(2) by (simp add: channel_ok_def)
        show "streams_ok ?s3" using str1 by (simp add: streams_ok_def)
      qed (use al fin in simp_all)
      moreover from this shutdownInLoop_ok[OF this]
      have "conn_st ?s3 = kDisconnecting \<Longrightarrow> conn_ends (conn_active fs) (shutdownInLoop ?s3)"
        by (auto intro: ends_mono)
      ultimately show ?thesis using True p(1) by (simp add: run Let_def)
    qed
  qed
qed

lemma active_state: "conn_active fs s \<Longrightarrow> inServerMap s \<Longrightarrow> conn_st s = kConnected \<or> conn_st s = kDisconnecting"
  by (cases "conn_st s") (auto simp: conn_active_def phase_ok_def)

lemma handleClose_ok:
  assumes act: "conn_active [] s" and map: "inServerMap s" "handled s"
  shows "conn_ends (conn_active []) (handleClose s)"
proof -
  obtain e reg where ch: "channel_ok e reg s" and ph: "phase_ok e reg s"
    using act by (auto simp: conn_active_def)
  have st: "conn_st s = kConnected \<or> conn_st s = kDisconnecting" using act map(1) by (rule active_state)
  obtain p where p: "conn_change DisableAll s = Inr (s\<lparr>poller := p\<rparr>)"
    "channel_ok (change_events DisableAll e) True (s\<lparr>poller := p\<rparr>)"
    using conn_change_ok[OF ch] by blast
  let ?s = "s\<lparr>poller := p, inServerMap := False, pending := pending s @ [FDestroyed]\<rparr>"
  have "conn_active [] ?s"
  proof (intro conn_activeI[of _ _ "change_events DisableAll e" True])
    show "queue_ok ([] @ pending ?s) ?s" using act map st by (auto simp: conn_active_def queue_ok_def)
    show "phase_ok (change_events DisableAll e) True ?s"
      using ph st by (auto simp: phase_ok_def)
    show "channel_ok (change_events DisableAll e) True ?s" using p(2) by (simp add: channel_ok_def)
    show "streams_ok ?s" using act by (simp add: conn_active_def streams_ok_def)
  qed (use act in \<open>simp_all add: conn_active_def\<close>)
  then show ?thesis
    using p(1) st map by (auto simp: handleClose_def closeCallback_server_def)
qed

lemma handleRead_ok:
  assumes act: "conn_active [] s" and map: "inServerMap s" "handled s"
    and rd: "rd_ok rd" and u: "user_ok u"
  shows "conn_ends (conn_active []) (handleRead rd u s)"
proof -
  have str: "streams_ok s" using act by (simp add: conn_active_def)
  then have ok: "buffer_ok (inputBuffer s)" by (simp add: streams_ok_def)
  let ?cap = "writableBytes (inputBuffer s) + extrabuf_size"
  have in_ok: "conn_active [] (s\<lparr>inputBuffer := b, received := received s @ xs\<rparr>)"
    if "buffer_ok b" "contents b = contents (inputBuffer s) @ xs" for b xs
    using act that unfolding conn_active_def
    by (auto simp: streams_ok_def queue_ok_def phase_ok_def)
  show ?thesis
  proof (cases "rd ?cap")
    case (ReadErr e)
    have "s\<lparr>inputBuffer := inputBuffer s, received := received s\<rparr> = s" by simp
    then show ?thesis using act ReadErr by (simp add: handleRead_def readFd_error)
  next
    case (ReadOk xs)
    have "length xs \<le> ?cap" using rd ReadOk by (simp add: rd_ok_def)
    from readFd_total[OF ok this] consider "readFd (ReadOk xs) (inputBuffer s) = Inl LengthError"
      | b where "readFd (ReadOk xs) (inputBuffer s) = Inr (int (length xs), None, b)" "buffer_ok b"
          "contents b = contents (inputBuffer s) @ xs" by blast
    then show ?thesis
    proof cases
      case 1
      then show ?thesis by (simp add: handleRead_def ReadOk)
    next
      case (2 b)
      let ?s = "s\<lparr>inputBuffer := b, received := received s @ xs\<rparr>"
      note a = in_ok[OF 2(2,3)]
      show ?thesis
      proof (cases "xs = []")
        case True
        have "conn_ends (conn_active []) (handleClose ?s)" using handleClose_ok[OF a] map by simp
        then show ?thesis using 2 True by (simp add: handleRead_def ReadOk)
      next
        case False
        have "list_all call_ok (u (OnMessage (contents b)))" using u contents_vec[OF 2(2)] by (simp add: user_ok_def)
        from users_ok[OF a this] have "conn_ends (conn_active []) (run_ops user_exec ?s (u (OnMessage (contents b))))"
          by (rule ends_mono) simp
        then show ?thesis using 2 False
          by (simp add: handleRead_def ReadOk readableBytes_contents[OF 2(2)] peek_bytes_contents[OF 2(2)])
      qed
    qed
  qed
qed

text \<open>All the callbacks of one event, where a hang-up is not reported together with more to read.\<close>

lemma conn_events_ok:
  assumes act: "conn_active [] s" and map: "inServerMap s" "handled s"
    and env: "rd_ok rd" "wr_ok wr" "user_ok u"
    and ev: "callback_bits CloseCb ev \<Longrightarrow> \<not> callback_bits ReadCb ev"
  shows "conn_ends (conn_active []) (conn_events ev rd wr u s)"
proof -
  let ?run = "\<lambda>ks s. run_ops (conn_callback rd wr u) s ks"
  let ?if = "\<lambda>k. if callback_bits k ev then [k] else []"
  have wrt: "conn_ends (conn_active []) (?run (?if WriteCb) s)" if "conn_active [] s" for s
    using handleWrite_ok[OF that env(2)] that by (auto simp: bind_return)
  have list: "due_callbacks ((conn_channel (sockfd s))\<lparr>revents := ev\<rparr>) =
    ?if CloseCb @ ?if ErrorCb @ ?if ReadCb @ ?if WriteCb"
    by (simp add: due_callbacks_def conn_channel_def)
  have first: "conn_ends (conn_active []) (?run (?if CloseCb @ ?if ErrorCb @ ?if ReadCb) s)"
    using handleClose_ok[OF act map] handleRead_ok[OF act map env(1,3)] ev act
    by (cases "callback_bits CloseCb ev"; cases "callback_bits ReadCb ev")
      (auto simp: handleError_def bind_return bindR_assoc simp del: callback_bits.simps)
  have "?run (?if CloseCb @ ?if ErrorCb @ ?if ReadCb @ ?if WriteCb) s =
    bindR (?run (?if CloseCb @ ?if ErrorCb @ ?if ReadCb) s) (?run (?if WriteCb))"
    using run_ops_append[of "conn_callback rd wr u" s "?if CloseCb @ ?if ErrorCb @ ?if ReadCb" "?if WriteCb"]
    by simp
  with ends_bind[OF first wrt] show ?thesis
    using act by (simp add: conn_events_def list)
qed

text \<open>Only \<open>connectEstablished\<close> and \<open>connectDestroyed\<close> call the connection callback.\<close>

lemma conn_change_calls: "conn_change k s = Inr s' \<Longrightarrow> conn_calls s' = conn_calls s"
  by (auto simp: conn_change_def)

lemma sendInLoop_calls:
  assumes "sendInLoop wr m s = Inr s'"
  shows "conn_calls s' = conn_calls s"
proof -
  obtain w where w: "conn_isWriting s = Inr w" using assms by (auto simp: sendInLoop_def)
  define direct where "direct = (\<not> w \<and> readableBytes (outputBuffer s) = 0)"
  define n where "n = (if direct then (case wr (length m) of Wrote n \<Rightarrow> n | WriteErr _ \<Rightarrow> 0) else 0)"
  define ps where "ps = pending s @ (if direct \<and> wr (length m) = Wrote n \<and> \<not> n < length m \<and>
    hasWriteComplete s then [FWriteComplete] else [])"
  let ?s1 = "s\<lparr>asked := asked s @ m, sent := sent s @ take n m, pending := ps\<rparr>"
  have run: "sendInLoop wr m s =
    (if n < length m
     then bindR (append (drop n m) (outputBuffer s)) (\<lambda>b.
          if \<not> w then conn_change EnableWriting (?s1\<lparr>outputBuffer := b\<rparr>)
          else Inr (?s1\<lparr>outputBuffer := b\<rparr>))
     else Inr ?s1)"
    by (simp add: sendInLoop_def w Let_def direct_def n_def ps_def cong: if_cong)
  have "?s1 = s' \<or> (\<exists>b. ?s1\<lparr>outputBuffer := b\<rparr> = s' \<or>
      conn_change EnableWriting (?s1\<lparr>outputBuffer := b\<rparr>) = Inr s')"
    using assms unfolding run by (auto split: if_splits)
  then show ?thesis
  proof (elim disjE exE)
    fix b assume "conn_change EnableWriting (?s1\<lparr>outputBuffer := b\<rparr>) = Inr s'"
    from conn_change_calls[OF this] show ?thesis by simp
  qed auto
qed

lemma shutdownInLoop_calls: "shutdownInLoop s = Inr s' \<Longrightarrow> conn_calls s' = conn_calls s"
  by (auto simp: shutdownInLoop_def split: if_splits)

lemma user_exec_calls:
  assumes "user_exec s c = Inr s'"
  shows "conn_calls s' = conn_calls s"
proof (cases c)
  case (USend m wr)
  with assms sendInLoop_calls show ?thesis by (auto simp: conn_send_def split: if_splits)
next
  case UShutdown
  with assms shutdownInLoop_calls[of "s\<lparr>conn_st := kDisconnecting\<rparr>" s'] show ?thesis
    by (auto simp: conn_shutdown_def Let_def split: if_splits)
next
  case (UConsume n)
  with assms show ?thesis by (auto simp: Let_def)
qed

lemma users_calls: "run_ops user_exec s cs = Inr s' \<Longrightarrow> conn_calls s' = conn_calls s"
  using user_exec_calls by (rule run_ops_preserves)

lemma handleClose_calls:
  assumes "handleClose s = Inr s'"
  shows "conn_calls s' = conn_calls s"
proof -
  obtain s1 where "conn_change DisableAll s = Inr s1" "closeCallback_server s1 = Inr s'"
    using assms by (auto simp: handleClose_def)
  with conn_change_calls[of DisableAll s s1] show ?thesis by (auto simp: closeCallback_server_def)
qed

lemma handleRead_calls:
  assumes "handleRead rd u s = Inr s'"
  shows "conn_calls s' = conn_calls s"
proof -
  let ?r = "rd (writableBytes (inputBuffer s) + extrabuf_size)"
  obtain n e b where r: "readFd ?r (inputBuffer s) = Inr (n, e, b)"
    using assms by (auto simp: handleRead_def Let_def)
  let ?s = "s\<lparr>inputBuffer := b,
                 received := received s @ (case ?r of ReadOk xs \<Rightarrow> xs | ReadErr _ \<Rightarrow> [])\<rparr>"
  consider cs where "run_ops user_exec ?s cs = Inr s'" | "handleClose ?s = Inr s'" | "?s = s'"
    using assms r by (auto simp: handleRead_def Let_def split: if_splits)
  then have "conn_calls s' = conn_calls ?s"
    using users_calls handleClose_calls by cases blast+
  then show ?thesis by simp
qed

lemma handleWrite_calls:
  assumes "handleWrite wr s = Inr s'"
  shows "conn_calls s' = conn_calls s"
proof (rule ccontr)
  assume ne: "conn_calls s' \<noteq> conn_calls s"
  then have "s' \<noteq> s" by blast
  then obtain n b xs where w: "conn_isWriting s = Inr True"
      "wr (readableBytes (outputBuffer s)) = Wrote n" "n > 0"
      "peek_bytes n (outputBuffer s) = Inr xs" "retrieve n (outputBuffer s) = Inr b"
    using assms by (auto simp: handleWrite_def split: if_splits write_result.splits)
  let ?s1 = "s\<lparr>outputBuffer := b, sent := sent s @ xs\<rparr>"
  have "readableBytes b = 0"
    using assms w ne by (auto simp: handleWrite_def Let_def split: if_splits)
  then obtain s2 where s2: "conn_change DisableWriting ?s1 = Inr s2"
    using assms w by (auto simp: handleWrite_def Let_def)
  let ?s3 = "s2\<lparr>pending := pending s2 @ (if hasWriteComplete s2 then [FWriteComplete] else [])\<rparr>"
  have "s' = ?s3 \<or> shutdownInLoop ?s3 = Inr s'"
    using assms w \<open>readableBytes b = 0\<close> s2 by (auto simp: handleWrite_def Let_def split: if_splits)
  then have "conn_calls s' = conn_calls s2" using shutdownInLoop_calls[of ?s3 s'] by auto
  with conn_change_calls[OF s2] ne show False by simp
qed

lemma conn_callback_calls:
  "conn_callback rd wr u s k = Inr s' \<Longrightarrow> conn_calls s' = conn_calls s"
  using handleClose_calls handleRead_calls handleWrite_calls
  by (cases k) (auto simp: handleError_def)

lemma conn_events_calls: "conn_events ev rd wr u s = Inr s' \<Longrightarrow> conn_calls s' = conn_calls s"
  using run_ops_preserves[of "conn_callback rd wr u" conn_calls, OF conn_callback_calls]
  by (auto simp: conn_events_def split: if_splits)

section \<open>Establishment, destruction, pending functors\<close>

text \<open>Once the connection is down its channel is out of the poller.\<close>

definition conn_good :: "conn_functor list \<Rightarrow> conn \<Rightarrow> bool" where
  "conn_good fs s \<longleftrightarrow> conn_active fs s \<and> (conn_st s = kDisconnected \<longrightarrow> channel_ok 0 False s)"

lemma users_good:
  assumes "conn_good fs s" "list_all call_ok cs"
  shows "conn_ends (conn_good fs) (run_ops user_exec s cs)"
proof -
  have "conn_ends (\<lambda>s'. conn_active fs s' \<and> user_frame s s') (run_ops user_exec s cs)"
    using assms by (intro users_ok) (simp_all add: conn_good_def)
  then show ?thesis
  proof (rule ends_mono)
    fix s' assume s': "conn_active fs s' \<and> user_frame s s'"
    have "channel_ok 0 False s'" if "conn_st s' = kDisconnected"
    proof (cases "conn_st s = kDisconnected")
      case True
      then show ?thesis using assms(1) s' by (simp add: conn_good_def user_frame_def channel_ok_def)
    next
      case False
      then have "inServerMap s \<or> \<not> inServerMap s \<and> conn_st s \<noteq> kDisconnected" by simp
      have "conn_calls s = [True]"
        using assms(1) False by (auto simp: conn_good_def conn_active_def phase_ok_def)
      moreover have "conn_calls s' = [True, False]"
        using s' that by (auto simp: conn_active_def phase_ok_def)
      ultimately show ?thesis using s' by (simp add: user_frame_def)
    qed
    with s' show "conn_good fs s'" by (simp add: conn_good_def)
  qed
qed

lemma conn_events_good:
  assumes "conn_active [] s" "inServerMap s" "handled s" "rd_ok rd" "wr_ok wr" "user_ok u"
    "callback_bits CloseCb ev \<Longrightarrow> \<not> callback_bits ReadCb ev"
  shows "conn_ends (conn_good []) (conn_events ev rd wr u s)"
proof -
  have "conn_calls s = [True]" using assms(1,2) by (auto simp: conn_active_def phase_ok_def)
  then have calls: "\<And>s'. conn_events ev rd wr u s = Inr s' \<Longrightarrow> conn_calls s' = [True]"
    using conn_events_calls by fastforce
  have act: "conn_ends (conn_active []) (conn_events ev rd wr u s)"
    using assms by (intro conn_events_ok) auto
  have "conn_ends (\<lambda>s'. conn_calls s' = [True]) (conn_events ev rd wr u s)"
    using calls act by (cases "conn_events ev rd wr u s") auto
  from ends_conj[OF act this]
  have "conn_ends (\<lambda>s'. conn_active [] s' \<and> conn_calls s' = [True]) (conn_events ev rd wr u s)" .
  then show ?thesis
    by (rule ends_mono) (auto simp: conn_good_def conn_active_def phase_ok_def)
qed

lemma connectDestroyed_ok:
  assumes good: "conn_good (FDestroyed # fs) s" and u: "user_ok u"
  shows "conn_ends (conn_good fs) (connectDestroyed u s)"
proof -
  have act: "conn_active (FDestroyed # fs) s" using good by (simp add: conn_good_def)
  then obtain e reg where ch: "channel_ok e reg s" and ph: "phase_ok e reg s"
    by (auto simp: conn_active_def)
  have q: "queue_ok (FDestroyed # fs @ pending s) s" using act by (simp add: conn_active_def)
  have map: "\<not> inServerMap s" and st: "conn_st s = kConnected \<or> conn_st s = kDisconnecting"
    using q ph by (cases "conn_st s"; auto simp: queue_ok_def phase_ok_def split: if_splits)+
  let ?s0 = "s\<lparr>conn_st := kDisconnected\<rparr>"
  have ch0: "channel_ok e reg ?s0" using ch by simp
  obtain p where p: "conn_change DisableAll ?s0 = Inr (?s0\<lparr>poller := p\<rparr>)"
    "channel_ok (change_events DisableAll e) True (?s0\<lparr>poller := p\<rparr>)"
    using conn_change_ok[OF ch0] by blast
  let ?s1 = "?s0\<lparr>poller := p, conn_calls := conn_calls s @ [False]\<rparr>"
  have ch1: "channel_ok 0 True ?s1" using p(2) by (simp add: kNoneEvent_def)
  have "conn_active fs ?s1"
  proof (intro conn_activeI[OF _ _ _ ch1])
    show "queue_ok (fs @ pending ?s1) ?s1"
      using q map st by (auto simp: queue_ok_def split: if_splits)
    show "phase_ok 0 True ?s1" using ph st map by (auto simp: phase_ok_def)
    show "streams_ok ?s1" using act by (simp add: conn_active_def streams_ok_def)
  qed (use act in \<open>simp_all add: conn_active_def\<close>)
  moreover have "list_all call_ok (u (OnConnection False))" using u by (simp add: user_ok_def)
  ultimately have users: "conn_ends (\<lambda>s'. conn_active fs s' \<and> user_frame ?s1 s')
      (run_ops user_exec ?s1 (u (OnConnection False)))" by (rule users_ok)
  have remove: "conn_ends (conn_good fs)
      (bindR (ep_removeChannel (chan s2) (poller s2)) (\<lambda>p. Inr (s2\<lparr>poller := p\<rparr>)))"
    if s2: "conn_active fs s2 \<and> user_frame ?s1 s2" for s2
  proof -
    have f: "conn_st s2 = kDisconnected" "poller s2 = p" "chan s2 = chan s" "sockfd s2 = sockfd s"
      using s2 by (simp_all add: user_frame_def)
    have v: "ep_ok p" "ep_abs p (chan s) = Some (sockfd s, 0, True)"
      "\<And>q e' r. q \<noteq> chan s \<Longrightarrow> ep_abs p q \<noteq> Some (sockfd s, e', r)"
      using ch1 by (auto simp: channel_ok_def)
    from removeChannel_ok[OF v(1), of "chan s"] v(2) obtain p' where
      p': "ep_removeChannel (chan s) p = Inr p'" "ep_ok p'"
        "ep_abs p' = (ep_abs p)(chan s \<mapsto> (sockfd s, 0, False))" by auto
    have ch': "channel_ok 0 False (s2\<lparr>poller := p'\<rparr>)"
      using p' v(3) f by (simp add: channel_ok_def)
    have "conn_active fs (s2\<lparr>poller := p'\<rparr>)"
    proof (intro conn_activeI[OF _ _ _ ch'])
      show "queue_ok (fs @ pending (s2\<lparr>poller := p'\<rparr>)) (s2\<lparr>poller := p'\<rparr>)"
        using s2 by (simp add: conn_active_def queue_ok_def)
      show "phase_ok 0 False (s2\<lparr>poller := p'\<rparr>)" using s2 f by (auto simp: conn_active_def phase_ok_def)
      show "streams_ok (s2\<lparr>poller := p'\<rparr>)" using s2 by (simp add: conn_active_def streams_ok_def)
    qed (use s2 in \<open>simp_all add: conn_active_def\<close>)
    then show ?thesis using p'(1) ch' f by (simp add: conn_good_def)
  qed
  have "connectDestroyed u s = bindR (run_ops user_exec ?s1 (u (OnConnection False)))
      (\<lambda>s2. bindR (ep_removeChannel (chan s2) (poller s2)) (\<lambda>p. Inr (s2\<lparr>poller := p\<rparr>)))"
    using st p(1) by (auto simp: connectDestroyed_def connectionCallback_def Let_def)
  with ends_bind[OF users remove] show ?thesis by simp
qed

text \<open>The state between the constructor and \<^verbatim>\<open>connectEstablished\<close>.\<close>

definition conn_fresh :: "conn_functor list \<Rightarrow> conn \<Rightarrow> bool" where
  "conn_fresh fs s \<longleftrightarrow> conn_st s = kConnecting \<and> alive s \<and> inServerMap s \<and> fs @ pending s = [FEstablished] \<and>
     channel_ok 0 False s \<and> streams_ok s \<and> contents (outputBuffer s) = [] \<and>
     \<not> finSent s \<and> conn_calls s = []"

lemma connectEstablished_ok:
  assumes fr: "conn_fresh [FEstablished] s" and u: "user_ok u"
  shows "conn_ends (conn_good []) (connectEstablished u s)"
proof -
  let ?s0 = "s\<lparr>conn_st := kConnected\<rparr>"
  have "channel_ok 0 False ?s0" using fr by (simp add: conn_fresh_def)
  from conn_change_ok[OF this] obtain p where
    p: "conn_change EnableReading ?s0 = Inr (?s0\<lparr>poller := p\<rparr>)"
      "channel_ok (change_events EnableReading 0) True (?s0\<lparr>poller := p\<rparr>)" by blast
  let ?s1 = "?s0\<lparr>poller := p, conn_calls := conn_calls s @ [True]\<rparr>"
  have "conn_active [] ?s1"
  proof (intro conn_activeI[of _ _ "change_events EnableReading 0" True])
    show "queue_ok ([] @ pending ?s1) ?s1" using fr by (simp add: conn_fresh_def queue_ok_def)
    show "phase_ok (change_events EnableReading 0) True ?s1"
      using fr by (simp add: conn_fresh_def phase_ok_def del: change_events.simps)
    show "channel_ok (change_events EnableReading 0) True ?s1"
      using p(2) by (simp del: change_events.simps)
    show "streams_ok ?s1" using fr by (simp add: conn_fresh_def streams_ok_def)
  qed (use fr in \<open>simp_all add: conn_fresh_def\<close>)
  then have "conn_good [] ?s1" by (simp add: conn_good_def)
  moreover have "list_all call_ok (u (OnConnection True))" using u by (simp add: user_ok_def)
  ultimately have "conn_ends (conn_good []) (run_ops user_exec ?s1 (u (OnConnection True)))"
    by (rule users_good)
  then show ?thesis using fr p(1)
    by (simp add: connectEstablished_def conn_fresh_def connectionCallback_def Let_def)
qed

lemma run_batch_nil: "run_batch wr u i [] = Inr"
  by (rule ext) simp

lemma run_batch_ok:
  assumes "user_ok u"
  shows "conn_good fs s \<Longrightarrow> conn_ends (conn_good []) (run_batch wr u i fs s)"
proof (induction fs arbitrary: s i)
  case (Cons f fs)
  have "f = FDestroyed \<or> f = FWriteComplete" and al: "alive s"
    using Cons.prems by (auto simp: conn_good_def conn_active_def queue_ok_def)
  then have "conn_ends (conn_good fs) (run_functor (wr i) u f s)"
  proof (elim disjE)
    assume "f = FDestroyed"
    then show ?thesis using connectDestroyed_ok[OF _ assms] Cons.prems by simp
  next
    assume f: "f = FWriteComplete"
    then have "conn_good fs s"
      using Cons.prems by (auto simp: conn_good_def conn_active_def queue_ok_def)
    moreover have "list_all call_ok (u OnWriteComplete)" using assms by (simp add: user_ok_def)
    ultimately show ?thesis using users_good f by simp
  qed
  from ends_bind[OF this Cons.IH] al show ?case by simp
qed simp

section \<open>The connection as an object\<close>

definition conn_dead :: "conn \<Rightarrow> bool" where
  "conn_dead s \<longleftrightarrow> \<not> alive s \<and> conn_st s = kDisconnected \<and> \<not> inServerMap s \<and> pending s = [] \<and>
     streams_ok s \<and> conn_calls s = [True, False] \<and> ep_ok (poller s) \<and>
     ep_abs (poller s) (chan s) = None \<and> ep_interest (poller s) (sockfd s) = None \<and>
     ep_channels (poller s) (sockfd s) = None"

definition conn_ok :: "conn \<Rightarrow> bool" where
  "conn_ok s \<longleftrightarrow> conn_fresh [] s \<or> conn_dead s \<or>
     conn_good [] s \<and> (inServerMap s \<or> pending s \<noteq> [])"

lemma no_interest:
  assumes "channel_ok e False s"
  shows "ep_channels (poller s) (sockfd s) = None" "ep_interest (poller s) (sockfd s) = None"
proof -
  have "ep_abs (poller s) q \<noteq> Some (sockfd s, e', True)" for q e'
    using assms by (cases "q = chan s") (auto simp: channel_ok_def)
  then have "fd_free (sockfd s) (ep_abs (poller s))" by (simp add: fd_free_def)
  from free_fd[OF _ this] assms show "ep_channels (poller s) (sockfd s) = None"
    "ep_interest (poller s) (sockfd s) = None" by (simp_all add: channel_ok_def)
qed

lemma conn_release_ok:
  assumes good: "conn_good [] s"
  shows "conn_ends conn_ok (conn_release s)"
proof (cases "inServerMap s \<or> list_ex holds_ref (pending s)")
  case True
  then have "inServerMap s \<or> pending s \<noteq> []" by auto
  with True good show ?thesis by (auto simp: conn_release_def conn_ok_def)
next
  case False
  have q: "queue_ok (pending s) s" and al: "alive s"
    using good by (simp_all add: conn_good_def conn_active_def)
  have none: "pending s = []"
  proof (rule ccontr)
    assume "pending s \<noteq> []"
    then obtain f fs where "pending s = f # fs" by (cases "pending s") auto
    with q False show False by (auto simp: queue_ok_def holds_ref_def)
  qed
  with q False have st: "conn_st s = kDisconnected" by (auto simp: queue_ok_def split: if_splits)
  with good have ch: "channel_ok 0 False s" by (simp add: conn_good_def)
  then have "ep_ok (poller s)" "ep_pre (ep_abs (poller s)) (EpDestroy (chan s))"
    by (simp_all add: channel_ok_def)
  from ep_exec_ok[OF this] obtain p where p: "ep_exec (poller s) (EpDestroy (chan s)) = Inr p"
    "ep_ok p" "ep_abs p = (ep_abs (poller s))(chan s := None)" by auto
  have "ep_interest p = ep_interest (poller s)" "ep_channels p = ep_channels (poller s)"
    using p(1) by auto
  with no_interest[OF ch] have int: "ep_interest p (sockfd s) = None"
    "ep_channels p (sockfd s) = None" by simp_all
  then have "p\<lparr>ep_interest := (ep_interest p)(sockfd s := None)\<rparr> = p" by (simp add: fun_upd_idem)
  then have "conn_release s = Inr (s\<lparr>poller := p, alive := False\<rparr>)"
    using False al p(1) by (simp add: conn_release_def del: ep_exec.simps)
  moreover have "conn_dead (s\<lparr>poller := p, alive := False\<rparr>)"
    using good st none False p int
    by (auto simp: conn_dead_def conn_good_def conn_active_def streams_ok_def phase_ok_def)
  ultimately show ?thesis by (simp add: conn_ok_def)
qed

fun conn_allowed :: "conn_op \<Rightarrow> bool" where
  "conn_allowed (CEvents ev rd wr u) =
     (rd_ok rd \<and> wr_ok wr \<and> user_ok u \<and> (callback_bits CloseCb ev \<longrightarrow> \<not> callback_bits ReadCb ev))"
| "conn_allowed (CCall c) = call_ok c"
| "conn_allowed (COther c) = False"
| "conn_allowed (CPending wr u) = user_ok u"

lemma conn_good_handled [simp]: "pending s = [] \<Longrightarrow> conn_good fs (s\<lparr>handled := h\<rparr>) = conn_good fs s"
  by (simp add: conn_good_def conn_active_def streams_ok_def queue_ok_def phase_ok_def)

lemma conn_exec_ok:
  assumes "conn_ok s" "conn_allowed x"
  shows "conn_ends conn_ok (conn_exec s x)"
proof -
  consider (fresh) "conn_fresh [] s" | (dead) "conn_dead s"
    | (good) "conn_good [] s" "inServerMap s \<or> pending s \<noteq> []"
    using assms(1) by (auto simp: conn_ok_def)
  then show ?thesis
  proof cases
    case fresh
    then have f: "conn_st s = kConnecting" "alive s" "inServerMap s" "pending s = [FEstablished]"
      "channel_ok 0 False s" by (auto simp: conn_fresh_def)
    have keep: "conn_ends conn_ok (bindR (Inr s') conn_release)" if "conn_fresh [] s'" for s'
      using that by (simp add: conn_release_def conn_fresh_def conn_ok_def)
    show ?thesis
    proof (cases x)
      case (CEvents ev rd wr u)
      have "conn_fresh [] (s\<lparr>handled := True\<rparr>)"
        using fresh by (simp add: conn_fresh_def streams_ok_def)
      with keep no_interest(2)[OF f(5)] show ?thesis
        using assms(1) by (simp add: CEvents conn_events_def)
    next
      case (CCall c)
      show ?thesis
      proof (cases c)
        case (UConsume n)
        have ok: "buffer_ok (inputBuffer s)" using fresh by (simp add: conn_fresh_def streams_ok_def)
        let ?k = "min n (length (contents (inputBuffer s)))"
        obtain b where b: "retrieve ?k (inputBuffer s) = Inr b" "buffer_ok b"
          "contents b = drop ?k (contents (inputBuffer s))" using retrieve_ok[OF ok, of ?k] by auto
        have "conn_fresh [] (s\<lparr>inputBuffer := b, taken := taken s @ take ?k (contents (inputBuffer s))\<rparr>)"
          using fresh b by (simp add: conn_fresh_def streams_ok_def)
        from keep[OF this] show ?thesis
          using f b by (simp add: CCall UConsume readableBytes_contents[OF ok] peek_bytes_contents[OF ok])
      qed (use keep[OF fresh] f in \<open>simp_all add: CCall conn_send_def conn_shutdown_def\<close>)
    next
      case (COther c)
      with assms(2) show ?thesis by simp
    next
      case (CPending wr u)
      let ?s = "s\<lparr>handled := False, pending := []\<rparr>"
      have "conn_fresh [FEstablished] ?s" using fresh by (simp add: conn_fresh_def streams_ok_def)
      moreover have "user_ok u" using assms(2) CPending by simp
      ultimately have "conn_ends (conn_good []) (connectEstablished u ?s)" by (rule connectEstablished_ok)
      from ends_bind[OF this conn_release_ok] show ?thesis
        using f by (simp add: CPending conn_pending_def run_batch_nil bind_return)
    qed
  next
    case dead
    then have "conn_dead (s\<lparr>handled := h\<rparr>)" for h by (simp add: conn_dead_def streams_ok_def)
    then have rel: "conn_ends conn_ok (conn_release (s\<lparr>handled := h\<rparr>))" for h
      using dead by (simp add: conn_release_def conn_dead_def conn_ok_def)
    have rel0: "conn_ends conn_ok (conn_release s)"
      using dead by (simp add: conn_release_def conn_dead_def conn_ok_def)
    have s: "pending s = []" "\<not> alive s" "ep_interest (poller s) (sockfd s) = None"
      using dead by (simp_all add: conn_dead_def)
    have p: "s\<lparr>handled := False, pending := []\<rparr> = s\<lparr>handled := False\<rparr>" using s(1) by simp
    show ?thesis
      using rel rel0 s assms
      by (cases x) (simp_all add: conn_events_def conn_pending_def p)
  next
    case good
    then have act: "conn_active [] s" and al: "alive s" by (simp_all add: conn_good_def conn_active_def)
    show ?thesis
    proof (cases x)
      case (CEvents ev rd wr u)
      show ?thesis
      proof (cases "handled s")
        case False
        let ?s = "s\<lparr>handled := True\<rparr>"
        have nopend: "FDestroyed \<notin> set (pending s)"
          using act False by (simp add: conn_active_def queue_ok_def)
        have act': "conn_active [] ?s"
          using act unfolding conn_active_def by (simp add: streams_ok_def queue_ok_def phase_ok_def)
        have good': "conn_good [] ?s" using act' good(1) by (simp add: conn_good_def)
        have "conn_ends (conn_good []) (conn_events ev rd wr u ?s)"
        proof (cases "inServerMap s")
          case True
          then show ?thesis
            using assms(2) CEvents act' by (intro conn_events_good) auto
        next
          case down: False
          have "filter (\<lambda>f. f = FDestroyed) (pending s) = []"
            using nopend by (auto simp: filter_empty_conv)
          with down act have "conn_st s = kDisconnected"
            by (auto simp: conn_active_def queue_ok_def split: if_splits)
          with good(1) have "channel_ok 0 False s" by (simp add: conn_good_def)
          from no_interest(2)[OF this] show ?thesis using good' by (simp add: conn_events_def)
        qed
        from ends_bind[OF this conn_release_ok] show ?thesis using False by (simp add: CEvents)
      qed (use assms(1) in \<open>simp add: CEvents\<close>)
    next
      case (CCall c)
      have "conn_ends (conn_good []) (run_ops user_exec s [c])"
        using good(1) assms(2) CCall by (intro users_good) simp_all
      from ends_bind[OF this conn_release_ok] al show ?thesis by (simp add: CCall bind_return)
    next
      case (COther c)
      with assms(2) show ?thesis by simp
    next
      case (CPending wr u)
      let ?s = "s\<lparr>handled := False, pending := []\<rparr>"
      have "conn_good (pending s) ?s"
        using good(1) by (simp add: conn_good_def conn_active_def streams_ok_def queue_ok_def phase_ok_def)
      moreover have "user_ok u" using assms(2) CPending by simp
      ultimately have "conn_ends (conn_good []) (run_batch wr u 0 (pending s) ?s)"
        by (intro run_batch_ok) simp_all
      from ends_bind[OF this conn_release_ok] show ?thesis by (simp add: CPending conn_pending_def)
    qed
  qed
qed

interpretation connection: object conn_exec conn_ok conn_allowed "\<lambda>e. e = LengthError"
  by unfold_locales (rule conn_exec_ok)

section \<open>Whoever calls\<close>

text \<open>
  The part of the invariant that holds under any calls, also those of other threads and whatever
  else goes wrong: the two streams, and the calls of the connection callback. \<open>conn_possible\<close> is
  what the kernel and the size of a vector promise.
\<close>

fun conn_possible :: "conn_op \<Rightarrow> bool" where
  "conn_possible (CEvents ev rd wr u) = (rd_ok rd \<and> wr_ok wr \<and> user_ok u)"
| "conn_possible (CCall c) = call_ok c"
| "conn_possible (COther c) = call_ok c"
| "conn_possible (CPending wr u) = user_ok u"

lemma allowed_possible: "conn_allowed x \<Longrightarrow> conn_possible x"
  by (cases x) simp_all

fun small_functor :: "conn_functor \<Rightarrow> bool" where
  "small_functor (FSendInLoop m) = (length m \<le> vec_max)"
| "small_functor _ = True"

definition calls_so_far :: "conn_state \<Rightarrow> bool list" where
  "calls_so_far st = (case st of kConnecting \<Rightarrow> [] | kDisconnected \<Rightarrow> [True, False] | _ \<Rightarrow> [True])"

definition books :: "conn_functor list \<Rightarrow> conn \<Rightarrow> bool" where
  "books fs s \<longleftrightarrow> streams_ok s \<and> list_all small_functor (fs @ pending s) \<and> conn_calls s = calls_so_far (conn_st s)"

abbreviation any_ends :: "(conn \<Rightarrow> bool) \<Rightarrow> conn res \<Rightarrow> bool" where
  "any_ends \<equiv> ends (\<lambda>_. True)"

lemma books_fields [simp]:
  "books fs (s\<lparr>poller := x1\<rparr>) = books fs s" "books fs (s\<lparr>alive := x2\<rparr>) = books fs s"
  "books fs (s\<lparr>handled := x3\<rparr>) = books fs s" "books fs (s\<lparr>inServerMap := x4\<rparr>) = books fs s"
  "books fs (s\<lparr>finSent := x5\<rparr>) = books fs s"
  by (simp_all add: books_def streams_ok_def)

lemma change_shape: "conn_change k s = Inr s' \<Longrightarrow> \<exists>p. s' = s\<lparr>poller := p\<rparr>"
  by (auto simp: conn_change_def)

lemma books_change: "books fs s \<Longrightarrow> any_ends (books fs) (conn_change k s)"
  using change_shape[of k s] by (cases "conn_change k s") auto

lemma books_send:
  assumes b: "books fs s" and m: "length m \<le> vec_max"
  shows "any_ends (books fs) (sendInLoop wr m s)"
proof (cases "conn_isWriting s")
  case (Inl e)
  then show ?thesis by (simp add: sendInLoop_def)
next
  case (Inr w)
  have str: "streams_ok s" using b by (simp add: books_def)
  let ?out = "contents (outputBuffer s)"
  have rb: "readableBytes (outputBuffer s) = length ?out"
    using str by (simp add: streams_ok_def readableBytes_contents)
  define direct where "direct = (\<not> w \<and> ?out = [])"
  define n where "n = (if direct then (case wr (length m) of Wrote n \<Rightarrow> n | WriteErr _ \<Rightarrow> 0) else 0)"
  define wc where "wc = (direct \<and> wr (length m) = Wrote n \<and> \<not> n < length m \<and> hasWriteComplete s)"
  let ?s1 = "s\<lparr>asked := asked s @ m, sent := sent s @ take n m,
                pending := pending s @ (if wc then [FWriteComplete] else [])\<rparr>"
  have run: "sendInLoop wr m s =
    (if n < length m
     then bindR (append (drop n m) (outputBuffer s)) (\<lambda>b.
          if \<not> w then conn_change EnableWriting (?s1\<lparr>outputBuffer := b\<rparr>)
          else Inr (?s1\<lparr>outputBuffer := b\<rparr>))
     else Inr ?s1)"
    by (simp add: sendInLoop_def Inr rb Let_def direct_def n_def wc_def cong: if_cong)
  have given: "asked s @ m = (sent s @ take n m) @ ?out @ drop n m"
  proof (cases direct)
    case True
    then show ?thesis using str by (simp add: streams_ok_def direct_def)
  next
    case False
    then have "n = 0" by (simp add: n_def)
    then show ?thesis using str by (simp add: streams_ok_def)
  qed
  have rest: "list_all small_functor (fs @ pending ?s1)" "conn_calls s = calls_so_far (conn_st s)"
    using b by (simp_all add: books_def)
  show ?thesis
  proof (cases "n < length m")
    case False
    then have "books fs ?s1" using given rest str by (simp add: books_def streams_ok_def)
    then show ?thesis using False by (simp add: run)
  next
    case True
    have "length (drop n m) \<le> vec_max" using m by simp
    from append_out[OF str this] show ?thesis
    proof (elim disjE exE conjE)
      fix c assume c: "append (drop n m) (outputBuffer s) = Inr c" "buffer_ok c" "contents c = ?out @ drop n m"
      have "books fs (?s1\<lparr>outputBuffer := c\<rparr>)" using given rest str c(2,3) by (simp add: books_def streams_ok_def)
      with True c(1) books_change[OF this, of EnableWriting] show ?thesis by (simp add: run)
    qed (simp add: run True)
  qed
qed

lemma books_shutdownInLoop: "books fs s \<Longrightarrow> any_ends (books fs) (shutdownInLoop s)"
  by (cases "conn_isWriting s") (simp_all add: shutdownInLoop_def)

lemma books_disconnecting: "books fs s \<Longrightarrow> conn_st s = kConnected \<Longrightarrow> books fs (s\<lparr>conn_st := kDisconnecting\<rparr>)"
  by (simp add: books_def streams_ok_def calls_so_far_def)

lemma books_posted: "books fs s \<Longrightarrow> small_functor f \<Longrightarrow> books fs (s\<lparr>pending := pending s @ [f]\<rparr>)"
  by (simp add: books_def streams_ok_def)

lemma books_conn_send: "books fs s \<Longrightarrow> length m \<le> vec_max \<Longrightarrow> any_ends (books fs) (conn_send b wr m s)"
  by (simp add: conn_send_def books_send books_posted)

lemma books_conn_shutdown: "books fs s \<Longrightarrow> any_ends (books fs) (conn_shutdown b s)"
  using books_posted[of fs "s\<lparr>conn_st := kDisconnecting\<rparr>" FShutdownInLoop] books_disconnecting[of fs s]
  by (simp add: conn_shutdown_def Let_def books_shutdownInLoop)

lemma books_user:
  assumes b: "books fs s" and c: "call_ok c"
  shows "any_ends (books fs) (user_exec s c)"
proof (cases c)
  case (UConsume n)
  let ?c = "contents (inputBuffer s)"
  let ?k = "min n (length ?c)"
  have ok: "buffer_ok (inputBuffer s)" using b by (simp add: books_def streams_ok_def)
  obtain b' where b': "retrieve ?k (inputBuffer s) = Inr b'" "buffer_ok b'" "contents b' = drop ?k ?c"
    using retrieve_ok[OF ok, of ?k] by auto
  have "books fs (s\<lparr>inputBuffer := b', taken := taken s @ take ?k ?c\<rparr>)"
    using b b'(2,3) by (simp add: books_def streams_ok_def)
  then show ?thesis using b'(1)
    by (simp add: UConsume readableBytes_contents[OF ok] peek_bytes_contents[OF ok])
qed (use b c in \<open>simp_all add: books_conn_send books_conn_shutdown\<close>)

lemma books_users: "books fs s \<Longrightarrow> list_all call_ok cs \<Longrightarrow> any_ends (books fs) (run_ops user_exec s cs)"
proof (induction cs arbitrary: s)
  case (Cons c cs)
  then have "any_ends (books fs) (bindR (user_exec s c) (\<lambda>s'. run_ops user_exec s' cs))"
    by (intro ends_bind[OF books_user]) simp_all
  then show ?case by simp
qed simp

lemma books_callback:
  assumes "books fs (s\<lparr>conn_calls := conn_calls s @ [conn_st s = kConnected]\<rparr>)" "user_ok u"
  shows "any_ends (books fs) (connectionCallback u s)"
  using books_users[OF assms(1), of "u (OnConnection (conn_st s = kConnected))"] assms(2)
  by (simp add: connectionCallback_def Let_def user_ok_def)

lemma books_established:
  assumes "books fs s" "user_ok u"
  shows "any_ends (books fs) (connectEstablished u s)"
proof (cases "conn_change EnableReading (s\<lparr>conn_st := kConnected\<rparr>)")
  case (Inl e)
  then show ?thesis by (simp add: connectEstablished_def assertR_def)
next
  case (Inr s1)
  then obtain p where "s1 = s\<lparr>conn_st := kConnected, poller := p\<rparr>" using change_shape by blast
  then have "conn_st s = kConnecting \<Longrightarrow> books fs (s1\<lparr>conn_calls := conn_calls s1 @ [conn_st s1 = kConnected]\<rparr>)"
    using assms(1) by (simp add: books_def streams_ok_def calls_so_far_def)
  with books_callback[OF _ assms(2), of fs s1] Inr show ?thesis
    by (simp add: connectEstablished_def assertR_def)
qed

lemma books_destroyed:
  assumes "books fs s" "user_ok u"
  shows "any_ends (books fs) (connectDestroyed u s)"
proof (cases "conn_change DisableAll (s\<lparr>conn_st := kDisconnected\<rparr>)")
  case (Inl e)
  then show ?thesis by (simp add: connectDestroyed_def assertR_def)
next
  case (Inr s1)
  then obtain p where s1: "s1 = s\<lparr>conn_st := kDisconnected, poller := p\<rparr>" using change_shape by blast
  have remove: "any_ends (books fs) (bindR (ep_removeChannel (chan s2) (poller s2)) (\<lambda>p. Inr (s2\<lparr>poller := p\<rparr>)))"
    if "books fs s2" for s2 using that by (cases "ep_removeChannel (chan s2) (poller s2)") simp_all
  show ?thesis
  proof (cases "conn_st s = kConnected \<or> conn_st s = kDisconnecting")
    case True
    then have "books fs (s1\<lparr>conn_calls := conn_calls s1 @ [conn_st s1 = kConnected]\<rparr>)"
      using assms(1) by (auto simp: s1 books_def streams_ok_def calls_so_far_def)
    from ends_bind[OF books_callback[OF this assms(2)] remove] Inr True show ?thesis
      by (simp add: connectDestroyed_def)
  qed (simp add: connectDestroyed_def)
qed

lemma books_close: "books fs s \<Longrightarrow> any_ends (books fs) (handleClose s)"
proof -
  assume b: "books fs s"
  have "any_ends (books fs) (closeCallback_server s1)" if "books fs s1" for s1
    using books_posted[OF that, of FDestroyed] by (simp add: closeCallback_server_def assertR_def)
      (simp add: books_def streams_ok_def)
  from ends_bind[OF books_change[OF b, of DisableAll] this] show ?thesis by (simp add: handleClose_def assertR_def)
qed

lemma books_read:
  assumes b: "books fs s" and env: "rd_ok rd" "user_ok u"
  shows "any_ends (books fs) (handleRead rd u s)"
proof -
  have ok: "buffer_ok (inputBuffer s)" using b by (simp add: books_def streams_ok_def)
  let ?cap = "writableBytes (inputBuffer s) + extrabuf_size"
  show ?thesis
  proof (cases "rd ?cap")
    case (ReadErr e)
    have "s\<lparr>inputBuffer := inputBuffer s, received := received s\<rparr> = s" by simp
    then show ?thesis using b ReadErr by (simp add: handleRead_def readFd_error)
  next
    case (ReadOk xs)
    have "length xs \<le> ?cap" using env(1) ReadOk by (simp add: rd_ok_def)
    from readFd_total[OF ok this] show ?thesis
    proof (elim disjE exE conjE)
      fix c assume c: "readFd (ReadOk xs) (inputBuffer s) = Inr (int (length xs), None, c)" "buffer_ok c"
        "contents c = contents (inputBuffer s) @ xs"
      let ?s = "s\<lparr>inputBuffer := c, received := received s @ xs\<rparr>"
      have "books fs ?s" using b c(2,3) by (simp add: books_def streams_ok_def)
      moreover have "list_all call_ok (u (OnMessage (contents c)))"
        using env(2) contents_vec[OF c(2)] by (simp add: user_ok_def)
      ultimately show ?thesis using c(1) books_users[of fs ?s] books_close[of fs ?s]
        by (cases "xs = []")
          (simp_all add: handleRead_def ReadOk readableBytes_contents[OF c(2)] peek_bytes_contents[OF c(2)])
    qed (simp add: handleRead_def ReadOk)
  qed
qed

lemma books_write:
  assumes b: "books fs s" and wr: "wr_ok wr"
  shows "any_ends (books fs) (handleWrite wr s)"
proof (cases "conn_isWriting s")
  case (Inl e)
  then show ?thesis by (simp add: handleWrite_def)
next
  case (Inr w)
  let ?out = "contents (outputBuffer s)"
  have ok: "buffer_ok (outputBuffer s)" using b by (simp add: books_def streams_ok_def)
  note rb = readableBytes_contents[OF ok]
  show ?thesis
  proof (cases "w \<and> (\<exists>n > 0. wr (length ?out) = Wrote n)")
    case False
    then have "\<not> w \<or> (\<forall>n. wr (length ?out) = Wrote n \<longrightarrow> n = 0)" by auto
    then have "handleWrite wr s = Inr s" by (auto simp: handleWrite_def Inr rb split: write_result.splits)
    with b show ?thesis by simp
  next
    case True
    then obtain n where w: w and n: "0 < n" "wr (length ?out) = Wrote n" by blast
    have nle: "n \<le> length ?out" using wr n(2) by (simp add: wr_ok_def)
    obtain c where c: "retrieve n (outputBuffer s) = Inr c" "buffer_ok c" "contents c = drop n ?out"
      using retrieve_ok[OF ok nle] by blast
    let ?s1 = "s\<lparr>outputBuffer := c, sent := sent s @ take n ?out\<rparr>"
    have s1: "books fs ?s1" using b c by (simp add: books_def streams_ok_def)
    have flushed: "any_ends (books fs) (bindR (conn_change DisableWriting ?s1) (\<lambda>s2.
        let s3 = s2\<lparr>pending := pending s2 @ (if hasWriteComplete s2 then [FWriteComplete] else [])\<rparr>
        in if conn_st s3 = kDisconnecting then shutdownInLoop s3 else Inr s3))"
    proof (rule ends_bind[OF books_change[OF s1]])
      fix s2 assume "books fs s2"
      with books_posted[of fs s2 FWriteComplete] show "any_ends (books fs)
          (let s3 = s2\<lparr>pending := pending s2 @ (if hasWriteComplete s2 then [FWriteComplete] else [])\<rparr>
           in if conn_st s3 = kDisconnecting then shutdownInLoop s3 else Inr s3)"
        by (simp add: Let_def books_shutdownInLoop)
    qed
    show ?thesis using flushed s1 w n c(1)
      by (cases "readableBytes c = 0") (simp_all add: handleWrite_def Inr rb peek_bytes_contents[OF ok nle] Let_def)
  qed
qed

lemma books_events:
  assumes b: "books fs s" and env: "rd_ok rd" "wr_ok wr" "user_ok u"
  shows "any_ends (books fs) (conn_events ev rd wr u s)"
proof -
  have one: "any_ends (books fs) (conn_callback rd wr u s1 k)" if "books fs s1" for s1 k
    using that env by (cases k) (simp_all add: books_close books_read books_write handleError_def)
  have "any_ends (books fs) (run_ops (conn_callback rd wr u) s1 ks)" if "books fs s1" for s1 ks
    using that
  proof (induction ks arbitrary: s1)
    case (Cons k ks)
    have "any_ends (books fs) (bindR (conn_callback rd wr u s1 k) (\<lambda>s'. run_ops (conn_callback rd wr u) s' ks))"
      by (rule ends_bind[OF one[OF Cons.prems] Cons.IH])
    then show ?case by simp
  qed simp
  with b show ?thesis by (simp add: conn_events_def)
qed

lemma books_release: "books fs s \<Longrightarrow> any_ends (books fs) (conn_release s)"
  by (cases "ep_exec (poller s) (EpDestroy (chan s))") (simp_all add: conn_release_def del: ep_exec.simps)

lemma books_batch: "user_ok u \<Longrightarrow> books fs s \<Longrightarrow> any_ends (books []) (run_batch wr u i fs s)"
proof (induction fs arbitrary: s i)
  case (Cons f fs)
  have b: "books fs s" "small_functor f" using Cons.prems(2) by (simp_all add: books_def)
  have "list_all call_ok (u OnWriteComplete)" using Cons.prems(1) by (simp add: user_ok_def)
  then have "any_ends (books fs) (run_functor (wr i) u f s)"
    using b Cons.prems(1) by (cases f) (simp_all add: books_send books_shutdownInLoop books_established
      books_destroyed books_users)
  from ends_bind[OF this Cons.IH[OF Cons.prems(1)]] show ?case by simp
qed simp

lemma conn_exec_books:
  assumes b: "books [] s" and x: "conn_possible x"
  shows "any_ends (books []) (conn_exec s x)"
proof (cases x)
  case (CEvents ev rd wr u)
  have "any_ends (books []) (conn_events ev rd wr u (s\<lparr>handled := True\<rparr>))"
    using b x CEvents by (intro books_events) simp_all
  from ends_bind[OF this books_release] b show ?thesis by (simp add: CEvents)
next
  case (CCall c)
  have "any_ends (books []) (if alive s then user_exec s c else Inr s)" using b x CCall books_user by simp
  from ends_bind[OF this books_release] show ?thesis by (simp add: CCall)
next
  case (COther c)
  have "any_ends (books []) (if alive s
            then (case c of
                    USend message wr \<Rightarrow> conn_send False wr message s
                  | UShutdown \<Rightarrow> conn_shutdown False s
                  | UConsume n \<Rightarrow> Inr s)
            else Inr s)"
    using b x COther by (cases c) (simp_all add: books_conn_send books_conn_shutdown)
  from ends_bind[OF this books_release] show ?thesis by (simp only: COther conn_exec.simps)
next
  case (CPending wr u)
  have "books (pending s) (s\<lparr>handled := False, pending := []\<rparr>)" using b by (simp add: books_def streams_ok_def)
  with x CPending have "any_ends (books []) (run_batch wr u 0 (pending s) (s\<lparr>handled := False, pending := []\<rparr>))"
    by (intro books_batch) simp_all
  from ends_bind[OF this books_release] show ?thesis by (simp add: CPending conn_pending_def)
qed

interpretation bookkeeping: object conn_exec "books []" conn_possible "\<lambda>_. True"
  by unfold_locales (rule conn_exec_books)

lemma conn_new_books: "books [] (conn_new fd p wc ep)"
  by (simp add: books_def conn_new_def streams_ok_def buffer_new_ok calls_so_far_def)

section \<open>Properties\<close>

lemma conn_new_ok:
  assumes "ep_ok ep" "ep_objects ep p = None"
    "\<forall>q c. ep_objects ep q = Some c \<longrightarrow> ch_fd c \<noteq> fd"
  shows "conn_ok (conn_new fd p wc ep)"
proof -
  let ?ep = "ep_put p (conn_channel fd) ep"
  have "ep_ok ?ep" "ep_abs ?ep p = Some (fd, 0, False)"
    using ep_put_ok[OF assms(1,2), of "conn_channel fd"]
    by (simp_all add: conn_channel_def channel_new_def index_defs)
  moreover have "ep_abs ?ep q \<noteq> Some (fd, e, r)" if "q \<noteq> p" for q e r
    using that assms(3) by (auto simp: ep_abs_def ep_put_def)
  ultimately have "channel_ok 0 False (conn_new fd p wc ep)"
    by (simp add: channel_ok_def conn_new_def)
  then have "conn_fresh [] (conn_new fd p wc ep)"
    by (simp add: conn_fresh_def conn_new_def streams_ok_def buffer_new_ok)
  then show ?thesis by (simp add: conn_ok_def)
qed

lemma conn_ok_streams: "conn_ok s \<Longrightarrow> streams_ok s"
  by (auto simp: conn_ok_def conn_fresh_def conn_dead_def conn_good_def conn_active_def)

text \<open>What a concrete run of a connection is evaluated with.\<close>

lemma empty_buffer:
  "readableBytes buffer_new = 0" "writerIndex buffer_new \<le> length (buf_data buffer_new)"
  "contents buffer_new = []"
  by (simp_all add: readableBytes_contents[OF buffer_new_ok] buffer_okD[OF buffer_new_ok])

lemmas conn_eval = conn_new_def conn_pending_def connectEstablished_def conn_change_def ep_new_def
  conn_channel_def channel_new_def change_interest_def ep_updateChannel_def ep_update_def
  ep_put_def ep_deref_def index_defs Let_def connectionCallback_def conn_release_def
  conn_events_def due_callbacks_def poll_flags handleRead_def readFd_def kReadEvent_def
  kWriteEvent_def handleClose_def closeCallback_server_def mem_write_def isNoneEvent_def
  kNoneEvent_def conn_send_def conn_shutdown_def shutdownInLoop_def connectDestroyed_def
  ep_removeChannel_def sendInLoop_def conn_isWriting_def isWriting_def holds_ref_def
  channel_destroy_def empty_buffer

text \<open>An empty poller, and a user who answers every message and then shuts down.\<close>

lemma first_conn_ok: "conn_ok (conn_new 5 64 wc ep_new)"
  by (rule conn_new_ok[OF ep_new_ok]) (simp_all add: ep_new_def)

definition answering :: user where
  "answering ev = (case ev of
     OnMessage xs \<Rightarrow> [UConsume (length xs), USend [7, 8, 9] (\<lambda>k. Wrote (min k 2)), UShutdown]
   | _ \<Rightarrow> [])"

lemma answering_ok: "user_ok answering"
  by (auto simp: user_ok_def answering_def wr_ok_def vec_max_def split: user_event.splits)

definition talk :: "conn_op list" where
  "talk = [CPending (\<lambda>_ _. WriteErr 11) answering,
     CEvents POLLIN (\<lambda>k. ReadOk (take k [1, 2])) (\<lambda>k. Wrote k) answering]"

lemma talk_allowed: "list_all conn_allowed talk"
  by (simp add: talk_def answering_ok rd_ok_def wr_ok_def poll_flags)

lemma conn_ok_isWriting:
  assumes "conn_ok s" "inServerMap s" "conn_st s \<noteq> kConnecting"
  shows "conn_isWriting s = Inr (contents (outputBuffer s) \<noteq> [])"
proof -
  have "conn_active [] s"
    using assms by (auto simp: conn_ok_def conn_fresh_def conn_dead_def conn_good_def)
  then obtain e reg where "channel_ok e reg s" "phase_ok e reg s" by (auto simp: conn_active_def)
  with assms(2,3) show ?thesis by (auto simp: conn_isWriting_ok phase_ok_def)
qed

text \<open>
  C1: Bytes arrive as they were given, whoever calls. Through any sequence of events, of calls from
  the loop's thread and from other threads, and of posted functors, with any partial writes and
  write errors: what the kernel accepted followed by what the output buffer holds is exactly what
  \<^verbatim>\<open>sendInLoop\<close> was given, in order; what the user took followed by what the input buffer holds is
  exactly what was read. If moreover the sends and shutdowns come from the loop's own thread, and
  no event reports a hang-up without data together with urgent data (so that the close and the
  read callback would both run), then the only failure is a buffer that would pass the maximal
  vector size, and while the connection is in the server's map, writing is watched if and only if
  something is left to send. (A send that another thread posts can fail an assert later; the
  end of this section has a run.)
\<close>

theorem connection_streams:
  assumes "ep_ok ep" "ep_objects ep p = None" "\<forall>q c. ep_objects ep q = Some c \<longrightarrow> ch_fd c \<noteq> fd"
    "list_all conn_possible ops"
  shows "case run_ops conn_exec (conn_new fd p wc ep) ops of
      Inl e \<Rightarrow> list_all conn_allowed ops \<longrightarrow> e = LengthError
    | Inr s \<Rightarrow> asked s = sent s @ contents (outputBuffer s) \<and>
        received s = taken s @ contents (inputBuffer s) \<and>
        (list_all conn_allowed ops \<and> inServerMap s \<and> conn_st s \<noteq> kConnecting \<longrightarrow>
          conn_isWriting s = Inr (contents (outputBuffer s) \<noteq> []))"
proof (cases "run_ops conn_exec (conn_new fd p wc ep) ops")
  case (Inl e)
  then show ?thesis using connection.run_safe_err[OF conn_new_ok[OF assms(1-3)]] by auto
next
  case (Inr s)
  have "streams_ok s" using bookkeeping.run_safe_inv[OF conn_new_books assms(4) Inr] by (simp add: books_def)
  moreover have "conn_isWriting s = Inr (contents (outputBuffer s) \<noteq> [])"
    if "list_all conn_allowed ops" "inServerMap s" "conn_st s \<noteq> kConnecting"
    using connection.run_safe_inv[OF conn_new_ok[OF assms(1-3)] that(1) Inr] that(2,3) by (rule conn_ok_isWriting)
  ultimately show ?thesis using Inr by (simp add: streams_ok_def)
qed

text \<open>The last call is a send of another thread, which the loop has not run yet.\<close>

theorem connection_streams_witness:
  "case run_ops conn_exec (conn_new 5 64 True ep_new) (talk @ [COther (USend [1] (\<lambda>k. Wrote k))]) of
      Inl e \<Rightarrow> True
    | Inr s \<Rightarrow> asked s = sent s @ contents (outputBuffer s)"
proof -
  have "\<forall>q c. ep_objects ep_new q = Some c \<longrightarrow> ch_fd c \<noteq> 5" "ep_objects ep_new 64 = None"
    by (simp_all add: ep_new_def)
  moreover have "list_all conn_possible (talk @ [COther (USend [1] (\<lambda>k. Wrote k))])"
    using talk_allowed by (simp add: list.pred_mono_strong[OF talk_allowed] allowed_possible wr_ok_def vec_max_def)
  ultimately show ?thesis
    using connection_streams[OF ep_new_ok, of 64 5 "talk @ [COther (USend [1] (\<lambda>k. Wrote k))]" True]
    by (auto split: sum.splits)
qed

text \<open>
  C32: shutdown() closes the write side only after everything given to send has been handed to
  the kernel. In every state that events, calls of the loop's own thread and functors lead to, in
  which the FIN has been sent and the connection has not been closed by the peer: the kernel has
  accepted all that was given to send, nothing is left in the output buffer, and a further send, in
  the loop's thread or another, changes nothing.
\<close>

theorem fin_after_flush:
  assumes "ep_ok ep" "ep_objects ep p = None" "\<forall>q c. ep_objects ep q = Some c \<longrightarrow> ch_fd c \<noteq> fd"
    "list_all conn_allowed ops" "run_ops conn_exec (conn_new fd p wc ep) ops = Inr s"
    "finSent s" "inServerMap s"
  shows "sent s = asked s \<and> contents (outputBuffer s) = [] \<and> conn_send in_loop wr m s = Inr s"
proof -
  have "conn_ok s" by (rule connection.run_safe_inv[OF conn_new_ok[OF assms(1-3)] assms(4,5)])
  then have "conn_active [] s"
    using assms(6,7) by (auto simp: conn_ok_def conn_fresh_def conn_dead_def conn_good_def)
  with assms(6,7) show ?thesis
    by (auto simp: conn_active_def phase_ok_def streams_ok_def conn_send_def)
qed

theorem fin_after_flush_witness:
  "\<exists>s. run_ops conn_exec (conn_new 5 64 True ep_new) [CPending (\<lambda>_ _. WriteErr 11) (\<lambda>_. []), CCall UShutdown] = Inr s \<and>
     finSent s \<and> sent s = asked s \<and> conn_send True (\<lambda>k. Wrote k) [1] s = Inr s"
proof -
  let ?ops = "[CPending (\<lambda>_ _. WriteErr 11) (\<lambda>_. []), CCall UShutdown]"
  have ok: "list_all conn_allowed ?ops" by (simp add: user_ok_def)
  have none: "ep_objects ep_new 64 = None" "\<forall>q c. ep_objects ep_new q = Some c \<longrightarrow> ch_fd c \<noteq> 5"
    by (simp_all add: ep_new_def)
  have "case run_ops conn_exec (conn_new 5 64 True ep_new) ?ops of Inl _ \<Rightarrow> False
    | Inr s \<Rightarrow> finSent s \<and> inServerMap s" by (simp add: conn_eval run_batch_nil bind_return)
  then obtain s where s: "run_ops conn_exec (conn_new 5 64 True ep_new) ?ops = Inr s"
    "finSent s" "inServerMap s" by (elim case_sum_Inr conjE) blast
  from fin_after_flush[OF ep_new_ok none ok s] s(1,2) show ?thesis by blast
qed

text \<open>
  C17: The life of a connection. Whoever calls, the connection callback is called at most twice,
  first with the connection up and then, once it is destroyed, with it down. If the sends and
  shutdowns come from the loop's own thread (and no event makes the close and the read callback
  both run), the object exists exactly as long as the server's map or a pending functor refers to
  it; and when it is gone, its channel is deleted and neither the poller's map nor the kernel's
  interest set has its descriptor.
\<close>

theorem connection_lifecycle:
  assumes "list_all conn_possible ops"
    "run_ops conn_exec (conn_new fd p wc ep_new) ops = Inr s"
  shows "conn_calls s = (case conn_st s of kConnecting \<Rightarrow> [] | kDisconnected \<Rightarrow> [True, False] | _ \<Rightarrow> [True]) \<and>
    (list_all conn_allowed ops \<longrightarrow>
      (alive s \<longleftrightarrow> inServerMap s \<or> pending s \<noteq> []) \<and>
      (\<not> alive s \<longrightarrow> conn_st s = kDisconnected \<and> ep_objects (poller s) (chan s) = None \<and>
        ep_channels (poller s) (sockfd s) = None \<and> ep_interest (poller s) (sockfd s) = None))"
proof -
  have calls: "conn_calls s = calls_so_far (conn_st s)"
    using bookkeeping.run_safe_inv[OF conn_new_books assms] by (simp add: books_def)
  have "(alive s \<longleftrightarrow> inServerMap s \<or> pending s \<noteq> []) \<and>
      (\<not> alive s \<longrightarrow> conn_st s = kDisconnected \<and> ep_objects (poller s) (chan s) = None \<and>
        ep_channels (poller s) (sockfd s) = None \<and> ep_interest (poller s) (sockfd s) = None)"
    if all: "list_all conn_allowed ops"
  proof -
    have "conn_ok (conn_new fd p wc ep_new)"
      by (rule conn_new_ok[OF ep_new_ok]) (simp_all add: ep_new_def)
    from connection.run_safe_inv[OF this all assms(2)]
    consider "conn_fresh [] s" | "conn_dead s" | "conn_active [] s" "inServerMap s \<or> pending s \<noteq> []"
      by (auto simp: conn_ok_def conn_good_def)
    then show ?thesis by cases (auto simp: conn_fresh_def conn_dead_def conn_active_def ep_abs_def)
  qed
  with calls show ?thesis by (simp add: calls_so_far_def)
qed

theorem connection_lifecycle_witness:
  "\<exists>s. run_ops conn_exec (conn_new 5 64 True ep_new)
      [CPending (\<lambda>_ _. WriteErr 11) (\<lambda>_. []), CEvents POLLIN (\<lambda>_. ReadOk []) (\<lambda>_. WriteErr 11) (\<lambda>_. []),
       CPending (\<lambda>_ _. WriteErr 11) (\<lambda>_. [])] = Inr s \<and>
     \<not> alive s \<and> conn_calls s = [True, False] \<and> ep_channels (poller s) 5 = None"
proof -
  let ?ops = "[CPending (\<lambda>_ _. WriteErr 11) (\<lambda>_. []), CEvents POLLIN (\<lambda>_. ReadOk []) (\<lambda>_. WriteErr 11) (\<lambda>_. []),
       CPending (\<lambda>_ _. WriteErr 11) (\<lambda>_. [])]"
  have ok: "list_all conn_possible ?ops" "list_all conn_allowed ?ops"
    by (simp_all add: user_ok_def rd_ok_def wr_ok_def poll_flags)
  have "case run_ops conn_exec (conn_new 5 64 True ep_new) ?ops of Inl _ \<Rightarrow> False
    | Inr s \<Rightarrow> \<not> alive s \<and> sockfd s = 5" by (simp add: conn_eval run_batch_nil bind_return)
  then obtain s where s: "run_ops conn_exec (conn_new 5 64 True ep_new) ?ops = Inr s" "\<not> alive s"
    "sockfd s = 5" by (elim case_sum_Inr conjE) blast
  from connection_lifecycle[OF ok(1) s(1)] ok(2) s(2,3)
  have "conn_calls s = [True, False]" "ep_channels (poller s) 5 = None" by simp_all
  with s show ?thesis by blast
qed

text \<open>
  C39: sendInLoop does not look at the state of the connection. The peer has closed; the loop has
  handled that, so that connectDestroyed is posted, but the state is still connected. A send that
  another thread makes now is posted behind it and runs after connectDestroyed. Whatever message
  the kernel does not take at once registers the removed channel again. The connection is then
  deleted while the poller's map keeps its descriptor, and the next connection that gets the same
  descriptor fails the assert of updateChannel. This holds for all descriptors, messages and
  addresses, whether or not the kernel took a part of the message.
\<close>

theorem late_send_leaves_descriptor:
  assumes "length m \<le> vec_max" "case wr (length m) of Wrote n \<Rightarrow> n < length m | WriteErr _ \<Rightarrow> m \<noteq> []" "p \<noteq> q"
  shows "case run_ops conn_exec (conn_new fd p False ep_new)
      [CPending (\<lambda>_ _. WriteErr 11) (\<lambda>_. []), CEvents POLLIN (\<lambda>_. ReadOk []) (\<lambda>_. WriteErr 11) (\<lambda>_. []),
       COther (USend m wr), CPending (\<lambda>_. wr) (\<lambda>_. [])] of
      Inl e \<Rightarrow> e = LengthError
    | Inr s \<Rightarrow> \<not> alive s \<and> ep_objects (poller s) p = None \<and> ep_channels (poller s) fd = Some p \<and>
        conn_exec (conn_new fd q False (poller s)) (CPending (\<lambda>_ _. WriteErr 11) (\<lambda>_. [])) = Inl AssertFail"
proof -
  let ?n = "case wr (length m) of Wrote n \<Rightarrow> n | WriteErr _ \<Rightarrow> 0"
  have n: "?n < length m" using assms(2) by (auto split: write_result.splits)
  have "length (drop ?n m) \<le> vec_max" using assms(1) by simp
  from append_total[OF buffer_new_ok this] show ?thesis
  proof (elim disjE exE conjE)
    fix b assume b: "append (drop ?n m) buffer_new = Inr b"
    show ?thesis using n assms(3) by (simp add: conn_eval run_batch_nil bind_return b)
  next
    assume b: "append (drop ?n m) buffer_new = Inl LengthError"
    show ?thesis using n assms(3) by (simp add: conn_eval run_batch_nil bind_return b)
  qed
qed

theorem late_send_leaves_descriptor_witness:
  "\<exists>s. run_ops conn_exec (conn_new 5 64 False ep_new)
      [CPending (\<lambda>_ _. WriteErr 11) (\<lambda>_. []), CEvents POLLIN (\<lambda>_. ReadOk []) (\<lambda>_. WriteErr 11) (\<lambda>_. []),
       COther (USend [1] (\<lambda>_. WriteErr 11)), CPending (\<lambda>_ _. WriteErr 11) (\<lambda>_. [])] = Inr s \<and>
     conn_exec (conn_new 5 80 False (poller s)) (CPending (\<lambda>_ _. WriteErr 11) (\<lambda>_. [])) = Inl AssertFail"
proof -
  let ?ops = "[CPending (\<lambda>_ _. WriteErr 11) (\<lambda>_. []), CEvents POLLIN (\<lambda>_. ReadOk []) (\<lambda>_. WriteErr 11) (\<lambda>_. []),
       COther (USend [1] (\<lambda>_. WriteErr 11)), CPending (\<lambda>_ _. WriteErr 11) (\<lambda>_. [])]"
  obtain b where b: "append [1] buffer_new = Inr b"
    using append_ok[OF buffer_new_ok, of "[1]"] by (auto simp: vec_max_def)
  obtain s where s: "run_ops conn_exec (conn_new 5 64 False ep_new) ?ops = Inr s"
    by (simp add: conn_eval run_batch_nil bind_return b)
  have "length [1 :: byte] \<le> vec_max" by (simp add: vec_max_def)
  from late_send_leaves_descriptor[OF this, of "\<lambda>_. WriteErr 11" 64 80 5] s show ?thesis
    by (intro exI[of _ s] conjI s) (simp only: s sum.case write_result.case, simp)
qed

end
