(* ===== verification/EventLoop.thy ===== *)
theory EventLoop
  imports EPoller
begin

text \<open>
  net/EventLoop.h, net/EventLoop.cc: the loop thread, the functors other threads hand to it and
  the eventfd that wakes it. Other threads run concurrently, so the component is a step relation:
  one step per access to shared state (the push under the mutex and the write to the eventfd are
  separate steps of the calling thread), the loop thread advancing through poll, the handlers of
  the active channels and the pending functors.

  \<open>'f\<close> is the type of functors. What a functor or a channel's handler does to the loop is a
  list of calls (\<open>body\<close>, \<open>handler\<close>); calls nested by \<^verbatim>\<open>runInLoop\<close> in the loop thread run at once.
\<close>

section \<open>State\<close>

datatype 'f loop_call = RunInLoop 'f | QueueInLoop 'f | QuitLoop

datatype source = WakeupChannel | UserChannel nat

datatype 'f phase =
    NotLooping
  | Polling
  | Handling "source list"
  | Functors "'f list"

text \<open>
  \<open>agenda\<close> holds the calls the running callback has still to make, \<open>writers\<close> counts threads
  between their change and their write to the eventfd. For the properties, \<open>queued\<close> and \<open>done_fs\<close>
  record every functor that was queued and those the loop has taken up, and \<open>early\<close> counts the
  pending functors that the loop's own thread queued while it was not in \<^verbatim>\<open>loop()\<close>.
\<close>

record 'f eventloop =
  looping :: bool
  quit_flag :: bool
  callingPendingFunctors :: bool
  pendingFunctors :: "'f list"
  wakeupFd :: nat
  phase :: "'f phase"
  agenda :: "'f loop_call list"
  writers :: nat
  queued :: "'f list"
  done_fs :: "'f list"
  early :: nat

definition el_new :: "'f eventloop" where
  "el_new = \<lparr>looping = False, quit_flag = False, callingPendingFunctors = False,
     pendingFunctors = [], wakeupFd = 0, phase = NotLooping, agenda = [], writers = 0,
     queued = [], done_fs = [], early = 0\<rparr>"

section \<open>Operations\<close>

definition el_wakeup :: "'f eventloop \<Rightarrow> 'f eventloop" where
  "el_wakeup s = s\<lparr>wakeupFd := wakeupFd s + 1\<rparr>"

text \<open>Reading an eventfd whose counter is zero fails, and the code aborts.\<close>

definition el_handleRead :: "'f eventloop \<Rightarrow> 'f eventloop res" where
  "el_handleRead s = (if wakeupFd s = 0 then Inl FatalAbort else Inr (s\<lparr>wakeupFd := 0\<rparr>))"

text \<open>The critical section of \<^verbatim>\<open>queueInLoop\<close>.\<close>

definition el_push :: "'f \<Rightarrow> 'f eventloop \<Rightarrow> 'f eventloop" where
  "el_push f s = s\<lparr>pendingFunctors := pendingFunctors s @ [f], queued := queued s @ [f]\<rparr>"

text \<open>In the loop's own thread.\<close>

definition queueInLoop_here :: "'f \<Rightarrow> 'f eventloop \<Rightarrow> 'f eventloop" where
  "queueInLoop_here f s =
     (let s' = (el_push f s)\<lparr>early := (if phase s = NotLooping then early s + 1 else early s)\<rparr>
      in if callingPendingFunctors s' then el_wakeup s' else s')"

text \<open>One call of a callback in the loop thread.\<close>

fun loop_thread_call :: "('f \<Rightarrow> 'f loop_call list) \<Rightarrow> 'f loop_call \<Rightarrow> 'f eventloop \<Rightarrow> 'f eventloop" where
  "loop_thread_call body (RunInLoop f) s = s\<lparr>agenda := body f @ agenda s\<rparr>"
| "loop_thread_call body (QueueInLoop f) s = queueInLoop_here f s"
| "loop_thread_call body QuitLoop s = s\<lparr>quit_flag := True\<rparr>"

text \<open>The start of \<^verbatim>\<open>loop()\<close>, and the test of its \<^verbatim>\<open>while\<close>.\<close>

definition el_start :: "'f eventloop \<Rightarrow> 'f eventloop res" where
  "el_start s = bindR (assertR (\<not> looping s)) (\<lambda>_.
     Inr (s\<lparr>looping := True, quit_flag := False, phase := Polling\<rparr>))"

definition el_again :: "'f eventloop \<Rightarrow> 'f eventloop" where
  "el_again s = (if quit_flag s then s\<lparr>looping := False, phase := NotLooping\<rparr>
                 else s\<lparr>phase := Polling\<rparr>)"

text \<open>The first half of \<^verbatim>\<open>doPendingFunctors\<close>: flag, lock, swap.\<close>

definition el_swap :: "'f eventloop \<Rightarrow> 'f eventloop" where
  "el_swap s = s\<lparr>callingPendingFunctors := True, phase := Functors (pendingFunctors s),
     pendingFunctors := [], early := 0\<rparr>"

section \<open>Steps\<close>

text \<open>
  Before and after \<^verbatim>\<open>loop()\<close> the thread of the loop may call it too (\<open>own_call\<close>).
  The kernel reports the eventfd while its counter is positive; only when the array it fills is
  full of others does it wait for the next poll.
\<close>

inductive el_step ::
  "('f \<Rightarrow> 'f loop_call list) \<Rightarrow> (nat \<Rightarrow> 'f loop_call list) \<Rightarrow> 'f eventloop \<Rightarrow> 'f eventloop \<Rightarrow> bool"
  for body :: "'f \<Rightarrow> 'f loop_call list" and handler :: "nat \<Rightarrow> 'f loop_call list" where
  other_queue: "el_step body handler s ((el_push f s)\<lparr>writers := writers s + 1\<rparr>)"
| other_quit: "el_step body handler s (s\<lparr>quit_flag := True, writers := writers s + 1\<rparr>)"
| other_write: "writers s > 0 \<Longrightarrow> el_step body handler s ((el_wakeup s)\<lparr>writers := writers s - 1\<rparr>)"
| own_call: "phase s = NotLooping \<Longrightarrow> agenda s = [] \<Longrightarrow> el_step body handler s (s\<lparr>agenda := [c]\<rparr>)"
| start: "phase s = NotLooping \<Longrightarrow> agenda s = [] \<Longrightarrow> el_start s = Inr s' \<Longrightarrow> el_step body handler s s'"
| poll: "phase s = Polling \<Longrightarrow> (WakeupChannel \<in> set active \<longrightarrow> wakeupFd s > 0) \<Longrightarrow>
    (wakeupFd s > 0 \<longrightarrow> WakeupChannel \<in> set active \<or> kInitEventListSize \<le> length active) \<Longrightarrow> distinct active \<Longrightarrow>
    el_step body handler s (s\<lparr>phase := Handling active\<rparr>)"
| call: "agenda s = c # cs \<Longrightarrow> el_step body handler s (loop_thread_call body c (s\<lparr>agenda := cs\<rparr>))"
| wake: "phase s = Handling (WakeupChannel # as) \<Longrightarrow> agenda s = [] \<Longrightarrow> el_handleRead s = Inr s' \<Longrightarrow>
    el_step body handler s (s'\<lparr>phase := Handling as\<rparr>)"
| handle: "phase s = Handling (UserChannel n # as) \<Longrightarrow> agenda s = [] \<Longrightarrow>
    el_step body handler s (s\<lparr>phase := Handling as, agenda := handler n\<rparr>)"
| swap: "phase s = Handling [] \<Longrightarrow> agenda s = [] \<Longrightarrow> el_step body handler s (el_swap s)"
| run_functor: "phase s = Functors (f # fs) \<Longrightarrow> agenda s = [] \<Longrightarrow>
    el_step body handler s (s\<lparr>phase := Functors fs, agenda := body f, done_fs := done_fs s @ [f]\<rparr>)"
| again: "phase s = Functors [] \<Longrightarrow> agenda s = [] \<Longrightarrow>
    el_step body handler s (el_again (s\<lparr>callingPendingFunctors := False\<rparr>))"

inductive_cases el_stepE: "el_step body handler s s'"

section \<open>Invariant\<close>

text \<open>The functors taken by the swap and not yet run.\<close>

definition batch :: "'f eventloop \<Rightarrow> 'f list" where
  "batch s = (case phase s of Functors fs \<Rightarrow> fs | _ \<Rightarrow> [])"

definition el_inv :: "'f eventloop \<Rightarrow> bool" where
  "el_inv s \<longleftrightarrow>
     queued s = done_fs s @ batch s @ pendingFunctors s \<and>
     (looping s \<longleftrightarrow> phase s \<noteq> NotLooping) \<and>
     (phase s = Polling \<longrightarrow> agenda s = []) \<and> early s \<le> length (pendingFunctors s) \<and>
     (callingPendingFunctors s \<longleftrightarrow> (\<exists>fs. phase s = Functors fs)) \<and>
     (phase s = Polling \<or> phase s = NotLooping \<or> callingPendingFunctors s \<longrightarrow> early s < length (pendingFunctors s) \<longrightarrow>
        wakeupFd s > 0 \<or> writers s > 0) \<and>
     (phase s = Polling \<longrightarrow> quit_flag s \<longrightarrow> wakeupFd s > 0 \<or> writers s > 0) \<and>
     (\<forall>as. phase s = Handling as \<longrightarrow> distinct as \<and> (WakeupChannel \<in> set as \<longrightarrow> wakeupFd s > 0))"

lemma el_new_inv: "el_inv el_new"
  by (simp add: el_inv_def el_new_def batch_def)

lemmas el_ops = el_push_def el_wakeup_def queueInLoop_here_def Let_def el_swap_def el_again_def
  el_handleRead_def el_start_def batch_def

lemma call_inv:
  assumes "el_inv s" "agenda s = c # cs"
  shows "el_inv (loop_thread_call body c (s\<lparr>agenda := cs\<rparr>))"
  using assms by (cases c) (auto simp: el_inv_def el_ops split: phase.splits)

lemma el_step_inv:
  assumes "el_inv s" "el_step body handler s s'"
  shows "el_inv s'"
  using assms(2)
proof cases
  case (call c cs)
  with call_inv[OF assms(1)] show ?thesis by simp
qed (use assms(1) in \<open>auto simp: el_inv_def el_ops split: phase.splits if_splits\<close>)

interpretation event_loop: machine "\<lambda>s. s = el_new" "el_step body handler" el_inv
  for body handler
  by unfold_locales (auto simp: el_new_inv intro: el_step_inv)

section \<open>Progress of the loop thread\<close>

text \<open>The calls of a callback come to an end, nested \<^verbatim>\<open>runInLoop\<close> calls included.\<close>

inductive finishes :: "('f \<Rightarrow> 'f loop_call list) \<Rightarrow> 'f loop_call list \<Rightarrow> bool"
  for body :: "'f \<Rightarrow> 'f loop_call list" where
  finishes_nil: "finishes body []"
| finishes_run: "finishes body (body f @ cs) \<Longrightarrow> finishes body (RunInLoop f # cs)"
| finishes_queue: "finishes body cs \<Longrightarrow> finishes body (QueueInLoop f # cs)"
| finishes_quit: "finishes body cs \<Longrightarrow> finishes body (QuitLoop # cs)"

text \<open>How far the loop thread got: only more functors pending, nothing else undone.\<close>

definition advanced :: "'f eventloop \<Rightarrow> 'f eventloop \<Rightarrow> bool" where
  "advanced s s' \<longleftrightarrow> agenda s' = [] \<and> done_fs s' = done_fs s \<and>
     callingPendingFunctors s' = callingPendingFunctors s \<and>
     (\<exists>ext. pendingFunctors s' = pendingFunctors s @ ext)"

lemma drain_agenda:
  "finishes body cs \<Longrightarrow> agenda s = cs \<Longrightarrow>
   \<exists>s'. (el_step body handler)\<^sup>*\<^sup>* s s' \<and> advanced s s' \<and> phase s' = phase s \<and>
     wakeupFd s \<le> wakeupFd s'"
proof (induction arbitrary: s rule: finishes.induct)
  case finishes_nil
  then show ?case by (intro exI[of _ s]) (simp add: advanced_def)
next
  case (finishes_run f cs)
  let ?s = "loop_thread_call body (RunInLoop f) (s\<lparr>agenda := cs\<rparr>)"
  have "el_step body handler s ?s" using finishes_run.prems by (rule el_step.call)
  with finishes_run.IH[of ?s] show ?case
    by (auto simp: advanced_def intro: converse_rtranclp_into_rtranclp)
next
  case (finishes_queue cs f)
  let ?s = "loop_thread_call body (QueueInLoop f) (s\<lparr>agenda := cs\<rparr>)"
  have step: "el_step body handler s ?s" using finishes_queue.prems by (rule el_step.call)
  have f: "agenda ?s = cs" "phase ?s = phase s" "done_fs ?s = done_fs s"
    "callingPendingFunctors ?s = callingPendingFunctors s" "wakeupFd s \<le> wakeupFd ?s"
    "pendingFunctors ?s = pendingFunctors s @ [f]"
    by (simp_all add: el_ops)
  obtain s' where s': "(el_step body handler)\<^sup>*\<^sup>* ?s s'" "advanced ?s s'" "phase s' = phase ?s"
    "wakeupFd ?s \<le> wakeupFd s'" using finishes_queue.IH[OF f(1)] by blast
  have "advanced s s'" using s'(2) f unfolding advanced_def by (metis append.assoc)
  moreover have "wakeupFd s \<le> wakeupFd s'" "phase s' = phase s" using f(2,5) s'(3,4) by simp_all
  ultimately show ?case using converse_rtranclp_into_rtranclp[OF step s'(1)] by blast
next
  case (finishes_quit cs)
  let ?s = "loop_thread_call body QuitLoop (s\<lparr>agenda := cs\<rparr>)"
  have "el_step body handler s ?s" using finishes_quit.prems by (rule el_step.call)
  with finishes_quit.IH[of ?s] show ?case
    by (auto simp: advanced_def intro: converse_rtranclp_into_rtranclp)
qed

lemma advanced_trans: "advanced s s1 \<Longrightarrow> advanced s1 s2 \<Longrightarrow> advanced s s2"
  unfolding advanced_def by (metis append.assoc)

lemma run_handlers:
  assumes "\<And>n. finishes body (handler n)"
  shows "phase s = Handling as \<Longrightarrow> agenda s = [] \<Longrightarrow> distinct as \<Longrightarrow>
    (WakeupChannel \<in> set as \<longrightarrow> wakeupFd s > 0) \<Longrightarrow>
    \<exists>s'. (el_step body handler)\<^sup>*\<^sup>* s s' \<and> advanced s s' \<and> phase s' = Handling []"
proof (induction as arbitrary: s)
  case Nil
  then show ?case by (intro exI[of _ s]) (simp add: advanced_def)
next
  case (Cons a as)
  have "\<exists>s1. (el_step body handler)\<^sup>*\<^sup>* s s1 \<and> advanced s s1 \<and> phase s1 = Handling as \<and>
    (WakeupChannel \<in> set as \<longrightarrow> wakeupFd s1 > 0)"
  proof (cases a)
    case WakeupChannel
    let ?s = "s\<lparr>wakeupFd := 0, phase := Handling as\<rparr>"
    have "el_handleRead s = Inr (s\<lparr>wakeupFd := 0\<rparr>)"
      using Cons.prems WakeupChannel by (simp add: el_handleRead_def)
    from el_step.wake[OF Cons.prems(1)[unfolded WakeupChannel] Cons.prems(2) this]
    have "el_step body handler s ?s" by simp
    moreover have "advanced s ?s" using Cons.prems by (simp add: advanced_def)
    ultimately show ?thesis using Cons.prems(3) WakeupChannel by (intro exI[of _ ?s]) auto
  next
    case (UserChannel n)
    let ?s = "s\<lparr>phase := Handling as, agenda := handler n\<rparr>"
    have step: "el_step body handler s ?s"
      using Cons.prems UserChannel by (intro el_step.handle) auto
    obtain s1 where s1: "(el_step body handler)\<^sup>*\<^sup>* ?s s1" "advanced ?s s1" "phase s1 = phase ?s"
      "wakeupFd ?s \<le> wakeupFd s1" using drain_agenda[OF assms, of ?s] by auto
    moreover have "advanced s s1" using s1(2) by (simp add: advanced_def)
    ultimately show ?thesis using converse_rtranclp_into_rtranclp[OF step s1(1)] Cons.prems(4)
      by (intro exI[of _ s1]) auto
  qed
  then obtain s1 where s1: "(el_step body handler)\<^sup>*\<^sup>* s s1" "advanced s s1"
    "phase s1 = Handling as" "WakeupChannel \<in> set as \<longrightarrow> wakeupFd s1 > 0" by blast
  with Cons.IH[of s1] Cons.prems(3) obtain s2 where "(el_step body handler)\<^sup>*\<^sup>* s1 s2"
    "advanced s1 s2" "phase s2 = Handling []" by (auto simp: advanced_def)
  with s1 show ?case using advanced_trans rtranclp_trans by metis
qed

lemma run_functors:
  assumes "\<And>f. finishes body (body f)"
  shows "phase s = Functors fs \<Longrightarrow> agenda s = [] \<Longrightarrow>
    \<exists>s'. (el_step body handler)\<^sup>*\<^sup>* s s' \<and> phase s' = Functors [] \<and> agenda s' = [] \<and>
      done_fs s' = done_fs s @ fs"
proof (induction fs arbitrary: s)
  case Nil
  then show ?case by (intro exI[of _ s]) simp
next
  case (Cons f fs)
  let ?s = "s\<lparr>phase := Functors fs, agenda := body f, done_fs := done_fs s @ [f]\<rparr>"
  have step: "el_step body handler s ?s" using Cons.prems by (rule el_step.run_functor)
  obtain s1 where s1: "(el_step body handler)\<^sup>*\<^sup>* ?s s1" "advanced ?s s1" "phase s1 = phase ?s"
    using drain_agenda[OF assms, of ?s] by auto
  then have "phase s1 = Functors fs" "agenda s1 = []" "done_fs s1 = done_fs s @ [f]"
    by (simp_all add: advanced_def)
  with Cons.IH[of s1] obtain s2 where "(el_step body handler)\<^sup>*\<^sup>* s1 s2" "phase s2 = Functors []"
    "agenda s2 = []" "done_fs s2 = done_fs s @ f # fs" by auto
  with converse_rtranclp_into_rtranclp[OF step s1(1)] show ?case
    by (intro exI[of _ s2]) auto
qed

section \<open>Properties\<close>

text \<open>
  C9: No wakeup of another thread is lost. However the threads interleave, when the loop is about
  to block in poll and there is a request to quit, or a pending functor besides those (\<open>early\<close>
  many) that the loop's own thread queued before it entered \<^verbatim>\<open>loop()\<close>: the eventfd is already
  readable or the thread responsible is on its way to write to it; and once no thread is, poll
  reports the wakeup channel, or at least as many other channels as the event array has room for
  when it is made, so that the loop does not sleep through its timeout. The exception is real:
  theorem \<open>early_functor_waits\<close>.
\<close>

theorem no_lost_wakeup:
  assumes "reach (\<lambda>s. s = el_new) (el_step body handler) s" "phase s = Polling"
    "early s < length (pendingFunctors s) \<or> quit_flag s"
  shows "(wakeupFd s > 0 \<or> writers s > 0) \<and>
    (\<forall>active s'. writers s = 0 \<and> el_step body handler s s' \<and> phase s' = Handling active \<longrightarrow>
       WakeupChannel \<in> set active \<or> kInitEventListSize \<le> length active)"
proof -
  have inv: "el_inv s" using event_loop.reach_inv[OF assms(1)] .
  then have w: "wakeupFd s > 0 \<or> writers s > 0" using assms(2,3) by (auto simp: el_inv_def)
  have "WakeupChannel \<in> set active \<or> kInitEventListSize \<le> length active"
    if "writers s = 0" "el_step body handler s s'" "phase s' = Handling active" for active s'
    using that(2)
  proof cases
    case (call c cs)
    then show ?thesis using inv assms(2) by (simp add: el_inv_def)
  qed (use that assms(2) w in \<open>auto simp: el_ops split: if_splits\<close>)
  with w show ?thesis by blast
qed

text \<open>
  \<^verbatim>\<open>queueInLoop\<close> wakes the loop up only from another thread or from a pending functor. What the loop's own
  thread queues before \<^verbatim>\<open>loop()\<close> is not run when the loop starts: it blocks in poll with the functor
  pending, the eventfd at zero and no thread on its way.
\<close>

theorem early_functor_waits:
  fixes f :: 'f
  shows "\<exists>s. (el_step body handler)\<^sup>*\<^sup>* el_new s \<and> phase s = Polling \<and> pendingFunctors s = [f] \<and>
    wakeupFd s = 0 \<and> writers s = 0 \<and> el_step body handler s (s\<lparr>phase := Handling []\<rparr>)"
proof -
  let ?s1 = "(el_new :: 'f eventloop)\<lparr>agenda := [QueueInLoop f]\<rparr>"
  let ?s2 = "(el_new :: 'f eventloop)\<lparr>pendingFunctors := [f], queued := [f], early := 1\<rparr>"
  let ?s3 = "?s2\<lparr>looping := True, phase := Polling\<rparr>"
  have 1: "el_step body handler el_new ?s1" by (rule el_step.own_call) (simp_all add: el_new_def)
  have "el_step body handler ?s1 (loop_thread_call body (QueueInLoop f) (?s1\<lparr>agenda := []\<rparr>))"
    by (rule el_step.call) simp
  then have 2: "el_step body handler ?s1 ?s2" by (simp add: el_ops el_new_def)
  have 3: "el_step body handler ?s2 ?s3" by (rule el_step.start) (simp_all add: el_start_def el_new_def)
  have "el_step body handler ?s3 (?s3\<lparr>phase := Handling []\<rparr>)" by (rule el_step.poll) (simp_all add: el_new_def)
  with 1 2 3 show ?thesis
    by (intro exI[of _ ?s3]) (auto simp: el_new_def intro: converse_rtranclp_into_rtranclp)
qed

text \<open>A run that ends before poll with a functor pushed by another thread.\<close>

lemma pushed_while_polling:
  fixes f :: 'f
  shows "reach (\<lambda>s. s = el_new) (el_step body handler)
     (el_new\<lparr>looping := True, phase := Polling, pendingFunctors := [f], queued := [f],
        writers := 0, wakeupFd := 1\<rparr>)"
proof -
  let ?r = "reach (\<lambda>s. s = el_new) (el_step body handler)"
  let ?s1 = "(el_new :: 'f eventloop)\<lparr>looping := True, phase := Polling\<rparr>"
  have "el_start el_new = Inr ?s1" by (simp add: el_start_def el_new_def)
  then have "el_step body handler el_new ?s1" by (intro el_step.start) (simp_all add: el_new_def)
  moreover have "?r el_new" by (rule reach_init) simp
  ultimately have 1: "?r ?s1" by (rule reach_step [rotated])
  let ?s2 = "(el_push f ?s1)\<lparr>writers := writers ?s1 + 1\<rparr>"
  have 2: "?r ?s2" using 1 el_step.other_queue by (rule reach_step)
  have "?r ((el_wakeup ?s2)\<lparr>writers := writers ?s2 - 1\<rparr>)"
    using 2 by (rule reach_step) (rule el_step.other_write, simp)
  then show ?thesis by (simp add: el_ops el_new_def)
qed

theorem no_lost_wakeup_witness:
  "\<exists>s. reach (\<lambda>s. s = el_new) (el_step (\<lambda>f :: nat. []) (\<lambda>_. [])) s \<and>
     pendingFunctors s = [7] \<and> (wakeupFd s > 0 \<or> writers s > 0)"
proof -
  let ?s = "el_new\<lparr>looping := True, phase := Polling, pendingFunctors := [7 :: nat], queued := [7],
        writers := 0, wakeupFd := 1\<rparr>"
  note r = pushed_while_polling[of "\<lambda>_. []" "\<lambda>_. []" "7 :: nat"]
  from no_lost_wakeup[OF r] have "wakeupFd ?s > 0 \<or> writers ?s > 0" by simp
  with r show ?thesis by (intro exI[of _ ?s]) simp
qed

text \<open>
  Functors run in the order in which they were queued, each exactly once: at every moment
  those taken up, those of the current round and those pending make up, in this order, all that
  were ever queued. The functors a functor queues wait for the next round.
\<close>

theorem functors_fifo:
  assumes "reach (\<lambda>s. s = el_new) (el_step body handler) s"
  shows "queued s = done_fs s @ batch s @ pendingFunctors s \<and>
    (\<forall>f fs s'. phase s = Functors (f # fs) \<and> agenda s = [] \<and> el_step body handler s s' \<and>
       done_fs s' \<noteq> done_fs s \<longrightarrow> done_fs s' = done_fs s @ [f] \<and> batch s' = fs)"
proof (intro conjI allI impI)
  have inv: "el_inv s" using event_loop.reach_inv[OF assms] .
  then show "queued s = done_fs s @ batch s @ pendingFunctors s" by (simp add: el_inv_def)
  fix f fs s'
  assume a: "phase s = Functors (f # fs) \<and> agenda s = [] \<and> el_step body handler s s' \<and>
       done_fs s' \<noteq> done_fs s"
  then have "el_step body handler s s'" by blast
  then have "done_fs s' = done_fs s @ [f] \<and> batch s' = fs"
    by cases (use a in \<open>auto simp: el_ops split: if_splits\<close>)
  then show "done_fs s' = done_fs s @ [f]" "batch s' = fs" by simp_all
qed

theorem functors_fifo_witness:
  "\<exists>s. reach (\<lambda>s. s = el_new) (el_step (\<lambda>f :: nat. []) (\<lambda>_. [])) s \<and>
     queued s = [7] \<and> queued s = done_fs s @ batch s @ pendingFunctors s"
proof -
  let ?s = "el_new\<lparr>looping := True, phase := Polling, pendingFunctors := [7 :: nat], queued := [7],
        writers := 0, wakeupFd := 1\<rparr>"
  note r = pushed_while_polling[of "\<lambda>_. []" "\<lambda>_. []" "7 :: nat"]
  from functors_fifo[OF r] r show ?thesis by (intro exI[of _ ?s]) simp
qed

text \<open>
  The loop gets to its functors: from any reachable state in which it is in poll, and if
  the callbacks return, the loop thread can by its own steps, beginning with the return of poll,
  run every functor that was pending, whatever the callbacks queue meanwhile.
\<close>

theorem pending_functors_run:
  assumes "reach (\<lambda>s. s = el_new) (el_step body handler) s" "phase s = Polling"
    "\<And>f. finishes body (body f)" "\<And>n. finishes body (handler n)"
  shows "\<exists>s' rest. (el_step body handler)\<^sup>*\<^sup>* s s' \<and> agenda s' = [] \<and>
    done_fs s' = done_fs s @ pendingFunctors s @ rest"
proof -
  have inv: "el_inv s" using event_loop.reach_inv[OF assms(1)] .
  let ?active = "if wakeupFd s > 0 then [WakeupChannel] else []"
  let ?s1 = "s\<lparr>phase := Handling ?active\<rparr>"
  have 1: "el_step body handler s ?s1" using assms(2) by (intro el_step.poll) auto
  have "distinct ?active" by simp
  moreover have "agenda ?s1 = []" using inv assms(2) by (simp add: el_inv_def)
  ultimately obtain s2 where
    2: "(el_step body handler)\<^sup>*\<^sup>* ?s1 s2" "advanced ?s1 s2" "phase s2 = Handling []"
    using run_handlers[where body = body and handler = handler and s = ?s1 and as = ?active,
      OF assms(4)] by auto
  have 3: "el_step body handler s2 (el_swap s2)"
    using 2 by (intro el_step.swap) (simp_all add: advanced_def)
  obtain ext where ext: "pendingFunctors s2 = pendingFunctors s @ ext" "done_fs s2 = done_fs s"
    using 2(2) by (auto simp: advanced_def)
  have "phase (el_swap s2) = Functors (pendingFunctors s2)" "agenda (el_swap s2) = []"
    using 2(2) by (simp_all add: el_swap_def advanced_def)
  from run_functors[OF assms(3) this] obtain s4 where
    4: "(el_step body handler)\<^sup>*\<^sup>* (el_swap s2) s4" "agenda s4 = []"
      "done_fs s4 = done_fs (el_swap s2) @ pendingFunctors s2" by blast
  have "(el_step body handler)\<^sup>*\<^sup>* s s4"
    using 1 2(1) 3 4(1) by (meson converse_rtranclp_into_rtranclp rtranclp_trans)
  with 4(2,3) ext show ?thesis by (auto simp: el_swap_def)
qed

theorem pending_functors_run_witness:
  "\<exists>s s' rest. pendingFunctors s = [7 :: nat] \<and>
     (el_step (\<lambda>f. if f = 7 then [QueueInLoop 8] else []) (\<lambda>_. []))\<^sup>*\<^sup>* s s' \<and>
     done_fs s' = [7] @ rest"
proof -
  let ?body = "\<lambda>f :: nat. if f = 7 then [QueueInLoop 8] else []"
  let ?s = "el_new\<lparr>looping := True, phase := Polling, pendingFunctors := [7 :: nat], queued := [7],
        writers := 0, wakeupFd := 1\<rparr>"
  have "\<And>f. finishes ?body (?body f)" by (auto intro: finishes.intros)
  moreover have "\<And>n :: nat. finishes ?body []" by (rule finishes_nil)
  ultimately obtain s' rest where "(el_step ?body (\<lambda>_. []))\<^sup>*\<^sup>* ?s s'"
    "done_fs s' = done_fs ?s @ pendingFunctors ?s @ rest"
    using pending_functors_run[OF pushed_while_polling[of ?body "\<lambda>_. []" 7]] by auto
  then show ?thesis by (intro exI[of _ ?s] exI[of _ s'] exI[of _ rest]) (simp add: el_new_def)
qed

text \<open>
  The loop thread never aborts on its eventfd and never fails its assert: in every reachable
  state in which the wakeup channel is handled the counter is positive, so that the read returns
  eight bytes, and loop() can be entered whenever it is not running.
\<close>

theorem event_loop_no_abort:
  assumes "reach (\<lambda>s. s = el_new) (el_step body handler) s"
  shows "(\<forall>as. phase s = Handling (WakeupChannel # as) \<longrightarrow>
      el_handleRead s = Inr (s\<lparr>wakeupFd := 0\<rparr>)) \<and>
    (phase s = NotLooping \<longrightarrow>
      el_start s = Inr (s\<lparr>looping := True, quit_flag := False, phase := Polling\<rparr>))"
proof (intro conjI allI impI)
  have inv: "el_inv s" using event_loop.reach_inv[OF assms] .
  {
    fix as assume "phase s = Handling (WakeupChannel # as)"
    with inv have "wakeupFd s > 0" unfolding el_inv_def by auto
    then show "el_handleRead s = Inr (s\<lparr>wakeupFd := 0\<rparr>)" by (simp add: el_handleRead_def)
  }
  assume "phase s = NotLooping"
  with inv have "\<not> looping s" unfolding el_inv_def by blast
  then show "el_start s = Inr (s\<lparr>looping := True, quit_flag := False, phase := Polling\<rparr>)"
    by (simp add: el_start_def)
qed

theorem event_loop_no_abort_witness:
  "\<exists>s as. reach (\<lambda>s. s = el_new) (el_step (\<lambda>f :: nat. []) (\<lambda>_. [])) s \<and>
     phase s = Handling (WakeupChannel # as) \<and> el_handleRead s = Inr (s\<lparr>wakeupFd := 0\<rparr>)"
proof -
  let ?s = "el_new\<lparr>looping := True, phase := Polling, pendingFunctors := [7 :: nat], queued := [7],
        writers := 0, wakeupFd := 1\<rparr>"
  let ?t = "?s\<lparr>phase := Handling [WakeupChannel]\<rparr>"
  have "el_step (\<lambda>f :: nat. []) (\<lambda>_. []) ?s ?t" by (rule el_step.poll) simp_all
  with pushed_while_polling[of "\<lambda>_. []" "\<lambda>_. []" "7 :: nat"]
  have r: "reach (\<lambda>s. s = el_new) (el_step (\<lambda>f :: nat. []) (\<lambda>_. [])) ?t" by (rule reach_step)
  from event_loop_no_abort[OF r] r show ?thesis by (intro exI[of _ ?t] exI[of _ "[]"]) simp
qed

text \<open>
  A quit that comes before loop() is forgotten: loop() clears the flag when it starts, and
  goes on to poll.
\<close>

theorem quit_before_loop_is_lost:
  fixes body :: "'f \<Rightarrow> 'f loop_call list"
  shows "\<exists>s1 s2. el_step body handler el_new s1 \<and> quit_flag s1 \<and>
     el_step body handler s1 s2 \<and> phase s2 = Polling \<and> \<not> quit_flag s2"
proof -
  let ?s1 = "(el_new :: 'f eventloop)\<lparr>quit_flag := True, writers := writers (el_new :: 'f eventloop) + 1\<rparr>"
  let ?s2 = "?s1\<lparr>looping := True, quit_flag := False, phase := Polling\<rparr>"
  have "el_step body handler el_new ?s1" by (rule el_step.other_quit)
  moreover have "el_step body handler ?s1 ?s2"
    by (rule el_step.start) (simp_all add: el_new_def el_start_def)
  ultimately show ?thesis by (intro exI[of _ ?s1] exI[of _ ?s2]) simp
qed

end
