(* ===== verification/Timer.thy ===== *)
theory Timer
  imports LogStream
begin

text \<open>
  base/Timestamp.h, base/Timestamp.cc, net/Timer.h, net/Timer.cc: points in time and the
  timer objects. A \<^verbatim>\<open>Timestamp\<close> is its number of microseconds since the epoch; the sums of
  the code stay far below \<open>2 ^ 63\<close>.
\<close>

section \<open>Timestamp\<close>

type_synonym timestamp = int

definition kMicroSecondsPerSecond :: int where
  "kMicroSecondsPerSecond = 1000 * 1000"

definition ts_valid :: "timestamp \<Rightarrow> bool" where
  "ts_valid t \<longleftrightarrow> 0 < t"

text \<open>\<open>tv_sec\<close> and \<open>tv_usec\<close> are what \<^verbatim>\<open>gettimeofday\<close> returned.\<close>

definition ts_now :: "int \<Rightarrow> int \<Rightarrow> timestamp" where
  "ts_now tv_sec tv_usec = tv_sec * kMicroSecondsPerSecond + tv_usec"

text \<open>\<open>delta\<close> is \<^verbatim>\<open>static_cast<int64_t>(seconds * kMicroSecondsPerSecond)\<close>.\<close>

definition addTime :: "timestamp \<Rightarrow> int \<Rightarrow> timestamp" where
  "addTime t delta = t + delta"

text \<open>
  The formats \<open>%0wd\<close> and \<open>%wd\<close> pad to \<open>w\<close> characters, with zeros after a sign and with blanks.
  \<^verbatim>\<open>toString\<close> has \<open>%ld.%06ld\<close>; \<^verbatim>\<open>snprintf\<close> with size 31 keeps 30 characters.
\<close>

definition pad0 :: "nat \<Rightarrow> int \<Rightarrow> string" where
  "pad0 w v = (let s = convert \<bar>v\<bar>; sgn_text = (if v < 0 then ''-'' else []) in
     sgn_text @ replicate (w - length sgn_text - length s) (CHR ''0'') @ s)"

definition pad_blank :: "nat \<Rightarrow> int \<Rightarrow> string" where
  "pad_blank w v = (let s = convert v in replicate (w - length s) (CHR '' '') @ s)"

definition ts_toString :: "timestamp \<Rightarrow> string" where
  "ts_toString t =
     (let seconds = t sdiv kMicroSecondsPerSecond; microseconds = t smod kMicroSecondsPerSecond
      in take 30 (convert seconds @ ''.'' @ pad0 6 microseconds))"

text \<open>
  The calendar is that of \<^verbatim>\<open>localtime\<close>: the broken-down time of a number of seconds.
\<close>

record tm =
  tm_year :: int
  tm_mon :: int
  tm_mday :: int
  tm_hour :: int
  tm_min :: int
  tm_sec :: int

definition ts_toFormattedString :: "(int \<Rightarrow> tm) \<Rightarrow> timestamp \<Rightarrow> string" where
  "ts_toFormattedString localtime t =
     (let seconds = t sdiv kMicroSecondsPerSecond; microseconds = t smod kMicroSecondsPerSecond;
          tm_time = localtime seconds
      in snprintf 64 (pad_blank 4 (tm_year tm_time + 1900) @ pad0 2 (tm_mon tm_time + 1) @ pad0 2 (tm_mday tm_time) @
           '' '' @ pad0 2 (tm_hour tm_time) @ '':'' @ pad0 2 (tm_min tm_time) @ '':'' @ pad0 2 (tm_sec tm_time) @
           ''.'' @ pad0 6 microseconds))"

section \<open>Timer\<close>

text \<open>
  The \<^verbatim>\<open>double interval\<close> of a timer, as far as the code observes it: it is not positive, or it
  is positive and is converted to \<open>n\<close> microseconds by \<open>addTime\<close>.
\<close>

datatype interval = NoRepeat | RepeatEvery nat

record timer =
  expiration :: timestamp
  interval_of :: interval
  repeat :: bool
  sequence :: int

text \<open>The constructor takes its sequence number from the counter \<^verbatim>\<open>s_numCreated_\<close>.\<close>

definition timer_new :: "timestamp \<Rightarrow> interval \<Rightarrow> int \<Rightarrow> timer \<times> int" where
  "timer_new when ival numCreated =
     (\<lparr>expiration = when, interval_of = ival, repeat = (ival \<noteq> NoRepeat),
       sequence = numCreated + 1\<rparr>, numCreated + 1)"

definition restart :: "timestamp \<Rightarrow> timer \<Rightarrow> timer" where
  "restart now t =
     (if repeat t
      then t\<lparr>expiration := addTime now
               (case interval_of t of NoRepeat \<Rightarrow> 0 | RepeatEvery n \<Rightarrow> int n)\<rparr>
      else t\<lparr>expiration := 0\<rparr>)"

section \<open>howMuchTimeFromNow\<close>

text \<open>The \<^verbatim>\<open>timespec\<close> (seconds, nanoseconds) a timerfd is programmed with (net/TimerQueue.cc).\<close>

definition howMuchTimeFromNow :: "timestamp \<Rightarrow> timestamp \<Rightarrow> int \<times> int" where
  "howMuchTimeFromNow when now =
     (let microseconds = when - now;
          microseconds = (if microseconds < 100 then 100 else microseconds)
      in (microseconds sdiv kMicroSecondsPerSecond,
          (microseconds smod kMicroSecondsPerSecond) * 1000))"

lemma sdiv_smod_pos:
  assumes "0 \<le> (a :: int)" "0 < b"
  shows "a sdiv b = a div b" "a smod b = a mod b"
  using assms
  by (simp_all add: signed_divide_int_def signed_modulo_int_def sgn_if minus_div_mult_eq_mod)

lemma howMuchTimeFromNow_value:
  "\<exists>sec nsec. howMuchTimeFromNow when now = (sec, nsec) \<and> 0 \<le> sec \<and> 0 \<le> nsec \<and>
     nsec < 1000000000 \<and> (sec, nsec) \<noteq> (0, 0) \<and>
     sec * 1000000000 + nsec = 1000 * max 100 (when - now)"
proof -
  define u where "u = max 100 (when - now)"
  have u: "100 \<le> u" and h: "howMuchTimeFromNow when now = (u div 1000000, u mod 1000000 * 1000)"
    using sdiv_smod_pos[of u 1000000]
    by (auto simp: howMuchTimeFromNow_def Let_def u_def kMicroSecondsPerSecond_def max_def)
  have "u div 1000000 * 1000000 + u mod 1000000 = u" by (simp add: mult.commute)
  then have "u div 1000000 * 1000000000 + u mod 1000000 * 1000 = 1000 * u" by linarith
  moreover have "0 \<le> u mod 1000000 * 1000" "u mod 1000000 * 1000 < 1000000000"
    "0 \<le> u div 1000000"
    using u by (simp_all add: pos_imp_zdiv_nonneg_iff)
  moreover have "(u div 1000000, u mod 1000000 * 1000) \<noteq> (0, 0)"
    using calculation(1) u by auto
  ultimately show ?thesis using h unfolding u_def[symmetric] by blast
qed

section \<open>Properties\<close>

text \<open>
  The timerfd is always armed and never late by rounding: the programmed timespec is
  normalised and nonzero (a zero would disarm it), at least 100 microseconds, and otherwise
  exactly the time that remains.
\<close>

theorem howMuchTimeFromNow_arms:
  "\<exists>sec nsec. howMuchTimeFromNow when now = (sec, nsec) \<and> 0 \<le> sec \<and> 0 \<le> nsec \<and>
     nsec < 1000000000 \<and> (sec, nsec) \<noteq> (0, 0) \<and>
     sec * 1000000000 + nsec = 1000 * max 100 (when - now)"
  by (rule howMuchTimeFromNow_value)

text \<open>
  The text of a time that is not negative, read back as seconds and microseconds around
  the point, is the time itself; the microseconds always have six digits.
\<close>

definition parse_time :: "string \<Rightarrow> timestamp" where
  "parse_time s = parse_int (takeWhile (\<lambda>c. c \<noteq> CHR ''.'') s) * 1000000 +
     parse_int (tl (dropWhile (\<lambda>c. c \<noteq> CHR ''.'') s))"

lemma dec_val_zeros: "dec_val (replicate n (CHR ''0'') @ s) = dec_val s"
  by (induction n) (simp_all add: dec_val_def)

lemma convert_nonneg: "0 \<le> v \<Longrightarrow> convert v = rev (convert_loop v)"
  by (simp add: convert_def)

lemma no_minus_dec_digits: "set s \<subseteq> set dec_digits \<Longrightarrow> parse_int s = dec_val s"
  by (cases s) (auto simp: parse_int_def dec_digits_def dec_val_def)

lemma pad0_digits:
  assumes "0 \<le> v" "v < 10 ^ w" "0 < w"
  shows "length (pad0 w v) = w \<and> set (pad0 w v) \<subseteq> set dec_digits \<and> parse_int (pad0 w v) = v"
proof -
  obtain k where w: "w = Suc k" using assms(3) by (cases w) simp_all
  then have "\<bar>v\<bar> < 10 ^ Suc k" using assms by simp
  from length_convert_loop[OF this] have len: "length (convert \<bar>v\<bar>) \<le> w"
    using assms by (simp add: convert_def w)
  have "set (convert \<bar>v\<bar>) \<subseteq> set dec_digits"
    using set_convert_loop[of "\<bar>v\<bar>"] by (simp add: convert_nonneg)
  moreover have "CHR ''0'' \<in> set dec_digits" by (simp add: dec_digits_def)
  ultimately have set: "set (pad0 w v) \<subseteq> set dec_digits"
    using assms by (auto simp: pad0_def Let_def)
  have "dec_val (convert v) = v"
    using assms by (simp add: convert_nonneg dec_val_loop)
  with len set assms show ?thesis
    by (simp add: no_minus_dec_digits) (simp add: pad0_def dec_val_zeros Let_def)
qed

theorem ts_toString_round_trip:
  assumes "0 \<le> t" "t < 2 ^ 63"
  shows "parse_time (ts_toString t) = t \<and>
    length (tl (dropWhile (\<lambda>c. c \<noteq> CHR ''.'') (ts_toString t))) = 6"
proof -
  let ?s = "convert (t div 1000000)" and ?u = "pad0 6 (t mod 1000000)"
  have u: "length ?u = 6" "set ?u \<subseteq> set dec_digits" "parse_int ?u = t mod 1000000"
    using pad0_digits[of "t mod 1000000" 6] by simp_all
  have s: "length ?s \<le> 20"
    using assms by (intro length_convert) (simp_all add: div_less_iff_less_mult pos_imp_zdiv_nonneg_iff)
  have "set ?s \<subseteq> set dec_digits"
    using assms set_convert_loop[of "t div 1000000"]
    by (simp add: convert_nonneg pos_imp_zdiv_nonneg_iff)
  then have dot: "\<And>c. c \<in> set ?s \<Longrightarrow> c \<noteq> CHR ''.''"
    by (auto simp: dec_digits_def)
  have "ts_toString t = ?s @ CHR ''.'' # ?u"
    using sdiv_smod_pos[of t 1000000] assms s u(1)
    by (simp add: ts_toString_def kMicroSecondsPerSecond_def Let_def)
  with dot u parse_int_convert[of "t div 1000000"] show ?thesis
    by (simp add: parse_time_def takeWhile_append2 dropWhile_append2)
qed

theorem ts_toString_round_trip_witness:
  "ts_toString 1640000000000042 = ''1640000000.000042'' \<and>
   parse_time (ts_toString 1640000000000042) = 1640000000000042"
proof -
  have "ts_toString 1640000000000042 = ''1640000000.000042''" by code_simp
  with ts_toString_round_trip[of 1640000000000042] show ?thesis by simp
qed

definition tm_ok :: "tm \<Rightarrow> bool" where
  "tm_ok d \<longleftrightarrow> -900 \<le> tm_year d \<and> tm_year d < 8100 \<and> 0 \<le> tm_mon d \<and> tm_mon d < 12 \<and>
     1 \<le> tm_mday d \<and> tm_mday d \<le> 31 \<and> 0 \<le> tm_hour d \<and> tm_hour d < 24 \<and>
     0 \<le> tm_min d \<and> tm_min d < 60 \<and> 0 \<le> tm_sec d \<and> tm_sec d \<le> 60"

definition field :: "nat \<Rightarrow> nat \<Rightarrow> string \<Rightarrow> int" where
  "field i n s = parse_int (take n (drop i s))"

lemma field_here: "length x = n \<Longrightarrow> field 0 n (x @ r) = parse_int x"
  by (simp add: field_def)

lemma field_there: "length x \<le> i \<Longrightarrow> field i n (x @ r) = field (i - length x) n r"
  by (simp add: field_def)

lemma dec_val_less: "set s \<subseteq> set dec_digits \<Longrightarrow> dec_val s < 10 ^ length s"
proof (induction s rule: rev_induct)
  case (snoc c s)
  have "int (of_char c) - 48 \<le> 9" using snoc.prems by (auto simp: dec_digits_def)
  with snoc show ?case by (simp add: dec_val_def)
qed (simp add: dec_val_def)

lemma four_digits:
  assumes "1000 \<le> y" "y < 10000"
  shows "pad_blank 4 y = convert y" "length (convert y) = 4"
proof -
  have "\<bar>y\<bar> < 10 ^ Suc 3" using assms by simp
  from length_convert_loop[OF this] have le: "length (convert y) \<le> 4" using assms by (simp add: convert_def)
  have set: "set (convert y) \<subseteq> set dec_digits" using assms set_convert_loop[of y] by (simp add: convert_def)
  have "dec_val (convert y) = y" using no_minus_dec_digits[OF set] parse_int_convert[of y] by simp
  with dec_val_less[OF set] assms have "10 ^ 3 < (10 :: int) ^ length (convert y)" by simp
  then have "3 < length (convert y)" by (rule power_less_imp_less_exp[rotated]) simp
  with le show "length (convert y) = 4" by simp
  then show "pad_blank 4 y = convert y" by (simp add: pad_blank_def)
qed

lemma field_Cons: "0 < i \<Longrightarrow> field i n (c # r) = field (i - 1) n r"
  by (cases i) (simp_all add: field_def)

lemma field_all: "length x \<le> n \<Longrightarrow> field 0 n x = parse_int x"
  by (simp add: field_def)

text \<open>
  C37: The formatted time is never cut off and loses nothing: for a calendar whose years have four
  digits it has 24 characters, and each field, down to the microseconds, can be read back
  at its place.
\<close>

theorem toFormattedString_fields:
  assumes "0 \<le> t" "tm_ok (localtime (t div 1000000))"
  shows "let s = ts_toFormattedString localtime t; d = localtime (t div 1000000) in
    length s = 24 \<and> field 0 4 s = tm_year d + 1900 \<and> field 4 2 s = tm_mon d + 1 \<and> field 6 2 s = tm_mday d \<and>
    field 9 2 s = tm_hour d \<and> field 12 2 s = tm_min d \<and> field 15 2 s = tm_sec d \<and>
    field 18 6 s = t mod 1000000"
proof -
  let ?d = "localtime (t div 1000000)"
  note ok = assms(2) [unfolded tm_ok_def]
  note y = four_digits[of "tm_year ?d + 1900"] parse_int_convert[of "tm_year ?d + 1900"]
  have two: "length (pad0 2 v) = 2 \<and> parse_int (pad0 2 v) = v" if "0 \<le> v" "v < 100" for v
    using pad0_digits[of v 2] that by simp
  have u: "length (pad0 6 (t mod 1000000)) = 6" "parse_int (pad0 6 (t mod 1000000)) = t mod 1000000"
    using pad0_digits[of "t mod 1000000" 6] by simp_all
  have s: "ts_toFormattedString localtime t =
      convert (tm_year ?d + 1900) @ pad0 2 (tm_mon ?d + 1) @ pad0 2 (tm_mday ?d) @ '' '' @ pad0 2 (tm_hour ?d) @
      '':'' @ pad0 2 (tm_min ?d) @ '':'' @ pad0 2 (tm_sec ?d) @ ''.'' @ pad0 6 (t mod 1000000)"
    using sdiv_smod_pos[of t 1000000] assms(1) ok y two u(1)
    by (simp add: ts_toFormattedString_def kMicroSecondsPerSecond_def Let_def snprintf_def)
  have l: "length (convert (tm_year ?d + 1900)) = 4" using y ok by simp
  show ?thesis unfolding Let_def s using ok l y(3) two u
    by (simp add: field_here field_there field_Cons field_all)
qed

text \<open>A calendar that has only the epoch's year, as days of 24 hours.\<close>

theorem toFormattedString_fields_witness:
  "field 18 6 (ts_toFormattedString
     (\<lambda>s. \<lparr>tm_year = 70, tm_mon = 0, tm_mday = 1, tm_hour = s div 3600, tm_min = s div 60 mod 60, tm_sec = s mod 60\<rparr>)
     3661000042) = 42"
proof -
  let ?lt = "\<lambda>s. \<lparr>tm_year = 70, tm_mon = 0, tm_mday = 1, tm_hour = s div 3600, tm_min = s div 60 mod 60, tm_sec = s mod 60\<rparr>"
  have "tm_ok (?lt (3661000042 div 1000000))" by (simp add: tm_ok_def)
  with toFormattedString_fields[of 3661000042 ?lt] show ?thesis by (simp add: Let_def)
qed

end
