(* ===== verification/TimerQueue.thy ===== *)
theory TimerQueue
  imports Timer Contracts "HOL-Library.Product_Lexorder"
begin

text \<open>
  net/TimerQueue.h, net/TimerQueue.cc, net/TimerId.h: the timers of one event loop. The timers
  are heap objects reached through raw pointers, so the state has a heap (a map from addresses
  to timers) in which a deleted object is absent: reading it is the failure \<open>UseAfterFree\<close>.
  The sets ordered by time and by address are the code's two \<^verbatim>\<open>std::set\<close>s. The timerfd is its
  last setting: the moment of the \<^verbatim>\<open>timerfd_settime\<close> call and the timespec.
\<close>

section \<open>State\<close>

text \<open>
  What other threads post to the loop through \<^verbatim>\<open>runInLoop\<close>. \<open>adding\<close> has the timers with which another
  thread is in addTimer: it has posted the addition and has yet to read the sequence number.
\<close>

datatype tq_functor = FAdd nat | FCancel nat int

record tq =
  tq_heap :: "nat \<rightharpoonup> timer"
  numCreated :: int
  timers :: "(timestamp \<times> nat) list"
  activeTimers :: "(nat \<times> int) set"
  cancelingTimers :: "(nat \<times> int) set"
  callingExpiredTimers :: bool
  timerfd :: "(timestamp \<times> int \<times> int) option"
  tq_posted :: "tq_functor list"
  adding :: "nat list"

definition tq_new :: tq where
  "tq_new = \<lparr>tq_heap = Map.empty, numCreated = 0, timers = [], activeTimers = {},
     cancelingTimers = {}, callingExpiredTimers = False, timerfd = None, tq_posted = [], adding = []\<rparr>"

definition uintptr_max :: nat where
  "uintptr_max = 2 ^ 64 - 1"

definition tq_deref :: "tq \<Rightarrow> nat \<Rightarrow> timer res" where
  "tq_deref s a = (case tq_heap s a of None \<Rightarrow> Inl UseAfterFree | Some t \<Rightarrow> Inr t)"

text \<open>\<open>assert(timers_.size() == activeTimers_.size())\<close>.\<close>

definition tq_assert_sizes :: "tq \<Rightarrow> unit res" where
  "tq_assert_sizes s = assertR (length (timers s) = card (activeTimers s))"

section \<open>The timerfd\<close>

text \<open>
  \<^verbatim>\<open>timerfd_settime\<close> fails (and the code aborts) when the timespec is not normalised.
\<close>

definition resetTimerfd :: "timestamp \<Rightarrow> timestamp \<Rightarrow> tq \<Rightarrow> tq res" where
  "resetTimerfd now when s =
     (let (sec, nsec) = howMuchTimeFromNow when now
      in if 0 \<le> sec \<and> 0 \<le> nsec \<and> nsec < 1000000000
         then Inr (s\<lparr>timerfd := (if sec = 0 \<and> nsec = 0 then None else Some (now, sec, nsec))\<rparr>)
         else Inl FatalAbort)"

text \<open>The timerfd has expired: \<open>n\<close> is the result of the read.\<close>

definition readTimerfd :: "int \<Rightarrow> tq \<Rightarrow> tq res" where
  "readTimerfd n s = (if n = 8 then Inr (s\<lparr>timerfd := None\<rparr>) else Inl FatalAbort)"

section \<open>Operations in the loop thread\<close>

definition tq_insert :: "nat \<Rightarrow> tq \<Rightarrow> (bool \<times> tq) res" where
  "tq_insert a s =
     bindR (tq_assert_sizes s) (\<lambda>_.
     bindR (tq_deref s a) (\<lambda>t.
       let when = expiration t;
           earliestChanged = (case timers s of [] \<Rightarrow> True | it # _ \<Rightarrow> when < fst it)
       in bindR (assertR ((when, a) \<notin> set (timers s))) (\<lambda>_.
          bindR (assertR ((a, sequence t) \<notin> activeTimers s)) (\<lambda>_.
          let s' = s\<lparr>timers := insort (when, a) (timers s),
                     activeTimers := insert (a, sequence t) (activeTimers s)\<rparr>
          in bindR (tq_assert_sizes s') (\<lambda>_. Inr (earliestChanged, s'))))))"

definition addTimerInLoop :: "timestamp \<Rightarrow> nat \<Rightarrow> tq \<Rightarrow> tq res" where
  "addTimerInLoop now a s =
     bindR (tq_insert a s) (\<lambda>(earliestChanged, s').
       if earliestChanged
       then bindR (tq_deref s' a) (\<lambda>t. resetTimerfd now (expiration t) s')
       else Inr s')"

definition cancelInLoop :: "nat \<Rightarrow> int \<Rightarrow> tq \<Rightarrow> tq res" where
  "cancelInLoop a seq s =
     bindR (tq_assert_sizes s) (\<lambda>_.
     if (a, seq) \<in> activeTimers s
     then bindR (tq_deref s a) (\<lambda>t.
          bindR (assertR ((expiration t, a) \<in> set (timers s))) (\<lambda>_.
          let s' = s\<lparr>timers := removeAll (expiration t, a) (timers s),
                     tq_heap := (tq_heap s)(a := None),
                     activeTimers := activeTimers s - {(a, seq)}\<rparr>
          in bindR (tq_assert_sizes s') (\<lambda>_. Inr s')))
     else if callingExpiredTimers s
     then Inr (s\<lparr>cancelingTimers := insert (a, seq) (cancelingTimers s)\<rparr>)
     else Inr s)"

fun erase_active :: "(timestamp \<times> nat) list \<Rightarrow> tq \<Rightarrow> tq res" where
  "erase_active [] s = Inr s"
| "erase_active ((e, a) # rest) s =
     bindR (tq_deref s a) (\<lambda>t.
     bindR (assertR ((a, sequence t) \<in> activeTimers s)) (\<lambda>_.
     erase_active rest (s\<lparr>activeTimers := activeTimers s - {(a, sequence t)}\<rparr>)))"

definition getExpired :: "timestamp \<Rightarrow> tq \<Rightarrow> ((timestamp \<times> nat) list \<times> tq) res" where
  "getExpired now s =
     bindR (tq_assert_sizes s) (\<lambda>_.
     let sentry = (now, uintptr_max);
         expired = takeWhile (\<lambda>x. x < sentry) (timers s);
         rest = dropWhile (\<lambda>x. x < sentry) (timers s)
     in bindR (assertR (case rest of [] \<Rightarrow> True | it # _ \<Rightarrow> now < fst it)) (\<lambda>_.
        bindR (erase_active expired (s\<lparr>timers := rest\<rparr>)) (\<lambda>s'.
        bindR (tq_assert_sizes s') (\<lambda>_. Inr (expired, s')))))"

fun reset_loop :: "timestamp \<Rightarrow> (timestamp \<times> nat) list \<Rightarrow> tq \<Rightarrow> tq res" where
  "reset_loop now [] s = Inr s"
| "reset_loop now ((e, a) # rest) s =
     bindR (tq_deref s a) (\<lambda>t.
       if repeat t \<and> (a, sequence t) \<notin> cancelingTimers s
       then bindR (tq_insert a (s\<lparr>tq_heap := (tq_heap s)(a \<mapsto> restart now t)\<rparr>))
              (\<lambda>(_, s'). reset_loop now rest s')
       else reset_loop now rest (s\<lparr>tq_heap := (tq_heap s)(a := None)\<rparr>))"

text \<open>\<open>now'\<close> is the clock when the timerfd is set, \<open>now\<close> when the handler began.\<close>

definition tq_reset :: "timestamp \<Rightarrow> timestamp \<Rightarrow> (timestamp \<times> nat) list \<Rightarrow> tq \<Rightarrow> tq res" where
  "tq_reset now now' expired s =
     bindR (reset_loop now expired s) (\<lambda>s'.
     bindR (case timers s' of
              [] \<Rightarrow> Inr 0
            | (e, a) # _ \<Rightarrow> bindR (tq_deref s' a) (\<lambda>t. Inr (expiration t))) (\<lambda>nextExpire.
     if ts_valid nextExpire then resetTimerfd now' nextExpire s' else Inr s'))"

section \<open>Calls from any thread\<close>

text \<open>
  \<^verbatim>\<open>EventLoop::runInLoop\<close> runs the functor at once in the loop thread and queues it otherwise.
\<close>

definition tq_run_functor :: "timestamp \<Rightarrow> tq_functor \<Rightarrow> tq \<Rightarrow> tq res" where
  "tq_run_functor now f s =
     (case f of FAdd a \<Rightarrow> addTimerInLoop now a s | FCancel a seq \<Rightarrow> cancelInLoop a seq s)"

definition tq_runInLoop :: "bool \<Rightarrow> timestamp \<Rightarrow> tq_functor \<Rightarrow> tq \<Rightarrow> tq res" where
  "tq_runInLoop in_loop now f s =
     (if in_loop then tq_run_functor now f s else Inr (s\<lparr>tq_posted := tq_posted s @ [f]\<rparr>))"

text \<open>
  \<open>alloc\<close> is the allocator behind \<^verbatim>\<open>new\<close>: the address of the new object given the live ones,
  or \<open>None\<close> when it throws.
\<close>

definition addTimer_hand ::
  "((nat \<rightharpoonup> timer) \<Rightarrow> nat option) \<Rightarrow> bool \<Rightarrow> timestamp \<Rightarrow> timestamp \<Rightarrow> interval \<Rightarrow> tq \<Rightarrow>
   (nat \<times> tq) res" where
  "addTimer_hand alloc in_loop now when ival s =
     (case alloc (tq_heap s) of
        None \<Rightarrow> Inl BadAlloc
      | Some a \<Rightarrow>
          let (t, n) = timer_new when ival (numCreated s);
              s1 = s\<lparr>tq_heap := (tq_heap s)(a \<mapsto> t), numCreated := n\<rparr>
          in bindR (tq_runInLoop in_loop now (FAdd a) s1) (\<lambda>s2. Inr (a, s2)))"

text \<open>The last line of addTimer reads the sequence number of the timer it has given away.\<close>

definition addTimer_id :: "nat \<Rightarrow> tq \<Rightarrow> (nat \<times> int) res" where
  "addTimer_id a s = bindR (tq_deref s a) (\<lambda>t. Inr (a, sequence t))"

definition addTimer ::
  "((nat \<rightharpoonup> timer) \<Rightarrow> nat option) \<Rightarrow> bool \<Rightarrow> timestamp \<Rightarrow> timestamp \<Rightarrow> interval \<Rightarrow> tq \<Rightarrow>
   ((nat \<times> int) \<times> tq) res" where
  "addTimer alloc in_loop now when ival s =
     bindR (addTimer_hand alloc in_loop now when ival s) (\<lambda>(a, s2).
     bindR (addTimer_id a s2) (\<lambda>timer_id. Inr (timer_id, s2)))"

text \<open>The same in another thread, where the loop goes on between the two.\<close>

definition tq_post_add ::
  "((nat \<rightharpoonup> timer) \<Rightarrow> nat option) \<Rightarrow> timestamp \<Rightarrow> timestamp \<Rightarrow> interval \<Rightarrow> tq \<Rightarrow> tq res" where
  "tq_post_add alloc now when ival s =
     bindR (addTimer_hand alloc False now when ival s) (\<lambda>(a, s2). Inr (s2\<lparr>adding := adding s2 @ [a]\<rparr>))"

definition tq_return_add :: "nat \<Rightarrow> tq \<Rightarrow> tq res" where
  "tq_return_add a s =
     (if a \<in> set (adding s)
      then bindR (addTimer_id a s) (\<lambda>_. Inr (s\<lparr>adding := remove1 a (adding s)\<rparr>))
      else Inr s)"

definition tq_cancel :: "bool \<Rightarrow> timestamp \<Rightarrow> nat \<Rightarrow> int \<Rightarrow> tq \<Rightarrow> tq res" where
  "tq_cancel in_loop now a seq s = tq_runInLoop in_loop now (FCancel a seq) s"

text \<open>
  \<^verbatim>\<open>EventLoop::runAt\<close>, \<^verbatim>\<open>runAfter\<close>, \<^verbatim>\<open>runEvery\<close> and \<^verbatim>\<open>cancel\<close>; \<open>delta\<close> is the delay in microseconds.
\<close>

definition runAt ::
  "((nat \<rightharpoonup> timer) \<Rightarrow> nat option) \<Rightarrow> bool \<Rightarrow> timestamp \<Rightarrow> timestamp \<Rightarrow> tq \<Rightarrow> ((nat \<times> int) \<times> tq) res" where
  "runAt alloc in_loop now time s = addTimer alloc in_loop now time NoRepeat s"

definition runAfter ::
  "((nat \<rightharpoonup> timer) \<Rightarrow> nat option) \<Rightarrow> bool \<Rightarrow> timestamp \<Rightarrow> int \<Rightarrow> tq \<Rightarrow> ((nat \<times> int) \<times> tq) res" where
  "runAfter alloc in_loop now delta s = runAt alloc in_loop now (addTime now delta) s"

definition runEvery ::
  "((nat \<rightharpoonup> timer) \<Rightarrow> nat option) \<Rightarrow> bool \<Rightarrow> timestamp \<Rightarrow> nat \<Rightarrow> tq \<Rightarrow> ((nat \<times> int) \<times> tq) res" where
  "runEvery alloc in_loop now delta s =
     addTimer alloc in_loop now (addTime now (int delta)) (RepeatEvery delta) s"

definition loop_cancel :: "bool \<Rightarrow> timestamp \<Rightarrow> nat \<times> int \<Rightarrow> tq \<Rightarrow> tq res" where
  "loop_cancel in_loop now timer_id s = tq_cancel in_loop now (fst timer_id) (snd timer_id) s"

section \<open>The handler of the timerfd\<close>

text \<open>What a timer callback does to the queue, run in the loop thread.\<close>

datatype tq_call = CallAdd timestamp timestamp interval | CallCancel timestamp nat int

fun run_calls ::
  "((nat \<rightharpoonup> timer) \<Rightarrow> nat option) \<Rightarrow> tq_call list \<Rightarrow> tq \<Rightarrow> tq res" where
  "run_calls alloc [] s = Inr s"
| "run_calls alloc (CallAdd now when ival # rest) s =
     bindR (addTimer alloc True now when ival s) (\<lambda>(_, s'). run_calls alloc rest s')"
| "run_calls alloc (CallCancel now a seq # rest) s =
     bindR (tq_cancel True now a seq s) (run_calls alloc rest)"

text \<open>\<open>cb\<close> gives, for the timer with a sequence number, the calls its callback makes now.\<close>

fun run_expired ::
  "((nat \<rightharpoonup> timer) \<Rightarrow> nat option) \<Rightarrow> (int \<Rightarrow> tq_call list) \<Rightarrow> (timestamp \<times> nat) list \<Rightarrow>
   tq \<Rightarrow> tq res" where
  "run_expired alloc cb [] s = Inr s"
| "run_expired alloc cb ((e, a) # rest) s =
     bindR (tq_deref s a) (\<lambda>t.
     bindR (run_calls alloc (cb (sequence t)) s) (run_expired alloc cb rest))"

definition tq_handleRead ::
  "((nat \<rightharpoonup> timer) \<Rightarrow> nat option) \<Rightarrow> (int \<Rightarrow> tq_call list) \<Rightarrow> int \<Rightarrow> timestamp \<Rightarrow>
   timestamp \<Rightarrow> tq \<Rightarrow> tq res" where
  "tq_handleRead alloc cb n now now' s =
     bindR (readTimerfd n s) (\<lambda>s1.
     bindR (getExpired now s1) (\<lambda>(expired, s2).
     bindR (run_expired alloc cb expired
             (s2\<lparr>callingExpiredTimers := True, cancelingTimers := {}\<rparr>)) (\<lambda>s3.
     tq_reset now now' expired (s3\<lparr>callingExpiredTimers := False\<rparr>))))"

text \<open>The destructor deletes the timers of the list and leaves posted ones to nobody.\<close>

fun tq_destroy :: "(timestamp \<times> nat) list \<Rightarrow> tq \<Rightarrow> tq res" where
  "tq_destroy [] s = Inr s"
| "tq_destroy ((e, a) # rest) s =
     bindR (tq_deref s a) (\<lambda>_. tq_destroy rest (s\<lparr>tq_heap := (tq_heap s)(a := None)\<rparr>))"

section \<open>Invariant\<close>

fun posted_addrs :: "tq_functor list \<Rightarrow> nat list" where
  "posted_addrs [] = []"
| "posted_addrs (FAdd a # fs) = a # posted_addrs fs"
| "posted_addrs (FCancel a seq # fs) = posted_addrs fs"

definition entry_id :: "(nat \<rightharpoonup> timer) \<Rightarrow> timestamp \<times> nat \<Rightarrow> nat \<times> int" where
  "entry_id h x = (snd x, sequence (the (h (snd x))))"

text \<open>
  Who owns the live timers: the list, the posted additions, and \<open>ext\<close>, the addresses a
  running operation holds. No timer has two owners and none is without one.
\<close>

definition owners :: "nat list \<Rightarrow> tq \<Rightarrow> nat list" where
  "owners ext s = map snd (timers s) @ posted_addrs (tq_posted s) @ ext"

definition heap_ok :: "(nat \<rightharpoonup> timer) \<Rightarrow> int \<Rightarrow> bool" where
  "heap_ok h n \<longleftrightarrow>
     (\<forall>a t. h a = Some t \<longrightarrow> 0 < a \<and> a < uintptr_max \<and> sequence t \<le> n) \<and>
     (\<forall>a b t u. h a = Some t \<longrightarrow> h b = Some u \<longrightarrow> sequence t = sequence u \<longrightarrow> a = b)"

definition tq_struct :: "nat list \<Rightarrow> tq \<Rightarrow> bool" where
  "tq_struct ext s \<longleftrightarrow>
     sorted (timers s) \<and> distinct (owners ext s) \<and> dom (tq_heap s) = set (owners ext s) \<and>
     (\<forall>x \<in> set (timers s). expiration (the (tq_heap s (snd x))) = fst x) \<and>
     activeTimers s = entry_id (tq_heap s) ` set (timers s) \<and>
     heap_ok (tq_heap s) (numCreated s)"

text \<open>
  The timerfd fires no later than a timer is due (or 100 microseconds after it was set);
  \<open>P\<close> selects the timers this is claimed for.
\<close>

definition fires_by :: "tq \<Rightarrow> timestamp \<Rightarrow> bool" where
  "fires_by s e = (case timerfd s of
       None \<Rightarrow> False
     | Some (t, sec, nsec) \<Rightarrow> t * 1000 + sec * 1000000000 + nsec \<le> 1000 * max e (t + 100))"

definition down_closed :: "(timestamp \<Rightarrow> bool) \<Rightarrow> bool" where
  "down_closed P \<longleftrightarrow> (\<forall>e f. e \<le> f \<longrightarrow> P f \<longrightarrow> P e)"

definition tq_armed :: "(timestamp \<Rightarrow> bool) \<Rightarrow> tq \<Rightarrow> bool" where
  "tq_armed P s \<longleftrightarrow> (\<forall>x \<in> set (timers s). P (fst x) \<longrightarrow> fires_by s (fst x))"

definition tq_ok :: "tq \<Rightarrow> bool" where
  "tq_ok s \<longleftrightarrow> tq_struct [] s \<and> tq_armed (\<lambda>_. True) s \<and> \<not> callingExpiredTimers s"

text \<open>What never comes back: a sequence number that was used and whose timer is deleted.\<close>

definition dead_seq :: "int \<Rightarrow> tq \<Rightarrow> bool" where
  "dead_seq k s \<longleftrightarrow> k \<le> numCreated s \<and> (\<forall>a t. tq_heap s a = Some t \<longrightarrow> sequence t \<noteq> k)"

definition alloc_ok :: "((nat \<rightharpoonup> timer) \<Rightarrow> nat option) \<Rightarrow> bool" where
  "alloc_ok alloc \<longleftrightarrow>
     (\<forall>h a. alloc h = Some a \<longrightarrow> h a = None \<and> 0 < a \<and> a < uintptr_max)"

lemma posted_addrs_append [simp]: "posted_addrs (fs @ gs) = posted_addrs fs @ posted_addrs gs"
  by (induction fs rule: posted_addrs.induct) auto

lemma distinct_map_insort:
  "distinct (map f (insort x xs)) \<longleftrightarrow> f x \<notin> f ` set xs \<and> distinct (map f xs)"
  by (induction xs) (auto simp: set_insort_key)

lemma fires_by_mono: "fires_by s e \<Longrightarrow> e \<le> e' \<Longrightarrow> fires_by s e'"
  by (auto simp: fires_by_def max_def split: option.splits if_splits)

lemma entry_id_inj: "distinct (map snd xs) \<Longrightarrow> inj_on (entry_id h) (set xs)"
  by (auto simp: distinct_map inj_on_def entry_id_def)

lemma struct_sizes:
  assumes "tq_struct ext s"
  shows "card (activeTimers s) = length (timers s)"
proof -
  have "distinct (map snd (timers s))" using assms by (simp add: tq_struct_def owners_def)
  from card_image[OF entry_id_inj[OF this]] this show ?thesis
    using assms by (simp add: tq_struct_def distinct_card distinct_map)
qed

lemma struct_assert: "tq_struct ext s \<Longrightarrow> tq_assert_sizes s = Inr ()"
  by (simp add: tq_assert_sizes_def struct_sizes)

lemma struct_live:
  "tq_struct ext s \<Longrightarrow> a \<in> set (owners ext s) \<Longrightarrow> \<exists>t. tq_heap s a = Some t"
  by (auto simp: tq_struct_def)

lemma struct_deref:
  "tq_struct ext s \<Longrightarrow> a \<in> set (owners ext s) \<Longrightarrow> tq_deref s a = Inr (the (tq_heap s a))"
  using struct_live by (fastforce simp: tq_deref_def)

section \<open>The timerfd is set as asked\<close>

lemma resetTimerfd_ok:
  "\<exists>s'. resetTimerfd now when s = Inr s' \<and> fires_by s' when \<and> (\<exists>tfd. s' = s\<lparr>timerfd := tfd\<rparr>)"
  using howMuchTimeFromNow_value[of "when" now]
  by (auto simp: resetTimerfd_def fires_by_def algebra_simps max_def)

lemma struct_timerfd [simp]: "tq_struct ext (s\<lparr>timerfd := x\<rparr>) = tq_struct ext s"
  by (simp add: tq_struct_def owners_def)

lemma adding_flags [simp]:
  "tq_ok (s\<lparr>adding := x\<rparr>) = tq_ok s" "dead_seq k (s\<lparr>adding := x\<rparr>) = dead_seq k s"
  by (simp_all add: tq_ok_def tq_struct_def owners_def tq_armed_def fires_by_def dead_seq_def)

lemma struct_flags [simp]:
  "tq_struct ext (s\<lparr>callingExpiredTimers := c\<rparr>) = tq_struct ext s"
  "tq_struct ext (s\<lparr>cancelingTimers := m\<rparr>) = tq_struct ext s"
  by (simp_all add: tq_struct_def owners_def)

lemma armed_flags [simp]:
  "tq_armed P (s\<lparr>callingExpiredTimers := c\<rparr>) = tq_armed P s"
  "tq_armed P (s\<lparr>cancelingTimers := m\<rparr>) = tq_armed P s"
  by (simp_all add: tq_armed_def fires_by_def)

section \<open>Insertion and cancellation\<close>

lemma tq_insert_ok:
  assumes "tq_struct (a # ext) s"
  shows "\<exists>t s'. tq_heap s a = Some t \<and>
    tq_insert a s = Inr (timers s = [] \<or> expiration t < fst (hd (timers s)), s') \<and>
    s' = s\<lparr>timers := insort (expiration t, a) (timers s),
           activeTimers := insert (a, sequence t) (activeTimers s)\<rparr> \<and> tq_struct ext s'"
proof -
  obtain t where t: "tq_heap s a = Some t"
    using struct_live[OF assms, of a] by (auto simp: owners_def)
  let ?s = "s\<lparr>timers := insort (expiration t, a) (timers s),
           activeTimers := insert (a, sequence t) (activeTimers s)\<rparr>"
  have a: "a \<notin> snd ` set (timers s)" using assms by (auto simp: tq_struct_def owners_def)
  have "distinct (owners ext ?s)" "set (owners ext ?s) = set (owners (a # ext) s)"
    using assms by (auto simp: tq_struct_def owners_def distinct_map_insort set_insort_key)
  moreover have "activeTimers ?s = entry_id (tq_heap ?s) ` set (timers ?s)"
    using assms t by (auto simp: tq_struct_def set_insort_key entry_id_def)
  ultimately have s: "tq_struct ext ?s"
    using assms t by (auto simp: tq_struct_def sorted_insort set_insort_key)
  have "(expiration t, a) \<notin> set (timers s)" "(a, sequence t) \<notin> activeTimers s"
    using a assms by (force simp: tq_struct_def entry_id_def)+
  then have "tq_insert a s = Inr (timers s = [] \<or> expiration t < fst (hd (timers s)), ?s)"
    using assms t s by (auto simp: tq_insert_def Let_def struct_assert tq_deref_def
        split: list.splits)
  with t s show ?thesis by blast
qed

lemma sorted_hd_le: "sorted xs \<Longrightarrow> x \<in> set xs \<Longrightarrow> fst (hd xs) \<le> (fst x :: int)"
  for xs :: "(int \<times> nat) list"
  by (cases xs) (auto simp: less_eq_prod_def split: prod.splits)

lemma armed_by_hd:
  "sorted (timers s) \<Longrightarrow> timers s \<noteq> [] \<Longrightarrow> fires_by s (fst (hd (timers s))) \<Longrightarrow> tq_armed P s"
  unfolding tq_armed_def using sorted_hd_le fires_by_mono by blast

lemma addTimerInLoop_ok:
  assumes "tq_struct (a # ext) s" "tq_armed P s" "down_closed P"
  shows "\<exists>s'. addTimerInLoop now a s = Inr s' \<and> tq_struct ext s' \<and> tq_armed P s' \<and>
    tq_heap s' = tq_heap s \<and> numCreated s' = numCreated s \<and> tq_posted s' = tq_posted s \<and>
    callingExpiredTimers s' = callingExpiredTimers s \<and> cancelingTimers s' = cancelingTimers s"
proof -
  obtain t s1 where t: "tq_heap s a = Some t"
    and ins: "tq_insert a s = Inr (timers s = [] \<or> expiration t < fst (hd (timers s)), s1)"
    and s1: "s1 = s\<lparr>timers := insort (expiration t, a) (timers s),
           activeTimers := insert (a, sequence t) (activeTimers s)\<rparr>"
    and ok: "tq_struct ext s1"
    using tq_insert_ok[OF assms(1)] by blast
  have srt: "sorted (timers s)" using assms(1) by (simp add: tq_struct_def)
  show ?thesis
  proof (cases "timers s = [] \<or> expiration t < fst (hd (timers s))")
    case True
    obtain s2 tfd where s2: "resetTimerfd now (expiration t) s1 = Inr s2"
      "fires_by s2 (expiration t)" "s2 = s1\<lparr>timerfd := tfd\<rparr>"
      using resetTimerfd_ok by blast
    have "\<And>x. x \<in> set (timers s) \<Longrightarrow> expiration t \<le> fst x"
      using True sorted_hd_le[OF srt] by fastforce
    then have "tq_armed P s2"
      using s2 by (auto simp: tq_armed_def s1 set_insort_key intro: fires_by_mono)
    with True ins s2 ok t show ?thesis by (auto simp: addTimerInLoop_def tq_deref_def s1)
  next
    case False
    then have "hd (timers s) \<in> set (timers s)" "fst (hd (timers s)) \<le> expiration t" by auto
    then have "P (expiration t) \<Longrightarrow> fires_by s (expiration t)"
      using assms(2) assms(3) fires_by_mono unfolding tq_armed_def down_closed_def by blast
    moreover have "fires_by s1 = fires_by s" by (rule ext) (simp add: fires_by_def s1)
    ultimately have "tq_armed P s1"
      using assms(2) by (auto simp: tq_armed_def s1 set_insort_key)
    with False ins ok show ?thesis by (auto simp: addTimerInLoop_def s1)
  qed
qed

lemma armed_subset:
  "tq_armed P s \<Longrightarrow> timerfd s' = timerfd s \<Longrightarrow> set (timers s') \<subseteq> set (timers s) \<Longrightarrow> tq_armed P s'"
  by (auto simp: tq_armed_def fires_by_def)

lemma removeAll_as_remove1:
  "distinct xs \<Longrightarrow> removeAll x xs = remove1 x xs"
  by (induction xs) (auto simp: removeAll_id)

lemma map_snd_removeAll:
  "distinct (map snd xs) \<Longrightarrow> x \<in> set xs \<Longrightarrow>
   distinct (map snd (removeAll x xs)) \<and>
   snd ` set (removeAll x xs) = snd ` set xs - {snd x}"
  by (auto simp: distinct_map inj_on_def distinct_removeAll)

text \<open>An active id denotes the entry of its timer.\<close>

lemma active_entry:
  assumes "tq_struct ext s" "(a, seq) \<in> activeTimers s"
  shows "\<exists>t. tq_heap s a = Some t \<and> sequence t = seq \<and> (expiration t, a) \<in> set (timers s)"
proof -
  from assms obtain e where e: "(e, a) \<in> set (timers s)" "seq = sequence (the (tq_heap s a))"
    by (auto simp: tq_struct_def entry_id_def)
  then have "a \<in> set (owners ext s)" by (force simp: owners_def)
  with struct_live[OF assms(1)] obtain t where "tq_heap s a = Some t" by blast
  with e assms(1) show ?thesis by (force simp: tq_struct_def)
qed

definition cancelled :: "nat \<Rightarrow> timer \<Rightarrow> tq \<Rightarrow> tq" where
  "cancelled a t s = s\<lparr>timers := removeAll (expiration t, a) (timers s),
     tq_heap := (tq_heap s)(a := None), activeTimers := activeTimers s - {(a, sequence t)}\<rparr>"

lemma cancelled_struct:
  assumes "tq_struct ext s" "tq_heap s a = Some t" "(expiration t, a) \<in> set (timers s)"
  shows "tq_struct ext (cancelled a t s)"
proof -
  let ?s = "cancelled a t s" and ?x = "(expiration t, a)"
  have d: "distinct (map snd (timers s))" using assms by (simp add: tq_struct_def owners_def)
  note rm = map_snd_removeAll[OF d assms(3)]
  have ne: "\<And>x. x \<in> set (removeAll ?x (timers s)) \<Longrightarrow> snd x \<noteq> a" using rm by force
  have "distinct (owners ext ?s)" "set (owners ext ?s) = set (owners ext s) - {a}"
    using assms(1,3) rm by (auto simp: tq_struct_def owners_def cancelled_def)
  moreover have "activeTimers ?s = entry_id (tq_heap ?s) ` set (timers ?s)"
  proof -
    have "entry_id (tq_heap ?s) ` set (timers ?s) =
        entry_id (tq_heap s) ` set (removeAll ?x (timers s))"
      using ne by (intro image_cong) (auto simp: cancelled_def entry_id_def)
    also have "\<dots> = entry_id (tq_heap s) ` set (timers s) - {entry_id (tq_heap s) ?x}"
      using inj_on_image_set_diff[OF entry_id_inj[OF d], of "set (timers s)" "{?x}"] assms(3)
      by (simp add: set_removeAll)
    finally show ?thesis using assms by (simp add: tq_struct_def cancelled_def entry_id_def)
  qed
  moreover have "\<forall>x \<in> set (timers ?s). expiration (the (tq_heap ?s (snd x))) = fst x"
    using assms(1) ne by (auto simp: tq_struct_def cancelled_def)
  moreover have "sorted (timers ?s)"
    using assms(1) d
    by (simp add: tq_struct_def cancelled_def removeAll_as_remove1 distinct_map sorted_remove1)
  ultimately show ?thesis
    using assms by (auto simp: tq_struct_def heap_ok_def cancelled_def)
qed

lemma cancelInLoop_active:
  assumes "tq_struct ext s" "(a, seq) \<in> activeTimers s"
  shows "\<exists>t. tq_heap s a = Some t \<and> sequence t = seq \<and> (expiration t, a) \<in> set (timers s) \<and>
    cancelInLoop a seq s = Inr (cancelled a t s) \<and> tq_struct ext (cancelled a t s)"
proof -
  obtain t where t: "tq_heap s a = Some t" "sequence t = seq" "(expiration t, a) \<in> set (timers s)"
    using active_entry[OF assms] by blast
  note st = cancelled_struct[OF assms(1) t(1,3)]
  have "cancelInLoop a seq s = Inr (cancelled a t s)"
    using assms t struct_assert[OF st]
    by (simp add: cancelInLoop_def struct_assert tq_deref_def Let_def cancelled_def)
  with t st show ?thesis by blast
qed

text \<open>The frame of a call made in the loop thread.\<close>

definition tq_frame :: "nat list \<Rightarrow> tq \<Rightarrow> tq \<Rightarrow> bool" where
  "tq_frame ext s s' \<longleftrightarrow> tq_posted s' = tq_posted s \<and>
     callingExpiredTimers s' = callingExpiredTimers s \<and>
     cancelingTimers s \<subseteq> cancelingTimers s' \<and> numCreated s \<le> numCreated s' \<and>
     (\<forall>b \<in> set ext. tq_heap s' b = tq_heap s b) \<and> (\<forall>k. dead_seq k s \<longrightarrow> dead_seq k s')"

lemma frame_refl: "tq_frame ext s s"
  by (simp add: tq_frame_def)

lemma frame_trans: "tq_frame ext s s1 \<Longrightarrow> tq_frame ext s1 s2 \<Longrightarrow> tq_frame ext s s2"
  by (auto simp: tq_frame_def)

lemma cancelInLoop_ok:
  assumes "tq_struct ext s" "tq_armed P s"
  shows "\<exists>s'. cancelInLoop a seq s = Inr s' \<and> tq_struct ext s' \<and> tq_armed P s' \<and> tq_frame ext s s'"
proof (cases "(a, seq) \<in> activeTimers s")
  case True
  from cancelInLoop_active[OF assms(1) True] obtain t where
    t: "cancelInLoop a seq s = Inr (cancelled a t s)" "tq_struct ext (cancelled a t s)"
      "(expiration t, a) \<in> set (timers s)" by blast
  have "a \<in> snd ` set (timers s)" using t(3) by force
  then have "a \<notin> set ext" using assms(1) by (auto simp: tq_struct_def owners_def)
  then have "tq_frame ext s (cancelled a t s)"
    by (auto simp: tq_frame_def cancelled_def dead_seq_def)
  moreover have "tq_armed P (cancelled a t s)"
    using assms(2) by (rule armed_subset) (auto simp: cancelled_def)
  ultimately show ?thesis using t(1,2) by blast
next
  case False
  with assms show ?thesis
    by (auto simp: cancelInLoop_def struct_assert tq_frame_def dead_seq_def)
qed

text \<open>A new timer belongs to the call that made it.\<close>

lemma new_timer_struct:
  assumes "tq_struct ext s" "tq_heap s a = None" "0 < a" "a < uintptr_max"
    "timer_new when ival (numCreated s) = (t, n)"
  shows "tq_struct (a # ext) (s\<lparr>tq_heap := (tq_heap s)(a \<mapsto> t), numCreated := n\<rparr>)"
proof -
  have tn: "sequence t = numCreated s + 1" "n = numCreated s + 1"
    using assms(5) by (auto simp: timer_new_def)
  have a: "a \<notin> set (owners ext s)" using assms(1,2) by (auto simp: tq_struct_def)
  then have "\<And>x. x \<in> set (timers s) \<Longrightarrow> snd x \<noteq> a" by (auto simp: owners_def)
  then have id: "entry_id ((tq_heap s)(a \<mapsto> t)) ` set (timers s) = entry_id (tq_heap s) ` set (timers s)"
    "\<forall>x \<in> set (timers s). expiration (the (((tq_heap s)(a \<mapsto> t)) (snd x))) = fst x"
    using assms(1) by (auto simp: entry_id_def tq_struct_def)
  have "heap_ok ((tq_heap s)(a \<mapsto> t)) n"
    using assms(1,3,4) tn by (force simp: heap_ok_def tq_struct_def)
  with assms(1) a id show ?thesis
    by (auto simp: tq_struct_def owners_def)
qed

lemma posted_struct:
  "tq_struct (a # ext) s = tq_struct ext (s\<lparr>tq_posted := tq_posted s @ [FAdd a]\<rparr>)"
  by (auto simp: tq_struct_def owners_def)

lemmas addTimer_defs = addTimer_def addTimer_hand_def addTimer_id_def

lemma addTimer_ok:
  assumes "alloc_ok alloc" "tq_struct ext s" "tq_armed P s" "down_closed P"
  shows "addTimer alloc in_loop now when ival s = Inl BadAlloc \<or>
    (\<exists>a seq s'. addTimer alloc in_loop now when ival s = Inr ((a, seq), s') \<and> tq_struct ext s' \<and>
      tq_armed P s' \<and> (in_loop \<longrightarrow> tq_frame ext s s') \<and>
      callingExpiredTimers s' = callingExpiredTimers s \<and>
      seq = numCreated s + 1 \<and> (\<forall>k. dead_seq k s \<longrightarrow> dead_seq k s'))"
proof (cases "alloc (tq_heap s)")
  case None
  then show ?thesis by (simp add: addTimer_defs)
next
  case (Some a)
  obtain t n where tn: "timer_new when ival (numCreated s) = (t, n)" by fastforce
  let ?s = "s\<lparr>tq_heap := (tq_heap s)(a \<mapsto> t), numCreated := n\<rparr>"
  have fresh: "tq_heap s a = None" "0 < a" "a < uintptr_max"
    using assms(1) Some by (auto simp: alloc_ok_def)
  note st = new_timer_struct[OF assms(2) fresh tn]
  have seq: "sequence t = numCreated s + 1" "n = numCreated s + 1"
    using tn by (auto simp: timer_new_def)
  have dead: "\<forall>k. dead_seq k s \<longrightarrow> dead_seq k ?s" using seq by (auto simp: dead_seq_def)
  have ar: "tq_armed P ?s" using assms(3) by (rule armed_subset) auto
  show ?thesis
  proof (cases in_loop)
    case True
    from addTimerInLoop_ok[OF st ar assms(4)] obtain s' where
      s': "addTimerInLoop now a ?s = Inr s'" "tq_struct ext s'" "tq_armed P s'"
        "tq_heap s' = tq_heap ?s" "numCreated s' = n" "tq_posted s' = tq_posted s"
        "callingExpiredTimers s' = callingExpiredTimers s"
        "cancelingTimers s' = cancelingTimers s" by fastforce
    moreover have "a \<notin> set ext" using st by (simp add: tq_struct_def owners_def)
    ultimately have "tq_frame ext s s'" using dead seq by (auto simp: tq_frame_def dead_seq_def)
    moreover have "addTimer alloc in_loop now when ival s = Inr ((a, sequence t), s')"
      using Some tn s' True
      by (simp add: addTimer_defs tq_runInLoop_def tq_run_functor_def tq_deref_def)
    ultimately show ?thesis using s' seq by (auto simp: tq_frame_def)
  next
    case False
    let ?t = "?s\<lparr>tq_posted := tq_posted ?s @ [FAdd a]\<rparr>"
    have "tq_struct ext ?t" using st by (simp only: posted_struct)
    moreover have "tq_armed P ?t" using ar by (rule armed_subset) auto
    moreover have "\<forall>k. dead_seq k s \<longrightarrow> dead_seq k ?t" using dead by (simp add: dead_seq_def)
    moreover have "addTimer alloc in_loop now when ival s = Inr ((a, sequence t), ?t)"
      using Some tn False by (simp add: addTimer_defs tq_runInLoop_def tq_deref_def)
    ultimately show ?thesis using seq False by auto
  qed
qed

section \<open>The callbacks\<close>

text \<open>What a step of the handler guarantees: it fails only for memory, or keeps the state.\<close>

definition tq_good :: "nat list \<Rightarrow> (timestamp \<Rightarrow> bool) \<Rightarrow> tq \<Rightarrow> tq res \<Rightarrow> bool" where
  "tq_good ext P s r \<longleftrightarrow> r = Inl BadAlloc \<or>
     (\<exists>s'. r = Inr s' \<and> tq_struct ext s' \<and> tq_armed P s' \<and> tq_frame ext s s')"

lemma good_bind:
  assumes "tq_good ext P s r"
    "\<And>s'. tq_struct ext s' \<Longrightarrow> tq_armed P s' \<Longrightarrow> tq_good ext P s' (f s')"
  shows "tq_good ext P s (bindR r f)"
  using assms unfolding tq_good_def by (fastforce intro: frame_trans)

lemma run_calls_ok:
  assumes "alloc_ok alloc" "down_closed P"
  shows "tq_struct ext s \<Longrightarrow> tq_armed P s \<Longrightarrow> tq_good ext P s (run_calls alloc calls s)"
proof (induction calls arbitrary: s)
  case Nil
  then show ?case by (simp add: tq_good_def frame_refl)
next
  case (Cons c calls)
  show ?case
  proof (cases c)
    case (CallAdd now "when" ival)
    have "tq_good ext P s (bindR (addTimer alloc True now when ival s) (\<lambda>(_, s'). Inr s'))"
      using addTimer_ok[OF assms(1) Cons.prems assms(2), of True now "when" ival]
      by (auto simp: tq_good_def)
    from good_bind[OF this Cons.IH] show ?thesis
      by (simp add: CallAdd bindR_assoc case_prod_unfold)
  next
    case (CallCancel now a seq)
    have "tq_good ext P s (tq_cancel True now a seq s)"
      using cancelInLoop_ok[OF Cons.prems, of a seq]
      by (simp add: tq_good_def tq_cancel_def tq_runInLoop_def tq_run_functor_def)
    from good_bind[OF this Cons.IH] show ?thesis by (simp add: CallCancel)
  qed
qed

lemma run_expired_ok:
  assumes "alloc_ok alloc" "down_closed P"
  shows "tq_struct ext s \<Longrightarrow> tq_armed P s \<Longrightarrow> snd ` set xs \<subseteq> set ext \<Longrightarrow>
    tq_good ext P s (run_expired alloc cb xs s)"
proof (induction xs arbitrary: s)
  case Nil
  then show ?case by (simp add: tq_good_def frame_refl)
next
  case (Cons x xs)
  obtain e a where x: "x = (e, a)" by fastforce
  have "a \<in> set (owners ext s)" using Cons.prems x by (simp add: owners_def)
  from struct_deref[OF Cons.prems(1) this]
  show ?case
    using good_bind[OF run_calls_ok[OF assms Cons.prems(1,2)] Cons.IH] Cons.prems(3)
    by (simp add: x)
qed

section \<open>Taking out the expired timers\<close>

lemma erase_active_ok:
  assumes "distinct (map snd xs)" "\<forall>x \<in> set xs. tq_heap s (snd x) \<noteq> None"
    "entry_id (tq_heap s) ` set xs \<subseteq> activeTimers s"
  shows "erase_active xs s =
    Inr (s\<lparr>activeTimers := activeTimers s - entry_id (tq_heap s) ` set xs\<rparr>)"
  using assms
proof (induction xs arbitrary: s)
  case (Cons x xs)
  obtain e a where x: "x = (e, a)" by fastforce
  obtain t where t: "tq_heap s a = Some t" using Cons.prems(2) x by auto
  let ?s = "s\<lparr>activeTimers := activeTimers s - {(a, sequence t)}\<rparr>"
  have "(a, sequence t) \<in> activeTimers s" using Cons.prems(3) x t by (auto simp: entry_id_def)
  then have "erase_active (x # xs) s = erase_active xs ?s"
    using t by (simp add: x tq_deref_def)
  also have "\<dots> = Inr (?s\<lparr>activeTimers := activeTimers ?s - entry_id (tq_heap ?s) ` set xs\<rparr>)"
  proof (rule Cons.IH)
    have "\<And>y. y \<in> set xs \<Longrightarrow> snd y \<noteq> a" using Cons.prems(1) x by force
    then show "entry_id (tq_heap ?s) ` set xs \<subseteq> activeTimers ?s"
      using Cons.prems(3) by (auto simp: entry_id_def)
  qed (use Cons.prems in auto)
  also have "\<dots> = Inr (s\<lparr>activeTimers := activeTimers s - entry_id (tq_heap s) ` set (x # xs)\<rparr>)"
    using t by (simp add: x entry_id_def Diff_insert2 [symmetric] insert_commute)
  finally show ?case .
qed simp

lemma sentry_expired:
  assumes "tq_struct ext s" "x \<in> set (timers s)"
  shows "x < (now, uintptr_max) \<longleftrightarrow> fst x \<le> now"
proof -
  have "snd x \<in> set (owners ext s)" using assms(2) by (simp add: owners_def)
  from struct_live[OF assms(1) this] have "snd x < uintptr_max"
    using assms(1) by (auto simp: tq_struct_def heap_ok_def)
  then show ?thesis by (cases x) (auto simp: less_prod_def)
qed

lemma getExpired_ok:
  assumes "tq_struct [] s"
  shows "\<exists>s'. getExpired now s = Inr (filter (\<lambda>x. fst x \<le> now) (timers s), s') \<and>
    s' = s\<lparr>timers := filter (\<lambda>x. now < fst x) (timers s),
           activeTimers := entry_id (tq_heap s) ` set (filter (\<lambda>x. now < fst x) (timers s))\<rparr> \<and>
    tq_struct (map snd (filter (\<lambda>x. fst x \<le> now) (timers s))) s'"
proof -
  let ?ex = "filter (\<lambda>x. fst x \<le> now) (timers s)" and ?re = "filter (\<lambda>x. now < fst x) (timers s)"
  have srt: "sorted (timers s)" and d: "distinct (map snd (timers s))"
    using assms by (simp_all add: tq_struct_def owners_def)
  have ex: "takeWhile (\<lambda>x. x < (now, uintptr_max)) (timers s) = ?ex"
    unfolding takeWhile_sorted_filter[OF srt] using sentry_expired[OF assms]
    by (intro filter_cong) auto
  have re: "dropWhile (\<lambda>x. x < (now, uintptr_max)) (timers s) = ?re"
    unfolding dropWhile_sorted_filter[OF srt] using sentry_expired[OF assms]
    by (intro filter_cong) (auto simp: not_le)
  let ?t = "s\<lparr>timers := ?re\<rparr>"
  let ?s = "s\<lparr>timers := ?re, activeTimers := entry_id (tq_heap s) ` set ?re\<rparr>"
  have "erase_active ?ex ?t =
      Inr (?t\<lparr>activeTimers := activeTimers ?t - entry_id (tq_heap ?t) ` set ?ex\<rparr>)"
  proof (rule erase_active_ok)
    show "distinct (map snd ?ex)" using d by (rule distinct_map_filter)
    show "\<forall>x \<in> set ?ex. tq_heap ?t (snd x) \<noteq> None"
      using assms struct_live[OF assms] by (force simp: owners_def)
    have "entry_id (tq_heap s) ` set ?ex \<subseteq> entry_id (tq_heap s) ` set (timers s)"
      by (rule image_mono) auto
    then show "entry_id (tq_heap ?t) ` set ?ex \<subseteq> activeTimers ?t"
      using assms by (simp add: tq_struct_def)
  qed
  moreover have "entry_id (tq_heap s) ` set (timers s) - entry_id (tq_heap s) ` set ?ex =
      entry_id (tq_heap s) ` set ?re"
  proof -
    have "set ?re = set (timers s) - set ?ex" by auto
    then show ?thesis
      using inj_on_image_set_diff[OF entry_id_inj[OF d], of "set (timers s)" "set ?ex" "tq_heap s"]
      by (simp only:) auto
  qed
  ultimately have er: "erase_active ?ex ?t = Inr ?s" using assms by (simp add: tq_struct_def)
  have "set ?re \<union> set ?ex = set (timers s)" by auto
  then have part: "snd ` set ?re \<union> snd ` set ?ex = snd ` set (timers s)"
    by (simp only: image_Un [symmetric])
  have "distinct (map snd ?re @ posted_addrs (tq_posted s) @ map snd ?ex)"
  proof -
    have "set ?re \<inter> set ?ex = {}" by auto
    then have "snd ` set ?re \<inter> snd ` set ?ex = {}"
      using inj_on_image_Int[of snd "set (timers s)" "set ?re" "set ?ex"] d
      by (simp add: distinct_map)
    moreover have "snd ` set ?re \<subseteq> snd ` set (timers s)" "snd ` set ?ex \<subseteq> snd ` set (timers s)"
      by auto
    ultimately show ?thesis
      using assms distinct_map_filter[OF d] by (auto simp: tq_struct_def owners_def)
  qed
  moreover have "sorted ?re" using srt by (rule sorted_wrt_filter)
  moreover have "dom (tq_heap s) = snd ` set (timers s) \<union> set (posted_addrs (tq_posted s))"
    using assms by (simp add: tq_struct_def owners_def)
  then have "dom (tq_heap s) = snd ` set ?re \<union> (set (posted_addrs (tq_posted s)) \<union> snd ` set ?ex)"
    using part by blast
  moreover have "\<forall>x \<in> set ?re. expiration (the (tq_heap s (snd x))) = fst x"
    "heap_ok (tq_heap s) (numCreated s)"
    using assms by (auto simp: tq_struct_def)
  ultimately have st: "tq_struct (map snd ?ex) ?s"
    by (simp add: tq_struct_def owners_def)
  have first: "case ?re of [] \<Rightarrow> True | it # _ \<Rightarrow> now < fst it"
  proof (cases ?re)
    case (Cons y ys)
    have "y \<in> set (y # ys)" by simp
    then have "y \<in> set ?re" unfolding Cons .
    then have "now < fst y" by simp
    then show ?thesis unfolding Cons by simp
  qed simp
  have "getExpired now s = Inr (?ex, ?s)"
    using struct_assert[OF assms] struct_assert[OF st] er first
    by (simp add: getExpired_def ex re Let_def)
  with st show ?thesis by blast
qed

section \<open>Putting the expired timers back\<close>

definition again :: "tq \<Rightarrow> nat \<Rightarrow> bool" where
  "again s a \<longleftrightarrow> repeat (the (tq_heap s a)) \<and>
     (a, sequence (the (tq_heap s a))) \<notin> cancelingTimers s"

definition renewed :: "timestamp \<Rightarrow> tq \<Rightarrow> nat list \<Rightarrow> (nat \<rightharpoonup> timer)" where
  "renewed now s xs = (\<lambda>a. if a \<in> set xs
     then (if again s a then Some (restart now (the (tq_heap s a))) else None)
     else tq_heap s a)"

lemma restart_fields [simp]:
  "sequence (restart now t) = sequence t" "repeat (restart now t) = repeat t"
  "interval_of (restart now t) = interval_of t"
  by (simp_all add: restart_def)

lemma restart_positive: "repeat t \<Longrightarrow> 0 < now \<Longrightarrow> 0 < expiration (restart now t)"
  by (simp add: restart_def addTime_def split: interval.splits)

lemma heap_update_struct:
  assumes "tq_struct (a # ext) s"
  shows "tq_struct ext (s\<lparr>tq_heap := (tq_heap s)(a := None)\<rparr>)"
    "tq_struct (a # ext) (s\<lparr>tq_heap := (tq_heap s)(a \<mapsto> restart now (the (tq_heap s a)))\<rparr>)"
proof -
  obtain t where t: "tq_heap s a = Some t"
    using struct_live[OF assms, of a] by (auto simp: owners_def)
  have "a \<notin> snd ` set (timers s)" using assms by (simp add: tq_struct_def owners_def)
  then have ne: "\<And>x. x \<in> set (timers s) \<Longrightarrow> snd x \<noteq> a" by blast
  then have id: "entry_id ((tq_heap s)(a := v)) ` set (timers s) = entry_id (tq_heap s) ` set (timers s)"
    "(\<forall>x \<in> set (timers s). expiration (the (((tq_heap s)(a := v)) (snd x))) = fst x) =
     (\<forall>x \<in> set (timers s). expiration (the (tq_heap s (snd x))) = fst x)" for v
    by (auto simp: entry_id_def)
  show "tq_struct ext (s\<lparr>tq_heap := (tq_heap s)(a := None)\<rparr>)"
    using assms id[of None] by (auto simp: tq_struct_def owners_def heap_ok_def)
  have "heap_ok ((tq_heap s)(a \<mapsto> restart now t)) (numCreated s)"
    using assms t by (force simp: tq_struct_def heap_ok_def)
  then show "tq_struct (a # ext) (s\<lparr>tq_heap := (tq_heap s)(a \<mapsto> restart now (the (tq_heap s a)))\<rparr>)"
    using assms t id[of "Some (restart now t)"] by (auto simp: tq_struct_def owners_def)
qed

lemma reset_loop_ok:
  assumes "tq_struct (map snd xs) s" "tq_armed (\<lambda>e. e \<le> 0) s" "0 < now"
  shows "\<exists>s'. reset_loop now xs s = Inr s' \<and> tq_struct [] s' \<and> tq_armed (\<lambda>e. e \<le> 0) s' \<and>
    tq_frame [] s s' \<and> tq_heap s' = renewed now s (map snd xs) \<and>
    snd ` set (timers s') = snd ` set (timers s) \<union> {a \<in> snd ` set xs. again s a} \<and>
    cancelingTimers s' = cancelingTimers s"
  using assms
proof (induction xs arbitrary: s)
  case Nil
  then show ?case by (auto simp: frame_refl renewed_def)
next
  case (Cons x xs)
  obtain e a where x: "x = (e, a)" by fastforce
  have st: "tq_struct (a # map snd xs) s" using Cons.prems(1) x by simp
  obtain t where t: "tq_heap s a = Some t" "tq_deref s a = Inr t"
    using struct_live[OF st, of a] struct_deref[OF st, of a] by (auto simp: owners_def)
  have a: "a \<notin> set (map snd xs)" using st by (auto simp: tq_struct_def owners_def)
  let ?u = "\<lambda>v. s\<lparr>tq_heap := (tq_heap s)(a := v)\<rparr>"
  note st' = heap_update_struct[OF st]
  have ar: "tq_armed (\<lambda>e. e \<le> 0) (?u v)" for v
    using Cons.prems(2) by (rule armed_subset) auto
  show ?case
  proof (cases "again s a")
    case True
    let ?v = "Some (restart now t)"
    have st2: "tq_struct (a # map snd xs) (?u ?v)" using st'(2)[of now] t by simp
    obtain b s1 where s1: "tq_insert a (?u ?v) = Inr (b, s1)" "tq_struct (map snd xs) s1"
      "s1 = ?u ?v\<lparr>timers := insort (expiration (restart now t), a) (timers s),
         activeTimers := insert (a, sequence t) (activeTimers s)\<rparr>"
      using tq_insert_ok[OF st2] by auto
    have "0 < expiration (restart now t)"
      using True t Cons.prems(3) by (intro restart_positive) (simp_all add: again_def)
    then have "tq_armed (\<lambda>e. e \<le> 0) s1"
      using ar[of ?v] by (auto simp: tq_armed_def s1(3) set_insort_key fires_by_def)
    from Cons.IH[OF s1(2) this Cons.prems(3)] obtain s' where
      s': "reset_loop now xs s1 = Inr s'" "tq_struct [] s'" "tq_armed (\<lambda>e. e \<le> 0) s'"
        "tq_frame [] s1 s'" "tq_heap s' = renewed now s1 (map snd xs)"
        "snd ` set (timers s') = snd ` set (timers s1) \<union> {a \<in> snd ` set xs. again s1 a}"
        "cancelingTimers s' = cancelingTimers s1" by blast
    have "tq_frame [] s s1" using t by (auto simp: tq_frame_def s1(3) dead_seq_def)
    then have "tq_frame [] s s'" using s'(4) by (rule frame_trans)
    moreover have ag: "\<And>b. b \<in> set (map snd xs) \<Longrightarrow> again s1 b = again s b"
      using a by (auto simp: again_def s1(3))
    then have "tq_heap s' = renewed now s (map snd (x # xs))"
      using a t True by (auto simp: s'(5) renewed_def s1(3) x fun_eq_iff)
    moreover have "snd ` set (timers s') =
        snd ` set (timers s) \<union> {b \<in> snd ` set (x # xs). again s b}"
      using True ag by (auto simp: s'(6) s1(3) x set_insort_key)
    moreover have "reset_loop now (x # xs) s = Inr s'"
      using True t s1(1) s'(1) by (simp add: x again_def)
    ultimately show ?thesis using s' by (simp add: s1(3))
  next
    case False
    from Cons.IH[OF st'(1) ar Cons.prems(3)] obtain s' where
      s': "reset_loop now xs (?u None) = Inr s'" "tq_struct [] s'" "tq_armed (\<lambda>e. e \<le> 0) s'"
        "tq_frame [] (?u None) s'" "tq_heap s' = renewed now (?u None) (map snd xs)"
        "snd ` set (timers s') = snd ` set (timers s) \<union> {a \<in> snd ` set xs. again (?u None) a}"
        "cancelingTimers s' = cancelingTimers s" by auto
    have "tq_frame [] s (?u None)" by (auto simp: tq_frame_def dead_seq_def)
    then have "tq_frame [] s s'" using s'(4) by (rule frame_trans)
    moreover have ag: "\<And>b. b \<in> set (map snd xs) \<Longrightarrow> again (?u None) b = again s b"
      using a by (auto simp: again_def)
    then have "tq_heap s' = renewed now s (map snd (x # xs))"
      using a t False by (auto simp: s'(5) renewed_def x fun_eq_iff)
    moreover have "snd ` set (timers s') =
        snd ` set (timers s) \<union> {b \<in> snd ` set (x # xs). again s b}"
      using False ag by (auto simp: s'(6) x)
    moreover have "reset_loop now (x # xs) s = Inr s'"
      using False t s'(1) by (auto simp: x again_def)
    ultimately show ?thesis using s' by simp
  qed
qed

section \<open>The queue as an object\<close>

lemma tq_reset_ok:
  assumes "tq_struct (map snd xs) s" "tq_armed (\<lambda>e. e \<le> 0) s" "0 < now"
  shows "\<exists>s'. tq_reset now now' xs s = Inr s' \<and> tq_struct [] s' \<and> tq_armed (\<lambda>_. True) s' \<and>
    tq_frame [] s s' \<and> tq_heap s' = renewed now s (map snd xs) \<and>
    snd ` set (timers s') = snd ` set (timers s) \<union> {a \<in> snd ` set xs. again s a}"
proof -
  obtain s1 where s1: "reset_loop now xs s = Inr s1" "tq_struct [] s1"
    "tq_armed (\<lambda>e. e \<le> 0) s1" "tq_frame [] s s1" "tq_heap s1 = renewed now s (map snd xs)"
    "snd ` set (timers s1) = snd ` set (timers s) \<union> {a \<in> snd ` set xs. again s a}"
    using reset_loop_ok[OF assms] by blast
  have srt: "sorted (timers s1)" using s1(2) by (simp add: tq_struct_def)
  show ?thesis
  proof (cases "timers s1")
    case Nil
    with s1 show ?thesis by (auto simp: tq_reset_def ts_valid_def tq_armed_def)
  next
    case (Cons x rest)
    obtain e a where x: "x = (e, a)" by fastforce
    have "a \<in> set (owners [] s1)" by (simp add: owners_def Cons x)
    from struct_deref[OF s1(2) this] obtain t where
      t: "tq_deref s1 a = Inr t" "expiration t = e"
      using s1(2) by (auto simp: tq_struct_def Cons x)
    show ?thesis
    proof (cases "0 < e")
      case True
      obtain s2 tfd where s2: "resetTimerfd now' e s1 = Inr s2" "fires_by s2 e"
          "s2 = s1\<lparr>timerfd := tfd\<rparr>" using resetTimerfd_ok by blast
      have "tq_armed (\<lambda>_. True) s2"
        using srt s2(2) by (intro armed_by_hd) (simp_all add: s2(3) Cons x)
      moreover have "tq_frame [] s1 s2" by (simp add: tq_frame_def s2(3) dead_seq_def)
      then have "tq_frame [] s s2" using s1(4) frame_trans by blast
      moreover have "tq_reset now now' xs s = Inr s2"
        using True s1(1) t s2(1) by (simp add: tq_reset_def Cons x ts_valid_def)
      ultimately show ?thesis using s1 by (simp add: s2(3))
    next
      case False
      then have "fires_by s1 e" using s1(3) by (simp add: tq_armed_def Cons x)
      then have "tq_armed (\<lambda>_. True) s1"
        using srt by (intro armed_by_hd) (simp_all add: Cons x)
      moreover have "tq_reset now now' xs s = Inr s1"
        using False s1(1) t by (simp add: tq_reset_def Cons x ts_valid_def)
      ultimately show ?thesis using s1 by blast
    qed
  qed
qed

text \<open>
  The stages of the handler: \<open>ex\<close> the expired entries, \<open>s3\<close> the state the callbacks start in,
  \<open>s4\<close> the state they end in, \<open>s6\<close> the result.
\<close>

definition due :: "timestamp \<Rightarrow> tq \<Rightarrow> (timestamp \<times> nat) list" where
  "due now s = filter (\<lambda>x. fst x \<le> now) (timers s)"

definition without_due :: "timestamp \<Rightarrow> tq \<Rightarrow> tq" where
  "without_due now s = s\<lparr>timers := filter (\<lambda>x. now < fst x) (timers s),
     activeTimers := entry_id (tq_heap s) ` set (filter (\<lambda>x. now < fst x) (timers s)), timerfd := None,
     callingExpiredTimers := True, cancelingTimers := {}\<rparr>"

lemma without_due_fields [simp]:
  "timers (without_due now s) = filter (\<lambda>x. now < fst x) (timers s)" "tq_heap (without_due now s) = tq_heap s"
  "numCreated (without_due now s) = numCreated s" "callingExpiredTimers (without_due now s)"
  "cancelingTimers (without_due now s) = {}"
  by (simp_all add: without_due_def)

definition callbacks_start :: "timestamp \<Rightarrow> tq \<Rightarrow> tq \<Rightarrow> bool" where
  "callbacks_start now s s3 \<longleftrightarrow> s3 = without_due now s \<and>
     callingExpiredTimers s3 \<and> tq_heap s3 = tq_heap s \<and> numCreated s3 = numCreated s \<and>
     cancelingTimers s3 = {} \<and> timers s3 = filter (\<lambda>x. now < fst x) (timers s) \<and>
     tq_struct (map snd (due now s)) s3 \<and> tq_armed (\<lambda>e. e \<le> 0) s3"

definition handler_end :: "timestamp \<Rightarrow> tq \<Rightarrow> tq \<Rightarrow> tq \<Rightarrow> bool" where
  "handler_end now s s4 s6 \<longleftrightarrow>
     tq_ok s6 \<and> tq_frame [] (s4\<lparr>callingExpiredTimers := False\<rparr>) s6 \<and>
     tq_heap s6 = renewed now s4 (map snd (due now s)) \<and>
     snd ` set (timers s6) =
       snd ` set (timers s4) \<union> {a \<in> snd ` set (due now s). again s4 a}"

lemma tq_handleRead_stages:
  assumes "alloc_ok alloc" "tq_ok s" "0 < now"
  shows "(\<exists>s3. callbacks_start now s s3 \<and> run_expired alloc cb (due now s) s3 = Inl BadAlloc \<and>
      tq_handleRead alloc cb 8 now now' s = Inl BadAlloc) \<or>
    (\<exists>s3 s4 s6. callbacks_start now s s3 \<and> run_expired alloc cb (due now s) s3 = Inr s4 \<and>
      tq_struct (map snd (due now s)) s4 \<and> tq_frame (map snd (due now s)) s3 s4 \<and>
      tq_handleRead alloc cb 8 now now' s = Inr s6 \<and> handler_end now s s4 s6)"
proof -
  let ?s1 = "s\<lparr>timerfd := None\<rparr>" and ?P = "\<lambda>e :: timestamp. e \<le> 0"
  let ?ex = "due now s"
  have "tq_struct [] ?s1" using assms(2) by (simp add: tq_ok_def)
  from getExpired_ok[OF this, of now] obtain s2 where
    s2: "getExpired now ?s1 = Inr (?ex, s2)" "tq_struct (map snd ?ex) s2"
      "timers s2 = filter (\<lambda>x. now < fst x) (timers s)" "tq_heap s2 = tq_heap s"
      "numCreated s2 = numCreated s"
      "s2 = ?s1\<lparr>timers := filter (\<lambda>x. now < fst x) (timers s),
         activeTimers := entry_id (tq_heap s) ` set (filter (\<lambda>x. now < fst x) (timers s))\<rparr>"
    by (fastforce simp: due_def)
  let ?s3 = "s2\<lparr>callingExpiredTimers := True, cancelingTimers := {}\<rparr>"
  have s3: "tq_struct (map snd ?ex) ?s3" "tq_armed ?P ?s3"
    using s2(2,3) assms(3) by (auto simp: tq_armed_def)
  moreover have "?s3 = without_due now s" by (simp add: s2(6) without_due_def)
  ultimately have st: "callbacks_start now s ?s3" using s2(3-5) by (simp add: callbacks_start_def)
  have "down_closed ?P" by (simp add: down_closed_def)
  with s3 have "tq_good (map snd ?ex) ?P ?s3 (run_expired alloc cb ?ex ?s3)"
    by (intro run_expired_ok[OF assms(1)]) auto
  then consider "run_expired alloc cb ?ex ?s3 = Inl BadAlloc"
    | s4 where "run_expired alloc cb ?ex ?s3 = Inr s4" "tq_struct (map snd ?ex) s4"
        "tq_armed ?P s4" "tq_frame (map snd ?ex) ?s3 s4" unfolding tq_good_def by blast
  then show ?thesis
  proof cases
    case 1
    then show ?thesis using s2(1) st by (intro disjI1 exI[of _ ?s3]) (simp add: tq_handleRead_def readTimerfd_def)
  next
    case 2
    let ?s5 = "s4\<lparr>callingExpiredTimers := False\<rparr>"
    have "tq_struct (map snd ?ex) ?s5" "tq_armed ?P ?s5" using 2 by simp_all
    from tq_reset_ok[OF this assms(3), of now'] obtain s6 where
      s6: "tq_reset now now' ?ex ?s5 = Inr s6" "tq_struct [] s6" "tq_armed (\<lambda>_. True) s6"
        "tq_frame [] ?s5 s6" "tq_heap s6 = renewed now ?s5 (map snd ?ex)"
        "snd ` set (timers s6) = snd ` set (timers ?s5) \<union> {a \<in> snd ` set ?ex. again ?s5 a}"
      by blast
    have ag: "again ?s5 = again s4" by (rule ext) (simp add: again_def)
    then have "renewed now ?s5 = renewed now s4" by (intro ext) (simp add: renewed_def)
    with s6 ag have "handler_end now s s4 s6"
      by (simp add: handler_end_def tq_ok_def tq_frame_def)
    moreover have "tq_handleRead alloc cb 8 now now' s = Inr s6"
      using s2(1) 2(1) s6(1) by (simp add: tq_handleRead_def readTimerfd_def)
    ultimately show ?thesis using st 2 by blast
  qed
qed

lemma stages_dead:
  assumes "callbacks_start now s s3" "tq_frame ext s3 s4" "handler_end now s s4 s6" "dead_seq k s"
  shows "dead_seq k s6"
proof -
  have "dead_seq k s3" using assms(1,4) by (simp add: callbacks_start_def dead_seq_def)
  then have "dead_seq k s4" using assms(2) unfolding tq_frame_def by blast
  then have "dead_seq k (s4\<lparr>callingExpiredTimers := False\<rparr>)" by (simp add: dead_seq_def)
  then show ?thesis using assms(3) unfolding handler_end_def tq_frame_def by blast
qed

lemma tq_handleRead_ok:
  assumes "alloc_ok alloc" "tq_ok s" "0 < now"
  shows "tq_handleRead alloc cb 8 now now' s = Inl BadAlloc \<or>
    (\<exists>s'. tq_handleRead alloc cb 8 now now' s = Inr s' \<and> tq_ok s' \<and>
      (\<forall>k. dead_seq k s \<longrightarrow> dead_seq k s'))"
  using tq_handleRead_stages[OF assms, of cb now']
proof (elim disjE exE conjE)
  fix s3 s4 s6
  assume a: "callbacks_start now s s3" "tq_frame (map snd (due now s)) s3 s4"
    "handler_end now s s4 s6" and r: "tq_handleRead alloc cb 8 now now' s = Inr s6"
  have "tq_ok s6" using a(3) by (simp add: handler_end_def)
  with r stages_dead[OF a] show ?thesis by simp
qed simp

text \<open>
  The events in the life of a queue: calls of the public operations from the loop thread or
  from another one, the loop running the next posted functor, and the timerfd becoming readable.
  addTimer in another thread is two events: the addition is posted; the call returns.
\<close>

datatype tq_op =
    OpAdd "(nat \<rightharpoonup> timer) \<Rightarrow> nat option" timestamp timestamp interval
  | OpPost "(nat \<rightharpoonup> timer) \<Rightarrow> nat option" timestamp timestamp interval
  | OpReturn nat
  | OpCancel bool timestamp nat int
  | OpPosted timestamp
  | OpRead "(nat \<rightharpoonup> timer) \<Rightarrow> nat option" "int \<Rightarrow> tq_call list" int timestamp timestamp

definition tq_runPosted :: "timestamp \<Rightarrow> tq \<Rightarrow> tq res" where
  "tq_runPosted now s =
     (case tq_posted s of
        [] \<Rightarrow> Inr s
      | f # fs \<Rightarrow> tq_run_functor now f (s\<lparr>tq_posted := fs\<rparr>))"

fun tq_exec :: "tq \<Rightarrow> tq_op \<Rightarrow> tq res" where
  "tq_exec s (OpAdd alloc now when ival) =
     bindR (addTimer alloc True now when ival s) (\<lambda>(_, s'). Inr s')"
| "tq_exec s (OpPost alloc now when ival) = tq_post_add alloc now when ival s"
| "tq_exec s (OpReturn a) = tq_return_add a s"
| "tq_exec s (OpCancel in_loop now a seq) = tq_cancel in_loop now a seq s"
| "tq_exec s (OpPosted now) = tq_runPosted now s"
| "tq_exec s (OpRead alloc cb n now now') = tq_handleRead alloc cb n now now' s"

text \<open>The calls of the loop are calls of the queue.\<close>

lemma loop_timers:
  "bindR (runAfter alloc True now delta s) (\<lambda>(_, s'). Inr s') =
     tq_exec s (OpAdd alloc now (now + delta) NoRepeat)"
  "bindR (runEvery alloc True now n s) (\<lambda>(_, s'). Inr s') =
     tq_exec s (OpAdd alloc now (now + int n) (RepeatEvery n))"
  "loop_cancel in_loop now (a, seq) s = tq_exec s (OpCancel in_loop now a seq)"
  by (simp_all add: runAfter_def runAt_def runEvery_def loop_cancel_def addTime_def)

text \<open>The kernel returns the eight bytes of a counter, and the clock is past the epoch.\<close>

fun tq_allowed :: "tq_op \<Rightarrow> bool" where
  "tq_allowed (OpAdd alloc _ _ _) = alloc_ok alloc"
| "tq_allowed (OpPost alloc _ _ _) = alloc_ok alloc"
| "tq_allowed (OpRead alloc _ n now _) = (alloc_ok alloc \<and> n = 8 \<and> 0 < now)"
| "tq_allowed _ = True"

lemma runPosted_ok:
  assumes "tq_ok s"
  shows "\<exists>s'. tq_runPosted now s = Inr s' \<and> tq_ok s' \<and> (\<forall>k. dead_seq k s \<longrightarrow> dead_seq k s')"
proof (cases "tq_posted s")
  case Nil
  with assms show ?thesis by (simp add: tq_runPosted_def)
next
  case (Cons f fs)
  let ?s = "s\<lparr>tq_posted := fs\<rparr>"
  have dc: "down_closed (\<lambda>_. True)" by (simp add: down_closed_def)
  have ar: "tq_armed (\<lambda>_. True) ?s" using assms by (simp add: tq_ok_def tq_armed_def fires_by_def)
  show ?thesis
  proof (cases f)
    case (FAdd a)
    have "tq_struct [a] ?s"
      using assms Cons FAdd by (auto simp: tq_ok_def tq_struct_def owners_def)
    from addTimerInLoop_ok[OF this ar dc, of now] Cons FAdd assms show ?thesis
      by (fastforce simp: tq_runPosted_def tq_run_functor_def tq_ok_def dead_seq_def)
  next
    case (FCancel a seq)
    have "tq_struct [] ?s"
      using assms Cons FCancel by (auto simp: tq_ok_def tq_struct_def owners_def)
    from cancelInLoop_ok[OF this ar, of a seq] Cons FCancel assms show ?thesis
      by (fastforce simp: tq_runPosted_def tq_run_functor_def tq_ok_def tq_frame_def dead_seq_def)
  qed
qed

lemma cancel_ok:
  assumes "tq_ok s"
  shows "\<exists>s'. tq_cancel in_loop now a seq s = Inr s' \<and> tq_ok s' \<and>
    (\<forall>k. dead_seq k s \<longrightarrow> dead_seq k s')"
proof (cases in_loop)
  case True
  with cancelInLoop_ok[of "[]" s "\<lambda>_. True" a seq] assms show ?thesis
    by (fastforce simp: tq_cancel_def tq_runInLoop_def tq_run_functor_def tq_ok_def tq_frame_def)
next
  case False
  with assms show ?thesis
    by (simp add: tq_cancel_def tq_runInLoop_def tq_ok_def tq_struct_def tq_armed_def
        owners_def fires_by_def dead_seq_def)
qed

text \<open>The only failures: no memory; and addTimer returns in another thread when its timer is gone.\<close>

definition tq_failure :: "tq \<Rightarrow> tq_op \<Rightarrow> err \<Rightarrow> bool" where
  "tq_failure s x e \<longleftrightarrow> e = BadAlloc \<or>
     (\<exists>a. x = OpReturn a \<and> a \<in> set (adding s) \<and> tq_heap s a = None \<and> e = UseAfterFree)"

definition tq_step_ok :: "tq \<Rightarrow> tq \<Rightarrow> bool" where
  "tq_step_ok s s' \<longleftrightarrow> tq_ok s' \<and> (\<forall>k. dead_seq k s \<longrightarrow> dead_seq k s')"

lemma addTimer_step:
  assumes "tq_ok s" "alloc_ok alloc"
  shows "ends (\<lambda>e. e = BadAlloc) (\<lambda>(_, s'). tq_step_ok s s') (addTimer alloc in_loop now when ival s)"
proof -
  have dc: "down_closed (\<lambda>_. True)" by (simp add: down_closed_def)
  from addTimer_ok[OF assms(2) _ _ dc, of "[]" s in_loop now "when" ival] assms(1)
  show ?thesis by (auto simp: tq_ok_def tq_step_ok_def)
qed

text \<open>Nothing happens to the queue between posting and reading, when nobody else is at work.\<close>

lemma post_add_as_addTimer:
  "tq_post_add alloc now when ival s =
     bindR (addTimer alloc False now when ival s) (\<lambda>((a, _), s'). Inr (s'\<lparr>adding := adding s' @ [a]\<rparr>))"
  by (cases "alloc (tq_heap s)")
    (auto simp: tq_post_add_def addTimer_defs tq_runInLoop_def tq_deref_def split: prod.splits)

lemma tq_exec_ok:
  assumes "tq_ok s" "tq_allowed x"
  shows "ends (tq_failure s x) (tq_step_ok s) (tq_exec s x)"
proof (cases x)
  case (OpAdd alloc now "when" ival)
  with addTimer_step[OF assms(1), of alloc True now "when" ival] assms(2) show ?thesis
    by (cases "addTimer alloc True now when ival s") (auto simp: tq_failure_def)
next
  case (OpPost alloc now "when" ival)
  with addTimer_step[OF assms(1), of alloc False now "when" ival] assms(2) show ?thesis
    by (cases "addTimer alloc False now when ival s") (auto simp: tq_failure_def post_add_as_addTimer tq_step_ok_def)
next
  case (OpReturn a)
  then show ?thesis using assms(1)
    by (auto simp: tq_return_add_def addTimer_id_def tq_deref_def tq_failure_def tq_step_ok_def split: option.splits)
next
  case (OpCancel in_loop now a seq)
  with cancel_ok[OF assms(1), of in_loop now a seq] show ?thesis by (auto simp: tq_step_ok_def)
next
  case (OpPosted now)
  with runPosted_ok[OF assms(1), of now] show ?thesis by (auto simp: tq_step_ok_def)
next
  case (OpRead alloc cb n now now')
  with tq_handleRead_ok[of alloc s now cb now'] assms show ?thesis
    by (auto simp: tq_step_ok_def tq_failure_def)
qed

lemma tq_exec_inv:
  assumes "tq_ok s" "tq_allowed x"
  shows "ends (\<lambda>e. e = BadAlloc \<or> e = UseAfterFree) (tq_step_ok s) (tq_exec s x)"
  using tq_exec_ok[OF assms] by (cases "tq_exec s x") (auto simp: tq_failure_def)

interpretation timer_queue: object tq_exec tq_ok tq_allowed "\<lambda>e. e = BadAlloc \<or> e = UseAfterFree"
proof
  fix s x
  assume "tq_ok s" "tq_allowed x"
  from tq_exec_inv[OF this] show "ends (\<lambda>e. e = BadAlloc \<or> e = UseAfterFree) tq_ok (tq_exec s x)"
    by (rule ends_mono) (simp add: tq_step_ok_def)
qed

interpretation dead_timer: object tq_exec "\<lambda>s. tq_ok s \<and> dead_seq k s" tq_allowed
    "\<lambda>e. e = BadAlloc \<or> e = UseAfterFree" for k
proof
  fix s x
  assume "tq_ok s \<and> dead_seq k s" "tq_allowed x"
  then show "ends (\<lambda>e. e = BadAlloc \<or> e = UseAfterFree) (\<lambda>s. tq_ok s \<and> dead_seq k s) (tq_exec s x)"
    using tq_exec_inv[of s x] by (cases "tq_exec s x") (auto simp: tq_step_ok_def)
qed

section \<open>Cancelling from a callback\<close>

lemma goodD: "tq_good ext P s (Inr s') \<Longrightarrow> tq_struct ext s' \<and> tq_armed P s' \<and> tq_frame ext s s'"
  by (simp add: tq_good_def)

lemma cancelInLoop_held:
  assumes "tq_struct ext s" "a \<in> set ext" "callingExpiredTimers s"
  shows "cancelInLoop a seq s =
    Inr (s\<lparr>cancelingTimers := insert (a, seq) (cancelingTimers s)\<rparr>)"
proof -
  have "a \<notin> snd ` set (timers s)" using assms by (auto simp: tq_struct_def owners_def)
  then have "(a, seq) \<notin> activeTimers s"
    using assms(1) by (force simp: tq_struct_def entry_id_def)
  then show ?thesis using assms by (simp add: cancelInLoop_def struct_assert)
qed

lemma run_calls_cancels:
  assumes "alloc_ok alloc" "down_closed P" "a \<in> set ext"
  shows "tq_struct ext s \<Longrightarrow> tq_armed P s \<Longrightarrow> callingExpiredTimers s \<Longrightarrow>
    CallCancel n a seq \<in> set calls \<Longrightarrow> run_calls alloc calls s = Inr s' \<Longrightarrow>
    (a, seq) \<in> cancelingTimers s'"
proof (induction calls arbitrary: s)
  case (Cons c calls)
  note ok = run_calls_ok[OF assms(1,2)]
  show ?case
  proof (cases "c = CallCancel n a seq")
    case True
    let ?s = "s\<lparr>cancelingTimers := insert (a, seq) (cancelingTimers s)\<rparr>"
    have "run_calls alloc calls ?s = Inr s'"
      using Cons.prems cancelInLoop_held[OF Cons.prems(1) assms(3) Cons.prems(3)]
      by (simp add: True tq_cancel_def tq_runInLoop_def tq_run_functor_def)
    moreover have "tq_struct ext ?s" "tq_armed P ?s" using Cons.prems by simp_all
    ultimately have "tq_frame ext ?s s'" using ok[of ext ?s calls] by (simp add: goodD)
    then show ?thesis by (auto simp: tq_frame_def)
  next
    case False
    then have mem: "CallCancel n a seq \<in> set calls" using Cons.prems(4) by auto
    have "\<exists>s1. run_calls alloc [c] s = Inr s1 \<and> run_calls alloc calls s1 = Inr s'"
      using Cons.prems(5) by (cases c) (auto simp: bindR_assoc)
    then obtain s1 where s1: "run_calls alloc [c] s = Inr s1" "run_calls alloc calls s1 = Inr s'"
      by blast
    have "tq_struct ext s1 \<and> tq_armed P s1 \<and> tq_frame ext s s1"
      using ok[OF Cons.prems(1,2), of "[c]"] s1(1) by (simp add: goodD)
    then show ?thesis using Cons.IH[of s1] mem s1(2) Cons.prems(3) by (simp add: tq_frame_def)
  qed
qed simp

lemma run_expired_cancels:
  assumes "alloc_ok alloc" "down_closed P" "a \<in> set ext"
  shows "tq_struct ext s \<Longrightarrow> tq_armed P s \<Longrightarrow> callingExpiredTimers s \<Longrightarrow>
    snd ` set xs \<subseteq> set ext \<Longrightarrow> (e, b) \<in> set xs \<Longrightarrow>
    CallCancel n a seq \<in> set (cb (sequence (the (tq_heap s b)))) \<Longrightarrow>
    run_expired alloc cb xs s = Inr s' \<Longrightarrow> (a, seq) \<in> cancelingTimers s'"
proof (induction xs arbitrary: s)
  case (Cons x xs)
  obtain e' c where x: "x = (e', c)" by fastforce
  have "c \<in> set (owners ext s)" using Cons.prems(4) x by (simp add: owners_def)
  from struct_deref[OF Cons.prems(1) this] Cons.prems(7) obtain s1 where
    s1: "run_calls alloc (cb (sequence (the (tq_heap s c)))) s = Inr s1"
      "run_expired alloc cb xs s1 = Inr s'" by (auto simp: x)
  have f1: "tq_struct ext s1" "tq_armed P s1" "tq_frame ext s s1"
    using run_calls_ok[OF assms(1,2) Cons.prems(1,2), of "cb (sequence (the (tq_heap s c)))"] s1(1)
    by (simp_all add: goodD)
  show ?case
  proof (cases "(e, b) = x")
    case True
    then have "(a, seq) \<in> cancelingTimers s1"
      using run_calls_cancels[OF assms Cons.prems(1-3) _ s1(1)] Cons.prems(6) x by simp
    moreover have "tq_frame ext s1 s'"
      using run_expired_ok[OF assms(1,2) f1(1,2), of xs cb] Cons.prems(4) s1(2) by (simp add: goodD)
    ultimately show ?thesis by (auto simp: tq_frame_def)
  next
    case False
    then have b: "(e, b) \<in> set xs" using Cons.prems(5) by auto
    then have "b \<in> set ext" using Cons.prems(4) by force
    then have "tq_heap s1 b = tq_heap s b" "callingExpiredTimers s1"
      using f1(3) Cons.prems(3) by (simp_all add: tq_frame_def)
    then show ?thesis using Cons.IH[OF f1(1,2)] Cons.prems(4,6) b s1(2) by simp
  qed
qed simp

section \<open>Properties\<close>

lemma sorted_map_fst: "sorted xs \<Longrightarrow> sorted (map fst (xs :: (int \<times> nat) list))"
  by (induction xs) (auto simp: less_eq_prod_def)

lemma tq_new_ok: "tq_ok tq_new"
  by (simp add: tq_ok_def tq_struct_def tq_new_def owners_def heap_ok_def tq_armed_def)

text \<open>An allocator with room for two timers, for the concrete runs.\<close>

definition two_slots :: "(nat \<rightharpoonup> timer) \<Rightarrow> nat option" where
  "two_slots h = (if h 16 = None then Some 16 else if h 32 = None then Some 32 else None)"

lemma two_slots_ok: "alloc_ok two_slots"
  by (auto simp: alloc_ok_def two_slots_def uintptr_max_def split: if_splits)

text \<open>What a concrete run of the queue is evaluated with.\<close>

lemmas tq_eval = tq_new_def addTimer_defs tq_post_add_def tq_return_add_def timer_new_def tq_runInLoop_def two_slots_def
  tq_deref_def tq_runPosted_def tq_run_functor_def addTimerInLoop_def tq_insert_def
  tq_assert_sizes_def resetTimerfd_def howMuchTimeFromNow_def kMicroSecondsPerSecond_def
  tq_handleRead_def readTimerfd_def getExpired_def uintptr_max_def cancelInLoop_def
  tq_cancel_def tq_reset_def ts_valid_def



text \<open>
  addTimer of another thread: the loop adds the timer, it expires and is deleted, and only then
  does addTimer read its sequence number.
\<close>

theorem add_races_with_expiry:
  "run_ops tq_exec tq_new [OpPost two_slots 5 10 NoRepeat, OpPosted 6,
     OpRead two_slots (\<lambda>_. []) 8 111 112, OpReturn 16] = Inl UseAfterFree"
  by (simp add: tq_eval less_prod_def Let_def assertR_def)

text \<open>
  Or the loop has made another timer at the same address by then: the id that addTimer returns is
  that of the other timer, and cancelling it cancels that one.
\<close>

theorem add_returns_foreign_id:
  "\<exists>s. run_ops tq_exec tq_new [OpPost two_slots 5 10 NoRepeat, OpPosted 6,
      OpRead two_slots (\<lambda>_. []) 8 111 112, OpAdd two_slots 113 500 NoRepeat] = Inr s \<and>
    adding s = [16] \<and> addTimer_id 16 s = Inr (16, 2)"
  by (simp add: tq_eval less_prod_def Let_def assertR_def)

text \<open>
  C30: A timer that is in the queue and is cancelled in the loop thread is deleted, no other timer
  changes, and it never comes back: whatever operations and callbacks follow, no live timer carries
  its sequence number again, even if its address is reused. (A timer that is due in the round that is
  being handled is not in the queue: cancelled by a callback of the round it still runs in it if its turn
  has not come, and is gone after it, \<open>cancel_from_callback\<close>.)
\<close>

theorem cancel_is_final:
  assumes "tq_ok s" "(a, seq) \<in> activeTimers s" "cancelInLoop a seq s = Inr s'"
    "list_all tq_allowed ops" "run_ops tq_exec s' ops = Inr s''"
  shows "tq_heap s' = (tq_heap s)(a := None) \<and>
    (\<forall>b t. tq_heap s'' b = Some t \<longrightarrow> sequence t \<noteq> seq)"
proof -
  have st: "tq_struct [] s" using assms(1) by (simp add: tq_ok_def)
  obtain t where t: "tq_heap s a = Some t" "sequence t = seq" "s' = cancelled a t s"
    using cancelInLoop_active[OF st assms(2)] assms(3) by auto
  have "tq_ok s'"
    using cancelInLoop_ok[OF st, of "\<lambda>_. True" a seq] assms(1,3) by (auto simp: tq_ok_def tq_frame_def)
  moreover have "dead_seq seq s'"
    using st t by (auto simp: dead_seq_def cancelled_def tq_struct_def heap_ok_def split: if_splits)
  ultimately have "dead_seq seq s''" using dead_timer.run_safe_inv[OF _ assms(4,5)] by blast
  with t(3) show ?thesis by (simp add: dead_seq_def cancelled_def)
qed

theorem cancel_is_final_witness:
  "\<exists>s s' s''. run_ops tq_exec tq_new [OpAdd two_slots 5 100 (RepeatEvery 50)] = Inr s \<and>
     cancelInLoop 16 1 s = Inr s' \<and>
     run_ops tq_exec s' [OpAdd two_slots 6 70 NoRepeat] = Inr s'' \<and>
     (\<forall>b t. tq_heap s'' b = Some t \<longrightarrow> sequence t \<noteq> 1)"
proof -
  let ?x = "[OpAdd two_slots 5 100 (RepeatEvery 50)]"
    and ?y = "[OpAdd two_slots 6 70 NoRepeat]"
  have "case run_ops tq_exec tq_new ?x of Inl _ \<Rightarrow> False | Inr s \<Rightarrow> (16, 1) \<in> activeTimers s \<and>
    (case cancelInLoop 16 1 s of Inl _ \<Rightarrow> False | Inr s' \<Rightarrow>
     (case run_ops tq_exec s' ?y of Inl _ \<Rightarrow> False | Inr s'' \<Rightarrow> True))"
    by code_simp
  then obtain s s' s'' where s: "run_ops tq_exec tq_new ?x = Inr s" "(16, 1) \<in> activeTimers s"
    "cancelInLoop 16 1 s = Inr s'" "run_ops tq_exec s' ?y = Inr s''"
    by (elim case_sum_Inr conjE) blast
  have "list_all tq_allowed ?x" "list_all tq_allowed ?y" by (simp_all add: two_slots_ok)
  moreover from this have "tq_ok s" using timer_queue.run_safe_inv[OF tq_new_ok _ s(1)] by blast
  ultimately show ?thesis using cancel_is_final[OF _ s(2,3) _ s(4)] s by blast
qed

text \<open>
  getExpired takes out exactly the timers that are due at that moment, in the order of
  their times, together with their ids, and keeps all others; it deletes nothing.
\<close>

theorem getExpired_exact:
  assumes "tq_ok s"
  shows "\<exists>expired s'. getExpired now s = Inr (expired, s') \<and>
    expired = filter (\<lambda>x. fst x \<le> now) (timers s) \<and> sorted (map fst expired) \<and>
    timers s' = filter (\<lambda>x. now < fst x) (timers s) \<and> tq_heap s' = tq_heap s \<and>
    activeTimers s' = entry_id (tq_heap s) ` set (timers s')"
proof -
  have "sorted (filter (\<lambda>x. fst x \<le> now) (timers s))"
    using assms by (simp add: tq_ok_def tq_struct_def sorted_wrt_filter)
  then have "sorted (map fst (filter (\<lambda>x. fst x \<le> now) (timers s)))"
    by (rule sorted_map_fst)
  with getExpired_ok[of s now] assms show ?thesis by (fastforce simp: tq_ok_def)
qed

theorem getExpired_exact_witness:
  "\<exists>s expired s'. run_ops tq_exec tq_new [OpAdd two_slots 5 100 NoRepeat,
       OpAdd two_slots 5 60 NoRepeat] = Inr s \<and>
     getExpired 60 s = Inr (expired, s') \<and> expired = [(60, 32)] \<and> timers s' = [(100, 16)]"
proof -
  let ?x = "[OpAdd two_slots 5 100 NoRepeat, OpAdd two_slots 5 60 NoRepeat]"
  have "case run_ops tq_exec tq_new ?x of Inl _ \<Rightarrow> False
    | Inr s \<Rightarrow> timers s = [(60, 32), (100, 16)]" by code_simp
  then obtain s where s: "run_ops tq_exec tq_new ?x = Inr s" "timers s = [(60, 32), (100, 16)]"
    by (elim case_sum_Inr) blast
  have "list_all tq_allowed ?x" by (simp add: two_slots_ok)
  then have "tq_ok s" using timer_queue.run_safe_inv[OF tq_new_ok _ s(1)] by blast
  from getExpired_exact[OF this, of 60] obtain ex s' where e: "getExpired 60 s = Inr (ex, s')"
    "ex = filter (\<lambda>x. fst x \<le> 60) (timers s)" "timers s' = filter (\<lambda>x. 60 < fst x) (timers s)"
    by blast
  moreover have "ex = [(60, 32)]" "timers s' = [(100, 16)]" using e(2,3) s(2) by simp_all
  ultimately show ?thesis using s(1) by blast
qed

text \<open>The callbacks of the due timers, one after the other.\<close>

lemma run_calls_append:
  "run_calls alloc (xs @ ys) s = bindR (run_calls alloc xs s) (run_calls alloc ys)"
proof (induction alloc xs s rule: run_calls.induct)
  case (3 alloc now a seq rest s)
  then have "run_calls alloc (rest @ ys) = (\<lambda>t. bindR (run_calls alloc rest t) (run_calls alloc ys))"
    by (intro ext)
  then show ?case by (simp add: bindR_assoc)
qed (simp_all add: bindR_assoc case_prod_unfold)

definition callbacks_of :: "(int \<Rightarrow> tq_call list) \<Rightarrow> (nat \<rightharpoonup> timer) \<Rightarrow> (timestamp \<times> nat) list \<Rightarrow> tq_call list" where
  "callbacks_of cb h xs = concat (map (\<lambda>x. cb (sequence (the (h (snd x))))) xs)"

lemma callbacks_of_cong:
  "(\<And>x. x \<in> set xs \<Longrightarrow> h (snd x) = h' (snd x)) \<Longrightarrow> callbacks_of cb h xs = callbacks_of cb h' xs"
  unfolding callbacks_of_def by (intro arg_cong[of _ _ concat] map_cong) simp_all

lemma run_expired_callbacks:
  assumes "alloc_ok alloc" "down_closed P"
  shows "tq_struct ext s \<Longrightarrow> tq_armed P s \<Longrightarrow> snd ` set xs \<subseteq> set ext \<Longrightarrow>
    run_expired alloc cb xs s = run_calls alloc (callbacks_of cb (tq_heap s) xs) s"
proof (induction xs arbitrary: s)
  case (Cons x xs)
  obtain e a where x: "x = (e, a)" by fastforce
  have "a \<in> set (owners ext s)" using Cons.prems x by (simp add: owners_def)
  note live = struct_deref[OF Cons.prems(1) this]
  let ?first = "run_calls alloc (cb (sequence (the (tq_heap s a)))) s"
  have rest: "run_expired alloc cb xs s1 = run_calls alloc (callbacks_of cb (tq_heap s) xs) s1"
    if "?first = Inr s1" for s1
  proof -
    have f: "tq_struct ext s1" "tq_armed P s1" "tq_frame ext s s1"
      using run_calls_ok[OF assms Cons.prems(1,2), of "cb (sequence (the (tq_heap s a)))"] that
      by (simp_all add: goodD)
    have "callbacks_of cb (tq_heap s1) xs = callbacks_of cb (tq_heap s) xs"
      using f(3) Cons.prems(3) by (intro callbacks_of_cong) (auto simp: tq_frame_def)
    with Cons.IH[OF f(1,2)] Cons.prems(3) show ?thesis by simp
  qed
  show ?case
    using live rest by (cases ?first) (simp_all add: x callbacks_of_def run_calls_append)
qed (simp add: callbacks_of_def)

text \<open>
  C31: When the timerfd fires, the callbacks of exactly the timers that are due run, in the order of
  their times, on a queue from which these are taken out; whatever the callbacks add or cancel, the
  handler fails only when one of their allocations does. Afterwards every timer that was due
  is restarted one interval after the handler began if it repeats and no callback cancelled it, and
  deleted otherwise; the callbacks themselves cannot have changed it; and every other timer is what the
  callbacks left. The list has the timers they left and the restarted ones.
\<close>

theorem handleRead_renews:
  assumes "tq_ok s" "alloc_ok alloc" "0 < now"
  shows "let expired = filter (\<lambda>x. fst x \<le> now) (timers s);
      s1 = s\<lparr>timers := filter (\<lambda>x. now < fst x) (timers s),
        activeTimers := (\<lambda>x. (snd x, sequence (the (tq_heap s (snd x))))) ` set (filter (\<lambda>x. now < fst x) (timers s)),
        timerfd := None, callingExpiredTimers := True, cancelingTimers := {}\<rparr>
    in case run_calls alloc (concat (map (\<lambda>x. cb (sequence (the (tq_heap s (snd x))))) expired)) s1 of
       Inl e \<Rightarrow> e = BadAlloc \<and> tq_handleRead alloc cb 8 now now' s = Inl BadAlloc
     | Inr s2 \<Rightarrow> \<exists>s'. tq_handleRead alloc cb 8 now now' s = Inr s' \<and> tq_ok s' \<and>
         (\<forall>a. if a \<in> snd ` set expired
              then \<exists>t. tq_heap s a = Some t \<and> tq_heap s2 a = Some t \<and>
                tq_heap s' a = (if repeat t \<and> (a, sequence t) \<notin> cancelingTimers s2 then Some (restart now t) else None)
              else tq_heap s' a = tq_heap s2 a) \<and>
         snd ` set (timers s') = snd ` set (timers s2) \<union> {a \<in> snd ` set expired. tq_heap s' a \<noteq> None}"
proof -
  let ?calls = "callbacks_of cb (tq_heap s) (due now s)" and ?ext = "map snd (due now s)"
  let ?s1 = "without_due now s"
  let ?after = "\<lambda>s2 s'. (\<forall>a. if a \<in> snd ` set (due now s)
      then \<exists>t. tq_heap s a = Some t \<and> tq_heap s2 a = Some t \<and>
        tq_heap s' a = (if repeat t \<and> (a, sequence t) \<notin> cancelingTimers s2 then Some (restart now t) else None)
      else tq_heap s' a = tq_heap s2 a) \<and>
    snd ` set (timers s') = snd ` set (timers s2) \<union> {a \<in> snd ` set (due now s). tq_heap s' a \<noteq> None}"
  have run: "run_expired alloc cb (due now s) s3 = run_calls alloc ?calls s3" if "callbacks_start now s s3" for s3
    using run_expired_callbacks[OF assms(2), of "\<lambda>e. e \<le> 0" ?ext s3 "due now s" cb] that
    by (auto simp: callbacks_start_def down_closed_def)
  have "case run_calls alloc ?calls ?s1 of
      Inl e \<Rightarrow> e = BadAlloc \<and> tq_handleRead alloc cb 8 now now' s = Inl BadAlloc
    | Inr s2 \<Rightarrow> \<exists>s'. tq_handleRead alloc cb 8 now now' s = Inr s' \<and> tq_ok s' \<and> ?after s2 s'"
    using tq_handleRead_stages[OF assms(2,1,3), of cb now']
  proof (elim disjE exE conjE)
    fix s3 assume a: "callbacks_start now s s3" "run_expired alloc cb (due now s) s3 = Inl BadAlloc"
      "tq_handleRead alloc cb 8 now now' s = Inl BadAlloc"
    have "s3 = ?s1" using a(1) by (simp add: callbacks_start_def)
    then have "run_calls alloc ?calls ?s1 = Inl BadAlloc" using run[OF a(1)] a(2) by simp
    then show ?thesis using a(3) by simp
  next
    fix s3 s4 s6
    assume a: "callbacks_start now s s3" "run_expired alloc cb (due now s) s3 = Inr s4"
      "tq_struct ?ext s4" "tq_frame ?ext s3 s4" "tq_handleRead alloc cb 8 now now' s = Inr s6" "handler_end now s s4 s6"
    have s3: "s3 = ?s1" "tq_heap s3 = tq_heap s" using a(1) by (simp_all add: callbacks_start_def)
    have s6: "tq_ok s6" "tq_heap s6 = renewed now s4 ?ext"
      "snd ` set (timers s6) = snd ` set (timers s4) \<union> {a \<in> snd ` set (due now s). again s4 a}"
      using a(6) by (simp_all add: handler_end_def)
    have held: "\<exists>t. tq_heap s a = Some t \<and> tq_heap s4 a = Some t \<and>
        tq_heap s6 a = (if repeat t \<and> (a, sequence t) \<notin> cancelingTimers s4 then Some (restart now t) else None)"
      if m: "a \<in> snd ` set (due now s)" for a
    proof -
      have "a \<in> set (owners ?ext s4)" using m by (simp add: owners_def)
      from struct_live[OF a(3) this] obtain t where t: "tq_heap s4 a = Some t" by blast
      moreover have "tq_heap s4 a = tq_heap s a" using a(4) m s3(2) by (auto simp: tq_frame_def)
      ultimately show ?thesis using m by (simp add: s6(2) renewed_def again_def)
    qed
    have "{a \<in> snd ` set (due now s). again s4 a} = {a \<in> snd ` set (due now s). tq_heap s6 a \<noteq> None}"
      by (auto simp: s6(2) renewed_def)
    moreover have "tq_heap s6 a = tq_heap s4 a" if "a \<notin> snd ` set (due now s)" for a
      using that by (simp add: s6(2) renewed_def)
    ultimately have fin: "?after s4 s6" using held s6(3) by simp
    have "run_calls alloc ?calls ?s1 = Inr s4" using run[OF a(1)] a(2) s3(1) by simp
    with a(5) s6(1) fin show ?thesis by simp
  qed
  then show ?thesis unfolding Let_def callbacks_of_def due_def without_due_def entry_id_def .
qed

text \<open>Two timers are due, which both repeat; the callback of the first cancels the second.\<close>

theorem handleRead_renews_witness:
  "\<exists>s s'. run_ops tq_exec tq_new [OpAdd two_slots 5 60 (RepeatEvery 50), OpAdd two_slots 5 70 (RepeatEvery 9)] = Inr s \<and>
     tq_handleRead two_slots (\<lambda>k. if k = 1 then [CallCancel 75 32 2] else []) 8 75 76 s = Inr s' \<and>
     map_option expiration (tq_heap s' 16) = Some 125 \<and> tq_heap s' 32 = None"
proof -
  let ?x = "[OpAdd two_slots 5 60 (RepeatEvery 50), OpAdd two_slots 5 70 (RepeatEvery 9)]"
    and ?cb = "\<lambda>k :: int. if k = 1 then [CallCancel 75 32 2] else []"
  have "case run_ops tq_exec tq_new ?x of Inl _ \<Rightarrow> False
    | Inr s \<Rightarrow> timers s = [(60, 16), (70, 32)] \<and>
       tq_heap s 16 = Some \<lparr>expiration = 60, interval_of = RepeatEvery 50, repeat = True, sequence = 1\<rparr> \<and>
       tq_heap s 32 = Some \<lparr>expiration = 70, interval_of = RepeatEvery 9, repeat = True, sequence = 2\<rparr>"
    by (simp add: tq_eval less_prod_def less_eq_prod_def Let_def assertR_def)
  then obtain s where s: "run_ops tq_exec tq_new ?x = Inr s" "timers s = [(60, 16), (70, 32)]"
    "tq_heap s 16 = Some \<lparr>expiration = 60, interval_of = RepeatEvery 50, repeat = True, sequence = 1\<rparr>"
    "tq_heap s 32 = Some \<lparr>expiration = 70, interval_of = RepeatEvery 9, repeat = True, sequence = 2\<rparr>"
    by (elim case_sum_Inr conjE) blast
  have "list_all tq_allowed ?x" by (simp add: two_slots_ok)
  then have ok: "tq_ok s" using timer_queue.run_safe_inv[OF tq_new_ok _ s(1)] by blast
  from handleRead_renews[OF ok two_slots_ok, of 75 ?cb 76] obtain s' where
    s': "tq_handleRead two_slots ?cb 8 75 76 s = Inr s'"
    and h: "\<forall>a. if a = 16 \<or> a = 32
        then \<exists>t. tq_heap s a = Some t \<and>
          tq_heap s' a = (if repeat t \<and> (a, sequence t) \<noteq> (32, 2) then Some (restart 75 t) else None)
        else tq_heap s' a = tq_heap s a"
    by (auto simp: s(2-4) tq_cancel_def tq_runInLoop_def tq_run_functor_def cancelInLoop_def tq_assert_sizes_def
        Let_def cong: if_cong)
  have "map_option expiration (tq_heap s' 16) = Some 125" "tq_heap s' 32 = None"
    using spec[OF h, of 16] spec[OF h, of 32] by (simp_all add: s(3,4) restart_def addTime_def)
  with s(1) s' show ?thesis by blast
qed

text \<open>
  A callback can stop a repeating timer that is due in the same round, its own timer
  included: whatever else the callbacks do, after the handler that timer is gone for good.
\<close>

theorem cancel_from_callback:
  assumes "tq_ok s" "alloc_ok alloc" "0 < now"
    "(e, a) \<in> set (timers s)" "e \<le> now" "tq_heap s a = Some t"
    "(f, b) \<in> set (timers s)" "f \<le> now" "tq_heap s b = Some u"
    "CallCancel n a (sequence t) \<in> set (cb (sequence u))"
    "tq_handleRead alloc cb 8 now now' s = Inr s'"
  shows "tq_ok s' \<and> dead_seq (sequence t) s'"
proof -
  obtain s3 s4 where st: "callbacks_start now s s3" "run_expired alloc cb (due now s) s3 = Inr s4"
    "tq_struct (map snd (due now s)) s4" "tq_frame (map snd (due now s)) s3 s4"
    "handler_end now s s4 s'"
    using tq_handleRead_stages[OF assms(2,1,3), of cb now'] assms(11) by auto
  let ?ext = "map snd (due now s)"
  have s3: "tq_struct ?ext s3" "tq_armed (\<lambda>e. e \<le> 0) s3" "callingExpiredTimers s3"
      "tq_heap s3 = tq_heap s"
    using st(1) by (auto simp: callbacks_start_def)
  have mem: "a \<in> set ?ext" "(f, b) \<in> set (due now s)"
    using assms(4,5,7,8) by (force simp: due_def)+
  have "down_closed (\<lambda>e :: timestamp. e \<le> 0)" by (simp add: down_closed_def)
  from run_expired_cancels[OF assms(2) this mem(1) s3(1,2,3) _ mem(2) _ st(2)] s3(4) assms(9,10)
  have "(a, sequence t) \<in> cancelingTimers s4" by simp
  moreover have a4: "tq_heap s4 a = Some t"
    using st(4) mem(1) s3(4) assms(6) by (auto simp: tq_frame_def)
  ultimately have "tq_heap s' a = None"
    using st(5) mem(1) by (auto simp: handler_end_def renewed_def again_def)
  moreover have "heap_ok (tq_heap s4) (numCreated s4)" using st(3) by (simp add: tq_struct_def)
  moreover have "numCreated s4 \<le> numCreated s'" "tq_heap s' = renewed now s4 ?ext"
    using st(5) by (simp_all add: handler_end_def tq_frame_def)
  ultimately have gone: "tq_heap s' a = None" and h: "heap_ok (tq_heap s4) (numCreated s4)"
    and num: "numCreated s4 \<le> numCreated s'" and ren: "tq_heap s' = renewed now s4 ?ext"
    by simp_all
  have "sequence v \<noteq> sequence t" if v: "tq_heap s' c = Some v" for c v
  proof
    assume same: "sequence v = sequence t"
    have "c \<in> set ?ext \<Longrightarrow> \<exists>w. tq_heap s4 c = Some w"
      using struct_live[OF st(3), of c] by (simp add: owners_def)
    then obtain w where "tq_heap s4 c = Some w" "sequence w = sequence v"
      using v ren by (auto simp: renewed_def split: if_splits)
    with same h a4 have "c = a" unfolding heap_ok_def by metis
    with gone v show False by simp
  qed
  moreover have "sequence t \<le> numCreated s'" using h a4 num by (force simp: heap_ok_def)
  ultimately have "dead_seq (sequence t) s'" by (simp add: dead_seq_def)
  with st(5) show ?thesis by (simp add: handler_end_def)
qed

theorem cancel_from_callback_witness:
  "\<exists>s s'. run_ops tq_exec tq_new [OpAdd two_slots 5 60 (RepeatEvery 50)] = Inr s \<and>
     tq_handleRead two_slots (\<lambda>k. if k = 1 then [CallCancel 76 16 1] else []) 8 75 76 s = Inr s' \<and>
     dead_seq 1 s'"
proof -
  let ?x = "[OpAdd two_slots 5 60 (RepeatEvery 50)]"
    and ?cb = "\<lambda>k :: int. if k = 1 then [CallCancel 76 16 1] else []"
    and ?t = "\<lparr>expiration = 60, interval_of = RepeatEvery 50, repeat = True, sequence = 1\<rparr>"
  have "case run_ops tq_exec tq_new ?x of Inl _ \<Rightarrow> False
    | Inr s \<Rightarrow> (timers s = [(60, 16)] \<and> tq_heap s 16 = Some ?t) \<and>
       (case tq_handleRead two_slots ?cb 8 75 76 s of Inl _ \<Rightarrow> False | Inr s' \<Rightarrow> True)"
    by (simp add: tq_eval less_prod_def less_eq_prod_def Let_def assertR_def)
  then obtain s s' where s: "run_ops tq_exec tq_new ?x = Inr s"
    "timers s = [(60, 16)] \<and> tq_heap s 16 = Some ?t"
    "tq_handleRead two_slots ?cb 8 75 76 s = Inr s'"
    by (elim case_sum_Inr conjE) blast
  have "list_all tq_allowed ?x" by (simp add: two_slots_ok)
  then have "tq_ok s" using timer_queue.run_safe_inv[OF tq_new_ok _ s(1)] by blast
  from cancel_from_callback[OF this two_slots_ok _ _ _ _ _ _ _ _ s(3), of 60 16 ?t 60 16 ?t 76] s(2)
  have "dead_seq 1 s'" by simp
  with s(1,3) show ?thesis by blast
qed

end
