(* ===== verification/LogFile.thy ===== *)
theory LogFile
  imports LogStream
begin

text \<open>
  base/FileUtil.h, base/FileUtil.cc, base/LogFile.h, base/LogFile.cc: the file the log goes to,
  a stdio stream. \<open>fw k n\<close> is how many of the \<open>n\<close> bytes it is given the call number \<open>k\<close> of
  \<^verbatim>\<open>fwrite\<close> accepts, at most \<open>n\<close>. \<open>af_stream\<close> are the bytes the stream accepted; the first
  \<open>af_flushed\<close> of them were handed to the kernel by a call of \<^verbatim>\<open>fflush\<close> (the stream may have
  handed over more on its own).
\<close>

section \<open>AppendFile\<close>

record append_file =
  af_stream :: string
  af_flushed :: nat
  af_calls :: nat

text \<open>The constructor passes what \<^verbatim>\<open>fopen\<close> returned to \<^verbatim>\<open>setbuffer\<close> without a check.\<close>

definition af_open :: "bool \<Rightarrow> append_file res" where
  "af_open opened = (if opened then Inr \<lparr>af_stream = [], af_flushed = 0, af_calls = 0\<rparr> else Inl NullDeref)"

definition af_write :: "(nat \<Rightarrow> nat \<Rightarrow> nat) \<Rightarrow> string \<Rightarrow> append_file \<Rightarrow> nat \<times> append_file" where
  "af_write fw logline f =
     (let n = min (fw (af_calls f) (length logline)) (length logline) in
      (n, f\<lparr>af_stream := af_stream f @ take n logline, af_calls := af_calls f + 1\<rparr>))"

lemma af_write_le: "fst (af_write fw logline f) \<le> length logline"
  by (simp add: af_write_def Let_def)

function af_rest :: "(nat \<Rightarrow> nat \<Rightarrow> nat) \<Rightarrow> string \<Rightarrow> nat \<Rightarrow> append_file \<Rightarrow> append_file" where
  "af_rest fw logline n f =
     (if length logline - n > 0
      then let (x, f1) = af_write fw (drop n logline) f in
           if x = 0 then f1 else af_rest fw logline (n + x) f1
      else f)"
  by pat_completeness auto
termination
  by (relation "measure (\<lambda>(fw, logline, n, f). length logline - n)") auto

declare af_rest.simps [simp del]

definition af_append :: "(nat \<Rightarrow> nat \<Rightarrow> nat) \<Rightarrow> string \<Rightarrow> append_file \<Rightarrow> append_file" where
  "af_append fw logline f =
     (let (n, f1) = af_write fw logline f in af_rest fw logline n f1)"

definition af_flush :: "append_file \<Rightarrow> append_file" where
  "af_flush f = f\<lparr>af_flushed := length (af_stream f)\<rparr>"

section \<open>LogFile\<close>

record log_file =
  lf_file :: append_file
  flushEveryN :: int
  lf_count :: int

definition lf_new :: "append_file \<Rightarrow> log_file" where
  "lf_new f = \<lparr>lf_file = f, flushEveryN = 1024, lf_count = 0\<rparr>"

definition lf_append :: "(nat \<Rightarrow> nat \<Rightarrow> nat) \<Rightarrow> string \<Rightarrow> log_file \<Rightarrow> log_file" where
  "lf_append fw logline s =
     (let s1 = s\<lparr>lf_file := af_append fw logline (lf_file s), lf_count := lf_count s + 1\<rparr> in
      if lf_count s1 \<ge> flushEveryN s1
      then s1\<lparr>lf_count := 0, lf_file := af_flush (lf_file s1)\<rparr>
      else s1)"

definition lf_flush :: "log_file \<Rightarrow> log_file" where
  "lf_flush s = s\<lparr>lf_file := af_flush (lf_file s)\<rparr>"

datatype lf_op = LfAppend string | LfFlush

fun lf_exec :: "(nat \<Rightarrow> nat \<Rightarrow> nat) \<Rightarrow> log_file \<Rightarrow> lf_op \<Rightarrow> log_file res" where
  "lf_exec fw s (LfAppend logline) = Inr (lf_append fw logline s)"
| "lf_exec fw s LfFlush = Inr (lf_flush s)"

section \<open>What is written\<close>

text \<open>The stream accepts some of what it is given, whenever it is given something.\<close>

definition healthy :: "(nat \<Rightarrow> nat \<Rightarrow> nat) \<Rightarrow> bool" where
  "healthy fw \<longleftrightarrow> (\<forall>k n. 0 < n \<longrightarrow> 0 < fw k n)"

lemma af_rest_stream:
  "\<exists>m. n \<le> m \<and> m \<le> length logline \<and>
     af_stream (af_rest fw logline n f) = af_stream f @ take (m - n) (drop n logline) \<and>
     af_flushed (af_rest fw logline n f) = af_flushed f \<and> (healthy fw \<longrightarrow> m = length logline)"
  if "n \<le> length logline"
  using that
proof (induction fw logline n f rule: af_rest.induct)
  case (1 fw logline n f)
  show ?case
  proof (cases "n < length logline")
    case False
    then have "af_rest fw logline n f = f" by (simp add: af_rest.simps[of fw logline n f])
    with 1(2) False show ?thesis by (intro exI[of _ n]) simp
  next
    case less: True
    obtain x f1 where w: "af_write fw (drop n logline) f = (x, f1)" by fastforce
    have x: "x \<le> length logline - n" using af_write_le[of fw "drop n logline" f] w by simp
    have f1: "af_stream f1 = af_stream f @ take x (drop n logline)" "af_flushed f1 = af_flushed f"
      and h: "healthy fw \<Longrightarrow> 0 < x" using w less by (auto simp: af_write_def Let_def healthy_def)
    show ?thesis
    proof (cases "x = 0")
      case True
      with h w f1 less show ?thesis by (intro exI[of _ n]) (auto simp: af_rest.simps[of fw logline n f])
    next
      case False
      with less w have step: "af_rest fw logline n f = af_rest fw logline (n + x) f1"
        by (simp add: af_rest.simps[of fw logline n f])
      have le: "n + x \<le> length logline" and pos: "0 < length logline - n" using less x by simp_all
      from 1(1)[OF pos w[symmetric] refl False le] obtain m where
        m: "n + x \<le> m" "m \<le> length logline"
          "af_stream (af_rest fw logline (n + x) f1) = af_stream f1 @ take (m - (n + x)) (drop (n + x) logline)"
          "af_flushed (af_rest fw logline (n + x) f1) = af_flushed f1"
          "healthy fw \<longrightarrow> m = length logline" by blast
      have "take x (drop n logline) @ take (m - (n + x)) (drop (n + x) logline) = take (m - n) (drop n logline)"
      proof -
        have "m - n = x + (m - (n + x))" using m(1) by arith
        then show ?thesis by (metis take_add drop_drop add.commute)
      qed
      with step m f1 show ?thesis by (intro exI[of _ m]) simp
    qed
  qed
qed

lemma af_append_stream:
  "\<exists>m \<le> length logline. af_stream (af_append fw logline f) = af_stream f @ take m logline \<and>
     af_flushed (af_append fw logline f) = af_flushed f \<and> (healthy fw \<longrightarrow> m = length logline)"
proof -
  obtain n f1 where w: "af_write fw logline f = (n, f1)" by fastforce
  then have n: "n \<le> length logline" using af_write_le[of fw logline f] by simp
  from w have f1: "af_stream f1 = af_stream f @ take n logline" "af_flushed f1 = af_flushed f"
    by (auto simp: af_write_def Let_def)
  from af_rest_stream[OF n, of fw f1] obtain m where
    m: "n \<le> m" "m \<le> length logline" "af_stream (af_rest fw logline n f1) = af_stream f1 @ take (m - n) (drop n logline)"
      "af_flushed (af_rest fw logline n f1) = af_flushed f1" "healthy fw \<longrightarrow> m = length logline" by blast
  have "take n logline @ take (m - n) (drop n logline) = take m logline"
    using m(1) by (metis le_add_diff_inverse take_add)
  with w m f1 show ?thesis by (intro exI[of _ m]) (simp add: af_append_def)
qed

lemma healthy_append [simp]:
  assumes "healthy fw"
  shows "af_stream (af_append fw logline f) = af_stream f @ logline"
    "af_flushed (af_append fw logline f) = af_flushed f"
  using af_append_stream[of logline fw f] assms by auto

lemma lf_append_stream [simp]:
  "healthy fw \<Longrightarrow> af_stream (lf_file (lf_append fw logline s)) = af_stream (lf_file s) @ logline"
  by (simp add: lf_append_def af_flush_def Let_def)

lemma lf_flush_stream [simp]: "af_stream (lf_file (lf_flush s)) = af_stream (lf_file s)"
  by (simp add: lf_flush_def af_flush_def)

text \<open>
  What the file promises, as a specification: the text that is safe, the text that is not, and
  how many lines came since the counter was last reset.
\<close>

type_synonym lf_view = "string \<times> string \<times> int"

definition lf_abs :: "log_file \<Rightarrow> lf_view" where
  "lf_abs s = (take (af_flushed (lf_file s)) (af_stream (lf_file s)),
     drop (af_flushed (lf_file s)) (af_stream (lf_file s)), lf_count s)"

fun lf_spec :: "lf_view \<Rightarrow> lf_op \<Rightarrow> lf_view" where
  "lf_spec (safe, rest, n) (LfAppend logline) =
     (if n + 1 \<ge> 1024 then (safe @ rest @ logline, [], 0) else (safe, rest @ logline, n + 1))"
| "lf_spec (safe, rest, n) LfFlush = (safe @ rest, [], n)"

definition lf_ok :: "(nat \<Rightarrow> nat \<Rightarrow> nat) \<Rightarrow> log_file \<Rightarrow> bool" where
  "lf_ok fw s \<longleftrightarrow> healthy fw \<and> flushEveryN s = 1024 \<and> 0 \<le> lf_count s \<and> lf_count s < 1024 \<and>
     af_flushed (lf_file s) \<le> length (af_stream (lf_file s))"

interpretation log_file: contract "lf_exec fw" "lf_ok fw" lf_abs "\<lambda>a x. True" lf_spec for fw
proof
  fix s x
  assume "lf_ok fw s"
  then show "\<exists>s'. lf_exec fw s x = Inr s' \<and> lf_ok fw s' \<and> lf_abs s' = lf_spec (lf_abs s) x"
    by (cases x) (simp_all add: lf_ok_def lf_append_def lf_flush_def af_flush_def lf_abs_def Let_def)
qed

text \<open>
  Through any sequence of appends and flushes the file holds the lines that were appended, in
  order, whole, however the stream cuts them up; what a flush found is safe, and at most 1023
  lines are not safe.
\<close>

theorem log_file_refines:
  assumes "healthy fw"
  shows "\<exists>s. run_ops (lf_exec fw) (lf_new \<lparr>af_stream = [], af_flushed = 0, af_calls = 0\<rparr>) xs = Inr s \<and>
    lf_abs s = foldl lf_spec ([], [], 0) xs \<and> 0 \<le> lf_count s \<and> lf_count s < 1024"
proof -
  let ?s = "lf_new \<lparr>af_stream = [], af_flushed = 0, af_calls = 0\<rparr>"
  have "lf_ok fw ?s" "lf_abs ?s = ([], [], 0)" using assms by (simp_all add: lf_ok_def lf_new_def lf_abs_def)
  then show ?thesis using log_file.run_ok[of fw ?s xs] by (auto simp: lf_ok_def)
qed

theorem log_file_refines_witness:
  "\<exists>s. run_ops (lf_exec (\<lambda>k n. 1)) (lf_new \<lparr>af_stream = [], af_flushed = 0, af_calls = 0\<rparr>)
      [LfAppend ''ab'', LfFlush, LfAppend ''c''] = Inr s \<and> lf_abs s = (''ab'', ''c'', 2)"
  using log_file_refines[of "\<lambda>k n. 1" "[LfAppend ''ab'', LfFlush, LfAppend ''c'']"]
  by (auto simp: healthy_def)

end
