(* ===== verification/AsyncLogging.thy ===== *)
theory AsyncLogging
  imports LogFile
begin

text \<open>
  base/AsyncLogging.h, base/AsyncLogging.cc: lines that any thread appends go to a buffer in
  memory; one logging thread takes the full buffers away and writes them to the file. A step is a
  critical section of some thread, or what the logging thread does between two of them; a run is
  the sequence of the steps in the order in which they happen. A \<^verbatim>\<open>unique_ptr\<close> is an option, whose
  \<open>None\<close> is the null pointer. A timed wait ends when the thread is notified, when the time is over
  or for no reason: at any time.
\<close>

section \<open>State\<close>

type_synonym buffer_ptr = "fixed_buffer option"

text \<open>Where the logging thread is.\<close>

datatype logger_pc = LgEnter | LgTop | LgLock | LgWait | LgWrite | LgEnd

record async_log =
  al_running :: bool
  al_latch :: int
  currentBuffer :: buffer_ptr
  nextBuffer :: buffer_ptr
  al_buffers :: "buffer_ptr list"
  al_out :: log_file
  newBuffer1 :: buffer_ptr
  newBuffer2 :: buffer_ptr
  buffersToWrite :: "buffer_ptr list"
  al_pc :: logger_pc
  al_lines :: string
  al_dropped :: bool

text \<open>
  \<open>al_lines\<close> records the text appended so far, \<open>al_dropped\<close> whether the logging thread threw
  buffers away. Constructor and \<open>start()\<close>.
\<close>

definition al_new :: "append_file \<Rightarrow> async_log" where
  "al_new f = \<lparr>al_running = False, al_latch = 1, currentBuffer = Some (fb_new kLargeBuffer),
     nextBuffer = Some (fb_new kLargeBuffer), al_buffers = [], al_out = lf_new f,
     newBuffer1 = None, newBuffer2 = None, buffersToWrite = [], al_pc = LgEnter,
     al_lines = [], al_dropped = False\<rparr>"

definition al_start :: "async_log \<Rightarrow> async_log" where
  "al_start s = s\<lparr>al_running := True\<rparr>"

section \<open>The threads that log\<close>

definition the_ptr :: "buffer_ptr \<Rightarrow> fixed_buffer res" where
  "the_ptr p = (case p of None \<Rightarrow> Inl NullDeref | Some b \<Rightarrow> Inr b)"

definition al_append :: "string \<Rightarrow> async_log \<Rightarrow> async_log res" where
  "al_append logline s =
     bindR (the_ptr (currentBuffer s)) (\<lambda>cur.
     if fb_avail cur > int (length logline)
     then bindR (fb_append logline cur) (\<lambda>b.
          Inr (s\<lparr>currentBuffer := Some b, al_lines := al_lines s @ logline\<rparr>))
     else bindR (fb_append logline
            (case nextBuffer s of Some b \<Rightarrow> b | None \<Rightarrow> fb_new kLargeBuffer)) (\<lambda>b.
          Inr (s\<lparr>al_buffers := al_buffers s @ [Some cur], nextBuffer := None, currentBuffer := Some b,
            al_lines := al_lines s @ logline\<rparr>)))"

text \<open>
  \<open>stop()\<close>, called once, when \<open>start()\<close> has returned: until then nothing happens. It then
  joins the logging thread.
\<close>

definition al_stop :: "async_log \<Rightarrow> async_log" where
  "al_stop s = (if al_latch s = 0 then s\<lparr>al_running := False\<rparr> else s)"

section \<open>The logging thread\<close>

definition al_destroy :: "async_log \<Rightarrow> async_log" where
  "al_destroy s = (if al_running s then al_stop s else s)"

definition al_empty :: "buffer_ptr \<Rightarrow> bool" where
  "al_empty p = (case p of None \<Rightarrow> False | Some b \<Rightarrow> fb_length b = 0)"

definition al_enter :: "async_log \<Rightarrow> async_log res" where
  "al_enter s =
     bindR (assertR (al_running s)) (\<lambda>_.
     Inr (s\<lparr>al_latch := al_latch s - 1, newBuffer1 := Some (fb_new kLargeBuffer),
       newBuffer2 := Some (fb_new kLargeBuffer), buffersToWrite := [], al_pc := LgTop\<rparr>))"

definition al_top :: "async_log \<Rightarrow> async_log res" where
  "al_top s =
     (if al_running s
      then bindR (assertR (al_empty (newBuffer1 s))) (\<lambda>_.
           bindR (assertR (al_empty (newBuffer2 s))) (\<lambda>_.
           bindR (assertR (buffersToWrite s = [])) (\<lambda>_. Inr (s\<lparr>al_pc := LgLock\<rparr>))))
      else Inr (s\<lparr>al_out := lf_flush (al_out s), al_pc := LgEnd\<rparr>))"

definition al_swap :: "async_log \<Rightarrow> async_log" where
  "al_swap s =
     (let s1 = s\<lparr>al_buffers := al_buffers s @ [currentBuffer s], currentBuffer := newBuffer1 s, newBuffer1 := None\<rparr>;
          s2 = s1\<lparr>buffersToWrite := al_buffers s1, al_buffers := buffersToWrite s1\<rparr> in
      (if nextBuffer s2 = None then s2\<lparr>nextBuffer := newBuffer2 s2, newBuffer2 := None\<rparr> else s2)\<lparr>al_pc := LgWrite\<rparr>)"

definition al_lock :: "async_log \<Rightarrow> async_log" where
  "al_lock s = (if al_buffers s = [] then s\<lparr>al_pc := LgWait\<rparr> else al_swap s)"

fun al_output :: "(nat \<Rightarrow> nat \<Rightarrow> nat) \<Rightarrow> buffer_ptr list \<Rightarrow> log_file \<Rightarrow> log_file res" where
  "al_output fw [] out = Inr out"
| "al_output fw (p # ps) out = bindR (the_ptr p) (\<lambda>b. al_output fw ps (lf_append fw (fb_text b) out))"

text \<open>Taking back an empty buffer, if there is none.\<close>

definition refill :: "buffer_ptr \<Rightarrow> buffer_ptr list \<Rightarrow> (buffer_ptr \<times> buffer_ptr list) res" where
  "refill p ps =
     (if p = None
      then bindR (assertR (ps \<noteq> [])) (\<lambda>_. bindR (the_ptr (last ps)) (\<lambda>b. Inr (Some (fb_reset b), butlast ps)))
      else Inr (p, ps))"

definition al_write :: "(nat \<Rightarrow> nat \<Rightarrow> nat) \<Rightarrow> async_log \<Rightarrow> async_log res" where
  "al_write fw s =
     bindR (assertR (buffersToWrite s \<noteq> [])) (\<lambda>_.
     let many = length (buffersToWrite s) > 25;
         ps = (if many then take 2 (buffersToWrite s) else buffersToWrite s) in
     bindR (al_output fw ps (al_out s)) (\<lambda>out.
     let ps1 = (if length ps > 10 then take 2 ps else ps) in
     bindR (refill (newBuffer1 s) ps1) (\<lambda>(p1, ps2).
     bindR (refill (newBuffer2 s) ps2) (\<lambda>(p2, ps3).
     Inr (s\<lparr>newBuffer1 := p1, newBuffer2 := p2, buffersToWrite := [], al_out := lf_flush out,
       al_pc := LgTop, al_dropped := al_dropped s \<or> many\<rparr>)))))"

text \<open>The next step of the logging thread.\<close>

definition al_step :: "(nat \<Rightarrow> nat \<Rightarrow> nat) \<Rightarrow> async_log \<Rightarrow> async_log res" where
  "al_step fw s = (case al_pc s of
       LgEnter \<Rightarrow> al_enter s
     | LgTop \<Rightarrow> al_top s
     | LgLock \<Rightarrow> Inr (al_lock s)
     | LgWait \<Rightarrow> Inr (al_swap s)
     | LgWrite \<Rightarrow> al_write fw s
     | LgEnd \<Rightarrow> Inr s)"

datatype al_op = AlAppend string | AlStop | AlStep

fun al_exec :: "(nat \<Rightarrow> nat \<Rightarrow> nat) \<Rightarrow> async_log \<Rightarrow> al_op \<Rightarrow> async_log res" where
  "al_exec fw s (AlAppend logline) = al_append logline s"
| "al_exec fw s AlStop = Inr (al_stop s)"
| "al_exec fw s AlStep = al_step fw s"

text \<open>A line must fit into a buffer, with one byte to spare.\<close>

fun al_allowed :: "al_op \<Rightarrow> bool" where
  "al_allowed (AlAppend logline) \<longleftrightarrow> length logline < kLargeBuffer"
| "al_allowed _ \<longleftrightarrow> True"

section \<open>Invariant\<close>

definition fine :: "buffer_ptr \<Rightarrow> bool" where
  "fine p \<longleftrightarrow> (\<exists>b. p = Some b \<and> fb_size b = kLargeBuffer \<and> length (fb_text b) < kLargeBuffer)"

definition fresh :: "buffer_ptr \<Rightarrow> bool" where
  "fresh p \<longleftrightarrow> p = Some (fb_new kLargeBuffer)"

text \<open>The text of a buffer, of several.\<close>

definition text_of :: "buffer_ptr \<Rightarrow> string" where
  "text_of p = (case p of None \<Rightarrow> [] | Some b \<Rightarrow> fb_text b)"

definition texts :: "buffer_ptr list \<Rightarrow> string" where
  "texts ps = concat (map text_of ps)"

lemma texts_simps [simp]:
  "texts [] = []" "texts (p # ps) = text_of p @ texts ps" "texts (ps @ qs) = texts ps @ texts qs"
  by (simp_all add: texts_def)

lemma text_of_Some [simp]: "text_of (Some b) = fb_text b"
  by (simp add: text_of_def)

lemma fresh_facts [simp]: "fresh p \<Longrightarrow> text_of p = []" "fresh p \<Longrightarrow> al_empty p" "fresh p \<Longrightarrow> fine p"
  "\<not> fresh None" "\<not> fine None"
  by (auto simp: fresh_def fb_new_def al_empty_def fb_length_def fine_def kLargeBuffer_def)

definition written :: "async_log \<Rightarrow> string" where
  "written s = af_stream (lf_file (al_out s))"

definition all_flushed :: "log_file \<Rightarrow> bool" where
  "all_flushed f \<longleftrightarrow> af_flushed (lf_file f) = length (af_stream (lf_file f))"

definition logger_ok :: "async_log \<Rightarrow> bool" where
  "logger_ok s = (case al_pc s of
       LgEnter \<Rightarrow> al_running s \<and> al_latch s = 1 \<and> buffersToWrite s = [] \<and> all_flushed (al_out s)
     | LgWrite \<Rightarrow> al_latch s = 0 \<and> newBuffer1 s = None \<and> buffersToWrite s \<noteq> [] \<and>
         (fresh (newBuffer2 s) \<or> newBuffer2 s = None \<and> length (buffersToWrite s) \<ge> 2)
     | LgEnd \<Rightarrow> al_latch s = 0 \<and> \<not> al_running s \<and> buffersToWrite s = [] \<and> all_flushed (al_out s)
     | _ \<Rightarrow> al_latch s = 0 \<and> fresh (newBuffer1 s) \<and> fresh (newBuffer2 s) \<and> buffersToWrite s = [] \<and>
         all_flushed (al_out s))"

definition al_ok :: "(nat \<Rightarrow> nat \<Rightarrow> nat) \<Rightarrow> async_log \<Rightarrow> bool" where
  "al_ok fw s \<longleftrightarrow> healthy fw \<and> logger_ok s \<and> fine (currentBuffer s) \<and>
     (fresh (nextBuffer s) \<or> nextBuffer s = None \<and> al_buffers s \<noteq> []) \<and>
     list_all fine (al_buffers s) \<and> list_all fine (buffersToWrite s) \<and>
     (\<not> al_dropped s \<longrightarrow> al_lines s = written s @ texts (buffersToWrite s) @ texts (al_buffers s) @ text_of (currentBuffer s))"

lemma al_okD:
  assumes "al_ok fw s"
  shows "healthy fw" "logger_ok s" "fine (currentBuffer s)"
    "fresh (nextBuffer s) \<or> nextBuffer s = None \<and> al_buffers s \<noteq> []"
    "list_all fine (al_buffers s)" "list_all fine (buffersToWrite s)"
    "\<not> al_dropped s \<Longrightarrow> al_lines s = written s @ texts (buffersToWrite s) @ texts (al_buffers s) @ text_of (currentBuffer s)"
  using assms by (simp_all add: al_ok_def)

lemma al_okI:
  assumes "healthy fw" "logger_ok s" "fine (currentBuffer s)"
    "fresh (nextBuffer s) \<or> nextBuffer s = None \<and> al_buffers s \<noteq> []"
    "list_all fine (al_buffers s)" "list_all fine (buffersToWrite s)"
    "\<not> al_dropped s \<Longrightarrow> al_lines s = written s @ texts (buffersToWrite s) @ texts (al_buffers s) @ text_of (currentBuffer s)"
  shows "al_ok fw s"
  using assms by (simp add: al_ok_def)

section \<open>Each step\<close>

lemma append_fits:
  assumes "length logline < kLargeBuffer" "fb_size b = kLargeBuffer" "int (length logline) < fb_avail b"
  shows "fb_append logline b = Inr (b\<lparr>fb_text := fb_text b @ logline\<rparr>)"
    "length (fb_text b @ logline) < kLargeBuffer"
proof -
  have "to_int32 (length logline) = int (length logline)"
    using assms(1) by (simp add: to_int32_small kLargeBuffer_def)
  with assms show "fb_append logline b = Inr (b\<lparr>fb_text := fb_text b @ logline\<rparr>)"
    "length (fb_text b @ logline) < kLargeBuffer"
    by (simp_all add: fb_append_def fb_avail_def)
qed

lemma al_append_ok:
  assumes "al_ok fw s" "length logline < kLargeBuffer"
  shows "ends (\<lambda>e. False) (al_ok fw) (al_append logline s)"
proof -
  note D = al_okD[OF assms(1)]
  from D(3) obtain cur where cur: "currentBuffer s = Some cur" "fb_size cur = kLargeBuffer"
    "length (fb_text cur) < kLargeBuffer" by (auto simp: fine_def)
  show ?thesis
  proof (cases "fb_avail cur > int (length logline)")
    case True
    with append_fits[OF assms(2) cur(2) True] cur D show ?thesis
      by (auto simp: al_append_def the_ptr_def fine_def written_def logger_ok_def intro!: al_okI split: logger_pc.splits)
  next
    case False
    let ?b = "case nextBuffer s of Some b \<Rightarrow> b | None \<Rightarrow> fb_new kLargeBuffer"
    have b: "?b = fb_new kLargeBuffer" using D(4) by (auto simp: fresh_def)
    have "fb_size (fb_new kLargeBuffer) = kLargeBuffer" "int (length logline) < fb_avail (fb_new kLargeBuffer)"
      using assms(2) by (simp_all add: fb_new_def fb_avail_def)
    with append_fits[OF assms(2) this] False cur D show ?thesis
      by (auto simp: al_append_def the_ptr_def b fine_def written_def logger_ok_def fb_new_def intro!: al_okI
          split: logger_pc.splits)
  qed
qed

lemma al_output_ok:
  assumes "healthy fw" "list_all fine ps"
  shows "\<exists>out'. al_output fw ps out = Inr out' \<and> af_stream (lf_file out') = af_stream (lf_file out) @ texts ps"
  using assms(2)
proof (induction ps arbitrary: out)
  case (Cons p ps)
  then obtain b where p: "p = Some b" by (auto simp: fine_def)
  from Cons obtain out' where "al_output fw ps (lf_append fw (fb_text b) out) = Inr out'"
    "af_stream (lf_file out') = af_stream (lf_file (lf_append fw (fb_text b) out)) @ texts ps" by fastforce
  with p assms(1) show ?case by (simp add: the_ptr_def)
qed simp

lemma refill_ok:
  assumes "list_all fine ps" "fresh p \<or> p = None \<and> ps \<noteq> []"
  shows "\<exists>p' ps'. refill p ps = Inr (p', ps') \<and> fresh p' \<and> list_all fine ps' \<and>
    (if p = None then Suc (length ps') = length ps else ps' = ps)"
proof (cases "p = None")
  case True
  with assms have "ps \<noteq> []" by simp
  then obtain qs q where ps: "ps = qs @ [q]" using rev_exhaust by blast
  with assms(1) True show ?thesis
    by (auto simp: refill_def the_ptr_def fine_def fresh_def fb_reset_def fb_new_def)
next
  case False
  with assms show ?thesis by (auto simp: refill_def)
qed

lemma al_swap_ok:
  assumes "al_ok fw s" "al_pc s = LgLock \<or> al_pc s = LgWait"
  shows "al_ok fw (al_swap s)"
proof -
  note D = al_okD[OF assms(1)]
  have l: "al_latch s = 0" "fresh (newBuffer1 s)" "fresh (newBuffer2 s)" "buffersToWrite s = []"
    using D(2) assms(2) by (auto simp: logger_ok_def)
  show ?thesis
  proof (cases "nextBuffer s = None")
    case True
    with D(4) obtain p ps where "al_buffers s = p # ps" by (cases "al_buffers s") auto
    with D l True show ?thesis
      by (intro al_okI) (auto simp: al_swap_def Let_def logger_ok_def written_def)
  next
    case False
    with D l show ?thesis
      by (intro al_okI) (auto simp: al_swap_def Let_def logger_ok_def written_def)
  qed
qed

lemma al_write_ok:
  assumes "al_ok fw s" "al_pc s = LgWrite"
  shows "ends (\<lambda>e. False) (al_ok fw) (al_write fw s)"
proof -
  note D = al_okD[OF assms(1)]
  have l: "al_latch s = 0" "newBuffer1 s = None" "buffersToWrite s \<noteq> []"
    "fresh (newBuffer2 s) \<or> newBuffer2 s = None \<and> length (buffersToWrite s) \<ge> 2"
    using D(2) assms(2) by (auto simp: logger_ok_def)
  define many where "many \<longleftrightarrow> length (buffersToWrite s) > 25"
  define ps where "ps = (if many then take 2 (buffersToWrite s) else buffersToWrite s)"
  define ps1 where "ps1 = (if length ps > 10 then take 2 ps else ps)"
  have f: "list_all fine ps" "list_all fine ps1"
    using D(6) by (auto simp: ps_def ps1_def list_all_iff dest: in_set_takeD)
  have len: "length ps1 = (if length (buffersToWrite s) > 10 then 2 else length (buffersToWrite s))"
    by (simp add: ps1_def ps_def many_def)
  from al_output_ok[OF D(1) f(1), of "al_out s"] obtain out where
    out: "al_output fw ps (al_out s) = Inr out" "af_stream (lf_file out) = written s @ texts ps"
    by (auto simp: written_def)
  have "ps1 \<noteq> []" using len l(3) by (auto split: if_splits)
  with refill_ok[OF f(2), of None] obtain p1 ps2 where
    r1: "refill None ps1 = Inr (p1, ps2)" "fresh p1" "list_all fine ps2" "Suc (length ps2) = length ps1" by auto
  have "fresh (newBuffer2 s) \<or> newBuffer2 s = None \<and> ps2 \<noteq> []" using l(4) r1(4) len by (auto split: if_splits)
  with refill_ok[OF r1(3), of "newBuffer2 s"] obtain p2 ps3 where
    r2: "refill (newBuffer2 s) ps2 = Inr (p2, ps3)" "fresh p2" by blast
  let ?s = "s\<lparr>newBuffer1 := p1, newBuffer2 := p2, buffersToWrite := [], al_out := lf_flush out,
       al_pc := LgTop, al_dropped := al_dropped s \<or> many\<rparr>"
  have "al_write fw s = Inr ?s"
    using l(2,3) out(1) r1(1) r2(1)
    by (cases "length ps > 10") (simp_all add: al_write_def Let_def ps_def[symmetric] many_def[symmetric] ps1_def)
  moreover have "al_ok fw ?s"
    using D l r1 r2 out by (intro al_okI) (auto simp: logger_ok_def written_def all_flushed_def lf_flush_def af_flush_def ps_def)
  ultimately show ?thesis by simp
qed

lemma al_step_ok:
  assumes "al_ok fw s"
  shows "ends (\<lambda>e. False) (al_ok fw) (al_step fw s)"
proof -
  note D = al_okD[OF assms]
  show ?thesis
  proof (cases "al_pc s")
    case LgEnter
    with D show ?thesis
      by (auto simp: al_step_def al_enter_def logger_ok_def written_def fresh_def intro!: al_okI)
  next
    case LgTop
    with D show ?thesis
      by (auto simp: al_step_def al_top_def logger_ok_def written_def all_flushed_def lf_flush_def af_flush_def intro!: al_okI)
  next
    case LgLock
    show ?thesis
    proof (cases "al_buffers s = []")
      case True
      with LgLock D show ?thesis
        by (auto simp: al_step_def al_lock_def logger_ok_def written_def intro!: al_okI)
    next
      case False
      with LgLock al_swap_ok[OF assms] show ?thesis by (simp add: al_step_def al_lock_def)
    qed
  next
    case LgWait
    with al_swap_ok[OF assms] show ?thesis by (simp add: al_step_def)
  next
    case LgWrite
    with al_write_ok[OF assms] show ?thesis by (simp add: al_step_def)
  qed (use assms in \<open>simp add: al_step_def\<close>)
qed

interpretation async_logging: object "al_exec fw" "al_ok fw" al_allowed "\<lambda>e. False" for fw
proof
  fix s x
  assume ok: "al_ok fw s" and a: "al_allowed x"
  show "ends (\<lambda>e. False) (al_ok fw) (al_exec fw s x)"
  proof (cases x)
    case AlStop
    with al_okD[OF ok] show ?thesis
      by (auto simp: al_stop_def logger_ok_def written_def intro!: al_okI split: logger_pc.splits)
  qed (use al_append_ok[OF ok] al_step_ok[OF ok] a in auto)
qed

definition al_begin :: async_log where
  "al_begin = al_start (al_new \<lparr>af_stream = [], af_flushed = 0, af_calls = 0\<rparr>)"

lemma al_begin_ok: "healthy fw \<Longrightarrow> al_ok fw al_begin"
  by (rule al_okI) (auto simp: al_begin_def al_start_def al_new_def logger_ok_def fresh_def fine_def written_def
      lf_new_def fb_new_def kLargeBuffer_def all_flushed_def)

section \<open>What the log promises\<close>

definition appended :: "al_op list \<Rightarrow> string" where
  "appended xs = concat (map (\<lambda>x. case x of AlAppend logline \<Rightarrow> logline | _ \<Rightarrow> []) xs)"

lemma al_step_lines: "al_step fw s = Inr s' \<Longrightarrow> al_lines s' = al_lines s"
  by (auto simp: al_step_def al_enter_def al_top_def al_lock_def al_swap_def al_write_def Let_def
      split: logger_pc.splits if_splits prod.splits)

lemma al_exec_lines: "al_exec fw s x = Inr s' \<Longrightarrow> al_lines s' = al_lines s @ appended [x]"
  by (cases x) (auto simp: appended_def al_append_def al_stop_def al_step_lines split: if_splits)

lemma run_lines: "run_ops (al_exec fw) s xs = Inr s' \<Longrightarrow> al_lines s' = al_lines s @ appended xs"
  by (induction xs arbitrary: s) (fastforce simp: appended_def dest: al_exec_lines)+

lemma al_run:
  assumes "healthy fw" "list_all al_allowed xs"
  obtains s where "run_ops (al_exec fw) al_begin xs = Inr s" "al_ok fw s"
  using async_logging.run_safe[OF al_begin_ok[OF assms(1)] assms(2)]
  by (cases "run_ops (al_exec fw) al_begin xs") auto

text \<open>
  C19: However the threads that log, the logging thread and a stop are interleaved, no assert
  fails, no null pointer is used, and as long as the logging thread never found more than 25
  buffers the appended lines are, in order and whole, the bytes in the file, then those being
  written, then those in the full buffers and in the current one.
\<close>

theorem async_log_stream:
  assumes "healthy fw" "list_all al_allowed xs"
  shows "\<exists>s. run_ops (al_exec fw) al_begin xs = Inr s \<and>
    (\<not> al_dropped s \<longrightarrow> appended xs =
       written s @ texts (buffersToWrite s) @ texts (al_buffers s) @ text_of (currentBuffer s))"
proof -
  from al_run[OF assms] obtain s where s: "run_ops (al_exec fw) al_begin xs = Inr s" "al_ok fw s" .
  from run_lines[OF s(1)] have "al_lines s = appended xs" by (simp add: al_begin_def al_start_def al_new_def)
  with s al_okD(7)[OF s(2)] show ?thesis by auto
qed

text \<open>One round of the logging thread: the line is in the file.\<close>

definition one_round :: "al_op list" where
  "one_round = [AlStep, AlAppend ''a'', AlStep, AlStep, AlAppend ''b'', AlStep, AlStep]"

lemmas round_simps = al_begin_def al_start_def al_new_def al_append_def al_stop_def al_step_def al_enter_def
  al_top_def al_lock_def al_swap_def al_write_def the_ptr_def refill_def al_empty_def fb_new_def fb_append_def
  fb_avail_def fb_length_def fb_reset_def to_int32_small kLargeBuffer_def lf_new_def written_def text_of_def

theorem async_log_stream_witness:
  "\<exists>s. run_ops (al_exec (\<lambda>k n. n)) al_begin one_round = Inr s \<and>
    appended one_round = ''ab'' \<and> written s = ''ab''"
proof -
  have h: "healthy (\<lambda>k n. n)" "list_all al_allowed one_round"
    by (simp_all add: healthy_def one_round_def kLargeBuffer_def)
  from async_log_stream[OF h] obtain s where s: "run_ops (al_exec (\<lambda>k n. n)) al_begin one_round = Inr s"
    "\<not> al_dropped s \<longrightarrow> appended one_round =
       written s @ texts (buffersToWrite s) @ texts (al_buffers s) @ text_of (currentBuffer s)" by blast
  have "\<not> al_dropped s \<and> buffersToWrite s = [] \<and> al_buffers s = [] \<and> text_of (currentBuffer s) = []"
    using s(1) by (auto simp: one_round_def round_simps)
  moreover have "appended one_round = ''ab''" by (simp add: one_round_def appended_def)
  ultimately show ?thesis using s by auto
qed

text \<open>How many steps a stopped logging thread has left.\<close>

fun steps_left :: "logger_pc \<Rightarrow> nat" where
  "steps_left LgEnd = 0"
| "steps_left LgTop = 1"
| "steps_left LgWrite = 2"
| "steps_left LgWait = 3"
| "steps_left _ = 4"

lemma stopped_logger:
  assumes "al_ok fw s" "\<not> al_running s"
  shows "\<exists>s'. al_step fw s = Inr s' \<and> al_ok fw s' \<and> \<not> al_running s' \<and>
    steps_left (al_pc s') \<le> steps_left (al_pc s) - 1"
proof -
  from al_step_ok[OF assms(1)] obtain s' where s': "al_step fw s = Inr s'" "al_ok fw s'"
    by (cases "al_step fw s") auto
  have "al_pc s \<noteq> LgEnter" using al_okD(2)[OF assms(1)] assms(2) by (auto simp: logger_ok_def)
  with s' assms(2) show ?thesis
    by (auto simp: al_step_def al_top_def al_lock_def al_swap_def al_write_def Let_def
        split: logger_pc.splits if_splits prod.splits)
qed

lemma stopped_run:
  "al_ok fw s \<Longrightarrow> \<not> al_running s \<Longrightarrow> steps_left (al_pc s) \<le> n \<Longrightarrow>
   \<exists>s'. run_ops (al_exec fw) s (replicate n AlStep) = Inr s' \<and> al_ok fw s' \<and> al_pc s' = LgEnd"
proof (induction n arbitrary: s)
  case 0
  then show ?case by (cases "al_pc s") auto
next
  case (Suc n)
  from stopped_logger[OF Suc.prems(1,2)] obtain s' where
    "al_step fw s = Inr s'" "al_ok fw s'" "\<not> al_running s'" "steps_left (al_pc s') \<le> n"
    using Suc.prems(3) by fastforce
  with Suc.IH show ?case by simp
qed

text \<open>
  stop() returns: once the log is stopped, four steps of the logging thread bring it to its
  end, wherever it was, and what it wrote has been flushed.
\<close>

theorem async_log_stops:
  assumes "healthy fw" "list_all al_allowed xs" "run_ops (al_exec fw) al_begin xs = Inr s" "\<not> al_running s"
  shows "\<exists>s'. run_ops (al_exec fw) s (replicate 4 AlStep) = Inr s' \<and> al_pc s' = LgEnd \<and> all_flushed (al_out s')"
proof -
  have ok: "al_ok fw s" by (rule async_logging.run_safe_inv[OF al_begin_ok[OF assms(1)] assms(2,3)])
  have "steps_left (al_pc s) \<le> 4" by (cases "al_pc s") simp_all
  from stopped_run[OF ok assms(4) this] show ?thesis
    by (auto dest!: al_okD(2) simp: logger_ok_def)
qed

theorem async_log_stops_witness:
  "\<exists>s s'. run_ops (al_exec (\<lambda>k n. n)) al_begin (one_round @ [AlStop]) = Inr s \<and>
    run_ops (al_exec (\<lambda>k n. n)) s (replicate 4 AlStep) = Inr s' \<and> al_pc s' = LgEnd"
proof -
  have h: "healthy (\<lambda>k n. n)" "list_all al_allowed (one_round @ [AlStop])"
    by (simp_all add: healthy_def one_round_def kLargeBuffer_def)
  from al_run[OF h] obtain s where s: "run_ops (al_exec (\<lambda>k n. n)) al_begin (one_round @ [AlStop]) = Inr s" .
  then have "\<not> al_running s" by (auto simp: one_round_def round_simps)
  from async_log_stops[OF h s this] s show ?thesis by blast
qed

text \<open>
  stop() may lose lines: what was appended after the logging thread took the buffers stays in
  memory when the thread ends.
\<close>

theorem stop_loses_lines:
  "\<exists>s. run_ops (al_exec (\<lambda>k n. n)) al_begin [AlStep, AlAppend ''a'', AlStop, AlStep] = Inr s \<and>
    al_pc s = LgEnd \<and> written s = [] \<and> text_of (currentBuffer s) = ''a''"
  by (simp add: round_simps)

end
