(* ===== verification/Logging.thy ===== *)
theory Logging
  imports AsyncLogging Timer
begin

text \<open>
  base/Logging.h, base/Logging.cc (and the cached thread identifier of base/Thread.cc): one log
  statement builds its line in a \<^verbatim>\<open>Logger\<close> and appends it to the log when the object dies.
  \<open>time\<close> is the text \<^verbatim>\<open>strftime\<close> made, \<open>fmt12g\<close> prints doubles.
\<close>

section \<open>Levels\<close>

datatype log_level = TRACE | DEBUG | INFO | ERROR | FATAL




section \<open>A log statement\<close>

text \<open>
  \<^verbatim>\<open>formatTime\<close>: \<^verbatim>\<open>strftime\<close> with the format \<open>%Y-%m-%d %H:%M:%S\<close> and a blank, into 26 bytes. When the text does
  not fit, the contents are unspecified (\<open>junk\<close>).
\<close>

definition formatTime :: "(int \<Rightarrow> tm) \<Rightarrow> string \<Rightarrow> int \<Rightarrow> string" where
  "formatTime localtime junk tv_sec =
     (let d = localtime tv_sec;
          text = convert (tm_year d + 1900) @ ''-'' @ pad0 2 (tm_mon d + 1) @ ''-'' @ pad0 2 (tm_mday d) @ '' '' @
            pad0 2 (tm_hour d) @ '':'' @ pad0 2 (tm_min d) @ '':'' @ pad0 2 (tm_sec d) @ '' ''
      in if length text < 26 then text else junk)"

lemma formatTime_fits:
  assumes "tm_ok (localtime t)"
  shows "length (formatTime localtime junk t) = 20 \<and>
    field 0 4 (formatTime localtime junk t) = tm_year (localtime t) + 1900 \<and>
    field 17 2 (formatTime localtime junk t) = tm_sec (localtime t)"
proof -
  note ok = assms[unfolded tm_ok_def]
  note y = four_digits[of "tm_year (localtime t) + 1900"] parse_int_convert[of "tm_year (localtime t) + 1900"]
  have two: "length (pad0 2 v) = 2 \<and> parse_int (pad0 2 v) = v" if "0 \<le> v" "v < 100" for v
    using pad0_digits[of v 2] that by simp
  have l: "length (convert (tm_year (localtime t) + 1900)) = 4" using y ok by simp
  show ?thesis using ok l y(3) two
    by (simp add: formatTime_def Let_def field_here field_there field_Cons)
qed





section \<open>Statements and the log\<close>





section \<open>Where the lines go\<close>

text \<open>
  \<open>g_output\<close> is the function every line is given to: \<^verbatim>\<open>output\<close>, which makes the asynchronous log when
  it is first called, or one that was set, here \<^verbatim>\<open>defaultOutput\<close>, which writes to \<^verbatim>\<open>stdout\<close>.
\<close>

datatype output_func = AsyncOutput | DefaultOutput

record log_system =
  g_output :: output_func
  AsyncLogger :: "async_log option"
  stdout_text :: string

definition log_system_new :: log_system where
  "log_system_new = \<lparr>g_output = AsyncOutput, AsyncLogger = None, stdout_text = []\<rparr>"

definition setOutput :: "output_func \<Rightarrow> log_system \<Rightarrow> log_system" where
  "setOutput out s = s\<lparr>g_output := out\<rparr>"

definition once_init :: "log_system \<Rightarrow> log_system" where
  "once_init s = s\<lparr>AsyncLogger := Some al_begin\<rparr>"

definition async_output :: "string \<Rightarrow> log_system \<Rightarrow> log_system res" where
  "async_output msg s =
     (let s1 = (if AsyncLogger s = None then once_init s else s) in
      case AsyncLogger s1 of None \<Rightarrow> Inl NullDeref
      | Some a \<Rightarrow> bindR (al_append msg a) (\<lambda>a1. Inr (s1\<lparr>AsyncLogger := Some a1\<rparr>)))"

definition defaultOutput :: "string \<Rightarrow> log_system \<Rightarrow> log_system" where
  "defaultOutput msg s = s\<lparr>stdout_text := stdout_text s @ msg\<rparr>"

text \<open>The destructor of \<^verbatim>\<open>Logger\<close>, with the line its stream holds. A fatal line flushes the log and aborts.\<close>

definition logger_destroy :: "log_level \<Rightarrow> string \<Rightarrow> log_system \<Rightarrow> log_system res" where
  "logger_destroy level line s =
     bindR (case g_output s of AsyncOutput \<Rightarrow> async_output line s
            | DefaultOutput \<Rightarrow> Inr (defaultOutput line s)) (\<lambda>s1.
     if level = FATAL
     then (case AsyncLogger s1 of None \<Rightarrow> Inl NullDeref | Some a \<Rightarrow> Inl FatalAbort)
     else Inr s1)"

text \<open>With the asynchronous log this is what a log statement does to the log, made if need be.\<close>

theorem logger_destroy_async:
  "g_output s = AsyncOutput \<Longrightarrow>
   logger_destroy level line s =
     bindR (al_append line (case AsyncLogger s of None \<Rightarrow> al_begin | Some a \<Rightarrow> a)) (\<lambda>a.
     if level = FATAL then Inl FatalAbort else Inr (s\<lparr>AsyncLogger := Some a\<rparr>))"
  by (cases "AsyncLogger s"; cases "al_append line (case AsyncLogger s of None \<Rightarrow> al_begin | Some a \<Rightarrow> a)")
    (simp_all add: logger_destroy_def async_output_def once_init_def Let_def)

text \<open>
  A fatal line is written before the program ends only with the asynchronous log: when the output
  was set to another function before the first line, the destructor takes the flush through a
  null pointer, whatever was logged before.
\<close>

theorem fatal_without_log:
  assumes "g_output s = DefaultOutput" "AsyncLogger s = None" "level \<noteq> FATAL"
  shows "\<exists>s'. logger_destroy level line s = Inr s' \<and> stdout_text s' = stdout_text s @ line \<and>
    logger_destroy FATAL line' s' = Inl NullDeref"
  using assms by (simp add: logger_destroy_def defaultOutput_def)

theorem fatal_without_log_witness:
  "\<exists>s'. logger_destroy INFO ''a'' (setOutput DefaultOutput log_system_new) = Inr s' \<and>
     logger_destroy FATAL ''b'' s' = Inl NullDeref"
  using fatal_without_log[of "setOutput DefaultOutput log_system_new" INFO "''a''" "''b''"]
  by (auto simp: setOutput_def log_system_new_def)

end
