(* ===== verification/Threads.thy ===== *)
theory Threads
  imports Contracts
begin

text \<open>
  base/Thread.h, base/Thread.cc, base/CountDownLatch.h, base/CountDownLatch.cc,
  net/EventLoopThread.h, net/EventLoopThread.cc: a thread with an event loop, made, started and
  ended by its owner. Each operation is what one of the two threads does until it has to wait or
  lets the other see a change; a run is the sequence of these in the order in which they happen.
  A thread that has to wait stays where it is. Of the loop itself there is the flag that ends it
  (\<open>EventLoop\<close> has the rest).
\<close>

section \<open>State\<close>

text \<open>
  Where the owner is: the object is new; in \<^verbatim>\<open>Thread::start\<close> at the latch; in \<^verbatim>\<open>startLoop\<close> at the
  condition; it has the loop; in \<^verbatim>\<open>EventLoop::quit\<close> between setting the flag and \<^verbatim>\<open>wakeup()\<close>, which it
  called itself or from the destructor (\<open>True\<close>); in the destructor at the join; the object is gone.
\<close>

datatype owner_pc = OwNew | OwLatch | OwCond | OwHas | OwQuit bool | OwJoin | OwGone

text \<open>
  Where the thread is: not created, at its beginning, its identifier stored, in \<^verbatim>\<open>threadFunc\<close>
  before the loop is constructed, before the pointer is published, before \<^verbatim>\<open>loop.loop()\<close>, in
  there, ended.
\<close>

datatype child_pc = ChNone | ChBegin | ChTid | ChFunc | ChPublish | ChEnter | ChLoop | ChEnd

record loop_thread =
  th_started :: bool
  th_joined :: bool
  th_tid :: int
  latch_count :: int
  loop_set :: bool
  loop_alive :: bool
  loop_quit :: bool
  th_exiting :: bool
  owner :: owner_pc
  child :: child_pc

definition elt_new :: loop_thread where
  "elt_new = \<lparr>th_started = False, th_joined = False, th_tid = 0, latch_count = 1, loop_set = False,
     loop_alive = False, loop_quit = False, th_exiting = False, owner = OwNew, child = ChNone\<rparr>"

section \<open>The owner\<close>

text \<open>\<open>created\<close> is whether \<^verbatim>\<open>pthread_create\<close> succeeded.\<close>

definition thread_start :: "bool \<Rightarrow> loop_thread \<Rightarrow> loop_thread res" where
  "thread_start created s =
     bindR (assertR (\<not> th_started s)) (\<lambda>_.
     if created then Inr (s\<lparr>th_started := True, child := ChBegin, owner := OwLatch\<rparr>)
     else Inr (s\<lparr>th_started := False, owner := OwCond\<rparr>))"

definition startLoop :: "bool \<Rightarrow> loop_thread \<Rightarrow> loop_thread res" where
  "startLoop created s = bindR (assertR (\<not> th_started s)) (\<lambda>_. thread_start created s)"

definition latch_wait :: "loop_thread \<Rightarrow> loop_thread res" where
  "latch_wait s =
     (if latch_count s > 0 then Inr s
      else bindR (assertR (th_tid s > 0)) (\<lambda>_. Inr (s\<lparr>owner := OwCond\<rparr>)))"

definition loop_wait :: "loop_thread \<Rightarrow> loop_thread" where
  "loop_wait s = (if loop_set s then s\<lparr>owner := OwHas\<rparr> else s)"

definition thread_join :: "loop_thread \<Rightarrow> loop_thread res" where
  "thread_join s =
     bindR (assertR (th_started s)) (\<lambda>_.
     bindR (assertR (\<not> th_joined s)) (\<lambda>_.
     Inr (s\<lparr>th_joined := True, owner := OwJoin\<rparr>)))"

text \<open>
  \<^verbatim>\<open>loop_->quit()\<close>, through the pointer, is two accesses to the loop: it sets the flag and, in a
  thread that is not the loop's, calls \<^verbatim>\<open>wakeup()\<close>, which reads the descriptor of the eventfd. In between
  the loop may have seen the flag. The destructor joins the thread then.
\<close>

definition use_loop :: "loop_thread \<Rightarrow> unit res" where
  "use_loop s = (if \<not> loop_set s then Inl NullDeref else if \<not> loop_alive s then Inl UseAfterFree else Inr ())"

definition quit_loop :: "bool \<Rightarrow> loop_thread \<Rightarrow> loop_thread res" where
  "quit_loop dtor s = bindR (use_loop s) (\<lambda>_. Inr (s\<lparr>loop_quit := True, owner := OwQuit dtor\<rparr>))"

definition quit_wakeup :: "bool \<Rightarrow> loop_thread \<Rightarrow> loop_thread res" where
  "quit_wakeup dtor s =
     bindR (use_loop s) (\<lambda>_. if dtor then thread_join s else Inr (s\<lparr>owner := OwHas\<rparr>))"

definition elt_destroy :: "loop_thread \<Rightarrow> loop_thread res" where
  "elt_destroy s = quit_loop True (s\<lparr>th_exiting := True\<rparr>)"

definition owner_step :: "bool \<Rightarrow> loop_thread \<Rightarrow> loop_thread res" where
  "owner_step created s = (case owner s of
       OwNew \<Rightarrow> startLoop created s
     | OwLatch \<Rightarrow> latch_wait s
     | OwCond \<Rightarrow> Inr (loop_wait s)
     | OwQuit dtor \<Rightarrow> quit_wakeup dtor s
     | OwJoin \<Rightarrow> Inr (if child s = ChEnd then s\<lparr>owner := OwGone\<rparr> else s)
     | _ \<Rightarrow> Inr s)"

section \<open>The thread\<close>

definition countDown :: "loop_thread \<Rightarrow> loop_thread" where
  "countDown s = s\<lparr>latch_count := latch_count s - 1\<rparr>"

text \<open>
  \<open>tid\<close> is what the kernel says. \<^verbatim>\<open>loop()\<close> sets the flag to false before it looks at it; the
  loop dies with the stack frame of \<^verbatim>\<open>threadFunc\<close>.
\<close>

definition child_step :: "int \<Rightarrow> loop_thread \<Rightarrow> loop_thread" where
  "child_step tid s = (case child s of
       ChBegin \<Rightarrow> s\<lparr>th_tid := tid, child := ChTid\<rparr>
     | ChTid \<Rightarrow> (countDown s)\<lparr>child := ChFunc\<rparr>
     | ChFunc \<Rightarrow> s\<lparr>loop_alive := True, loop_quit := False, child := ChPublish\<rparr>
     | ChPublish \<Rightarrow> s\<lparr>loop_set := True, child := ChEnter\<rparr>
     | ChEnter \<Rightarrow> s\<lparr>loop_quit := False, child := ChLoop\<rparr>
     | ChLoop \<Rightarrow> (if loop_quit s then s\<lparr>loop_alive := False, child := ChEnd\<rparr> else s)
     | _ \<Rightarrow> s)"

datatype elt_op = EltOwner bool | EltChild int | EltDestroy | EltQuit

text \<open>
  The owner destroys the object when it is in no other call of it, also if it never started it. The
  pointer that startLoop returned lets the owner end the loop itself.
\<close>

fun elt_exec :: "loop_thread \<Rightarrow> elt_op \<Rightarrow> loop_thread res" where
  "elt_exec s (EltOwner created) = owner_step created s"
| "elt_exec s (EltChild tid) = Inr (child_step tid s)"
| "elt_exec s EltDestroy = (if owner s \<in> {OwNew, OwHas} then elt_destroy s else Inr s)"
| "elt_exec s EltQuit = (if owner s = OwHas then quit_loop False s else Inr s)"

text \<open>Thread identifiers are positive.\<close>

fun elt_allowed :: "elt_op \<Rightarrow> bool" where
  "elt_allowed (EltChild tid) \<longleftrightarrow> tid > 0"
| "elt_allowed _ \<longleftrightarrow> True"

section \<open>Invariant\<close>

fun progress :: "child_pc \<Rightarrow> nat" where
  "progress ChNone = 0"
| "progress ChBegin = 1"
| "progress ChTid = 2"
| "progress ChFunc = 3"
| "progress ChPublish = 4"
| "progress ChEnter = 5"
| "progress ChLoop = 6"
| "progress ChEnd = 7"

definition elt_ok :: "loop_thread \<Rightarrow> bool" where
  "elt_ok s \<longleftrightarrow>
     (th_started s \<longleftrightarrow> child s \<noteq> ChNone) \<and>
     (2 \<le> progress (child s) \<longrightarrow> th_tid s > 0) \<and>
     latch_count s = (if 3 \<le> progress (child s) then 0 else 1) \<and>
     (loop_alive s \<longleftrightarrow> 4 \<le> progress (child s) \<and> child s \<noteq> ChEnd) \<and>
     (loop_set s \<longleftrightarrow> 5 \<le> progress (child s)) \<and>
     (owner s = OwNew \<longrightarrow> child s = ChNone) \<and>
     (owner s \<in> {OwHas, OwQuit True, OwQuit False, OwJoin, OwGone} \<longrightarrow> loop_set s) \<and>
     (th_joined s \<longleftrightarrow> owner s \<in> {OwJoin, OwGone}) \<and>
     (owner s = OwCond \<longrightarrow> latch_count s = 0 \<or> child s = ChNone) \<and>
     (owner s = OwLatch \<longrightarrow> child s \<noteq> ChNone) \<and>
     (owner s = OwGone \<longrightarrow> child s = ChEnd)"

lemma elt_okD:
  assumes "elt_ok s"
  shows "th_started s \<longleftrightarrow> child s \<noteq> ChNone" "2 \<le> progress (child s) \<Longrightarrow> th_tid s > 0"
    "3 \<le> progress (child s) \<Longrightarrow> latch_count s = 0"
    "loop_alive s \<longleftrightarrow> 4 \<le> progress (child s) \<and> child s \<noteq> ChEnd" "loop_set s \<longleftrightarrow> 5 \<le> progress (child s)"
    "owner s \<in> {OwHas, OwQuit True, OwQuit False} \<Longrightarrow> loop_set s \<and> \<not> th_joined s" "owner s = OwGone \<Longrightarrow> child s = ChEnd"
    "owner s = OwNew \<Longrightarrow> child s = ChNone"
proof -
  note A = assms[unfolded elt_ok_def]
  show "th_started s \<longleftrightarrow> child s \<noteq> ChNone" "2 \<le> progress (child s) \<Longrightarrow> th_tid s > 0"
    "loop_alive s \<longleftrightarrow> 4 \<le> progress (child s) \<and> child s \<noteq> ChEnd"
    "loop_set s \<longleftrightarrow> 5 \<le> progress (child s)" "owner s = OwGone \<Longrightarrow> child s = ChEnd"
    "owner s = OwNew \<Longrightarrow> child s = ChNone"
    using A by blast+
  show "3 \<le> progress (child s) \<Longrightarrow> latch_count s = 0" using A by presburger
  assume o: "owner s \<in> {OwHas, OwQuit True, OwQuit False}"
  from A have "owner s \<in> {OwHas, OwQuit True, OwQuit False, OwJoin, OwGone} \<longrightarrow> loop_set s"
    "th_joined s \<longleftrightarrow> owner s \<in> {OwJoin, OwGone}" by blast+
  with o show "loop_set s \<and> \<not> th_joined s" by auto
qed

lemma use_loop_ok:
  assumes "elt_ok s"
  shows "use_loop s = (if progress (child s) < 5 then Inl NullDeref else if child s = ChEnd then Inl UseAfterFree else Inr ())"
  using elt_okD(4,5)[OF assms] by (cases "child s") (auto simp: use_loop_def)

text \<open>
  The ways to fail: the object is destroyed and was never started; or the loop has ended, and the
  owner uses it in the destructor or in quit.
\<close>

definition elt_misuse :: "loop_thread \<Rightarrow> elt_op \<Rightarrow> err \<Rightarrow> bool" where
  "elt_misuse s x e \<longleftrightarrow>
     x = EltDestroy \<and> owner s = OwNew \<and> e = NullDeref \<or>
     child s = ChEnd \<and> e = UseAfterFree \<and>
       (x \<in> {EltDestroy, EltQuit} \<and> owner s = OwHas \<or> (\<exists>created. x = EltOwner created) \<and> (\<exists>b. owner s = OwQuit b))"

lemma elt_child_ok: "elt_ok s \<Longrightarrow> tid > 0 \<Longrightarrow> elt_ok (child_step tid s)"
  by (cases "child s") (auto simp: elt_ok_def child_step_def countDown_def)

lemma elt_quit_ok:
  assumes "elt_ok s" "owner s = OwHas"
  shows "ends (\<lambda>e. child s = ChEnd \<and> e = UseAfterFree) elt_ok (quit_loop b s)"
    "ends (\<lambda>e. child s = ChEnd \<and> e = UseAfterFree) elt_ok (elt_destroy s)"
proof -
  have "5 \<le> progress (child s)" using elt_okD(5,6)[OF assms(1)] assms(2) by simp
  moreover have "use_loop (s\<lparr>th_exiting := True\<rparr>) = use_loop s" by (simp add: use_loop_def)
  moreover have "elt_ok (s\<lparr>loop_quit := True, owner := OwQuit b\<rparr>)"
    "elt_ok (s\<lparr>th_exiting := True, loop_quit := True, owner := OwQuit b\<rparr>)" for b
    using assms by (cases b; simp add: elt_ok_def)+
  ultimately show "ends (\<lambda>e. child s = ChEnd \<and> e = UseAfterFree) elt_ok (quit_loop b s)"
    "ends (\<lambda>e. child s = ChEnd \<and> e = UseAfterFree) elt_ok (elt_destroy s)"
    using use_loop_ok[OF assms(1)] by (simp_all add: elt_destroy_def quit_loop_def)
qed

lemma elt_wakeup_ok:
  assumes "elt_ok s" "owner s = OwQuit b"
  shows "ends (\<lambda>e. child s = ChEnd \<and> e = UseAfterFree) elt_ok (quit_wakeup b s)"
proof -
  have s: "loop_set s" "\<not> th_joined s" using elt_okD(6)[OF assms(1)] assms(2) by (cases b; simp)+
  then have p: "5 \<le> progress (child s)" using elt_okD(5)[OF assms(1)] by simp
  then have "th_started s" using elt_okD(1)[OF assms(1)] by (cases "child s") simp_all
  moreover have "elt_ok (s\<lparr>owner := OwHas\<rparr>)" "elt_ok (s\<lparr>th_joined := True, owner := OwJoin\<rparr>)"
    using assms s by (auto simp: elt_ok_def)
  ultimately show ?thesis using use_loop_ok[OF assms(1)] p s(2)
    by (simp add: quit_wakeup_def thread_join_def)
qed

lemma elt_exec_ok:
  assumes "elt_ok s" "elt_allowed x"
  shows "ends (elt_misuse s x) elt_ok (elt_exec s x)"
proof (cases x)
  case (EltOwner created)
  show ?thesis
  proof (cases "owner s")
    case (OwQuit b)
    have "ends (elt_misuse s x) elt_ok (quit_wakeup b s)"
      using elt_wakeup_ok[OF assms(1) OwQuit] EltOwner OwQuit
      by (cases "quit_wakeup b s") (auto simp: elt_misuse_def)
    then show ?thesis using EltOwner OwQuit by (simp add: owner_step_def)
  qed (use assms(1) EltOwner in \<open>(cases "child s";
      auto simp: elt_ok_def owner_step_def startLoop_def thread_start_def latch_wait_def loop_wait_def)+\<close>)
next
  case EltDestroy
  show ?thesis
  proof (cases "owner s = OwNew")
    case True
    then have "child s = ChNone" using elt_okD(8)[OF assms(1)] by simp
    then have "use_loop s = Inl NullDeref" using use_loop_ok[OF assms(1)] by simp
    then have "use_loop (s\<lparr>th_exiting := True\<rparr>) = Inl NullDeref" by (simp add: use_loop_def split: if_splits)
    with True EltDestroy show ?thesis by (simp add: elt_destroy_def quit_loop_def elt_misuse_def)
  next
    case False
    with elt_quit_ok(2)[OF assms(1)] EltDestroy assms(1) show ?thesis
      by (cases "elt_destroy s") (auto simp: elt_misuse_def)
  qed
next
  case EltQuit
  with elt_quit_ok(1)[OF assms(1), of False] assms(1) show ?thesis
    by (cases "quit_loop False s") (auto simp: elt_misuse_def)
qed (use assms elt_child_ok in simp)

interpretation loop_threads: object elt_exec elt_ok elt_allowed "\<lambda>e. e = NullDeref \<or> e = UseAfterFree"
proof
  fix s x
  assume "elt_ok s" "elt_allowed x"
  from elt_exec_ok[OF this] show "ends (\<lambda>e. e = NullDeref \<or> e = UseAfterFree) elt_ok (elt_exec s x)"
    by (cases "elt_exec s x") (auto simp: elt_misuse_def)
qed

text \<open>As long as nobody has told it to quit the loop is alive.\<close>

definition unquit :: "loop_thread \<Rightarrow> bool" where
  "unquit s \<longleftrightarrow> elt_ok s \<and> (owner s \<in> {OwNew, OwLatch, OwCond, OwHas} \<longrightarrow> \<not> loop_quit s \<and> child s \<noteq> ChEnd) \<and>
     owner s \<noteq> OwQuit False"

lemma unquit_step:
  assumes "unquit s" "elt_allowed x" "x \<noteq> EltQuit" "elt_exec s x = Inr s'"
  shows "unquit s'"
proof -
  have ok: "elt_ok s'" using loop_threads.exec_safe[of s x] assms by (simp add: unquit_def)
  note u = assms(1)[unfolded unquit_def]
  let ?good = "\<lambda>s. (owner s \<in> {OwNew, OwLatch, OwCond, OwHas} \<longrightarrow> \<not> loop_quit s \<and> child s \<noteq> ChEnd) \<and> owner s \<noteq> OwQuit False"
  have "?good s'"
  proof (cases x)
    case (EltOwner created)
    then have run: "owner_step created s = Inr s'" using assms(4) by simp
    show ?thesis
    proof (cases "owner s")
      case OwNew
      with run u show ?thesis
        by (cases created) (auto simp: owner_step_def startLoop_def thread_start_def assertR_def split: if_splits)
    next
      case OwLatch
      with run u show ?thesis by (auto simp: owner_step_def latch_wait_def split: if_splits)
    next
      case (OwQuit b)
      with run u show ?thesis by (auto simp: owner_step_def quit_wakeup_def thread_join_def)
    qed (use run u in \<open>auto simp: owner_step_def loop_wait_def split: if_splits\<close>)
  next
    case (EltChild tid)
    then have s': "s' = child_step tid s" using assms(4) by simp
    have "owner s' = owner s" by (cases "child s") (simp_all add: s' child_step_def countDown_def)
    moreover have "\<not> loop_quit s \<Longrightarrow> child s \<noteq> ChEnd \<Longrightarrow> \<not> loop_quit s' \<and> child s' \<noteq> ChEnd"
      by (cases "child s") (simp_all add: s' child_step_def countDown_def)
    ultimately show ?thesis using u by simp
  next
    case EltDestroy
    show ?thesis
    proof (cases "owner s \<in> {OwNew, OwHas}")
      case True
      then have "quit_loop True (s\<lparr>th_exiting := True\<rparr>) = Inr s'" using assms(4) EltDestroy by (simp add: elt_destroy_def)
      then have "owner s' = OwQuit True" by (auto simp: quit_loop_def)
      then show ?thesis by simp
    next
      case False
      then have "s' = s" using assms(4) EltDestroy by simp
      then show ?thesis using u by simp
    qed
  qed (use assms(3) in simp)
  with ok show ?thesis by (simp add: unquit_def)
qed

lemma unquit_run:
  "unquit s \<Longrightarrow> list_all elt_allowed xs \<Longrightarrow> EltQuit \<notin> set xs \<Longrightarrow> run_ops elt_exec s xs = Inr s' \<Longrightarrow> unquit s'"
proof (induction xs arbitrary: s)
  case (Cons x xs)
  then obtain t where t: "elt_exec s x = Inr t" "run_ops elt_exec t xs = Inr s'" by auto
  have "unquit t" by (rule unquit_step[OF Cons.prems(1) _ _ t(1)]) (use Cons.prems in auto)
  with Cons t(2) show ?case by simp
qed simp

lemma elt_new_ok: "elt_ok elt_new"
  by (simp add: elt_ok_def elt_new_def)

lemma elt_new_unquit: "unquit elt_new"
  using elt_new_ok by (simp add: unquit_def) (simp add: elt_new_def)

lemma elt_run: "list_all elt_allowed xs \<Longrightarrow> run_ops elt_exec elt_new xs = Inr s \<Longrightarrow> elt_ok s"
  using loop_threads.run_safe_inv[OF elt_new_ok] .

section \<open>What startLoop promises\<close>

text \<open>A thread that was created can always go on until it is in its loop.\<close>

lemma child_progress:
  assumes "child s \<noteq> ChNone" "progress (child s) < 5"
  shows "progress (child (child_step tid s)) = Suc (progress (child s)) \<and> owner (child_step tid s) = owner s"
  using assms by (cases "child s") (simp_all add: child_step_def countDown_def)

lemma child_run:
  "elt_ok s \<Longrightarrow> child s \<noteq> ChNone \<Longrightarrow> n + progress (child s) \<ge> 5 \<Longrightarrow> progress (child s) \<le> 5 \<Longrightarrow>
   \<exists>m s'. m \<le> n \<and> run_ops elt_exec s (replicate m (EltChild 1)) = Inr s' \<and> elt_ok s' \<and>
     child s' = ChEnter \<and> owner s' = owner s"
proof (induction n arbitrary: s)
  case 0
  then have "child s = ChEnter" by (cases "child s") auto
  with 0 show ?case by (intro exI[of _ 0] exI[of _ s]) simp
next
  case (Suc n)
  show ?case
  proof (cases "progress (child s) = 5")
    case True
    then have "child s = ChEnter" by (cases "child s") auto
    with Suc.prems show ?thesis by (intro exI[of _ 0] exI[of _ s]) simp
  next
    case False
    with Suc.prems have lt: "progress (child s) < 5" by simp
    note st = child_progress[OF Suc.prems(2) lt, of 1]
    have "child (child_step 1 s) \<noteq> ChNone" using st by (cases "child (child_step 1 s)") auto
    with Suc.IH[of "child_step 1 s"] st Suc.prems lt elt_child_ok[OF Suc.prems(1), of 1] obtain m s' where
      "m \<le> n" "run_ops elt_exec (child_step 1 s) (replicate m (EltChild 1)) = Inr s'" "elt_ok s'"
      "child s' = ChEnter" "owner s' = owner s" by fastforce
    then show ?thesis by (intro exI[of _ "Suc m"] exI[of _ s']) simp
  qed
qed

text \<open>
  C29: However the owner and the new thread are interleaved, with the destructor and with a quit of
  the owner's at any time, no assert fails, and there are three ways in which a null or dead loop
  is used: the object is destroyed and was never started; the owner ended the loop before, and the
  destructor or another quit comes after the thread is at its end; or the thread sees the flag and
  ends between the two accesses of quit to the loop, so that \<^verbatim>\<open>wakeup()\<close> finds it destroyed. In every
  state reached otherwise: when startLoop has returned, the thread knows its identifier and the
  pointer is set, and unless the owner called quit, the loop it points to is alive and not told to
  quit; and when the destructor has returned, the thread is at its end.
\<close>

theorem loop_thread_safe:
  assumes "list_all elt_allowed xs"
  shows "case run_ops elt_exec elt_new xs of
      Inl e \<Rightarrow> \<exists>ys x zs s. xs = ys @ x # zs \<and> run_ops elt_exec elt_new ys = Inr s \<and>
        (x = EltDestroy \<and> owner s = OwNew \<and> e = NullDeref \<or>
         x \<in> {EltDestroy, EltQuit} \<and> owner s = OwHas \<and> child s = ChEnd \<and> EltQuit \<in> set ys \<and> e = UseAfterFree \<or>
         (\<exists>created. x = EltOwner created) \<and> owner s \<in> range OwQuit \<and> child s = ChEnd \<and> e = UseAfterFree)
    | Inr s \<Rightarrow>
        (owner s = OwHas \<longrightarrow> th_tid s > 0 \<and> loop_set s \<and> (EltQuit \<notin> set xs \<longrightarrow> loop_alive s \<and> \<not> loop_quit s)) \<and>
        (owner s = OwGone \<longrightarrow> child s = ChEnd)"
proof (cases "run_ops elt_exec elt_new xs")
  case (Inl e)
  from run_ops_fails[OF this] obtain ys x zs s where
    f: "xs = ys @ x # zs" "run_ops elt_exec elt_new ys = Inr s" "elt_exec s x = Inl e" by blast
  have a: "list_all elt_allowed ys" "elt_allowed x" using assms f(1) by simp_all
  have "elt_misuse s x e" using elt_exec_ok[OF elt_run[OF a(1) f(2)] a(2)] f(3) by simp
  moreover have "EltQuit \<in> set ys" if "owner s = OwHas" "child s = ChEnd"
    using unquit_run[OF elt_new_unquit a(1) _ f(2)] that by (auto simp: unquit_def)
  ultimately have "x = EltDestroy \<and> owner s = OwNew \<and> e = NullDeref \<or>
      x \<in> {EltDestroy, EltQuit} \<and> owner s = OwHas \<and> child s = ChEnd \<and> EltQuit \<in> set ys \<and> e = UseAfterFree \<or>
      (\<exists>created. x = EltOwner created) \<and> owner s \<in> range OwQuit \<and> child s = ChEnd \<and> e = UseAfterFree"
    unfolding elt_misuse_def by blast
  with f(1,2) show ?thesis unfolding Inl sum.case by blast
next
  case (Inr s)
  have ok: "elt_ok s" by (rule elt_run[OF assms Inr])
  note D = elt_okD[OF ok]
  have "th_tid s > 0 \<and> loop_set s" if "owner s = OwHas" using D(2,5,6) that by simp
  moreover have "loop_alive s \<and> \<not> loop_quit s" if "owner s = OwHas" "EltQuit \<notin> set xs"
    using unquit_run[OF elt_new_unquit assms that(2) Inr] D(4-6) that(1) by (simp add: unquit_def)
  ultimately show ?thesis using D(7) Inr by simp
qed

text \<open>The owner starts, the thread comes up, the owner has the loop.\<close>

definition bring_up :: "elt_op list" where
  "bring_up = [EltOwner True, EltChild 7, EltChild 7, EltOwner True, EltChild 7, EltChild 7, EltOwner True]"

lemmas elt_simps = elt_new_def owner_step_def startLoop_def thread_start_def latch_wait_def loop_wait_def
  child_step_def countDown_def elt_destroy_def quit_loop_def quit_wakeup_def use_loop_def thread_join_def

theorem loop_thread_safe_witness:
  "\<exists>s. run_ops elt_exec elt_new bring_up = Inr s \<and> owner s = OwHas \<and> child s = ChEnter \<and> loop_alive s"
proof -
  have "list_all elt_allowed bring_up" by (simp add: bring_up_def)
  moreover obtain s where s: "run_ops elt_exec elt_new bring_up = Inr s" "owner s = OwHas" "child s = ChEnter"
    by (simp add: bring_up_def elt_simps)
  moreover have "EltQuit \<notin> set bring_up" by (simp add: bring_up_def)
  ultimately have "loop_alive s" using loop_thread_safe[of bring_up] by simp
  with s show ?thesis by blast
qed

text \<open>
  startLoop returns: when the thread could be created, at most four steps of the thread and
  two of the owner are left until the owner has the loop, wherever the two are.
\<close>

theorem startLoop_returns:
  assumes "list_all elt_allowed xs" "run_ops elt_exec elt_new xs = Inr s" "th_started s" "owner s \<in> {OwLatch, OwCond}"
  shows "\<exists>m s'. m \<le> 4 \<and> run_ops elt_exec s (replicate m (EltChild 1) @ [EltOwner True, EltOwner True]) = Inr s' \<and>
    owner s' = OwHas"
proof -
  note ok = elt_run[OF assms(1,2)]
  have c: "child s \<noteq> ChNone" using elt_okD(1)[OF ok] assms(3) by simp
  have fin: "\<exists>s''. run_ops elt_exec s' [EltOwner True, EltOwner True] = Inr s'' \<and> owner s'' = OwHas"
    if "elt_ok s'" "5 \<le> progress (child s')" "owner s' \<in> {OwLatch, OwCond}" for s'
  proof -
    have "latch_count s' = 0" "th_tid s' > 0" "loop_set s'" using elt_okD(2,3,5)[OF that(1)] that(2) by simp_all
    with that(3) show ?thesis by (elim insertE emptyE) (simp_all add: owner_step_def latch_wait_def loop_wait_def)
  qed
  show ?thesis
  proof (cases "5 \<le> progress (child s)")
    case True
    from fin[OF ok True assms(4)] show ?thesis by (intro exI[of _ 0]) simp
  next
    case False
    have "4 + progress (child s) \<ge> 5" "progress (child s) \<le> 5" using c False by (cases "child s"; simp)+
    from child_run[OF ok c this] obtain m s' where
      m: "m \<le> 4" "run_ops elt_exec s (replicate m (EltChild 1)) = Inr s'" "elt_ok s'" "child s' = ChEnter" "owner s' = owner s"
      by blast
    from fin[OF m(3)] m(4,5) assms(4) obtain s'' where
      "run_ops elt_exec s' [EltOwner True, EltOwner True] = Inr s''" "owner s'' = OwHas" by auto
    with m(1,2) show ?thesis by (intro exI[of _ m]) (auto simp: run_ops_append)
  qed
qed

theorem startLoop_returns_witness:
  "\<exists>s m s'. run_ops elt_exec elt_new [EltOwner True, EltChild 7] = Inr s \<and> m \<le> 4 \<and>
    run_ops elt_exec s (replicate m (EltChild 1) @ [EltOwner True, EltOwner True]) = Inr s' \<and> owner s' = OwHas"
proof -
  have a: "list_all elt_allowed [EltOwner True, EltChild 7]" by simp
  obtain s where s: "run_ops elt_exec elt_new [EltOwner True, EltChild 7] = Inr s" "th_started s" "owner s = OwLatch"
    by (simp add: elt_simps)
  from startLoop_returns[OF a s(1,2)] s show ?thesis by auto
qed

text \<open>
  The destructor hangs when it runs before the thread has entered its loop: \<^verbatim>\<open>loop()\<close> sets the
  flag to false again, and from then on the owner waits at the join and the thread is in its loop
  whatever else the two do.
\<close>

theorem early_destructor_hangs:
  "\<exists>s. run_ops elt_exec elt_new (bring_up @ [EltDestroy, EltOwner True, EltChild 7]) = Inr s \<and>
    (\<forall>xs. \<exists>s'. run_ops elt_exec s xs = Inr s' \<and> owner s' = OwJoin \<and> child s' = ChLoop)"
proof -
  obtain s where s: "run_ops elt_exec elt_new (bring_up @ [EltDestroy, EltOwner True, EltChild 7]) = Inr s"
    "owner s = OwJoin" "child s = ChLoop" "\<not> loop_quit s"
    by (simp add: bring_up_def elt_simps)
  have "elt_exec s x = Inr s" for x
    using s by (cases x) (simp_all add: owner_step_def child_step_def)
  then have "run_ops elt_exec s xs = Inr s" for xs by (induction xs) simp_all
  with s show ?thesis by blast
qed

text \<open>
  Once the thread is in its loop and does not look at the flag before \<^verbatim>\<open>wakeup()\<close>, the destructor
  returns: three steps later the thread has ended and the owner has joined it.
\<close>

theorem late_destructor_returns:
  assumes "list_all elt_allowed xs" "run_ops elt_exec elt_new xs = Inr s" "owner s = OwHas" "child s = ChLoop"
  shows "\<exists>s'. run_ops elt_exec s [EltDestroy, EltOwner True, EltChild 1, EltOwner True] = Inr s' \<and> owner s' = OwGone"
proof -
  have "elt_ok s" by (rule elt_run[OF assms(1,2)])
  with assms(3,4) show ?thesis
    by (simp add: elt_ok_def elt_destroy_def quit_loop_def quit_wakeup_def use_loop_def thread_join_def owner_step_def
        child_step_def)
qed

theorem late_destructor_returns_witness:
  "\<exists>s s'. run_ops elt_exec elt_new (bring_up @ [EltChild 7]) = Inr s \<and>
    run_ops elt_exec s [EltDestroy, EltOwner True, EltChild 1, EltOwner True] = Inr s' \<and> owner s' = OwGone"
proof -
  have a: "list_all elt_allowed (bring_up @ [EltChild 7])" by (simp add: bring_up_def)
  obtain s where s: "run_ops elt_exec elt_new (bring_up @ [EltChild 7]) = Inr s" "owner s = OwHas" "child s = ChLoop"
    by (simp add: bring_up_def elt_simps)
  from late_destructor_returns[OF a s] s show ?thesis by blast
qed

text \<open>
  The destructor is not safe even when it is called properly: the thread, which is in its loop,
  sees the flag, ends and destroys the loop before the owner has written to its eventfd.
\<close>

theorem quit_races_with_end:
  assumes "list_all elt_allowed xs" "run_ops elt_exec elt_new xs = Inr s" "owner s = OwHas" "child s = ChLoop"
  shows "run_ops elt_exec s [EltDestroy, EltChild 1, EltOwner True] = Inl UseAfterFree"
proof -
  have "elt_ok s" by (rule elt_run[OF assms(1,2)])
  with assms(3,4) show ?thesis
    by (simp add: elt_ok_def elt_destroy_def quit_loop_def quit_wakeup_def use_loop_def owner_step_def child_step_def)
qed

theorem quit_races_with_end_witness:
  "run_ops elt_exec elt_new (bring_up @ [EltChild 7, EltDestroy, EltChild 1, EltOwner True]) = Inl UseAfterFree"
proof -
  have a: "list_all elt_allowed (bring_up @ [EltChild 7])" by (simp add: bring_up_def)
  obtain s where s: "run_ops elt_exec elt_new (bring_up @ [EltChild 7]) = Inr s" "owner s = OwHas" "child s = ChLoop"
    by (simp add: bring_up_def elt_simps)
  have "bring_up @ [EltChild 7, EltDestroy, EltChild 1, EltOwner True] =
    (bring_up @ [EltChild 7]) @ [EltDestroy, EltChild 1, EltOwner True]" by simp
  with quit_races_with_end[OF a s] s(1) show ?thesis by (simp only: run_ops_append bindR.simps)
qed

text \<open>An object that was never started cannot be destroyed.\<close>

lemma destroy_unstarted: "elt_exec elt_new EltDestroy = Inl NullDeref"
  by (simp add: elt_simps)

text \<open>The owner ends the loop itself: the destructor uses a dead object.\<close>

lemma quit_then_destroy:
  "run_ops elt_exec elt_new (bring_up @ [EltChild 7, EltQuit, EltOwner True, EltChild 7, EltDestroy]) = Inl UseAfterFree"
  by (simp add: bring_up_def elt_simps)

text \<open>No thread could be created: startLoop waits for ever.\<close>

lemma failed_create_hangs:
  "run_ops elt_exec elt_new (EltOwner False # xs) = Inr (elt_new\<lparr>owner := OwCond\<rparr>)"
proof -
  have "elt_exec (elt_new\<lparr>owner := OwCond\<rparr>) x = Inr (elt_new\<lparr>owner := OwCond\<rparr>)" for x
    by (cases x) (simp_all add: elt_simps)
  then have "run_ops elt_exec (elt_new\<lparr>owner := OwCond\<rparr>) xs = Inr (elt_new\<lparr>owner := OwCond\<rparr>)"
    by (induction xs) simp_all
  then show ?thesis by (simp add: elt_simps)
qed

end
