(* ===== verification/TimingWheel.thy ===== *)
theory TimingWheel
  imports Contracts
begin

text \<open>
  example/echo/echo.h, example/echo/echo.cc: an echo server that shuts idle connections down with
  a timing wheel. An \<^verbatim>\<open>Entry\<close> is owned by the buckets it is in (each holds a \<^verbatim>\<open>shared_ptr\<close>); when
  the last of them lets go, its destructor shuts the connection down if that still exists. The
  connection knows its entry through a \<^verbatim>\<open>weak_ptr\<close>. A connection and its entry have the same
  number.
\<close>

section \<open>State\<close>

text \<open>
  \<open>wheel\<close> has the newest bucket first; \<open>shut\<close> records the calls of \<^verbatim>\<open>shutdown\<close>, \<open>echoed\<close> those of
  \<^verbatim>\<open>send\<close>.
\<close>

record echo =
  wheel :: "nat set list"
  live_conns :: "nat set"
  contexts :: "nat set"
  shut :: "nat list"
  echoed :: "(nat \<times> string) list"

definition echo_new :: "nat \<Rightarrow> echo" where
  "echo_new idleSeconds = \<lparr>wheel = replicate idleSeconds {}, live_conns = {}, contexts = {}, shut = [], echoed = []\<rparr>"

text \<open>How many buckets own an entry.\<close>

definition use_count :: "nat \<Rightarrow> nat set list \<Rightarrow> nat" where
  "use_count c w = length (filter (\<lambda>b. c \<in> b) w)"

section \<open>Operations\<close>

definition insert_front :: "nat \<Rightarrow> echo \<Rightarrow> echo res" where
  "insert_front c s = (case wheel s of [] \<Rightarrow> Inl OutOfBounds | b # bs \<Rightarrow> Inr (s\<lparr>wheel := insert c b # bs\<rparr>))"

definition echo_onConnection :: "bool \<Rightarrow> nat \<Rightarrow> echo \<Rightarrow> echo res" where
  "echo_onConnection connected c s =
     (if connected
      then bindR (insert_front c (s\<lparr>live_conns := insert c (live_conns s)\<rparr>)) (\<lambda>s1.
           Inr (s1\<lparr>contexts := insert c (contexts s1)\<rparr>))
      else bindR (assertR (c \<in> contexts s)) (\<lambda>_. Inr (s\<lparr>live_conns := live_conns s - {c}\<rparr>)))"

definition echo_onMessage :: "nat \<Rightarrow> string \<Rightarrow> echo \<Rightarrow> echo res" where
  "echo_onMessage c msg s =
     (let s1 = s\<lparr>echoed := echoed s @ [(c, msg)]\<rparr> in
      bindR (assertR (c \<in> contexts s1)) (\<lambda>_.
      if use_count c (wheel s1) > 0 then insert_front c s1 else Inr s1))"

text \<open>
  \<^verbatim>\<open>Tick\<close>: the last bucket dies, its entries that no other bucket owns die with it, in the order
  of the set (here that of the numbers). A new bucket comes in front.
\<close>

definition dying_entries :: "nat set list \<Rightarrow> nat set" where
  "dying_entries w = {c \<in> last w. use_count c (butlast w) = 0}"

definition echo_onTimer :: "echo \<Rightarrow> echo res" where
  "echo_onTimer s =
     (if wheel s = [] then Inl OutOfBounds
      else Inr (s\<lparr>wheel := {} # butlast (wheel s),
             shut := shut s @ sorted_list_of_set (dying_entries (wheel s) \<inter> live_conns s)\<rparr>))"

datatype echo_op = EchoConnection bool nat | EchoMessage nat string | EchoTimer

fun echo_exec :: "echo \<Rightarrow> echo_op \<Rightarrow> echo res" where
  "echo_exec s (EchoConnection connected c) = echo_onConnection connected c s"
| "echo_exec s (EchoMessage c msg) = echo_onMessage c msg s"
| "echo_exec s EchoTimer = echo_onTimer s"

section \<open>The abstract server\<close>

text \<open>
  For each connection how many ticks it has been idle; nothing once it was given up. \<open>given_up\<close>
  are the shutdowns. With \<open>n\<close> buckets, the tick that finds a connection idle for \<open>n - 1\<close> ticks
  gives it up.
\<close>

record echo_view =
  idle :: "nat \<Rightarrow> nat option"
  up_conns :: "nat set"
  seen_conns :: "nat set"
  given_up :: "nat list"
  replies :: "(nat \<times> string) list"

definition ticked :: "nat \<Rightarrow> nat option \<Rightarrow> nat option" where
  "ticked n a = (case a of None \<Rightarrow> None | Some k \<Rightarrow> if Suc k < n then Some (Suc k) else None)"

fun echo_spec :: "nat \<Rightarrow> echo_view \<Rightarrow> echo_op \<Rightarrow> echo_view" where
  "echo_spec n a (EchoConnection connected c) =
     (if connected then a\<lparr>idle := (idle a)(c := Some 0), up_conns := insert c (up_conns a), seen_conns := insert c (seen_conns a)\<rparr>
      else a\<lparr>up_conns := up_conns a - {c}\<rparr>)"
| "echo_spec n a (EchoMessage c msg) =
     a\<lparr>replies := replies a @ [(c, msg)],
       idle := (case idle a c of None \<Rightarrow> idle a | Some k \<Rightarrow> (idle a)(c := Some 0))\<rparr>"
| "echo_spec n a EchoTimer =
     a\<lparr>idle := (\<lambda>c. ticked n (idle a c)),
       given_up := given_up a @ sorted_list_of_set {c \<in> up_conns a. idle a c = Some (n - 1)}\<rparr>"

text \<open>A connection comes up once; the other calls are for connections that came up.\<close>

fun echo_pre :: "echo_view \<Rightarrow> echo_op \<Rightarrow> bool" where
  "echo_pre a (EchoConnection connected c) = (if connected then c \<notin> seen_conns a else c \<in> seen_conns a)"
| "echo_pre a (EchoMessage c msg) = (c \<in> seen_conns a)"
| "echo_pre a EchoTimer = True"

text \<open>The newest bucket an entry is in.\<close>

fun newest :: "nat \<Rightarrow> nat set list \<Rightarrow> nat option" where
  "newest c [] = None"
| "newest c (b # bs) = (if c \<in> b then Some 0 else map_option Suc (newest c bs))"

definition echo_abs :: "echo \<Rightarrow> echo_view" where
  "echo_abs s = \<lparr>idle = (\<lambda>c. newest c (wheel s)), up_conns = live_conns s, seen_conns = contexts s, given_up = shut s,
    replies = echoed s\<rparr>"

definition echo_ok :: "nat \<Rightarrow> echo \<Rightarrow> bool" where
  "echo_ok n s \<longleftrightarrow> 0 < n \<and> length (wheel s) = n"

section \<open>Refinement\<close>

lemma newest_use: "newest c w = None \<longleftrightarrow> use_count c w = 0"
  by (induction w) (simp_all add: use_count_def)

lemma newest_less: "newest c w = Some k \<Longrightarrow> k < length w"
  by (induction w arbitrary: k) (auto split: if_splits)

lemma newest_snoc:
  "newest c (w @ [b]) =
     (case newest c w of Some k \<Rightarrow> Some k | None \<Rightarrow> if c \<in> b then Some (length w) else None)"
  by (induction w) (auto split: option.splits)

lemma newest_tick:
  assumes "w \<noteq> []"
  shows "newest c ({} # butlast w) = ticked (length w) (newest c w)"
proof -
  obtain v b where w: "w = v @ [b]" using assms rev_exhaust by blast
  show ?thesis
    using newest_less[of c v] by (auto simp: w newest_snoc ticked_def split: option.splits)
qed

lemma dying_newest:
  assumes "w \<noteq> []"
  shows "c \<in> dying_entries w \<longleftrightarrow> newest c w = Some (length w - 1)"
proof -
  obtain v b where w: "w = v @ [b]" using assms rev_exhaust by blast
  show ?thesis
    using newest_less[of c v] newest_use[of c v] by (auto simp: w dying_entries_def newest_snoc split: option.splits)
qed

lemma insert_front_ok:
  assumes "echo_ok n s"
  shows "\<exists>s'. insert_front c s = Inr s' \<and> echo_ok n s' \<and>
    (\<lambda>d. newest d (wheel s')) = (\<lambda>d. newest d (wheel s))(c := Some 0) \<and>
    live_conns s' = live_conns s \<and> contexts s' = contexts s \<and> shut s' = shut s \<and> echoed s' = echoed s"
proof -
  from assms obtain b bs where "wheel s = b # bs" by (cases "wheel s") (auto simp: echo_ok_def)
  with assms show ?thesis by (auto simp: insert_front_def echo_ok_def)
qed

interpretation timing_wheel: contract echo_exec "echo_ok n" echo_abs echo_pre "echo_spec n" for n
proof
  fix s x
  assume ok: "echo_ok n s" and pre: "echo_pre (echo_abs s) x"
  show "\<exists>s'. echo_exec s x = Inr s' \<and> echo_ok n s' \<and> echo_abs s' = echo_spec n (echo_abs s) x"
  proof (cases x)
    case (EchoConnection connected c)
    have "echo_ok n (s\<lparr>live_conns := insert c (live_conns s)\<rparr>)" using ok by (simp add: echo_ok_def)
    from insert_front_ok[OF this, of c] pre ok EchoConnection show ?thesis
      by (cases connected) (auto simp: echo_onConnection_def echo_abs_def echo_ok_def)
  next
    case (EchoMessage c msg)
    have ok1: "echo_ok n (s\<lparr>echoed := echoed s @ [(c, msg)]\<rparr>)" using ok by (simp add: echo_ok_def)
    show ?thesis
    proof (cases "newest c (wheel s)")
      case None
      with newest_use[of c "wheel s"] pre ok1 EchoMessage show ?thesis by (simp add: echo_onMessage_def echo_abs_def)
    next
      case (Some k)
      then have "use_count c (wheel s) > 0" using newest_use[of c "wheel s"] by auto
      with insert_front_ok[OF ok1, of c] Some pre EchoMessage show ?thesis
        by (auto simp: echo_onMessage_def echo_abs_def)
    qed
  next
    case EchoTimer
    have w: "wheel s \<noteq> []" "length (wheel s) = n" using ok by (auto simp: echo_ok_def)
    have "dying_entries (wheel s) \<inter> live_conns s = {c \<in> live_conns s. newest c (wheel s) = Some (n - 1)}"
      using dying_newest[OF w(1)] w(2) by auto
    with w newest_tick[OF w(1)] ok EchoTimer show ?thesis
      by (simp add: echo_onTimer_def echo_abs_def echo_ok_def)
  qed
qed

lemma echo_new_ok: "0 < n \<Longrightarrow> echo_ok n (echo_new n)" "echo_abs (echo_new n) = \<lparr>idle = Map.empty, up_conns = {}, seen_conns = {}, given_up = [], replies = []\<rparr>"
proof -
  have "newest c (replicate n {}) = None" for c by (induction n) simp_all
  then show "echo_abs (echo_new n) = \<lparr>idle = Map.empty, up_conns = {}, seen_conns = {}, given_up = [], replies = []\<rparr>"
    by (simp add: echo_abs_def echo_new_def fun_eq_iff)
qed (simp add: echo_ok_def echo_new_def)

text \<open>
  C25: The wheel does what counting the idle ticks of every connection would do: through any
  connections, messages and ticks no operation fails, and a connection is shut down by exactly the
  tick that finds it idle for one tick less than there are buckets, each message starting the count
  again, unless it is gone by then.
\<close>

theorem timing_wheel_refines:
  assumes "0 < n" "admissible echo_pre (echo_spec n) \<lparr>idle = Map.empty, up_conns = {}, seen_conns = {}, given_up = [], replies = []\<rparr> xs"
  shows "\<exists>s. run_ops echo_exec (echo_new n) xs = Inr s \<and>
    echo_abs s = foldl (echo_spec n) \<lparr>idle = Map.empty, up_conns = {}, seen_conns = {}, given_up = [], replies = []\<rparr> xs"
  using timing_wheel.run_ok[OF echo_new_ok(1)[OF assms(1)], of xs] assms(2) by (auto simp: echo_new_ok(2))

theorem timing_wheel_refines_witness:
  "\<exists>s. run_ops echo_exec (echo_new 2) [EchoConnection True 5, EchoConnection True 6, EchoTimer, EchoMessage 6 ''hi'', EchoTimer] = Inr s \<and>
    shut s = [5] \<and> echoed s = [(6, ''hi'')] \<and> newest 6 (wheel s) = Some 1"
proof -
  let ?xs = "[EchoConnection True 5, EchoConnection True 6, EchoTimer, EchoMessage 6 ''hi'', EchoTimer]"
  let ?a = "\<lparr>idle = Map.empty, up_conns = {}, seen_conns = {}, given_up = [], replies = []\<rparr> :: echo_view"
  have "admissible echo_pre (echo_spec 2) ?a ?xs" by (simp add: ticked_def)
  from timing_wheel_refines[OF _ this] obtain s where
    s: "run_ops echo_exec (echo_new 2) ?xs = Inr s" "echo_abs s = foldl (echo_spec 2) ?a ?xs" by auto
  have "given_up (echo_abs s) = [5]" "idle (echo_abs s) 6 = Some 1" "replies (echo_abs s) = [(6, ''hi'')]"
    unfolding s(2) by (simp_all add: ticked_def cong: conj_cong)
  with s(1) show ?thesis by (auto simp: echo_abs_def)
qed

section \<open>What the server prints\<close>

text \<open>
  \<^verbatim>\<open>size()\<close> adds up the sizes of the buckets; \<^verbatim>\<open>dumpConnectionBuckets\<close> prints for each bucket its
  number, its size and its entries with their use counts and whether the connection is dead (a set
  prints its entries in some order, here that of the numbers).
\<close>

definition buckets_size :: "nat set list \<Rightarrow> nat" where
  "buckets_size w = sum_list (map card w)"

definition dumpConnectionBuckets :: "echo \<Rightarrow> (nat \<times> nat \<times> (nat \<times> nat \<times> bool) list) list" where
  "dumpConnectionBuckets s =
     map (\<lambda>(idx, bucket). (idx, card bucket,
       map (\<lambda>c. (c, use_count c (wheel s), c \<notin> live_conns s)) (sorted_list_of_set bucket)))
     (enumerate 0 (wheel s))"

lemma use_count_Cons: "use_count c (b # w) = (if c \<in> b then 1 else 0) + use_count c w"
  by (simp add: use_count_def)

text \<open>The size counts every entry as often as it is owned.\<close>

lemma buckets_size_owners:
  assumes "finite C" "\<Union> (set w) \<subseteq> C"
  shows "buckets_size w = (\<Sum>c \<in> C. use_count c w)"
  using assms(2)
proof (induction w)
  case Nil
  then show ?case by (simp add: buckets_size_def use_count_def)
next
  case (Cons b w)
  have "card b = (\<Sum>c \<in> C. if c \<in> b then 1 else 0)"
    using Cons.prems assms(1) by (simp add: sum.If_cases Int_absorb1)
  with Cons show ?case by (simp add: buckets_size_def use_count_Cons sum.distrib)
qed

text \<open>
  Without buckets, which is what the argument 0 of the program asks for, the first connection and the
  first tick reach past the end of the list.
\<close>

theorem no_buckets:
  "echo_exec (echo_new 0) (EchoConnection True c) = Inl OutOfBounds \<and>
   echo_exec (echo_new 0) EchoTimer = Inl OutOfBounds"
  by (simp add: echo_new_def echo_onConnection_def insert_front_def echo_onTimer_def)

end
