(* ===== verification/ChatServer.thy ===== *)
theory ChatServer
  imports Contracts
begin

text \<open>
  example/chat/server.cc, example/chat/server_threaded.cc, server_threaded_efficient.cc: chat
  servers that send each message to all connections. The first two keep a set (the second under
  a mutex, so that its operations happen one after the other); the third keeps a shared pointer
  to a set that is copied before it is changed when somebody else is reading it, so that a reader
  can iterate without the mutex. Connections are numbers, in the order of their addresses.
\<close>

section \<open>The plain server\<close>

record chat =
  chat_conns :: "nat set"
  chat_sent :: "(nat \<times> string) list"

definition chat_new :: chat where
  "chat_new = \<lparr>chat_conns = {}, chat_sent = []\<rparr>"

definition chat_onConnection :: "bool \<Rightarrow> nat \<Rightarrow> chat \<Rightarrow> chat" where
  "chat_onConnection connected c s =
     (if connected then s\<lparr>chat_conns := insert c (chat_conns s)\<rparr> else s\<lparr>chat_conns := chat_conns s - {c}\<rparr>)"

definition chat_onStringMessage :: "string \<Rightarrow> chat \<Rightarrow> chat" where
  "chat_onStringMessage message s =
     s\<lparr>chat_sent := chat_sent s @ map (\<lambda>c. (c, message)) (sorted_list_of_set (chat_conns s))\<rparr>"

section \<open>The server that copies on write\<close>

text \<open>
  \<open>cow_lists\<close> are the sets that were allocated, \<open>None\<close> once deleted; a shared pointer is a position in
  it. A reader is a thread in \<open>onStringMessage\<close>: its copy of the pointer, its iterator (\<open>None\<close> is
  \<^verbatim>\<open>end()\<close>), the message, and the connections it has sent it to. It is \<open>None\<close> when it has returned.
\<close>

record reader =
  rd_list :: nat
  rd_at :: "nat option"
  rd_msg :: string
  rd_sent :: "nat list"

record cow_server =
  cow_lists :: "nat set option list"
  cow_current :: nat
  readers :: "reader option list"

definition cow_new :: cow_server where
  "cow_new = \<lparr>cow_lists = [Some {}], cow_current = 0, readers = []\<rparr>"

definition holds :: "nat \<Rightarrow> reader option \<Rightarrow> bool" where
  "holds p x = (case x of None \<Rightarrow> False | Some r \<Rightarrow> rd_list r = p)"

definition cow_use_count :: "nat \<Rightarrow> cow_server \<Rightarrow> nat" where
  "cow_use_count p s = (if cow_current s = p then 1 else 0) + length (filter (holds p) (readers s))"

definition cow_list :: "nat \<Rightarrow> cow_server \<Rightarrow> nat set res" where
  "cow_list p s = (case cow_lists s ! p of None \<Rightarrow> Inl UseAfterFree | Some S \<Rightarrow> Inr S)"

definition cow_onConnection :: "bool \<Rightarrow> nat \<Rightarrow> cow_server \<Rightarrow> cow_server res" where
  "cow_onConnection connected c s =
     bindR (if cow_use_count (cow_current s) s \<noteq> 1
            then bindR (cow_list (cow_current s) s) (\<lambda>S.
                 Inr (s\<lparr>cow_lists := cow_lists s @ [Some S], cow_current := length (cow_lists s)\<rparr>))
            else Inr s) (\<lambda>s1.
     bindR (assertR (cow_use_count (cow_current s1) s1 = 1)) (\<lambda>_.
     bindR (cow_list (cow_current s1) s1) (\<lambda>S.
     Inr (s1\<lparr>cow_lists := (cow_lists s1)[cow_current s1 := Some (if connected then insert c S else S - {c})]\<rparr>))))"

text \<open>\<^verbatim>\<open>begin()\<close> and \<^verbatim>\<open>++it\<close>.\<close>

definition first_in :: "nat set \<Rightarrow> nat option" where
  "first_in S = (if S = {} then None else Some (Min S))"

definition next_in :: "nat \<Rightarrow> nat set \<Rightarrow> nat option" where
  "next_in c S = first_in {d \<in> S. c < d}"

definition cow_message :: "string \<Rightarrow> cow_server \<Rightarrow> cow_server res" where
  "cow_message message s =
     bindR (cow_list (cow_current s) s) (\<lambda>S.
     Inr (s\<lparr>readers := readers s @ [Some \<lparr>rd_list = cow_current s, rd_at = first_in S, rd_msg = message, rd_sent = []\<rparr>]\<rparr>))"

text \<open>One turn of the loop of reader \<open>i\<close>; an iterator whose element is gone must not be used.\<close>

definition cow_next :: "nat \<Rightarrow> cow_server \<Rightarrow> cow_server res" where
  "cow_next i s =
     (if i < length (readers s)
      then (case readers s ! i of None \<Rightarrow> Inr s
          | Some r \<Rightarrow> (case rd_at r of None \<Rightarrow> Inr s
            | Some c \<Rightarrow> bindR (cow_list (rd_list r) s) (\<lambda>S.
                if c \<notin> S then Inl UseAfterFree
                else Inr (s\<lparr>readers := (readers s)[i := Some (r\<lparr>rd_at := next_in c S, rd_sent := rd_sent r @ [c]\<rparr>)]\<rparr>))))
      else Inr s)"

text \<open>The reader returns: its pointer goes, and the set with it if it was the last one.\<close>

definition cow_return :: "nat \<Rightarrow> cow_server \<Rightarrow> cow_server" where
  "cow_return i s =
     (if i < length (readers s)
      then (case readers s ! i of None \<Rightarrow> s
          | Some r \<Rightarrow> if rd_at r \<noteq> None then s
              else let s1 = s\<lparr>readers := (readers s)[i := None]\<rparr> in
                   if cow_use_count (rd_list r) s1 = 0 then s1\<lparr>cow_lists := (cow_lists s1)[rd_list r := None]\<rparr> else s1)
      else s)"

datatype cow_op = CowConnection bool nat | CowMessage string | CowNext nat | CowReturn nat

fun cow_exec :: "cow_server \<Rightarrow> cow_op \<Rightarrow> cow_server res" where
  "cow_exec s (CowConnection connected c) = cow_onConnection connected c s"
| "cow_exec s (CowMessage message) = cow_message message s"
| "cow_exec s (CowNext i) = cow_next i s"
| "cow_exec s (CowReturn i) = Inr (cow_return i s)"

section \<open>The abstract server\<close>

text \<open>
  The members, and for each reader its message, whom it has sent it to and whom it will still
  send it to: the members at the moment it took the list.
\<close>

type_synonym cow_view = "nat set \<times> (string \<times> nat list \<times> nat list) option list"

definition advance :: "string \<times> nat list \<times> nat list \<Rightarrow> string \<times> nat list \<times> nat list" where
  "advance x = (case x of (m, sent, []) \<Rightarrow> (m, sent, []) | (m, sent, c # todo) \<Rightarrow> (m, sent @ [c], todo))"

definition finish :: "string \<times> nat list \<times> nat list \<Rightarrow> (string \<times> nat list \<times> nat list) option" where
  "finish x = (case x of (m, sent, todo) \<Rightarrow> if todo = [] then None else Some x)"

fun cow_spec :: "cow_view \<Rightarrow> cow_op \<Rightarrow> cow_view" where
  "cow_spec (M, rs) (CowConnection connected c) = (if connected then insert c M else M - {c}, rs)"
| "cow_spec (M, rs) (CowMessage message) = (M, rs @ [Some (message, [], sorted_list_of_set M)])"
| "cow_spec (M, rs) (CowNext i) = (M, if i < length rs then rs[i := map_option advance (rs ! i)] else rs)"
| "cow_spec (M, rs) (CowReturn i) = (M, if i < length rs then rs[i := Option.bind (rs ! i) finish] else rs)"

definition todo_of :: "nat option \<Rightarrow> nat set \<Rightarrow> nat list" where
  "todo_of at S = (case at of None \<Rightarrow> [] | Some c \<Rightarrow> sorted_list_of_set {d \<in> S. c \<le> d})"

definition reader_abs :: "cow_server \<Rightarrow> reader \<Rightarrow> string \<times> nat list \<times> nat list" where
  "reader_abs s r = (rd_msg r, rd_sent r, todo_of (rd_at r) (the (cow_lists s ! rd_list r)))"

definition cow_abs :: "cow_server \<Rightarrow> cow_view" where
  "cow_abs s = (the (cow_lists s ! cow_current s), map (map_option (reader_abs s)) (readers s))"

definition live_list :: "cow_server \<Rightarrow> nat \<Rightarrow> bool" where
  "live_list s p \<longleftrightarrow> p < length (cow_lists s) \<and> (\<exists>S. cow_lists s ! p = Some S \<and> finite S)"

definition reader_ok :: "cow_server \<Rightarrow> reader \<Rightarrow> bool" where
  "reader_ok s r \<longleftrightarrow> live_list s (rd_list r) \<and> (\<forall>c. rd_at r = Some c \<longrightarrow> c \<in> the (cow_lists s ! rd_list r))"

definition cow_ok :: "cow_server \<Rightarrow> bool" where
  "cow_ok s \<longleftrightarrow> live_list s (cow_current s) \<and> (\<forall>r. Some r \<in> set (readers s) \<longrightarrow> reader_ok s r)"

section \<open>Iterating\<close>

lemma todo_first:
  assumes "finite S"
  shows "todo_of (first_in S) S = sorted_list_of_set S" "first_in S = Some c \<Longrightarrow> c \<in> S"
proof -
  show "todo_of (first_in S) S = sorted_list_of_set S"
  proof (cases "S = {}")
    case False
    have "{d \<in> S. Min S \<le> d} = S" using assms by auto
    with False show ?thesis by (simp add: todo_of_def first_in_def)
  qed (simp add: todo_of_def first_in_def)
  show "first_in S = Some c \<Longrightarrow> c \<in> S" using Min_in[OF assms] by (auto simp: first_in_def split: if_splits)
qed

lemma todo_next:
  assumes "finite S" "c \<in> S"
  shows "todo_of (Some c) S = c # todo_of (next_in c S) S" "next_in c S = Some d \<Longrightarrow> d \<in> S"
proof -
  let ?T = "{d \<in> S. c < d}"
  have f: "finite ?T" using assms by simp
  have m: "Min {d \<in> S. c \<le> d} = c" using assms by (intro Min_eqI) auto
  have "{d \<in> S. c \<le> d} - {c} = ?T" by auto
  with assms m have "sorted_list_of_set {d \<in> S. c \<le> d} = c # sorted_list_of_set ?T"
    by (subst sorted_list_of_set_nonempty) auto
  moreover have "todo_of (next_in c S) S = sorted_list_of_set ?T"
  proof (cases "?T = {}")
    case False
    have "Min ?T \<in> ?T" using Min_in[OF f False] .
    then have "{d \<in> S. Min ?T \<le> d} = ?T" using Min_le[OF f] by force
    with False have "first_in ?T = Some (Min ?T)" "{d \<in> S. Min ?T \<le> d} = ?T" by (simp_all add: first_in_def)
    then show ?thesis by (simp add: todo_of_def next_in_def)
  next
    case True
    show ?thesis unfolding next_in_def True by (simp add: first_in_def todo_of_def)
  qed
  ultimately show "todo_of (Some c) S = c # todo_of (next_in c S) S" by (simp add: todo_of_def)
  show "d \<in> S" if "next_in c S = Some d" using todo_first(2)[OF f, of d] that by (simp add: next_in_def)
qed

section \<open>Each operation\<close>

lemma cow_list_live: "live_list s p \<Longrightarrow> \<exists>S. cow_list p s = Inr S \<and> cow_lists s ! p = Some S \<and> finite S"
  by (auto simp: live_list_def cow_list_def)

lemma unique_current:
  assumes "cow_use_count (cow_current s) s = 1" "Some r \<in> set (readers s)"
  shows "rd_list r \<noteq> cow_current s"
proof
  assume "rd_list r = cow_current s"
  with assms(2) have "Some r \<in> set (filter (holds (cow_current s)) (readers s))" by (simp add: holds_def)
  then have "0 < length (filter (holds (cow_current s)) (readers s))" by (rule length_pos_if_in_set)
  with assms(1) show False by (simp add: cow_use_count_def)
qed

text \<open>A reader sees only its own list.\<close>

lemma reader_ok_cong:
  "reader_ok s r \<Longrightarrow> cow_lists s' ! rd_list r = cow_lists s ! rd_list r \<Longrightarrow> length (cow_lists s) \<le> length (cow_lists s') \<Longrightarrow>
   reader_ok s' r"
  by (auto simp: reader_ok_def live_list_def)

lemma readers_abs_cong:
  assumes "\<And>r. Some r \<in> set rs \<Longrightarrow> cow_lists s' ! rd_list r = cow_lists s ! rd_list r"
  shows "map (map_option (reader_abs s')) rs = map (map_option (reader_abs s)) rs"
proof (rule map_cong[OF refl])
  fix x assume "x \<in> set rs"
  with assms show "map_option (reader_abs s') x = map_option (reader_abs s) x"
    by (cases x) (auto simp: reader_abs_def)
qed

text \<open>The part after the copy: nobody reads the current set.\<close>

lemma cow_write_ok:
  assumes "cow_ok s" "cow_use_count (cow_current s) s = 1" "cow_lists s ! cow_current s = Some S"
    "s' = s\<lparr>cow_lists := (cow_lists s)[cow_current s := Some T]\<rparr>" "finite T"
  shows "cow_ok s' \<and> cow_abs s' = (T, snd (cow_abs s))"
proof -
  have cur: "cow_current s < length (cow_lists s)" using assms(1) by (simp add: cow_ok_def live_list_def)
  have same: "cow_lists s' ! rd_list r = cow_lists s ! rd_list r" if "Some r \<in> set (readers s)" for r
    using unique_current[OF assms(2) that] assms(4) by simp
  have "reader_ok s' r" if "Some r \<in> set (readers s)" for r
    using reader_ok_cong[OF _ same[OF that]] assms(1,4) that by (simp add: cow_ok_def)
  with assms(4,5) cur have "cow_ok s'" by (simp add: cow_ok_def live_list_def)
  moreover from readers_abs_cong[of "readers s" s' s] same
  have "map (map_option (reader_abs s')) (readers s) = map (map_option (reader_abs s)) (readers s)" by simp
  ultimately show ?thesis using assms(4) cur by (simp add: cow_abs_def)
qed

lemma cow_copy_ok:
  assumes "cow_ok s" "cow_lists s ! cow_current s = Some S" "finite S"
    "s' = s\<lparr>cow_lists := cow_lists s @ [Some S], cow_current := length (cow_lists s)\<rparr>"
  shows "cow_ok s' \<and> cow_abs s' = cow_abs s \<and> cow_use_count (cow_current s') s' = 1"
proof -
  have old: "rd_list r < length (cow_lists s)" if "Some r \<in> set (readers s)" for r
    using assms(1) that by (simp add: cow_ok_def reader_ok_def live_list_def)
  then have same: "cow_lists s' ! rd_list r = cow_lists s ! rd_list r" if "Some r \<in> set (readers s)" for r
    using that assms(4) by (simp add: nth_append)
  have "reader_ok s' r" if "Some r \<in> set (readers s)" for r
    using reader_ok_cong[OF _ same[OF that]] assms(1,4) that by (simp add: cow_ok_def)
  with assms(3,4) have "cow_ok s'" by (simp add: cow_ok_def live_list_def)
  moreover from readers_abs_cong[of "readers s" s' s] same
  have "map (map_option (reader_abs s')) (readers s) = map (map_option (reader_abs s)) (readers s)" by simp
  moreover have "filter (holds (length (cow_lists s))) (readers s) = []"
    using old by (fastforce simp: filter_empty_conv holds_def split: option.splits)
  ultimately show ?thesis using assms(2,4) by (simp add: cow_abs_def cow_use_count_def)
qed

lemma cow_onConnection_ok:
  assumes "cow_ok s"
  shows "\<exists>s'. cow_onConnection connected c s = Inr s' \<and> cow_ok s' \<and>
    cow_abs s' = cow_spec (cow_abs s) (CowConnection connected c)"
proof -
  have "live_list s (cow_current s)" using assms by (simp add: cow_ok_def)
  from cow_list_live[OF this] obtain S where
    S: "cow_list (cow_current s) s = Inr S" "cow_lists s ! cow_current s = Some S" "finite S" by blast
  let ?T = "if connected then insert c S else S - {c}"
  have T: "finite ?T" using S(3) by simp
  have view: "cow_spec (cow_abs s) (CowConnection connected c) = (?T, snd (cow_abs s))"
    using S(2) by (simp add: cow_abs_def)
  show ?thesis
  proof (cases "cow_use_count (cow_current s) s = 1")
    case True
    from cow_write_ok[OF assms True S(2) refl T] True S view show ?thesis
      by (simp add: cow_onConnection_def)
  next
    case False
    define s1 where "s1 = s\<lparr>cow_lists := cow_lists s @ [Some S], cow_current := length (cow_lists s)\<rparr>"
    from cow_copy_ok[OF assms S(2,3) s1_def] have
      c: "cow_ok s1" "cow_abs s1 = cow_abs s" "cow_use_count (cow_current s1) s1 = 1" by simp_all
    have l: "cow_lists s1 ! cow_current s1 = Some S" by (simp add: s1_def)
    then have "cow_list (cow_current s1) s1 = Inr S" by (simp add: cow_list_def)
    with False S(1) c(3) have "cow_onConnection connected c s = Inr (s1\<lparr>cow_lists := (cow_lists s1)[cow_current s1 := Some ?T]\<rparr>)"
      by (simp add: cow_onConnection_def s1_def[symmetric])
    with cow_write_ok[OF c(1,3) l refl T] c(2) view show ?thesis by simp
  qed
qed

lemma cow_message_ok:
  assumes "cow_ok s"
  shows "\<exists>s'. cow_message message s = Inr s' \<and> cow_ok s' \<and> cow_abs s' = cow_spec (cow_abs s) (CowMessage message)"
proof -
  have l: "live_list s (cow_current s)" using assms by (simp add: cow_ok_def)
  from cow_list_live[OF l] obtain S where
    S: "cow_list (cow_current s) s = Inr S" "cow_lists s ! cow_current s = Some S" "finite S" by blast
  define s' where "s' = s\<lparr>readers := readers s @ [Some \<lparr>rd_list = cow_current s, rd_at = first_in S, rd_msg = message, rd_sent = []\<rparr>]\<rparr>"
  have eq: "reader_abs s' = reader_abs s" "reader_ok s' = reader_ok s"
    by (simp_all add: fun_eq_iff s'_def reader_abs_def reader_ok_def live_list_def)
  have "cow_ok s'" using assms l S(2) todo_first(2)[OF S(3)] unfolding cow_ok_def eq
    by (auto simp: s'_def reader_ok_def live_list_def)
  moreover have "cow_abs s' = cow_spec (cow_abs s) (CowMessage message)"
    using S(2) todo_first(1)[OF S(3)] unfolding cow_abs_def eq by (simp add: s'_def reader_abs_def)
  ultimately show ?thesis using S(1) by (simp add: cow_message_def s'_def)
qed

lemma cow_next_ok:
  assumes "cow_ok s"
  shows "\<exists>s'. cow_next i s = Inr s' \<and> cow_ok s' \<and> cow_abs s' = cow_spec (cow_abs s) (CowNext i)"
proof (cases "i < length (readers s) \<and> readers s ! i \<noteq> None")
  case False
  then have "cow_spec (cow_abs s) (CowNext i) = cow_abs s"
    by (auto simp: cow_abs_def list_update_same_conv)
  with False assms show ?thesis by (auto simp: cow_next_def)
next
  case True
  then obtain r where r: "i < length (readers s)" "readers s ! i = Some r" by auto
  then have rin: "Some r \<in> set (readers s)" by (metis nth_mem)
  then have rok: "reader_ok s r" using assms by (simp add: cow_ok_def)
  then obtain S where S: "cow_list (rd_list r) s = Inr S" "cow_lists s ! rd_list r = Some S" "finite S"
    using cow_list_live[of s "rd_list r"] by (auto simp: reader_ok_def)
  show ?thesis
  proof (cases "rd_at r")
    case None
    with r S have "cow_spec (cow_abs s) (CowNext i) = cow_abs s"
      by (simp add: cow_abs_def list_update_same_conv advance_def reader_abs_def todo_of_def)
    with None r assms show ?thesis by (simp add: cow_next_def)
  next
    case (Some c)
    then have c: "c \<in> S" using rok S(2) by (simp add: reader_ok_def)
    let ?r = "r\<lparr>rd_at := next_in c S, rd_sent := rd_sent r @ [c]\<rparr>"
    let ?s = "s\<lparr>readers := (readers s)[i := Some ?r]\<rparr>"
    have "cow_next i s = Inr ?s" using r S Some c by (simp add: cow_next_def)
    moreover have "reader_ok ?s ?r" using rok S(2) todo_next(2)[OF S(3) c] by (simp add: reader_ok_def live_list_def)
    then have "cow_ok ?s" using assms
      by (auto simp: cow_ok_def reader_ok_def live_list_def dest!: set_update_subset_insert[THEN subsetD])
    moreover have abs: "reader_abs ?s = reader_abs s" by (simp add: reader_abs_def fun_eq_iff)
    then have "cow_abs ?s = cow_spec (cow_abs s) (CowNext i)"
      using r S(2) Some todo_next(1)[OF S(3) c] by (simp add: cow_abs_def map_update advance_def reader_abs_def)
    ultimately show ?thesis by blast
  qed
qed

lemma cow_return_ok:
  assumes "cow_ok s"
  shows "cow_ok (cow_return i s) \<and> cow_abs (cow_return i s) = cow_spec (cow_abs s) (CowReturn i)"
proof (cases "i < length (readers s) \<and> readers s ! i \<noteq> None")
  case False
  then have "cow_spec (cow_abs s) (CowReturn i) = cow_abs s"
    by (auto simp: cow_abs_def list_update_same_conv)
  with False assms show ?thesis by (auto simp: cow_return_def)
next
  case True
  then obtain r where r: "i < length (readers s)" "readers s ! i = Some r" by auto
  then have rin: "Some r \<in> set (readers s)" by (metis nth_mem)
  then have rok: "reader_ok s r" using assms by (simp add: cow_ok_def)
  then obtain S where S: "cow_lists s ! rd_list r = Some S" "finite S" by (auto simp: reader_ok_def live_list_def)
  show ?thesis
  proof (cases "rd_at r")
    case (Some c)
    then have "c \<in> S" using rok S(1) by (simp add: reader_ok_def)
    with Some r S todo_next(1)[OF S(2)] have "cow_spec (cow_abs s) (CowReturn i) = cow_abs s"
      by (simp add: cow_abs_def list_update_same_conv finish_def reader_abs_def)
    with Some r assms show ?thesis by (simp add: cow_return_def)
  next
    case None
    define s1 where "s1 = s\<lparr>readers := (readers s)[i := None]\<rparr>"
    have sub: "x = None \<or> x \<in> set (readers s)" if "x \<in> set (readers s1)" for x
      using that set_update_subset_insert[of "readers s" i None] by (auto simp: s1_def)
    have ok1: "cow_ok s1" using assms sub by (auto simp: cow_ok_def reader_ok_def live_list_def s1_def)
    have abs1: "cow_abs s1 = cow_spec (cow_abs s) (CowReturn i)"
    proof -
      have "reader_abs s1 = reader_abs s" by (simp add: reader_abs_def fun_eq_iff s1_def)
      with r None show ?thesis by (simp add: cow_abs_def map_update finish_def reader_abs_def todo_of_def s1_def)
    qed
    show ?thesis
    proof (cases "cow_use_count (rd_list r) s1 = 0")
      case False
      with r None ok1 abs1 show ?thesis by (simp add: cow_return_def s1_def[symmetric])
    next
      case True
      let ?s = "s1\<lparr>cow_lists := (cow_lists s1)[rd_list r := None]\<rparr>"
      have cur: "cow_current s1 \<noteq> rd_list r" and "filter (holds (rd_list r)) (readers s1) = []"
        using True by (auto simp: cow_use_count_def split: if_splits)
      then have other: "rd_list x \<noteq> rd_list r" if "Some x \<in> set (readers s1)" for x
        using that by (auto simp: filter_empty_conv holds_def)
      have same: "cow_lists ?s ! rd_list x = cow_lists s1 ! rd_list x" if "Some x \<in> set (readers s1)" for x
        using other[OF that] by simp
      have "reader_ok ?s x" if "Some x \<in> set (readers s1)" for x
        using reader_ok_cong[OF _ same[OF that]] ok1 that by (simp add: cow_ok_def)
      with ok1 cur have "cow_ok ?s" by (simp add: cow_ok_def live_list_def)
      moreover from readers_abs_cong[of "readers s1" ?s s1] same
      have "map (map_option (reader_abs ?s)) (readers s1) = map (map_option (reader_abs s1)) (readers s1)" by simp
      then have "cow_abs ?s = cow_abs s1" using cur by (simp add: cow_abs_def)
      ultimately show ?thesis using True r None abs1 by (simp add: cow_return_def s1_def[symmetric])
    qed
  qed
qed

interpretation cow: contract cow_exec cow_ok cow_abs "\<lambda>a x. True" cow_spec
proof
  fix s x
  assume "cow_ok s"
  then show "\<exists>s'. cow_exec s x = Inr s' \<and> cow_ok s' \<and> cow_abs s' = cow_spec (cow_abs s) x"
    using cow_onConnection_ok cow_message_ok cow_next_ok cow_return_ok by (cases x) auto
qed

section \<open>Both servers send the same\<close>

text \<open>The plain server after the connections of a run.\<close>

definition plain :: "cow_op list \<Rightarrow> chat" where
  "plain xs = foldl (\<lambda>t x. case x of CowConnection connected c \<Rightarrow> chat_onConnection connected c t | _ \<Rightarrow> t) chat_new xs"

lemma plain_snoc:
  "plain (xs @ [x]) = (case x of CowConnection connected c \<Rightarrow> chat_onConnection connected c (plain xs) | _ \<Rightarrow> plain xs)"
  by (cases x) (simp_all add: plain_def)

lemma plain_sent: "chat_sent (plain xs) = []"
proof (induction xs rule: rev_induct)
  case (snoc x xs)
  then show ?case by (cases x) (simp_all add: plain_snoc chat_onConnection_def)
qed (simp add: plain_def chat_new_def)

lemma fst_cow_spec: "fst (cow_spec a x) = (case x of CowConnection connected c \<Rightarrow> if connected then insert c (fst a) else fst a - {c} | _ \<Rightarrow> fst a)"
  by (cases a; cases x) simp_all

lemma cow_members: "fst (foldl cow_spec ({}, []) xs) = chat_conns (plain xs)"
proof (induction xs rule: rev_induct)
  case (snoc x xs)
  then show ?case by (cases x) (simp_all add: plain_snoc fst_cow_spec chat_onConnection_def)
qed (simp add: plain_def chat_new_def)

definition slot_ok :: "string \<Rightarrow> nat list \<Rightarrow> (string \<times> nat list \<times> nat list) option \<Rightarrow> bool" where
  "slot_ok m L x \<longleftrightarrow> (\<forall>m' sent todo. x = Some (m', sent, todo) \<longrightarrow> m' = m \<and> sent @ todo = L)"

lemma slot_spec:
  assumes "i < length (snd a)" "slot_ok m L (snd a ! i)"
  shows "i < length (snd (cow_spec a x)) \<and> slot_ok m L (snd (cow_spec a x) ! i)"
proof (cases x)
  case (CowNext j)
  have "slot_ok m L (Some (advance (m', sent, todo)))" if "slot_ok m L (Some (m', sent, todo))" for m' sent todo
    using that by (cases todo) (simp_all add: slot_ok_def advance_def)
  then have "slot_ok m L (map_option advance y)" if "slot_ok m L y" for y
    using that by (cases y) (auto simp: slot_ok_def)
  with assms CowNext show ?thesis by (cases a) (auto simp: nth_list_update)
next
  case (CowReturn j)
  have "slot_ok m L (Option.bind y finish)" if "slot_ok m L y" for y
    using that by (cases y) (auto simp: slot_ok_def finish_def split: if_splits)
  with assms CowReturn show ?thesis by (cases a) (auto simp: nth_list_update)
qed (use assms in \<open>cases a; auto simp: nth_append\<close>)+

lemma slot_run:
  "i < length (snd a) \<Longrightarrow> slot_ok m L (snd a ! i) \<Longrightarrow>
   i < length (snd (foldl cow_spec a xs)) \<and> slot_ok m L (snd (foldl cow_spec a xs) ! i)"
proof (induction xs arbitrary: a)
  case (Cons x xs)
  from slot_spec[OF Cons.prems, of x] Cons.IH show ?case by simp
qed simp

lemma cow_new_ok: "cow_ok cow_new" "cow_abs cow_new = ({}, [])"
  by (simp_all add: cow_ok_def cow_new_def live_list_def cow_abs_def)

lemma cow_run:
  "cow_ok s \<Longrightarrow> \<exists>s'. run_ops cow_exec s xs = Inr s' \<and> cow_ok s' \<and> cow_abs s' = foldl cow_spec (cow_abs s) xs"
  by (rule cow.run_ok) simp_all

text \<open>
  C22: Copy on write loses nothing. However connections come and go while readers iterate without
  the mutex, no assert fails and no iterator is used after its element was erased; and each reader
  sends its message to the connections to which the plain server sends it at the moment the reader
  took the list, in the same order, and to all of them when it is done.
\<close>

theorem cow_sends_snapshot:
  "\<exists>s s'. run_ops cow_exec cow_new xs = Inr s \<and> run_ops cow_exec s (CowMessage message # ys) = Inr s' \<and>
    (\<forall>r. readers s' ! length (readers s) = Some r \<longrightarrow> rd_msg r = message \<and>
      (\<exists>rest. map (\<lambda>c. (c, message)) (rd_sent r @ rest) = chat_sent (chat_onStringMessage message (plain xs)) \<and>
        (rd_at r = None \<longrightarrow> rest = [])))"
proof -
  from cow_run[OF cow_new_ok(1)] obtain s where
    s: "run_ops cow_exec cow_new xs = Inr s" "cow_ok s" "cow_abs s = foldl cow_spec ({}, []) xs"
    unfolding cow_new_ok(2) by blast
  from cow_run[OF s(2)] obtain s' where
    s': "run_ops cow_exec s (CowMessage message # ys) = Inr s'" "cow_abs s' = foldl cow_spec (cow_abs s) (CowMessage message # ys)"
    by blast
  let ?i = "length (readers s)" and ?L = "sorted_list_of_set (chat_conns (plain xs))"
  have len: "length (snd (cow_abs t)) = length (readers t)" for t by (simp add: cow_abs_def)
  let ?a = "cow_spec (cow_abs s) (CowMessage message)"
  have "snd ?a = snd (cow_abs s) @ [Some (message, [], ?L)]"
    using cow_members[of xs] unfolding s(3)[symmetric] by (cases "cow_abs s") simp
  then have a: "?i < length (snd ?a)" "slot_ok message ?L (snd ?a ! ?i)"
    using len[of s] by (simp_all add: nth_append slot_ok_def)
  from slot_run[OF a, of ys] s'(2) have i: "?i < length (readers s')" "slot_ok message ?L (snd (cow_abs s') ! ?i)"
    using len[of s'] by simp_all
  have "rd_msg r = message \<and> rd_sent r @ todo_of (rd_at r) (the (cow_lists s' ! rd_list r)) = ?L"
    if "readers s' ! ?i = Some r" for r
    using i that by (simp add: cow_abs_def slot_ok_def reader_abs_def)
  then have "rd_msg r = message \<and>
      (\<exists>rest. map (\<lambda>c. (c, message)) (rd_sent r @ rest) = chat_sent (chat_onStringMessage message (plain xs)) \<and>
        (rd_at r = None \<longrightarrow> rest = []))"
    if "readers s' ! ?i = Some r" for r
    using that plain_sent[of xs]
    by (intro conjI exI[of _ "todo_of (rd_at r) (the (cow_lists s' ! rd_list r))"])
      (auto simp: chat_onStringMessage_def todo_of_def)
  with s(1) s'(1) show ?thesis by blast
qed

text \<open>Connection 6 leaves while the reader is between 5 and 6: it still gets the message.\<close>

theorem cow_sends_snapshot_witness:
  "\<exists>s s' r. run_ops cow_exec cow_new [CowConnection True 5, CowConnection True 6] = Inr s \<and>
    run_ops cow_exec s (CowMessage ''hi'' # [CowNext 0, CowConnection False 6, CowNext 0]) = Inr s' \<and>
    readers s' ! 0 = Some r \<and> rd_at r = None \<and> map (\<lambda>c. (c, ''hi'')) (rd_sent r) = [(5, ''hi''), (6, ''hi'')] \<and>
    fst (cow_abs s') = {5}"
proof -
  let ?xs = "[CowConnection True 5, CowConnection True 6]" and ?ys = "[CowNext 0, CowConnection False 6, CowNext 0]"
  define s where "s = \<lparr>cow_lists = [Some {5, 6}], cow_current = 0, readers = []\<rparr>"
  define r where "r = \<lparr>rd_list = 0, rd_at = None, rd_msg = ''hi'', rd_sent = [5, 6]\<rparr>"
  define s' where "s' = \<lparr>cow_lists = [Some {5, 6}, Some {5}], cow_current = 1, readers = [Some r]\<rparr>"
  have "{d \<in> {5, 6}. 5 < d} = {6 :: nat}" "{d \<in> {5, 6}. 6 < d} = ({} :: nat set)" by auto
  then have sets: "first_in {5, 6} = Some 5" "next_in 5 {5, 6} = Some 6" "next_in 6 {5, 6} = None"
    "insert 6 {5} = {5, 6 :: nat}" "{5, 6} - {6} = {5 :: nat}"
    by (auto simp: next_in_def first_in_def)
  have e: "run_ops cow_exec cow_new ?xs = Inr s" "run_ops cow_exec s (CowMessage ''hi'' # ?ys) = Inr s'"
    by (simp_all add: s_def s'_def r_def cow_new_def cow_onConnection_def cow_use_count_def cow_list_def
        cow_message_def cow_next_def holds_def sets)
  from cow_sends_snapshot[of ?xs "''hi''" ?ys] obtain t t' where
    t: "run_ops cow_exec cow_new ?xs = Inr t" "run_ops cow_exec t (CowMessage ''hi'' # ?ys) = Inr t'"
      "\<forall>r. readers t' ! length (readers t) = Some r \<longrightarrow> rd_msg r = ''hi'' \<and>
        (\<exists>rest. map (\<lambda>c. (c, ''hi'')) (rd_sent r @ rest) = chat_sent (chat_onStringMessage ''hi'' (plain ?xs)) \<and>
          (rd_at r = None \<longrightarrow> rest = []))" by blast
  have eq: "t = s" using t(1) e(1) by (simp del: run_ops.simps)
  have eq': "t' = s'" using t(2) e(2) unfolding eq by (simp del: run_ops.simps)
  have "readers t' ! length (readers t) = Some r" by (simp add: eq eq' s_def s'_def)
  with t(3) have
    "\<exists>rest. map (\<lambda>c. (c, ''hi'')) (rd_sent r @ rest) = chat_sent (chat_onStringMessage ''hi'' (plain ?xs)) \<and> (rd_at r = None \<longrightarrow> rest = [])"
    by blast
  moreover have "chat_sent (chat_onStringMessage ''hi'' (plain ?xs)) = [(5, ''hi''), (6, ''hi'')]"
    by (simp add: plain_def chat_onConnection_def chat_onStringMessage_def chat_new_def sets(4))
  ultimately show ?thesis using e by (intro exI[of _ s] exI[of _ s'] exI[of _ r]) (simp add: s'_def r_def cow_abs_def)
qed

end
