(* ===== verification/LocalChat.thy ===== *)
theory LocalChat
  imports Contracts
begin

text \<open>
  others/ThreadLocalSingleton.h and example/chat/server_threaded_highperformance.cc: a chat server
  whose loops each keep the set of their own connections in a thread local object. A message is
  posted to every loop as a functor, which sends it to the connections of that loop; the mutex
  covers the posting only. Loops (and their threads) and connections are numbers.
\<close>

section \<open>Thread local objects\<close>

text \<open>
  What a thread has: the object \<^verbatim>\<open>t_value_\<close> points to, and whether the key of the deleter is set
  (so that the object dies with the thread).
\<close>

record 'a thread_local =
  t_value :: "'a option"
  t_key :: bool

definition tls_new :: "'a thread_local" where
  "tls_new = \<lparr>t_value = None, t_key = False\<rparr>"

text \<open>\<open>fresh\<close> is what the constructor of the object makes.\<close>

definition tls_instance :: "'a \<Rightarrow> 'a thread_local \<Rightarrow> ('a \<times> 'a thread_local) res" where
  "tls_instance fresh t =
     (case t_value t of
        Some x \<Rightarrow> Inr (x, t)
      | None \<Rightarrow> bindR (assertR (\<not> t_key t)) (\<lambda>_. Inr (fresh, t\<lparr>t_value := Some fresh, t_key := True\<rparr>)))"

text \<open>The destructor runs at the end of a thread whose key is set.\<close>

definition tls_exit :: "'a thread_local \<Rightarrow> 'a thread_local res" where
  "tls_exit t =
     (if t_key t then bindR (assertR (t_value t \<noteq> None)) (\<lambda>_. Inr (t\<lparr>t_value := None, t_key := False\<rparr>))
      else Inr t)"

lemma tls_round_trip: "tls_instance x tls_new = Inr (x, t) \<Longrightarrow> tls_exit t = Inr tls_new"
  by (auto simp: tls_instance_def tls_exit_def tls_new_def)

section \<open>State\<close>

text \<open>
  \<open>inbox\<close> is what was sent to a connection since it came up; \<open>posted\<close> are all messages, \<open>hp_ran\<close> how
  many of them a loop has distributed (or which came before it existed), \<open>joined\<close> how many had
  been when a connection came up.
\<close>

record hp_server =
  hp_loops :: "nat set"
  local_conns :: "nat \<Rightarrow> nat set thread_local"
  functors :: "nat \<Rightarrow> string list"
  inbox :: "nat \<Rightarrow> nat \<Rightarrow> string list"
  posted :: "string list"
  hp_ran :: "nat \<Rightarrow> nat"
  joined :: "nat \<Rightarrow> nat \<Rightarrow> nat"

definition hp_new :: hp_server where
  "hp_new = \<lparr>hp_loops = {}, local_conns = (\<lambda>l. tls_new), functors = (\<lambda>l. []), inbox = (\<lambda>l c. []),
     posted = [], hp_ran = (\<lambda>l. 0), joined = (\<lambda>l c. 0)\<rparr>"

section \<open>Operations\<close>

definition hp_instance :: "nat \<Rightarrow> hp_server \<Rightarrow> (nat set \<times> hp_server) res" where
  "hp_instance l s =
     bindR (tls_instance {} (local_conns s l)) (\<lambda>(S, t). Inr (S, s\<lparr>local_conns := (local_conns s)(l := t)\<rparr>))"

definition hp_pointer :: "nat \<Rightarrow> hp_server \<Rightarrow> nat set option" where
  "hp_pointer l s = t_value (local_conns s l)"

definition threadInit :: "nat \<Rightarrow> hp_server \<Rightarrow> hp_server res" where
  "threadInit l s =
     bindR (assertR (hp_pointer l s = None)) (\<lambda>_.
     bindR (hp_instance l s) (\<lambda>(S, s1).
     bindR (assertR (hp_pointer l s1 \<noteq> None)) (\<lambda>_.
     Inr (s1\<lparr>hp_loops := insert l (hp_loops s1), hp_ran := (hp_ran s1)(l := length (posted s1))\<rparr>))))"

text \<open>In the thread of loop \<open>l\<close>.\<close>

definition hp_store :: "nat \<Rightarrow> nat set \<Rightarrow> hp_server \<Rightarrow> hp_server" where
  "hp_store l S s = s\<lparr>local_conns := (local_conns s)(l := (local_conns s l)\<lparr>t_value := Some S\<rparr>)\<rparr>"

definition hp_onConnection :: "nat \<Rightarrow> bool \<Rightarrow> nat \<Rightarrow> hp_server \<Rightarrow> hp_server res" where
  "hp_onConnection l connected c s =
     bindR (hp_instance l s) (\<lambda>(S, s1).
     if connected
     then Inr ((hp_store l (insert c S) s1)\<lparr>inbox := (inbox s1)(l := (inbox s1 l)(c := [])),
            joined := (joined s1)(l := (joined s1 l)(c := hp_ran s1 l))\<rparr>)
     else Inr (hp_store l (S - {c}) s1))"

definition hp_onStringMessage :: "string \<Rightarrow> hp_server \<Rightarrow> hp_server" where
  "hp_onStringMessage message s =
     s\<lparr>functors := (\<lambda>l. if l \<in> hp_loops s then functors s l @ [message] else functors s l), posted := posted s @ [message]\<rparr>"

definition distributeMessage :: "nat \<Rightarrow> string \<Rightarrow> hp_server \<Rightarrow> hp_server res" where
  "distributeMessage l message s =
     bindR (hp_instance l s) (\<lambda>(S, s1).
     Inr (s1\<lparr>inbox := (inbox s1)(l := (\<lambda>c. if c \<in> S then inbox s1 l c @ [message] else inbox s1 l c))\<rparr>))"

text \<open>The next functor of the loop, which runs them in the order in which they were posted.\<close>

definition hp_run :: "nat \<Rightarrow> hp_server \<Rightarrow> hp_server res" where
  "hp_run l s = (case functors s l of
       [] \<Rightarrow> Inr s
     | m # ms \<Rightarrow> distributeMessage l m (s\<lparr>functors := (functors s)(l := ms), hp_ran := (hp_ran s)(l := hp_ran s l + 1)\<rparr>))"

datatype hp_op = HpInit nat | HpConnection nat bool nat | HpMessage string | HpRun nat

fun hp_exec :: "hp_server \<Rightarrow> hp_op \<Rightarrow> hp_server res" where
  "hp_exec s (HpInit l) = threadInit l s"
| "hp_exec s (HpConnection l connected c) = hp_onConnection l connected c s"
| "hp_exec s (HpMessage message) = Inr (hp_onStringMessage message s)"
| "hp_exec s (HpRun l) = hp_run l s"

section \<open>The abstract server\<close>

text \<open>
  One sequence of messages; each loop is at a position of it, each connection came up at one.
\<close>

record hp_view =
  ready :: "nat set"
  messages :: "string list"
  position :: "nat \<Rightarrow> nat"
  since :: "nat \<Rightarrow> nat \<Rightarrow> nat"
  members :: "nat \<Rightarrow> nat set"

definition hp_members :: "hp_server \<Rightarrow> nat \<Rightarrow> nat set" where
  "hp_members s l = (case hp_pointer l s of None \<Rightarrow> {} | Some S \<Rightarrow> S)"

definition hp_abs :: "hp_server \<Rightarrow> hp_view" where
  "hp_abs s = \<lparr>ready = hp_loops s, messages = posted s, position = hp_ran s, since = joined s, members = hp_members s\<rparr>"

fun hp_spec :: "hp_view \<Rightarrow> hp_op \<Rightarrow> hp_view" where
  "hp_spec a (HpInit l) = a\<lparr>ready := insert l (ready a), position := (position a)(l := length (messages a))\<rparr>"
| "hp_spec a (HpConnection l connected c) =
     (if connected
      then a\<lparr>members := (members a)(l := insert c (members a l)), since := (since a)(l := (since a l)(c := position a l))\<rparr>
      else a\<lparr>members := (members a)(l := members a l - {c})\<rparr>)"
| "hp_spec a (HpMessage message) = a\<lparr>messages := messages a @ [message]\<rparr>"
| "hp_spec a (HpRun l) =
     (if l \<in> ready a \<and> position a l < length (messages a)
      then a\<lparr>position := (position a)(l := position a l + 1)\<rparr> else a)"

text \<open>A loop is made ready once, before its thread has connections.\<close>

fun hp_pre :: "hp_view \<Rightarrow> hp_op \<Rightarrow> bool" where
  "hp_pre a (HpInit l) = (l \<notin> ready a)"
| "hp_pre a (HpConnection l connected c) = (l \<in> ready a)"
| "hp_pre a _ = True"

definition received :: "hp_server \<Rightarrow> nat \<Rightarrow> nat \<Rightarrow> string list" where
  "received s l c = take (hp_ran s l - joined s l c) (drop (joined s l c) (posted s))"

definition loop_ok :: "hp_server \<Rightarrow> nat \<Rightarrow> bool" where
  "loop_ok s l \<longleftrightarrow>
     (if l \<in> hp_loops s
      then hp_pointer l s \<noteq> None \<and> t_key (local_conns s l) \<and> hp_ran s l \<le> length (posted s) \<and>
        functors s l = drop (hp_ran s l) (posted s) \<and>
        (\<forall>c \<in> hp_members s l. joined s l c \<le> hp_ran s l \<and> inbox s l c = received s l c)
      else local_conns s l = tls_new \<and> functors s l = [])"

definition hp_ok :: "hp_server \<Rightarrow> bool" where
  "hp_ok s \<longleftrightarrow> (\<forall>l. loop_ok s l)"

text \<open>What another loop does leaves a loop alone.\<close>

lemma loop_ok_other:
  "loop_ok s l \<Longrightarrow> l \<in> hp_loops s' \<longleftrightarrow> l \<in> hp_loops s \<Longrightarrow> local_conns s' l = local_conns s l \<Longrightarrow>
   functors s' l = functors s l \<Longrightarrow> inbox s' l = inbox s l \<Longrightarrow> posted s' = posted s \<Longrightarrow> hp_ran s' l = hp_ran s l \<Longrightarrow>
   joined s' l = joined s l \<Longrightarrow> loop_ok s' l"
  by (cases "l \<in> hp_loops s") (simp_all add: loop_ok_def hp_pointer_def hp_members_def received_def)

lemma hp_instance_ready:
  assumes "hp_ok s" "l \<in> hp_loops s"
  shows "hp_instance l s = Inr (hp_members s l, s)"
proof -
  have "loop_ok s l" using assms(1) by (simp add: hp_ok_def)
  with assms(2) obtain S where "t_value (local_conns s l) = Some S" by (auto simp: loop_ok_def hp_pointer_def)
  then show ?thesis by (simp add: hp_instance_def tls_instance_def hp_members_def hp_pointer_def)
qed

lemma threadInit_ok:
  assumes "hp_ok s" "l \<notin> hp_loops s"
  shows "\<exists>s'. threadInit l s = Inr s' \<and> hp_ok s' \<and> hp_abs s' = hp_spec (hp_abs s) (HpInit l)"
proof -
  have l: "local_conns s l = tls_new" "functors s l = []" using assms by (auto simp: hp_ok_def loop_ok_def)
  define s' where "s' = s\<lparr>local_conns := (local_conns s)(l := \<lparr>t_value = Some {}, t_key = True\<rparr>),
    hp_loops := insert l (hp_loops s), hp_ran := (hp_ran s)(l := length (posted s))\<rparr>"
  have "threadInit l s = Inr s'"
    using l(1) by (simp add: threadInit_def hp_pointer_def hp_instance_def tls_instance_def tls_new_def s'_def)
  moreover have "loop_ok s' k" for k
  proof (cases "k = l")
    case True
    with l(2) show ?thesis by (simp add: loop_ok_def s'_def hp_pointer_def hp_members_def)
  next
    case False
    with assms(1) show ?thesis by (intro loop_ok_other[of s k s']) (simp_all add: hp_ok_def s'_def)
  qed
  moreover have "hp_members s' = hp_members s"
    using l(1) by (simp add: fun_eq_iff hp_members_def hp_pointer_def s'_def tls_new_def)
  then have "hp_abs s' = hp_spec (hp_abs s) (HpInit l)" by (simp add: hp_abs_def s'_def)
  ultimately show ?thesis by (auto simp: hp_ok_def)
qed

lemma hp_onConnection_ok:
  assumes "hp_ok s" "l \<in> hp_loops s"
  shows "\<exists>s'. hp_onConnection l connected c s = Inr s' \<and> hp_ok s' \<and>
    hp_abs s' = hp_spec (hp_abs s) (HpConnection l connected c)"
proof -
  have ok: "loop_ok s l" using assms(1) by (simp add: hp_ok_def)
  define s' where "s' = (if connected
     then (hp_store l (insert c (hp_members s l)) s)\<lparr>inbox := (inbox s)(l := (inbox s l)(c := [])),
            joined := (joined s)(l := (joined s l)(c := hp_ran s l))\<rparr>
     else hp_store l (hp_members s l - {c}) s)"
  have "hp_onConnection l connected c s = Inr s'"
    by (simp add: hp_onConnection_def hp_instance_ready[OF assms] s'_def)
  moreover have "loop_ok s' k" for k
  proof (cases "k = l")
    case True
    with ok assms(2) show ?thesis
      by (auto simp: loop_ok_def s'_def hp_store_def hp_pointer_def hp_members_def received_def)
  next
    case False
    with assms(1) show ?thesis by (intro loop_ok_other[of s k s']) (simp_all add: hp_ok_def s'_def hp_store_def)
  qed
  moreover have "hp_members s' = (hp_members s)(l := if connected then insert c (hp_members s l) else hp_members s l - {c})"
    by (simp add: fun_eq_iff hp_members_def hp_pointer_def s'_def hp_store_def)
  then have "hp_abs s' = hp_spec (hp_abs s) (HpConnection l connected c)"
    by (simp add: hp_abs_def s'_def hp_store_def)
  ultimately show ?thesis by (auto simp: hp_ok_def)
qed

lemma received_more:
  "received (hp_onStringMessage m s) l c = received s l c" if "hp_ran s l \<le> length (posted s)"
  using that by (simp add: received_def hp_onStringMessage_def)

lemma hp_message_ok:
  assumes "hp_ok s"
  shows "hp_ok (hp_onStringMessage m s) \<and> hp_abs (hp_onStringMessage m s) = hp_spec (hp_abs s) (HpMessage m)"
proof -
  have same: "hp_members (hp_onStringMessage m s) = hp_members s"
    by (simp add: fun_eq_iff hp_members_def hp_pointer_def hp_onStringMessage_def)
  have "loop_ok (hp_onStringMessage m s) l" for l
  proof -
    have "loop_ok s l" using assms by (simp add: hp_ok_def)
    then show ?thesis
      using received_more[of s l m] unfolding loop_ok_def same
      by (auto simp: hp_onStringMessage_def hp_pointer_def)
  qed
  then show ?thesis using same by (simp add: hp_ok_def hp_abs_def) (simp add: hp_onStringMessage_def)
qed

lemma hp_run_ok:
  assumes "hp_ok s"
  shows "\<exists>s'. hp_run l s = Inr s' \<and> hp_ok s' \<and> hp_abs s' = hp_spec (hp_abs s) (HpRun l)"
proof -
  have ok: "loop_ok s l" using assms by (simp add: hp_ok_def)
  show ?thesis
  proof (cases "functors s l")
    case Nil
    with ok have "\<not> (l \<in> hp_loops s \<and> hp_ran s l < length (posted s))" by (auto simp: loop_ok_def)
    with Nil assms show ?thesis by (auto simp: hp_run_def hp_abs_def)
  next
    case (Cons m ms)
    with ok have l: "l \<in> hp_loops s" by (auto simp: loop_ok_def split: if_splits)
    with ok Cons have d: "drop (hp_ran s l) (posted s) = m # ms" by (simp add: loop_ok_def)
    then have lt: "hp_ran s l < length (posted s)" by (metis drop_eq_Nil list.distinct(1) not_le)
    from d lt have m: "posted s ! hp_ran s l = m" "drop (Suc (hp_ran s l)) (posted s) = ms"
      by (metis Cons_nth_drop_Suc list.inject)+
    let ?s1 = "s\<lparr>functors := (functors s)(l := ms), hp_ran := (hp_ran s)(l := hp_ran s l + 1)\<rparr>"
    define s' where "s' = ?s1\<lparr>inbox := (inbox s)(l := (\<lambda>c. if c \<in> hp_members s l then inbox s l c @ [m] else inbox s l c))\<rparr>"
    have "hp_instance l ?s1 = Inr (hp_members s l, ?s1)"
    proof -
      from ok l obtain S where "t_value (local_conns s l) = Some S" by (auto simp: loop_ok_def hp_pointer_def)
      then show ?thesis by (simp add: hp_instance_def tls_instance_def hp_members_def hp_pointer_def)
    qed
    then have run: "hp_run l s = Inr s'" by (simp add: hp_run_def Cons distributeMessage_def s'_def cong: if_cong)
    have same: "hp_members s' = hp_members s" by (simp add: fun_eq_iff hp_members_def hp_pointer_def s'_def)
    have "loop_ok s' k" for k
    proof (cases "k = l")
      case True
      have "inbox s' l c = received s' l c" "joined s' l c \<le> hp_ran s' l" if "c \<in> hp_members s l" for c
      proof -
        have c: "joined s l c \<le> hp_ran s l" "inbox s l c = received s l c" using ok l that by (simp_all add: loop_ok_def)
        then have "Suc (hp_ran s l) - joined s l c = Suc (hp_ran s l - joined s l c)" by simp
        moreover have "hp_ran s l - joined s l c < length (drop (joined s l c) (posted s))" using lt c(1) by simp
        moreover have "drop (joined s l c) (posted s) ! (hp_ran s l - joined s l c) = m" using m(1) c(1) lt by simp
        ultimately have "received s' l c = received s l c @ [m]"
          by (simp add: received_def s'_def take_Suc_conv_app_nth)
        with c that show "inbox s' l c = received s' l c" "joined s' l c \<le> hp_ran s' l" by (simp_all add: s'_def)
      qed
      with True ok l lt m(2) same show ?thesis by (simp add: loop_ok_def) (simp add: s'_def hp_pointer_def)
    next
      case False
      with assms show ?thesis by (intro loop_ok_other[of s k s']) (simp_all add: hp_ok_def s'_def)
    qed
    moreover have "hp_abs s' = hp_spec (hp_abs s) (HpRun l)"
      using same l lt by (simp add: hp_abs_def) (simp add: s'_def)
    ultimately show ?thesis using run by (auto simp: hp_ok_def)
  qed
qed

interpretation local_chat: contract hp_exec hp_ok hp_abs hp_pre hp_spec
proof
  fix s x
  assume ok: "hp_ok s" and pre: "hp_pre (hp_abs s) x"
  show "\<exists>s'. hp_exec s x = Inr s' \<and> hp_ok s' \<and> hp_abs s' = hp_spec (hp_abs s) x"
  proof (cases x)
    case (HpInit l)
    with threadInit_ok[OF ok, of l] pre show ?thesis by (simp add: hp_abs_def)
  next
    case (HpConnection l connected c)
    with hp_onConnection_ok[OF ok, of l connected c] pre show ?thesis by (simp add: hp_abs_def)
  next
    case (HpMessage m)
    with hp_message_ok[OF ok, of m] show ?thesis by simp
  next
    case (HpRun l)
    with hp_run_ok[OF ok, of l] show ?thesis by simp
  qed
qed

lemma hp_new_ok: "hp_ok hp_new"
  by (simp add: hp_ok_def loop_ok_def hp_new_def)

definition hp_start :: hp_view where
  "hp_start = \<lparr>ready = {}, messages = [], position = (\<lambda>l. 0), since = (\<lambda>l c. 0), members = (\<lambda>l. {})\<rparr>"

lemma hp_abs_new: "hp_abs hp_new = hp_start"
  by (simp add: hp_abs_def hp_new_def hp_start_def fun_eq_iff hp_members_def hp_pointer_def tls_new_def)

text \<open>
  C23: All connections see one sequence of messages. However the loops are interleaved, no assert
  fails, and what a connection has been sent since it came up is a piece of the one sequence of
  all messages, without gaps, from the position at which its loop was then to the position at
  which it is now; the messages behind it wait in the loop.
\<close>

theorem one_sequence:
  assumes "admissible hp_pre hp_spec hp_start xs"
  shows "\<exists>s. run_ops hp_exec hp_new xs = Inr s \<and> hp_abs s = foldl hp_spec hp_start xs \<and>
    (\<forall>l \<in> hp_loops s. functors s l = drop (hp_ran s l) (posted s) \<and>
      (\<forall>c \<in> hp_members s l. posted s = take (joined s l c) (posted s) @ inbox s l c @ functors s l))"
proof -
  from local_chat.run_ok[OF hp_new_ok] assms obtain s where
    s: "run_ops hp_exec hp_new xs = Inr s" "hp_ok s" "hp_abs s = foldl hp_spec hp_start xs"
    unfolding hp_abs_new by blast
  have "posted s = take (joined s l c) (posted s) @ inbox s l c @ functors s l"
    if l: "l \<in> hp_loops s" and c: "c \<in> hp_members s l" for l c
  proof -
    have ok: "loop_ok s l" using s(2) by (simp add: hp_ok_def)
    with l c have f: "functors s l = drop (hp_ran s l) (posted s)" "joined s l c \<le> hp_ran s l" "inbox s l c = received s l c"
      by (simp_all add: loop_ok_def)
    have "drop (joined s l c) (posted s) = received s l c @ drop (hp_ran s l) (posted s)"
      using f(2) by (metis received_def append_take_drop_id drop_drop le_add_diff_inverse2)
    with f show ?thesis by (metis append_take_drop_id)
  qed
  moreover have "functors s l = drop (hp_ran s l) (posted s)" if "l \<in> hp_loops s" for l
    using s(2) that by (simp add: hp_ok_def loop_ok_def)
  ultimately show ?thesis using s(1,3) by blast
qed

text \<open>Two loops with a connection each: the first has distributed both messages, the second one.\<close>

theorem one_sequence_witness:
  "\<exists>s. run_ops hp_exec hp_new [HpInit 1, HpInit 2, HpConnection 1 True 5, HpConnection 2 True 6, HpMessage ''a'',
      HpRun 1, HpMessage ''b'', HpRun 1, HpRun 2] = Inr s \<and> inbox s 1 5 = [''a'', ''b''] \<and> inbox s 2 6 = [''a''] \<and>
    functors s 2 = [''b'']"
proof -
  let ?xs = "[HpInit 1, HpInit 2, HpConnection 1 True 5, HpConnection 2 True 6, HpMessage ''a'',
      HpRun 1, HpMessage ''b'', HpRun 1, HpRun 2]"
  have "admissible hp_pre hp_spec hp_start ?xs" by (simp add: hp_start_def)
  from one_sequence[OF this] obtain s where
    s: "run_ops hp_exec hp_new ?xs = Inr s" "hp_abs s = foldl hp_spec hp_start ?xs"
      "\<forall>l \<in> hp_loops s. functors s l = drop (hp_ran s l) (posted s) \<and>
        (\<forall>c \<in> hp_members s l. posted s = take (joined s l c) (posted s) @ inbox s l c @ functors s l)" by blast
  have v: "hp_loops s = {1, 2}" "posted s = [''a'', ''b'']" "hp_ran s 1 = 2" "hp_ran s 2 = 1"
    "joined s 1 5 = 0" "joined s 2 6 = 0" "5 \<in> hp_members s 1" "6 \<in> hp_members s 2"
    using s(2) by (auto simp: hp_abs_def hp_start_def)
  from s(3) v have f: "functors s 1 = []" "functors s 2 = [''b'']" by simp_all
  from s(3) v(1,7,8) have "posted s = take (joined s 1 5) (posted s) @ inbox s 1 5 @ functors s 1"
    "posted s = take (joined s 2 6) (posted s) @ inbox s 2 6 @ functors s 2" by blast+
  with v f have "inbox s 1 5 = [''a'', ''b'']" "inbox s 2 6 = [''a'']" by simp_all
  with s(1) f show ?thesis by blast
qed

end
