(* ===== verification/PingPong.thy ===== *)
theory PingPong
  imports Contracts
begin

text \<open>
  base/Atomic.h and example/pingpong/client.cc: the client of the throughput test. Each session
  sends back what it receives and counts; an atomic counter of the sessions that are up tells the
  client when the last of them is down, and it then quits its loop. The doubles of the statistics
  are left out.
\<close>

section \<open>Atomic integers\<close>

definition atomic_get :: "'a::len word \<Rightarrow> 'a word" where
  "atomic_get v = v"

text \<open>Each returns the result and the new value.\<close>

definition getAndAdd :: "'a::len word \<Rightarrow> 'a word \<Rightarrow> 'a word \<times> 'a word" where
  "getAndAdd x v = (v, v + x)"

definition addAndGet :: "'a::len word \<Rightarrow> 'a word \<Rightarrow> 'a word \<times> 'a word" where
  "addAndGet x v = (let (old, v1) = getAndAdd x v in (old + x, v1))"

definition incrementAndGet :: "'a::len word \<Rightarrow> 'a word \<times> 'a word" where
  "incrementAndGet v = addAndGet 1 v"

definition decrementAndGet :: "'a::len word \<Rightarrow> 'a word \<times> 'a word" where
  "decrementAndGet v = addAndGet (- 1) v"

definition atomic_add :: "'a::len word \<Rightarrow> 'a word \<Rightarrow> 'a word" where
  "atomic_add x v = snd (getAndAdd x v)"

definition atomic_increment :: "'a::len word \<Rightarrow> 'a word" where
  "atomic_increment v = snd (incrementAndGet v)"

definition atomic_decrement :: "'a::len word \<Rightarrow> 'a word" where
  "atomic_decrement v = snd (getAndAdd (- 1) v)"

lemma decrement_undoes: "atomic_decrement (atomic_increment v) = v" "atomic_increment (atomic_decrement v) = v"
  by (simp_all add: atomic_increment_def atomic_decrement_def incrementAndGet_def addAndGet_def getAndAdd_def)

definition getAndSet :: "'a::len word \<Rightarrow> 'a word \<Rightarrow> 'a word \<times> 'a word" where
  "getAndSet newValue v = (v, newValue)"

section \<open>State\<close>

record session =
  bytesRead :: "64 word"
  bytesWritten :: "64 word"
  messagesRead :: "64 word"
  ss_out :: string

record pp_client =
  sessionCount :: int
  block :: string
  sessions :: "session list"
  numConnected :: "32 word"
  quits :: nat
  all_connected :: nat
  totals :: "(64 word \<times> 64 word) list"

text \<open>
  \<open>ss_out\<close> is what the session gave to \<^verbatim>\<open>send\<close>, \<open>quits\<close> how often the client posted the end of the
  loop, \<open>totals\<close> the statistics it logged each time, \<open>all_connected\<close> how often it logged that all
  sessions are up.
\<close>

definition session_new :: session where
  "session_new = \<lparr>bytesRead = 0, bytesWritten = 0, messagesRead = 0, ss_out = []\<rparr>"

definition block_message :: "nat \<Rightarrow> string" where
  "block_message blockSize = map (\<lambda>i. char_of (i mod 128)) [0..<blockSize]"

definition pp_new :: "nat \<Rightarrow> nat \<Rightarrow> pp_client" where
  "pp_new blockSize n = \<lparr>sessionCount = int n, block = block_message blockSize,
     sessions = replicate n session_new, numConnected = 0, quits = 0, all_connected = 0, totals = []\<rparr>"

section \<open>Operations\<close>

definition onConnect :: "pp_client \<Rightarrow> pp_client" where
  "onConnect s =
     (let (n, v) = incrementAndGet (numConnected s); s1 = s\<lparr>numConnected := v\<rparr> in
      if sint n = sessionCount s1 then s1\<lparr>all_connected := all_connected s1 + 1\<rparr> else s1)"

definition onDisconnect :: "pp_client \<Rightarrow> pp_client" where
  "onDisconnect s =
     (let (n, v) = decrementAndGet (numConnected s); s1 = s\<lparr>numConnected := v\<rparr> in
      if n = 0
      then s1\<lparr>totals := totals s1 @ [(sum_list (map bytesRead (sessions s1)), sum_list (map messagesRead (sessions s1)))],
              quits := quits s1 + 1\<rparr>
      else s1)"

definition pp_onConnection :: "bool \<Rightarrow> nat \<Rightarrow> pp_client \<Rightarrow> pp_client" where
  "pp_onConnection connected i s =
     (if connected
      then onConnect (s\<lparr>sessions := (sessions s)[i := (sessions s ! i)\<lparr>ss_out := ss_out (sessions s ! i) @ block s\<rparr>]\<rparr>)
      else onDisconnect s)"

definition pp_onMessage :: "nat \<Rightarrow> string \<Rightarrow> pp_client \<Rightarrow> pp_client" where
  "pp_onMessage i buf s =
     (let x = sessions s ! i; n = word_of_nat (length buf) in
      s\<lparr>sessions := (sessions s)[i := x\<lparr>messagesRead := messagesRead x + 1, bytesRead := bytesRead x + n,
          bytesWritten := bytesWritten x + n, ss_out := ss_out x @ buf\<rparr>]\<rparr>)"

datatype pp_op = PpConnection bool nat | PpMessage nat string

fun pp_exec :: "pp_client \<Rightarrow> pp_op \<Rightarrow> pp_client res" where
  "pp_exec s (PpConnection connected i) =
     (if i < length (sessions s) then Inr (pp_onConnection connected i s) else Inl OutOfBounds)"
| "pp_exec s (PpMessage i buf) =
     (if i < length (sessions s) then Inr (pp_onMessage i buf s) else Inl OutOfBounds)"

section \<open>The abstract client\<close>

text \<open>
  Which sessions are up, what each received, and how often the last one went down or the last one
  came up.
\<close>

record pp_view =
  up_sessions :: "nat set"
  got :: "nat \<Rightarrow> string list"
  ended :: nat
  complete :: nat

fun pp_spec :: "nat \<Rightarrow> pp_view \<Rightarrow> pp_op \<Rightarrow> pp_view" where
  "pp_spec n a (PpConnection connected i) =
     (if connected
      then let U = insert i (up_sessions a) in
           a\<lparr>up_sessions := U, complete := complete a + (if card U = n then 1 else 0)\<rparr>
      else let U = up_sessions a - {i} in
           a\<lparr>up_sessions := U, ended := ended a + (if U = {} then 1 else 0)\<rparr>)"
| "pp_spec n a (PpMessage i buf) = a\<lparr>got := (got a)(i := got a i @ [buf])\<rparr>"

fun pp_pre :: "nat \<Rightarrow> pp_view \<Rightarrow> pp_op \<Rightarrow> bool" where
  "pp_pre n a (PpConnection connected i) \<longleftrightarrow> i < n \<and> (connected \<longleftrightarrow> i \<notin> up_sessions a)"
| "pp_pre n a (PpMessage i buf) \<longleftrightarrow> i \<in> up_sessions a"

text \<open>The client agrees with the view \<open>a\<close>.\<close>

definition session_agrees :: "string list \<Rightarrow> session \<Rightarrow> bool" where
  "session_agrees ms x \<longleftrightarrow> bytesRead x = word_of_nat (length (concat ms)) \<and>
     messagesRead x = word_of_nat (length ms) \<and> bytesWritten x = bytesRead x"

definition pp_agrees :: "nat \<Rightarrow> pp_client \<Rightarrow> pp_view \<Rightarrow> bool" where
  "pp_agrees n s a \<longleftrightarrow> n < 2 ^ 31 \<and> length (sessions s) = n \<and> sessionCount s = int n \<and>
     up_sessions a \<subseteq> {..<n} \<and> numConnected s = word_of_nat (card (up_sessions a)) \<and>
     quits s = ended a \<and> all_connected s = complete a \<and>
     (\<forall>i < n. session_agrees (got a i) (sessions s ! i))"

lemma small_card:
  fixes U :: "nat set"
  assumes "U \<subseteq> {..<n}" "n < 2 ^ 31"
  shows "sint (word_of_nat (card U) :: 32 word) = int (card U)" "finite U"
    "(word_of_nat (card U) :: 32 word) = 0 \<longleftrightarrow> U = {}"
proof -
  show f: "finite U" by (rule finite_subset[OF assms(1)]) simp
  have "card U \<le> n" using card_mono[OF _ assms(1)] by simp
  with assms(2) have "card U < 2 ^ 31" by linarith
  then show s: "sint (word_of_nat (card U) :: 32 word) = int (card U)" by (rule sint_of_nat32)
  show "(word_of_nat (card U) :: 32 word) = 0 \<longleftrightarrow> U = {}"
  proof
    assume "(word_of_nat (card U) :: 32 word) = 0"
    with s have "card U = 0" by simp
    with f show "U = {}" by simp
  qed simp
qed

lemma up_agrees:
  assumes "pp_agrees n s a" "i < n" "i \<notin> up_sessions a"
  shows "pp_agrees n (pp_onConnection True i s) (pp_spec n a (PpConnection True i))"
proof -
  let ?U = "insert i (up_sessions a)"
  have U: "?U \<subseteq> {..<n}" "n < 2 ^ 31" using assms(1,2) by (auto simp: pp_agrees_def)
  have f: "finite (up_sessions a)" using small_card(2)[OF U] by simp
  have c: "(word_of_nat (card ?U) :: 32 word) = numConnected s + 1"
    using assms(1,3) f by (simp add: pp_agrees_def)
  have "numConnected s + 1 = word_of_nat (card ?U)" by (rule c[symmetric])
  then show ?thesis
    using assms U small_card(1)[OF U]
    by (auto simp: pp_onConnection_def onConnect_def incrementAndGet_def addAndGet_def getAndAdd_def Let_def
        pp_agrees_def nth_list_update session_agrees_def simp del: of_nat_Suc card_insert_disjoint)
qed

lemma down_agrees:
  assumes "pp_agrees n s a" "i \<in> up_sessions a"
  shows "pp_agrees n (pp_onConnection False i s) (pp_spec n a (PpConnection False i))"
proof -
  let ?U = "up_sessions a - {i}"
  have U: "?U \<subseteq> {..<n}" "n < 2 ^ 31" "up_sessions a \<subseteq> {..<n}" using assms(1) by (auto simp: pp_agrees_def)
  have f: "finite (up_sessions a)" using small_card(2)[OF U(3,2)] .
  then have "card (up_sessions a) = Suc (card ?U)" using assms(2) by (metis card_Suc_Diff1)
  then have c: "numConnected s + - 1 = word_of_nat (card ?U)" using assms(1) by (simp add: pp_agrees_def)
  show ?thesis
    using assms U small_card(3)[OF U(1,2)] c
    by (auto simp: pp_onConnection_def onDisconnect_def decrementAndGet_def addAndGet_def getAndAdd_def Let_def
        pp_agrees_def)
qed

lemma message_agrees:
  assumes "pp_agrees n s a" "i \<in> up_sessions a"
  shows "pp_agrees n (pp_onMessage i buf s) (pp_spec n a (PpMessage i buf))"
proof -
  have "i < n" using assms by (auto simp: pp_agrees_def)
  with assms show ?thesis
    by (auto simp: pp_onMessage_def pp_agrees_def nth_list_update session_agrees_def Let_def)
qed

interpretation ping_pong: simulation pp_exec "pp_agrees n" "pp_pre n" "pp_spec n" for n
proof
  fix s a x
  assume ag: "pp_agrees n s a" and pre: "pp_pre n a x"
  have len: "length (sessions s) = n" and up: "i \<in> up_sessions a \<Longrightarrow> i < n" for i
    using ag by (auto simp: pp_agrees_def)
  show "\<exists>s'. pp_exec s x = Inr s' \<and> pp_agrees n s' (pp_spec n a x)"
  proof (cases x)
    case (PpConnection connected i)
    with pre len up_agrees[OF ag, of i] down_agrees[OF ag, of i] show ?thesis
      by (cases connected) (simp_all del: pp_spec.simps)
  next
    case (PpMessage i buf)
    with pre len up message_agrees[OF ag, of i buf] show ?thesis by (simp del: pp_spec.simps)
  qed
qed

definition pp_start :: pp_view where
  "pp_start = \<lparr>up_sessions = {}, got = (\<lambda>i. []), ended = 0, complete = 0\<rparr>"

lemma pp_new_agrees: "n < 2 ^ 31 \<Longrightarrow> pp_agrees n (pp_new k n) pp_start"
  by (simp add: pp_agrees_def pp_new_def pp_start_def session_agrees_def session_new_def)

text \<open>
  The counters of the client are right: through any connections and messages of fewer than
  2 to the 31 sessions, the atomic counter is the number of sessions that are up, each session
  has counted its messages and bytes (modulo 2 to the 64) and given as many bytes back as it got,
  and the end of the loop is posted exactly whenever the last session that is up goes down.
\<close>

theorem ping_pong_counts:
  assumes "n < 2 ^ 31" "admissible (pp_pre n) (pp_spec n) pp_start xs"
  shows "\<exists>s. run_ops pp_exec (pp_new k n) xs = Inr s \<and> pp_agrees n s (foldl (pp_spec n) pp_start xs)"
  by (rule ping_pong.run_agrees[OF pp_new_agrees[OF assms(1)] assms(2)])

text \<open>
  With two sessions, the first is done before the second is up: the end of the loop is posted
  when half of the work has not begun.
\<close>

definition one_by_one :: "pp_op list" where
  "one_by_one = [PpConnection True 0, PpMessage 0 ''abc'', PpConnection False 0]"

theorem ping_pong_counts_witness:
  "\<exists>s. run_ops pp_exec (pp_new 4 2) one_by_one = Inr s \<and> numConnected s = 0 \<and> quits s = 1 \<and> all_connected s = 0 \<and>
    bytesRead (sessions s ! 0) = 3"
proof -
  have a: "admissible (pp_pre 2) (pp_spec 2) pp_start one_by_one" by (simp add: pp_start_def one_by_one_def)
  from ping_pong_counts[OF _ a, of 4] obtain s where
    s: "run_ops pp_exec (pp_new 4 2) one_by_one = Inr s" "pp_agrees 2 s (foldl (pp_spec 2) pp_start one_by_one)" by auto
  from s(2) have "numConnected s = 0 \<and> quits s = 1 \<and> all_connected s = 0 \<and> bytesRead (sessions s ! 0) = 3"
    by (simp add: pp_agrees_def pp_start_def one_by_one_def session_agrees_def)
  with s(1) show ?thesis by blast
qed

end
