(* ===== verification/Reactor.thy ===== *)
theory Reactor
  imports EPoller
begin

text \<open>
  The reactor: \<^verbatim>\<open>EventLoop::loop()\<close> (net/EventLoop.cc) together with the poller it waits in and
  the channels it calls. The loop thread goes on in small steps (one callback at a time), and
  between any two of them the callback that runs, or another thread, may create channels, change
  their interest, remove or destroy them, post functors or ask the loop to quit.

  What \<open>EventLoop\<close> leaves open, the channels and the poller, is here the model of \<open>EPoller\<close>; the
  interleavings inside \<^verbatim>\<open>queueInLoop\<close> are the subject of \<open>EventLoop\<close>.
\<close>

section \<open>State\<close>

text \<open>
  Where the loop thread is: outside \<^verbatim>\<open>loop()\<close>, in poll, between two active channels, in
  \<^verbatim>\<open>handleEvent\<close> of a channel with some of its tests still ahead, in \<^verbatim>\<open>doPendingFunctors\<close>.
\<close>

datatype rx_phase = RxIdle | RxPolling | RxDispatching | RxCalling nat "callback list" | RxFunctors "nat list"

text \<open>
  \<open>rx_active\<close> is the part of \<^verbatim>\<open>activeChannels_\<close> that is still to be handled, \<open>rx_wakeup\<close> the counter of
  the eventfd. History for the properties: the callbacks the reports of the poller called for,
  those that ran, the functors that were posted, those that ran.
\<close>

record reactor =
  rx_poller :: epoller
  rx_active :: "nat list"
  rx_phase :: rx_phase
  rx_looping :: bool
  rx_quit :: bool
  rx_calling :: bool
  rx_pending :: "nat list"
  rx_wakeup :: nat
  rx_wakeupChannel :: nat
  rx_threadId :: nat
  rx_reported :: "(nat \<times> callback) list"
  rx_called :: "(nat \<times> callback) list"
  rx_posted :: "nat list"
  rx_ran :: "nat list"

text \<open>
  The constructor, in the thread \<open>tid\<close>. \<open>loops\<close> is \<^verbatim>\<open>t_loopInThisThread\<close> of every thread. The timer queue
  registers its channel first (at address \<open>tc\<close>, descriptor \<open>tfd\<close>), then the wakeup channel follows
  (at \<open>w\<close>, descriptor \<open>wfd\<close>, what \<^verbatim>\<open>eventfd\<close> returned).
\<close>

definition loop_create ::
  "(nat \<rightharpoonup> nat) \<Rightarrow> nat \<Rightarrow> nat \<Rightarrow> nat \<Rightarrow> int \<Rightarrow> nat \<Rightarrow> int \<Rightarrow> ((nat \<rightharpoonup> nat) \<times> reactor) res" where
  "loop_create loops this tid tc tfd w wfd =
     bindR (change_interest EnableReading tc (ep_put tc ((channel_new tfd)\<lparr>readCallback := True\<rparr>) ep_new)) (\<lambda>ep.
     if wfd < 0 then Inl FatalAbort
     else if loops tid \<noteq> None then Inl FatalAbort
     else bindR (change_interest EnableReading w (ep_put w ((channel_new wfd)\<lparr>readCallback := True\<rparr>) ep)) (\<lambda>ep.
       Inr (loops(tid \<mapsto> this),
         \<lparr>rx_poller = ep, rx_active = [], rx_phase = RxIdle, rx_looping = False, rx_quit = False,
          rx_calling = False, rx_pending = [], rx_wakeup = 0, rx_wakeupChannel = w, rx_threadId = tid,
          rx_reported = [], rx_called = [], rx_posted = [], rx_ran = []\<rparr>)))"

definition loop_destroy :: "(nat \<rightharpoonup> nat) \<Rightarrow> nat \<Rightarrow> reactor \<Rightarrow> (nat \<rightharpoonup> nat) res" where
  "loop_destroy loops tid s = bindR (assertR (\<not> rx_looping s)) (\<lambda>_. Inr (loops(tid := None)))"

section \<open>Operations\<close>

definition assertInLoopThread :: "nat \<Rightarrow> reactor \<Rightarrow> unit res" where
  "assertInLoopThread tid s = (if tid = rx_threadId s then Inr () else Inl FatalAbort)"

text \<open>\<^verbatim>\<open>Channel::enableReading\<close> and the like, through \<^verbatim>\<open>EventLoop::updateChannel\<close>.\<close>

definition loop_updateChannel :: "nat \<Rightarrow> interest_change \<Rightarrow> nat \<Rightarrow> reactor \<Rightarrow> reactor res" where
  "loop_updateChannel tid k p s =
     bindR (assertInLoopThread tid s) (\<lambda>_.
     bindR (change_interest k p (rx_poller s)) (\<lambda>ep. Inr (s\<lparr>rx_poller := ep\<rparr>)))"

definition loop_removeChannel :: "nat \<Rightarrow> nat \<Rightarrow> reactor \<Rightarrow> reactor res" where
  "loop_removeChannel tid p s =
     bindR (assertInLoopThread tid s) (\<lambda>_.
     bindR (ep_removeChannel p (rx_poller s)) (\<lambda>ep. Inr (s\<lparr>rx_poller := ep\<rparr>)))"

definition loop_wakeup :: "reactor \<Rightarrow> reactor" where
  "loop_wakeup s = s\<lparr>rx_wakeup := rx_wakeup s + 1\<rparr>"

definition loop_queueInLoop :: "nat \<Rightarrow> nat \<Rightarrow> reactor \<Rightarrow> reactor" where
  "loop_queueInLoop tid f s =
     (let s1 = s\<lparr>rx_pending := rx_pending s @ [f], rx_posted := rx_posted s @ [f]\<rparr> in
      if tid \<noteq> rx_threadId s1 \<or> rx_calling s1 then loop_wakeup s1 else s1)"

definition loop_quit :: "nat \<Rightarrow> reactor \<Rightarrow> reactor" where
  "loop_quit tid s =
     (let s1 = s\<lparr>rx_quit := True\<rparr> in if tid \<noteq> rx_threadId s1 then loop_wakeup s1 else s1)"

definition loop_start :: "nat \<Rightarrow> reactor \<Rightarrow> reactor res" where
  "loop_start tid s =
     bindR (assertR (\<not> rx_looping s)) (\<lambda>_.
     bindR (assertInLoopThread tid s) (\<lambda>_.
     Inr (s\<lparr>rx_looping := True, rx_quit := False, rx_active := [], rx_phase := RxPolling\<rparr>)))"

text \<open>
  The return of \<^verbatim>\<open>epoll_wait\<close> with \<open>numEvents\<close> and the entries \<open>evs\<close>. The history notes which
  callbacks the entries call for.
\<close>

definition all_callbacks :: "callback list" where
  "all_callbacks = [CloseCb, ErrorCb, ReadCb, WriteCb]"

definition calls_for :: "epoller \<Rightarrow> nat \<times> 32 word \<Rightarrow> (nat \<times> callback) list" where
  "calls_for ep = (\<lambda>(p, ev). case ep_objects ep p of None \<Rightarrow> []
     | Some c \<Rightarrow> map (Pair p) (filter (\<lambda>k. callback_bits k ev \<and> callback_set k c) all_callbacks))"

definition loop_poll :: "int \<Rightarrow> (nat \<times> 32 word) list \<Rightarrow> reactor \<Rightarrow> reactor res" where
  "loop_poll numEvents evs s =
     bindR (ep_poll numEvents evs (rx_active s) (rx_poller s)) (\<lambda>(active, ep).
     Inr (s\<lparr>rx_poller := ep, rx_active := active, rx_phase := RxDispatching,
            rx_reported := rx_reported s @ concat (map (calls_for (rx_poller s)) (take (nat numEvents) evs))\<rparr>))"

text \<open>
  One callback. The wakeup channel's is \<^verbatim>\<open>EventLoop::handleRead\<close>; what a callback of the
  user does follows as operations of its own.
\<close>

definition loop_callback :: "nat \<Rightarrow> callback \<Rightarrow> reactor \<Rightarrow> reactor res" where
  "loop_callback p k s =
     bindR (if p = rx_wakeupChannel s \<and> k = ReadCb
            then (if rx_wakeup s = 0 then Inl FatalAbort else Inr (s\<lparr>rx_wakeup := 0\<rparr>))
            else Inr s)
       (\<lambda>s. Inr (s\<lparr>rx_called := rx_called s @ [(p, k)]\<rparr>))"

text \<open>The next step of the loop thread; in poll and outside \<^verbatim>\<open>loop()\<close> it waits.\<close>

definition loop_step :: "reactor \<Rightarrow> reactor res" where
  "loop_step s =
     (case rx_phase s of
       RxIdle \<Rightarrow> Inr s
     | RxPolling \<Rightarrow> Inr s
     | RxDispatching \<Rightarrow>
         (case rx_active s of
           [] \<Rightarrow> Inr (s\<lparr>rx_calling := True, rx_phase := RxFunctors (rx_pending s), rx_pending := []\<rparr>)
         | p # ps \<Rightarrow> bindR (ep_deref (rx_poller s) p) (\<lambda>c.
             Inr (s\<lparr>rx_poller := ep_put p (c\<lparr>eventHandling := True\<rparr>) (rx_poller s), rx_active := ps,
                    rx_phase := RxCalling p all_callbacks\<rparr>)))
     | RxCalling p [] \<Rightarrow> bindR (ep_deref (rx_poller s) p) (\<lambda>c.
         Inr (s\<lparr>rx_poller := ep_put p (c\<lparr>eventHandling := False\<rparr>) (rx_poller s), rx_phase := RxDispatching\<rparr>))
     | RxCalling p (k # ks) \<Rightarrow> bindR (ep_deref (rx_poller s) p) (\<lambda>c.
         if callback_bits k (revents c) \<and> callback_set k c
         then loop_callback p k (s\<lparr>rx_phase := RxCalling p ks\<rparr>)
         else Inr (s\<lparr>rx_phase := RxCalling p ks\<rparr>))
     | RxFunctors (f # fs) \<Rightarrow> Inr (s\<lparr>rx_ran := rx_ran s @ [f], rx_phase := RxFunctors fs\<rparr>)
     | RxFunctors [] \<Rightarrow>
         (let s1 = s\<lparr>rx_calling := False\<rparr> in
          Inr (if rx_quit s1 then s1\<lparr>rx_looping := False, rx_phase := RxIdle\<rparr>
               else s1\<lparr>rx_active := [], rx_phase := RxPolling\<rparr>)))"

datatype rx_op =
    RxStart nat
  | RxPoll int "(nat \<times> 32 word) list"
  | RxStep
  | RxCreate nat int "callback list"
  | RxChange nat nat interest_change
  | RxRemove nat nat
  | RxDestroy nat
  | RxPost nat nat
  | RxQuit nat

definition channel_with :: "int \<Rightarrow> callback list \<Rightarrow> channel" where
  "channel_with fd ks = (channel_new fd)\<lparr>readCallback := ReadCb \<in> set ks, writeCallback := WriteCb \<in> set ks,
     errorCallback := ErrorCb \<in> set ks, closeCallback := CloseCb \<in> set ks\<rparr>"

fun rx_exec :: "reactor \<Rightarrow> rx_op \<Rightarrow> reactor res" where
  "rx_exec s (RxStart tid) = loop_start tid s"
| "rx_exec s (RxPoll n evs) = loop_poll n evs s"
| "rx_exec s RxStep = loop_step s"
| "rx_exec s (RxCreate p fd ks) = Inr (s\<lparr>rx_poller := ep_put p (channel_with fd ks) (rx_poller s)\<rparr>)"
| "rx_exec s (RxChange tid p k) = loop_updateChannel tid k p s"
| "rx_exec s (RxRemove tid p) = loop_removeChannel tid p s"
| "rx_exec s (RxDestroy p) =
     bindR (ep_exec (rx_poller s) (EpDestroy p)) (\<lambda>ep. Inr (s\<lparr>rx_poller := ep\<rparr>))"
| "rx_exec s (RxPost tid f) = Inr (loop_queueInLoop tid f s)"
| "rx_exec s (RxQuit tid) = Inr (loop_quit tid s)"

lemmas rx_ops = loop_start_def assertInLoopThread_def loop_updateChannel_def loop_removeChannel_def
  loop_queueInLoop_def loop_wakeup_def loop_quit_def Let_def

section \<open>The rules of the client and of the kernel\<close>

text \<open>
  The kernel reports entries of its interest set, each at most once and no more than there is
  room for, and the eventfd as readable only when its counter is positive. The client uses
  channels in the loop's thread and by the rules of the poller, leaves the wakeup channel
  alone, and does not destroy a channel that is being handled or is still to be handled.
\<close>

fun rx_pre :: "reactor \<Rightarrow> rx_op \<Rightarrow> bool" where
  "rx_pre s (RxStart tid) \<longleftrightarrow> \<not> rx_looping s \<and> tid = rx_threadId s"
| "rx_pre s (RxPoll n evs) \<longleftrightarrow> rx_phase s = RxPolling \<and> n \<le> int (length evs) \<and>
     n \<le> int (ep_events_size (rx_poller s)) \<and> distinct (map fst evs) \<and>
     (\<forall>(p, ev) \<in> set evs. (\<exists>fd e. ep_interest (rx_poller s) fd = Some (e, p)) \<and>
        (p = rx_wakeupChannel s \<and> callback_bits ReadCb ev \<longrightarrow> 0 < rx_wakeup s))"
| "rx_pre s RxStep \<longleftrightarrow> True"
| "rx_pre s (RxCreate p fd ks) \<longleftrightarrow> ep_objects (rx_poller s) p = None"
| "rx_pre s (RxChange tid p k) \<longleftrightarrow> tid = rx_threadId s \<and> p \<noteq> rx_wakeupChannel s \<and>
     ep_pre (ep_abs (rx_poller s)) (EpChange p k)"
| "rx_pre s (RxRemove tid p) \<longleftrightarrow> tid = rx_threadId s \<and> p \<noteq> rx_wakeupChannel s \<and>
     ep_pre (ep_abs (rx_poller s)) (EpRemove p)"
| "rx_pre s (RxDestroy p) \<longleftrightarrow> p \<noteq> rx_wakeupChannel s \<and> ep_pre (ep_abs (rx_poller s)) (EpDestroy p) \<and>
     p \<notin> set (rx_active s) \<and> (\<forall>ks. rx_phase s \<noteq> RxCalling p ks)"
| "rx_pre s (RxPost tid f) \<longleftrightarrow> True"
| "rx_pre s (RxQuit tid) \<longleftrightarrow> True"

definition rx_init :: "reactor \<Rightarrow> bool" where
  "rx_init s \<longleftrightarrow> (\<exists>loops this tid tc tfd w wfd loops'. tc \<noteq> w \<and> tfd \<noteq> wfd \<and>
     loop_create loops this tid tc tfd w wfd = Inr (loops', s))"

section \<open>Invariant\<close>

text \<open>The callbacks that the present round has still to run.\<close>

definition due_of :: "epoller \<Rightarrow> callback list \<Rightarrow> nat \<Rightarrow> (nat \<times> callback) list" where
  "due_of ep ks p = (case ep_dispatch ep p of None \<Rightarrow> []
     | Some (r, h, f) \<Rightarrow> map (Pair p) (filter (\<lambda>k. callback_bits k r \<and> f k) ks))"

definition owed :: "reactor \<Rightarrow> (nat \<times> callback) list" where
  "owed s = (case rx_phase s of RxCalling p ks \<Rightarrow> due_of (rx_poller s) ks p | _ \<Rightarrow> []) @
     concat (map (due_of (rx_poller s) all_callbacks) (rx_active s))"

definition rx_batch :: "reactor \<Rightarrow> nat list" where
  "rx_batch s = (case rx_phase s of RxFunctors fs \<Rightarrow> fs | _ \<Rightarrow> [])"

text \<open>The channels the loop still holds pointers to.\<close>

definition held :: "reactor \<Rightarrow> nat list" where
  "held s = (case rx_phase s of RxCalling p ks \<Rightarrow> [p] | _ \<Rightarrow> []) @ rx_active s"

definition in_call :: "reactor \<Rightarrow> nat \<Rightarrow> bool" where
  "in_call s p = (case rx_phase s of RxCalling q ks \<Rightarrow> p = q | _ \<Rightarrow> False)"

definition in_dispatch :: "reactor \<Rightarrow> bool" where
  "in_dispatch s = (case rx_phase s of RxDispatching \<Rightarrow> True | RxCalling p ks \<Rightarrow> True | _ \<Rightarrow> False)"

definition rx_inv :: "reactor \<Rightarrow> bool" where
  "rx_inv s \<longleftrightarrow> ep_core (rx_poller s) \<and>
     (\<forall>p \<in> set (held s). ep_dispatch (rx_poller s) p \<noteq> None) \<and>
     (\<forall>p r h f. ep_dispatch (rx_poller s) p = Some (r, h, f) \<longrightarrow> h = in_call s p) \<and>
     (rx_active s \<noteq> [] \<longrightarrow> in_dispatch s) \<and>
     rx_looping s = (rx_phase s \<noteq> RxIdle) \<and>
     rx_called s @ owed s = rx_reported s \<and> distinct (owed s) \<and>
     ((rx_wakeupChannel s, ReadCb) \<in> set (owed s) \<longrightarrow> 0 < rx_wakeup s) \<and>
     rx_ran s @ rx_batch s @ rx_pending s = rx_posted s"

lemma rx_invD:
  assumes "rx_inv s"
  shows "ep_core (rx_poller s)"
    "p \<in> set (held s) \<Longrightarrow> ep_dispatch (rx_poller s) p \<noteq> None"
    "ep_dispatch (rx_poller s) p = Some (r, h, f) \<Longrightarrow> h = in_call s p"
    "rx_active s \<noteq> [] \<Longrightarrow> in_dispatch s"
    "rx_looping s = (rx_phase s \<noteq> RxIdle)"
    "rx_called s @ owed s = rx_reported s" "distinct (owed s)"
    "(rx_wakeupChannel s, ReadCb) \<in> set (owed s) \<Longrightarrow> 0 < rx_wakeup s"
    "rx_ran s @ rx_batch s @ rx_pending s = rx_posted s"
  using assms unfolding rx_inv_def by blast+

text \<open>The view of the phase does not look at the other fields.\<close>

lemma held_live:
  assumes "rx_inv s" "p \<in> set (held s)"
  shows "\<exists>c. ep_objects (rx_poller s) p = Some c \<and> eventHandling c = in_call s p"
proof -
  obtain c where c: "ep_objects (rx_poller s) p = Some c"
    using rx_invD(2)[OF assms] by (auto simp: ep_dispatch_def)
  then have "ep_dispatch (rx_poller s) p = Some (revents c, eventHandling c, \<lambda>k. callback_set k c)"
    by (simp add: ep_dispatch_def)
  from rx_invD(3)[OF assms(1) this] c show ?thesis by blast
qed

lemma due_of_cong: "ep_dispatch ep p = ep_dispatch ep' p \<Longrightarrow> due_of ep ks p = due_of ep' ks p"
  by (simp add: due_of_def)

text \<open>Calls that only reach the poller, and leave the channels alone that are held.\<close>

lemma rx_inv_poller:
  assumes "rx_inv s" "ep_core ep"
    and same: "\<And>p. p \<in> set (held s) \<Longrightarrow> ep_dispatch ep p = ep_dispatch (rx_poller s) p"
    and flags: "\<And>p r h f. ep_dispatch ep p = Some (r, h, f) \<Longrightarrow> h = in_call s p"
  shows "rx_inv (s\<lparr>rx_poller := ep\<rparr>)"
proof -
  let ?s = "s\<lparr>rx_poller := ep\<rparr>"
  have view: "held ?s = held s" "in_call ?s = in_call s" "in_dispatch ?s = in_dispatch s"
    "rx_batch ?s = rx_batch s"
    by (simp_all add: held_def in_call_def fun_eq_iff in_dispatch_def rx_batch_def)
  have due: "due_of ep ks p = due_of (rx_poller s) ks p" if "p \<in> set (held s)" for ks p
    using same[OF that] by (rule due_of_cong)
  have act: "concat (map (due_of ep all_callbacks) (rx_active s)) =
      concat (map (due_of (rx_poller s) all_callbacks) (rx_active s))"
    by (rule arg_cong[where f = concat], rule map_cong[OF refl], rule due) (simp add: held_def)
  have "owed ?s = owed s"
  proof (cases "rx_phase s")
    case (RxCalling p ks)
    with due[of p ks] act show ?thesis by (simp add: owed_def held_def)
  qed (use act in \<open>simp_all add: owed_def\<close>)
  note A = assms(1) [unfolded rx_inv_def] and eqs = view this
  show ?thesis unfolding rx_inv_def eqs
  proof (intro conjI)
    show "\<forall>p \<in> set (held s). ep_dispatch (rx_poller ?s) p \<noteq> None" using A same by simp
    show "\<forall>p r h f. ep_dispatch (rx_poller ?s) p = Some (r, h, f) \<longrightarrow> h = in_call s p"
      using flags by simp
  qed (use A assms(2) in simp_all)
qed

lemma dispatch_put: "ep_dispatch (ep_put p c ep) =
  (ep_dispatch ep)(p \<mapsto> (revents c, eventHandling c, \<lambda>k. callback_set k c))"
  by (rule ext) (simp add: ep_dispatch_def ep_put_def)

lemma rx_change_ok:
  assumes "rx_inv s" "rx_pre s (RxChange tid p k)"
  shows "\<exists>s'. rx_exec s (RxChange tid p k) = Inr s' \<and> rx_inv s'"
proof -
  obtain ep where "change_interest k p (rx_poller s) = Inr ep" "ep_core ep"
    "ep_dispatch ep = ep_dispatch (rx_poller s)"
    using change_interest_core[OF rx_invD(1)[OF assms(1)], of p k] assms(2) by auto
  moreover from this have "rx_inv (s\<lparr>rx_poller := ep\<rparr>)"
    using rx_inv_poller[OF assms(1), of ep] rx_invD(3)[OF assms(1)] by simp
  ultimately show ?thesis using assms(2) by (simp add: rx_ops)
qed

lemma rx_remove_ok:
  assumes "rx_inv s" "rx_pre s (RxRemove tid p)"
  shows "\<exists>s'. rx_exec s (RxRemove tid p) = Inr s' \<and> rx_inv s'"
proof -
  obtain ep where "ep_removeChannel p (rx_poller s) = Inr ep" "ep_core ep"
    "ep_dispatch ep = ep_dispatch (rx_poller s)"
    using removeChannel_core[OF rx_invD(1)[OF assms(1)], of p] assms(2) by auto
  moreover from this have "rx_inv (s\<lparr>rx_poller := ep\<rparr>)"
    using rx_inv_poller[OF assms(1), of ep] rx_invD(3)[OF assms(1)] by simp
  ultimately show ?thesis using assms(2) by (simp add: rx_ops)
qed

lemma rx_create_ok:
  assumes "rx_inv s" "rx_pre s (RxCreate p fd ks)"
  shows "rx_inv (s\<lparr>rx_poller := ep_put p (channel_with fd ks) (rx_poller s)\<rparr>)"
proof (rule rx_inv_poller[OF assms(1)])
  have none: "ep_objects (rx_poller s) p = None" using assms(2) by simp
  have new: "ch_index (channel_with fd ks) = kNew" "\<not> eventHandling (channel_with fd ks)"
    by (simp_all add: channel_with_def channel_new_def index_defs)
  show "ep_core (ep_put p (channel_with fd ks) (rx_poller s))"
    using ep_put_core[OF rx_invD(1)[OF assms(1)] none new(1)] by simp
  have notheld: "p \<notin> set (held s)" using rx_invD(2)[OF assms(1), of p] none by (auto simp: ep_dispatch_def)
  then show "q \<in> set (held s) \<Longrightarrow>
      ep_dispatch (ep_put p (channel_with fd ks) (rx_poller s)) q = ep_dispatch (rx_poller s) q" for q
    by (auto simp: dispatch_put)
  from notheld have "\<not> in_call s p" by (auto simp: held_def in_call_def split: rx_phase.splits)
  then show "ep_dispatch (ep_put p (channel_with fd ks) (rx_poller s)) q = Some (r, h, f) \<Longrightarrow>
      h = in_call s q" for q r h f
    using rx_invD(3)[OF assms(1), of q r h f] new(2) by (auto simp: dispatch_put split: if_splits)
qed

lemma rx_destroy_ok:
  assumes "rx_inv s" "rx_pre s (RxDestroy p)"
  shows "\<exists>s'. rx_exec s (RxDestroy p) = Inr s' \<and> rx_inv s'"
proof -
  obtain c where c: "ep_objects (rx_poller s) p = Some c" "ch_index c = kNew"
    using assms(2) by (auto simp: ep_abs_def split: option.splits)
  have out: "p \<notin> set (held s)" "\<not> in_call s p"
    using assms(2) by (cases "rx_phase s"; auto simp: held_def in_call_def)+
  have "ep_dispatch (rx_poller s) p = Some (revents c, eventHandling c, \<lambda>k. callback_set k c)"
    using c by (simp add: ep_dispatch_def)
  from rx_invD(3)[OF assms(1) this] out(2) have idle: "\<not> eventHandling c" by simp
  let ?ep = "(rx_poller s)\<lparr>ep_objects := (ep_objects (rx_poller s))(p := None)\<rparr>"
  have d: "ep_dispatch ?ep = (ep_dispatch (rx_poller s))(p := None)"
    by (rule ext) (simp add: ep_dispatch_def)
  have "rx_inv (s\<lparr>rx_poller := ?ep\<rparr>)"
    using ep_drop_core(1)[OF rx_invD(1)[OF assms(1)] c] out(1) rx_invD(3)[OF assms(1)]
    by (intro rx_inv_poller[OF assms(1)]) (auto simp: d split: if_splits)
  with c idle show ?thesis by (simp add: ep_deref_def channel_destroy_def)
qed

text \<open>The steps of the loop thread.\<close>

text \<open>How many steps of its own the loop thread is away from poll.\<close>

definition rx_left :: "reactor \<Rightarrow> nat" where
  "rx_left s = (case rx_phase s of
     RxIdle \<Rightarrow> 0 | RxPolling \<Rightarrow> 0
   | RxDispatching \<Rightarrow> 6 * length (rx_active s) + length (rx_pending s) + 2
   | RxCalling p ks \<Rightarrow> length ks + 1 + 6 * length (rx_active s) + length (rx_pending s) + 2
   | RxFunctors fs \<Rightarrow> length fs + 1)"

lemmas rx_views = owed_def held_def in_call_def in_dispatch_def rx_batch_def

text \<open>What no step of the loop thread changes, and that it comes nearer to poll.\<close>

definition stepped :: "reactor \<Rightarrow> reactor \<Rightarrow> bool" where
  "stepped s s' \<longleftrightarrow> rx_reported s' = rx_reported s \<and> rx_posted s' = rx_posted s \<and>
     rx_quit s' = rx_quit s \<and> rx_left s' = rx_left s - 1 \<and> rx_threadId s' = rx_threadId s \<and>
     ep_abs (rx_poller s') = ep_abs (rx_poller s) \<and>
     (rx_left s > 0 \<longrightarrow> rx_left s' = 0 \<longrightarrow> rx_phase s' = (if rx_quit s then RxIdle else RxPolling)) \<and>
     (in_dispatch s \<or> rx_pending s = [] \<longrightarrow> in_dispatch s' \<or> rx_pending s' = [])"

lemma due_of_mark:
  "ep_objects ep p = Some c \<Longrightarrow> due_of (ep_put p (c\<lparr>eventHandling := h\<rparr>) ep) = due_of ep"
  by (intro ext) (simp add: due_of_def dispatch_put ep_dispatch_def ep_put_def)

lemma step_take:
  assumes inv: "rx_inv s" and ph: "rx_phase s = RxDispatching" and act: "rx_active s = p # ps"
  shows "\<exists>s'. loop_step s = Inr s' \<and> rx_inv s' \<and> stepped s s'"
proof -
  obtain c where c: "ep_objects (rx_poller s) p = Some c" "\<not> eventHandling c"
    using held_live[OF inv, of p] ph act by (auto simp: rx_views)
  let ?c = "c\<lparr>eventHandling := True\<rparr>"
  let ?ep = "ep_put p ?c (rx_poller s)"
  let ?s = "s\<lparr>rx_poller := ?ep, rx_active := ps, rx_phase := RxCalling p all_callbacks\<rparr>"
  note A = rx_invD[OF inv]
  note m = ep_mark_core[OF A(1) c(1), of ?c, simplified]
  have owed: "owed ?s = owed s" using ph act due_of_mark[OF c(1)] by (simp add: owed_def)
  have "rx_inv ?s" unfolding rx_inv_def
  proof (intro conjI)
    show "\<forall>q \<in> set (held ?s). ep_dispatch (rx_poller ?s) q \<noteq> None"
      using A(2) ph act by (auto simp: held_def dispatch_put)
    show "\<forall>q r h f. ep_dispatch (rx_poller ?s) q = Some (r, h, f) \<longrightarrow> h = in_call ?s q"
      using A(3) ph by (auto simp: in_call_def dispatch_put split: if_splits)
    show "distinct (owed ?s)" "rx_called ?s @ owed ?s = rx_reported ?s"
      "(rx_wakeupChannel ?s, ReadCb) \<in> set (owed ?s) \<longrightarrow> 0 < rx_wakeup ?s"
      unfolding owed using A(6,7,8) by simp_all
    show "rx_ran ?s @ rx_batch ?s @ rx_pending ?s = rx_posted ?s" using A(9) ph by (simp add: rx_batch_def)
  qed (use A(5) ph m in \<open>simp_all add: in_dispatch_def\<close>)
  moreover have "stepped s ?s" using ph act m by (simp add: stepped_def rx_left_def in_dispatch_def all_callbacks_def)
  moreover have "loop_step s = Inr ?s" using ph act c by (simp add: loop_step_def ep_deref_def)
  ultimately show ?thesis by blast
qed

lemma step_clear:
  assumes inv: "rx_inv s" and ph: "rx_phase s = RxCalling p []"
  shows "\<exists>s'. loop_step s = Inr s' \<and> rx_inv s' \<and> stepped s s'"
proof -
  obtain c where c: "ep_objects (rx_poller s) p = Some c"
    using held_live[OF inv, of p] ph by (auto simp: rx_views)
  let ?c = "c\<lparr>eventHandling := False\<rparr>"
  let ?ep = "ep_put p ?c (rx_poller s)"
  let ?s = "s\<lparr>rx_poller := ?ep, rx_phase := RxDispatching\<rparr>"
  note A = rx_invD[OF inv]
  note m = ep_mark_core[OF A(1) c, of ?c, simplified]
  have "due_of (rx_poller s) [] p = []" by (simp add: due_of_def split: option.split prod.split)
  with due_of_mark[OF c] have owed: "owed ?s = owed s" using ph by (simp add: owed_def)
  have "rx_inv ?s" unfolding rx_inv_def
  proof (intro conjI)
    show "\<forall>q \<in> set (held ?s). ep_dispatch (rx_poller ?s) q \<noteq> None"
      using A(2) ph by (auto simp: held_def dispatch_put)
    show "\<forall>q r h f. ep_dispatch (rx_poller ?s) q = Some (r, h, f) \<longrightarrow> h = in_call ?s q"
      using A(3) ph by (auto simp: in_call_def dispatch_put split: if_splits)
    show "distinct (owed ?s)" "rx_called ?s @ owed ?s = rx_reported ?s"
      "(rx_wakeupChannel ?s, ReadCb) \<in> set (owed ?s) \<longrightarrow> 0 < rx_wakeup ?s"
      unfolding owed using A(6,7,8) by simp_all
    show "rx_ran ?s @ rx_batch ?s @ rx_pending ?s = rx_posted ?s" using A(9) ph by (simp add: rx_batch_def)
  qed (use A(5) ph m in \<open>simp_all add: in_dispatch_def\<close>)
  moreover have "stepped s ?s" using ph m by (simp add: stepped_def rx_left_def in_dispatch_def)
  moreover have "loop_step s = Inr ?s" using ph c by (simp add: loop_step_def ep_deref_def)
  ultimately show ?thesis by blast
qed

text \<open>A test of \<^verbatim>\<open>handleEvent\<close> that is met calls the first callback that is owed.\<close>

lemma loop_callback_ok:
  "(p = rx_wakeupChannel s \<Longrightarrow> k = ReadCb \<Longrightarrow> 0 < rx_wakeup s) \<Longrightarrow>
   loop_callback p k s = Inr (s\<lparr>rx_wakeup := (if p = rx_wakeupChannel s \<and> k = ReadCb then 0 else rx_wakeup s),
     rx_called := rx_called s @ [(p, k)]\<rparr>)"
  by (cases s) (auto simp: loop_callback_def)

lemma step_call:
  assumes inv: "rx_inv s" and ph: "rx_phase s = RxCalling p (k # ks)"
  shows "\<exists>s'. loop_step s = Inr s' \<and> rx_inv s' \<and> stepped s s'"
proof -
  obtain c where c: "ep_objects (rx_poller s) p = Some c"
    using held_live[OF inv, of p] ph by (auto simp: rx_views)
  let ?due = "callback_bits k (revents c) \<and> callback_set k c"
  let ?wake = "?due \<and> p = rx_wakeupChannel s \<and> k = ReadCb"
  let ?s = "s\<lparr>rx_phase := RxCalling p ks, rx_wakeup := (if ?wake then 0 else rx_wakeup s),
    rx_called := rx_called s @ (if ?due then [(p, k)] else [])\<rparr>"
  note A = rx_invD[OF inv]
  define rest where "rest = owed ?s"
  have owed: "owed s = (if ?due then [(p, k)] else []) @ rest"
    using ph c by (simp add: rest_def owed_def due_of_def ep_dispatch_def)
  have wake: "?wake \<Longrightarrow> 0 < rx_wakeup s" using A(8) owed by auto
  have once: "distinct rest" "?wake \<Longrightarrow> (rx_wakeupChannel s, ReadCb) \<notin> set rest"
    using A(7) owed by (auto split: if_splits)
  have "(rx_wakeupChannel s, ReadCb) \<in> set rest \<Longrightarrow> 0 < rx_wakeup s" using A(8) owed by auto
  with once(2) have pos: "(rx_wakeupChannel ?s, ReadCb) \<in> set rest \<longrightarrow> 0 < rx_wakeup ?s" by auto
  have hist: "rx_called ?s @ rest = rx_reported ?s" using A(6) owed by simp
  have "rx_inv ?s" unfolding rx_inv_def
  proof (intro conjI)
    show "\<forall>q \<in> set (held ?s). ep_dispatch (rx_poller ?s) q \<noteq> None"
      using A(2) ph by (simp add: held_def)
    show "\<forall>q r h f. ep_dispatch (rx_poller ?s) q = Some (r, h, f) \<longrightarrow> h = in_call ?s q"
      using A(3) ph by (simp add: in_call_def)
    show "rx_called ?s @ owed ?s = rx_reported ?s" using hist by (simp only: rest_def)
    show "distinct (owed ?s)" using once(1) by (simp only: rest_def)
    show "(rx_wakeupChannel ?s, ReadCb) \<in> set (owed ?s) \<longrightarrow> 0 < rx_wakeup ?s"
      using pos by (simp only: rest_def)
    show "rx_ran ?s @ rx_batch ?s @ rx_pending ?s = rx_posted ?s" using A(9) ph by (simp add: rx_batch_def)
  qed (use A(1,5) ph in \<open>simp_all add: in_dispatch_def\<close>)
  moreover have "stepped s ?s" using ph by (simp add: stepped_def rx_left_def in_dispatch_def)
  moreover have "loop_step s = Inr ?s"
  proof (cases ?due)
    case True
    with loop_callback_ok[of p "s\<lparr>rx_phase := RxCalling p ks\<rparr>" k] wake show ?thesis
      using ph c by (simp add: loop_step_def ep_deref_def cong: conj_cong)
  next
    case False
    then have "?s = s\<lparr>rx_phase := RxCalling p ks\<rparr>" by (cases s) auto
    moreover have "loop_step s = Inr (s\<lparr>rx_phase := RxCalling p ks\<rparr>)"
      using ph c False by (auto simp: loop_step_def ep_deref_def)
    ultimately show ?thesis by (simp only:)
  qed
  ultimately show ?thesis by blast
qed

lemma loop_step_ok:
  assumes inv: "rx_inv s"
  shows "\<exists>s'. loop_step s = Inr s' \<and> rx_inv s' \<and> stepped s s'"
proof (cases "rx_phase s")
  case RxIdle
  with inv show ?thesis by (simp add: loop_step_def stepped_def rx_left_def)
next
  case RxPolling
  with inv show ?thesis by (simp add: loop_step_def stepped_def rx_left_def)
next
  case ph: RxDispatching
  show ?thesis
  proof (cases "rx_active s")
    case Nil
    let ?s = "s\<lparr>rx_calling := True, rx_phase := RxFunctors (rx_pending s), rx_pending := []\<rparr>"
    have "rx_inv ?s" using inv ph Nil unfolding rx_inv_def by (auto simp: rx_views)
    moreover have "stepped s ?s" using ph Nil by (simp add: stepped_def rx_left_def in_dispatch_def)
    ultimately show ?thesis using ph Nil by (simp add: loop_step_def)
  next
    case (Cons p ps)
    from step_take[OF inv ph this] show ?thesis .
  qed
next
  case (RxCalling p ks)
  with step_clear[OF inv] step_call[OF inv] show ?thesis by (cases ks) simp_all
next
  case ph: (RxFunctors fs)
  have act: "rx_active s = []" using rx_invD(4)[OF inv] ph by (auto simp: in_dispatch_def)
  show ?thesis
  proof (cases fs)
    case Nil
    let ?s = "if rx_quit s then s\<lparr>rx_calling := False, rx_looping := False, rx_phase := RxIdle\<rparr>
      else s\<lparr>rx_calling := False, rx_active := [], rx_phase := RxPolling\<rparr>"
    have "rx_inv ?s" using inv ph Nil act unfolding rx_inv_def by (auto simp: rx_views)
    moreover have "stepped s ?s" using ph Nil act by (simp add: stepped_def rx_left_def in_dispatch_def)
    moreover have "loop_step s = Inr ?s" using ph Nil by (simp add: loop_step_def Let_def)
    ultimately show ?thesis by blast
  next
    case (Cons f gs)
    let ?s = "s\<lparr>rx_ran := rx_ran s @ [f], rx_phase := RxFunctors gs\<rparr>"
    have "rx_inv ?s" using inv ph Cons act unfolding rx_inv_def by (auto simp: rx_views)
    moreover have "stepped s ?s" using ph Cons act by (simp add: stepped_def rx_left_def in_dispatch_def)
    ultimately show ?thesis using ph Cons by (simp add: loop_step_def)
  qed
qed

lemma due_of_report:
  "ep_objects ep p = Some c \<Longrightarrow> ep_dispatch ep' p = Some (ev, h, \<lambda>k. callback_set k c) \<Longrightarrow>
   due_of ep' all_callbacks p = calls_for ep (p, ev)"
  by (simp add: due_of_def calls_for_def)

lemma distinct_calls:
  "distinct (map fst evs) \<Longrightarrow> distinct (concat (map (calls_for ep) evs))"
proof (induction evs)
  case (Cons x evs)
  have fst_calls: "z \<in> set (calls_for ep y) \<Longrightarrow> fst z = fst y" for y z
    by (auto simp: calls_for_def split: option.splits prod.splits)
  have "distinct (calls_for ep x)"
    by (auto simp: calls_for_def all_callbacks_def distinct_map inj_on_def split: option.splits prod.splits)
  moreover have "z \<notin> set (calls_for ep y)" if "z \<in> set (calls_for ep x)" "y \<in> set evs" for y z
  proof
    assume "z \<in> set (calls_for ep y)"
    from fst_calls[OF this] fst_calls[OF that(1)] that(2) have "fst x \<in> set (map fst evs)" by simp
    with Cons.prems show False by simp
  qed
  then have "set (calls_for ep x) \<inter> set (concat (map (calls_for ep) evs)) = {}" by auto
  ultimately show ?case using Cons by simp
qed simp

lemma rx_poll_ok:
  assumes inv: "rx_inv s" and pre: "rx_pre s (RxPoll n evs)"
  shows "\<exists>s'. rx_exec s (RxPoll n evs) = Inr s' \<and> rx_inv s' \<and> rx_phase s' = RxDispatching \<and>
    rx_active s' = map fst (take (nat n) evs) \<and> rx_quit s' = rx_quit s \<and> rx_pending s' = rx_pending s \<and>
    rx_posted s' = rx_posted s \<and>
    rx_reported s' = rx_reported s @ concat (map (calls_for (rx_poller s)) (take (nat n) evs))"
proof -
  note A = rx_invD[OF inv]
  let ?evs = "take (nat n) evs"
  have ph: "rx_phase s = RxPolling" and len: "length ?evs = nat n" and room: "nat n \<le> ep_events_size (rx_poller s)"
    using pre by auto
  have act: "rx_active s = []" using A(4) ph by (auto simp: in_dispatch_def)
  have dist: "distinct (map fst ?evs)" using pre by (simp add: take_map [symmetric])
  have rep: "\<exists>c. ep_objects (rx_poller s) p = Some c \<and> ch_index c \<noteq> kNew"
    "p = rx_wakeupChannel s \<Longrightarrow> callback_bits ReadCb ev \<Longrightarrow> 0 < rx_wakeup s" if "(p, ev) \<in> set ?evs" for p ev
  proof -
    from that have m: "(p, ev) \<in> set evs" by (rule in_set_takeD)
    from pre have rule: "\<forall>(p, ev) \<in> set evs. (\<exists>fd e. ep_interest (rx_poller s) fd = Some (e, p)) \<and>
        (p = rx_wakeupChannel s \<and> callback_bits ReadCb ev \<longrightarrow> 0 < rx_wakeup s)"
      unfolding rx_pre.simps by blast
    from bspec[OF rule m] obtain fd e where "ep_interest (rx_poller s) fd = Some (e, p)" by auto
    with ep_coreD(5)[OF A(1)] show "\<exists>c. ep_objects (rx_poller s) p = Some c \<and> ch_index c \<noteq> kNew"
      by (force simp: index_defs)
    show "p = rx_wakeupChannel s \<Longrightarrow> callback_bits ReadCb ev \<Longrightarrow> 0 < rx_wakeup s"
      using bspec[OF rule m] by simp
  qed
  have "\<forall>(p, ev) \<in> set ?evs. \<exists>c. ep_objects (rx_poller s) p = Some c \<and> ch_index c \<noteq> kNew"
    using rep(1) by blast
  from fillActiveChannels_core[OF A(1) this, of "[]"] obtain ep where
    ep: "fillActiveChannels ?evs [] (rx_poller s) = Inr (map fst ?evs, ep)" "ep_core ep"
      "ep_events_size ep = ep_events_size (rx_poller s)"
      "\<And>p. ep_dispatch ep p = map_option (\<lambda>(r, h, f).
       (case map_of (rev ?evs) p of Some ev \<Rightarrow> ev | None \<Rightarrow> r, h, f)) (ep_dispatch (rx_poller s) p)"
    by auto
  define ep' where "ep' = (if 0 < n \<and> nat n = ep_events_size ep
    then ep\<lparr>ep_events_size := ep_events_size ep * 2\<rparr> else ep)"
  have ep': "ep_core ep'" "ep_dispatch ep' = ep_dispatch ep"
    using ep(2) ep_grow_core[OF ep(2)] by (auto simp: ep'_def ep_dispatch_def fun_eq_iff)
  have nonpos: "ep = rx_poller s" if "\<not> 0 < n" using ep(1) that by simp
  have run: "ep_poll n evs [] (rx_poller s) = Inr (map fst ?evs, ep')"
    using ep(1) room nonpos by (auto simp: ep_poll_def ep'_def)
  have due: "due_of ep' all_callbacks (fst x) = calls_for (rx_poller s) x" if "x \<in> set ?evs" for x
  proof -
    obtain p ev where x: "x = (p, ev)" by fastforce
    with rep(1) that obtain c where c: "ep_objects (rx_poller s) p = Some c" by blast
    have "map_of (rev ?evs) p = Some ev"
      using that x dist by (simp add: map_of_eq_Some_iff rev_map [symmetric])
    then have "ep_dispatch ep' p = Some (ev, eventHandling c, \<lambda>k. callback_set k c)"
      using ep(4)[of p] ep'(2) c by (simp add: ep_dispatch_def)
    from due_of_report[OF c this] x show ?thesis by simp
  qed
  let ?reports = "concat (map (calls_for (rx_poller s)) ?evs)"
  let ?s = "s\<lparr>rx_poller := ep', rx_active := map fst ?evs, rx_phase := RxDispatching,
    rx_reported := rx_reported s @ ?reports\<rparr>"
  have "concat (map (due_of ep' all_callbacks) (map fst ?evs)) = ?reports"
    unfolding map_map by (rule arg_cong[where f = concat], rule map_cong[OF refl]) (simp add: due)
  then have owed: "owed ?s = ?reports" by (simp add: owed_def)
  have "owed s = []" using ph act by (simp add: owed_def)
  note A6 = A(6) [unfolded this]
  have "rx_inv ?s" unfolding rx_inv_def owed
  proof (intro conjI)
    show "\<forall>p \<in> set (held ?s). ep_dispatch (rx_poller ?s) p \<noteq> None"
      using rep(1) ep(4) ep'(2) by (fastforce simp: held_def ep_dispatch_def)
    show "\<forall>p r h f. ep_dispatch (rx_poller ?s) p = Some (r, h, f) \<longrightarrow> h = in_call ?s p"
      using A(3) ep(4) ep'(2) ph by (auto simp: in_call_def)
    show "distinct ?reports" using dist by (rule distinct_calls)
    show "(rx_wakeupChannel ?s, ReadCb) \<in> set ?reports \<longrightarrow> 0 < rx_wakeup ?s"
      using rep(2) by (auto simp: calls_for_def split: option.splits)
    show "rx_called ?s @ ?reports = rx_reported ?s" using A6 by simp
    show "rx_ran ?s @ rx_batch ?s @ rx_pending ?s = rx_posted ?s" using A(9) ph by (simp add: rx_batch_def)
  qed (use A(5) ph ep' in \<open>simp_all add: in_dispatch_def\<close>)
  moreover have "rx_exec s (RxPoll n evs) = Inr ?s" using run act by (simp add: loop_poll_def)
  ultimately show ?thesis by (intro exI[of _ ?s]) simp
qed

text \<open>Calls that post functors or write to the eventfd.\<close>

lemma rx_inv_post:
  assumes "rx_inv s" "rx_wakeup s \<le> n"
  shows "rx_inv (s\<lparr>rx_pending := rx_pending s @ fs, rx_posted := rx_posted s @ fs, rx_wakeup := n, rx_quit := q\<rparr>)"
    (is "rx_inv ?s")
proof -
  have view: "owed ?s = owed s" "held ?s = held s" "in_call ?s = in_call s"
    "in_dispatch ?s = in_dispatch s" "rx_batch ?s = rx_batch s"
    by (cases "rx_phase s"; simp add: rx_views fun_eq_iff)+
  note A = assms(1) [unfolded rx_inv_def]
  show ?thesis unfolding rx_inv_def view
  proof (intro conjI)
    show "(rx_wakeupChannel ?s, ReadCb) \<in> set (owed s) \<longrightarrow> 0 < rx_wakeup ?s"
      using A assms(2) by fastforce
    have "rx_ran s @ rx_batch s @ rx_pending s = rx_posted s" using A by blast
    then show "rx_ran ?s @ rx_batch s @ rx_pending ?s = rx_posted ?s" by simp
  qed (use A in simp_all)
qed

lemma rx_exec_ok:
  assumes "rx_inv s" "rx_pre s x"
  shows "\<exists>s'. rx_exec s x = Inr s' \<and> rx_inv s'"
proof (cases x)
  case (RxStart tid)
  with assms have "rx_phase s = RxIdle" using rx_invD(5)[OF assms(1)] by simp
  with assms RxStart show ?thesis unfolding rx_inv_def by (auto simp: rx_ops rx_views)
next
  case (RxPost tid f)
  have "loop_queueInLoop tid f s = s\<lparr>rx_pending := rx_pending s @ [f], rx_posted := rx_posted s @ [f],
      rx_wakeup := rx_wakeup s + (if tid \<noteq> rx_threadId s \<or> rx_calling s then 1 else 0), rx_quit := rx_quit s\<rparr>"
    by (cases s) (simp add: rx_ops)
  moreover have "rx_inv \<dots>" by (rule rx_inv_post[OF assms(1)]) simp
  ultimately show ?thesis using RxPost by simp
next
  case (RxQuit tid)
  have "loop_quit tid s = s\<lparr>rx_pending := rx_pending s @ [], rx_posted := rx_posted s @ [],
      rx_wakeup := rx_wakeup s + (if tid \<noteq> rx_threadId s then 1 else 0), rx_quit := True\<rparr>"
    by (cases s) (simp add: rx_ops)
  moreover have "rx_inv \<dots>" by (rule rx_inv_post[OF assms(1)]) simp
  ultimately show ?thesis using RxQuit by simp
next
  case (RxPoll n evs)
  with assms(2) rx_poll_ok[OF assms(1), of n evs] show ?thesis by blast
next
  case RxStep
  with loop_step_ok[OF assms(1)] show ?thesis by auto
next
  case (RxCreate p fd ks)
  with assms(2) rx_create_ok[OF assms(1), of p fd ks] show ?thesis by simp
next
  case (RxChange tid p k)
  with assms(2) rx_change_ok[OF assms(1), of tid p k] show ?thesis by blast
next
  case (RxRemove tid p)
  with assms(2) rx_remove_ok[OF assms(1), of tid p] show ?thesis by blast
next
  case (RxDestroy p)
  with assms(2) rx_destroy_ok[OF assms(1), of p] show ?thesis by blast
qed

lemma rx_init_inv:
  assumes "rx_init s"
  shows "rx_inv s"
proof -
  obtain loops this tid tc tfd w wfd loops' where new: "tc \<noteq> w" "tfd \<noteq> wfd"
    "loop_create loops this tid tc tfd w wfd = Inr (loops', s)"
    using assms unfolding rx_init_def by blast
  let ?c = "\<lambda>fd. (channel_new fd)\<lparr>readCallback := True\<rparr>"
  have c: "ch_index (?c fd) = kNew" "ch_fd (?c fd) = fd" "\<not> eventHandling (?c fd)" for fd
    by (simp_all add: channel_new_def index_defs)
  have add: "\<exists>ep'. change_interest EnableReading p (ep_put p (?c fd) ep) = Inr ep' \<and> ep_ok ep' \<and>
      ep_abs ep' = (ep_abs ep)(p \<mapsto> (fd, kReadEvent, True))"
    if "ep_ok ep" "ep_objects ep p = None" "fd_free fd (ep_abs ep)" for ep p fd
  proof -
    from ep_put_ok[OF that(1,2) c(1) c(3), of fd] have put: "ep_ok (ep_put p (?c fd) ep)"
      "ep_abs (ep_put p (?c fd) ep) = (ep_abs ep)(p \<mapsto> (fd, 0, False))"
      by (simp_all add: channel_new_def)
    then have "ep_pre (ep_abs (ep_put p (?c fd) ep)) (EpChange p EnableReading)"
      using that(3) by (auto simp: fd_free_def)
    from change_interest_ok[OF put(1) this] put(2) show ?thesis by auto
  qed
  have "fd_free tfd (ep_abs ep_new)" by (simp add: fd_free_def ep_new_abs)
  moreover have "ep_objects ep_new tc = None" by (simp add: ep_new_def)
  ultimately obtain ep1 where 1: "change_interest EnableReading tc (ep_put tc (?c tfd) ep_new) = Inr ep1"
    "ep_ok ep1" "ep_abs ep1 = [tc \<mapsto> (tfd, kReadEvent, True)]"
    using add[OF ep_new_ok, of tc tfd] unfolding ep_new_abs by blast
  have "ep_abs ep1 w = None" "fd_free wfd (ep_abs ep1)"
    using new 1(3) by (auto simp: fd_free_def)
  then obtain ep2 where 2: "change_interest EnableReading w (ep_put w (?c wfd) ep1) = Inr ep2" "ep_ok ep2"
    using add[OF 1(2), of w wfd] by (auto simp: ep_abs_def)
  have poller: "rx_poller s = ep2" and rest: "rx_phase s = RxIdle" "rx_active s = []" "\<not> rx_looping s"
    "rx_called s = []" "rx_reported s = []" "rx_ran s = []" "rx_pending s = []" "rx_posted s = []"
    using new(3) 1(1) 2(1) by (auto simp: loop_create_def split: if_splits)
  show ?thesis unfolding rx_inv_def poller
    using 2(2) [unfolded ep_ok_dispatch] rest by (auto simp: rx_views)
qed

interpretation reactor: guarded_object rx_init rx_pre rx_exec rx_inv "\<lambda>e. False"
proof
  show "rx_init s \<Longrightarrow> rx_inv s" for s by (rule rx_init_inv)
  show "ends (\<lambda>e. False) rx_inv (rx_exec s x)" if "rx_inv s" "rx_pre s x" for s x
    using rx_exec_ok[OF that] by auto
qed

section \<open>The rounds of the loop\<close>

definition walked :: "nat \<Rightarrow> reactor \<Rightarrow> reactor \<Rightarrow> bool" where
  "walked n s s' \<longleftrightarrow> rx_reported s' = rx_reported s \<and> rx_posted s' = rx_posted s \<and>
     rx_quit s' = rx_quit s \<and> rx_left s' = rx_left s - n \<and>
     (0 < rx_left s \<longrightarrow> rx_left s \<le> n \<longrightarrow> rx_phase s' = (if rx_quit s then RxIdle else RxPolling)) \<and>
     (in_dispatch s \<or> rx_pending s = [] \<longrightarrow> in_dispatch s' \<or> rx_pending s' = [])"

lemma loop_waits: "rx_left s = 0 \<Longrightarrow> run_ops rx_exec s (replicate n RxStep) = Inr s"
proof (induction n)
  case (Suc n)
  from Suc.prems have "loop_step s = Inr s"
    by (cases "rx_phase s") (auto simp: rx_left_def loop_step_def)
  with Suc show ?case by simp
qed simp

lemma walked_step:
  assumes "stepped s s1" "walked n s1 s2" "rx_left s1 = 0 \<Longrightarrow> s2 = s1"
  shows "walked (Suc n) s s2"
proof -
  have "rx_phase s2 = (if rx_quit s then RxIdle else RxPolling)" if "0 < rx_left s" "rx_left s \<le> Suc n"
  proof (cases "rx_left s1 = 0")
    case True
    with assms(1,3) that show ?thesis by (simp add: stepped_def)
  next
    case False
    with assms(1,2) that show ?thesis unfolding stepped_def walked_def by simp
  qed
  moreover have "in_dispatch s \<or> rx_pending s = [] \<longrightarrow> in_dispatch s2 \<or> rx_pending s2 = []"
    using assms(1,2) unfolding stepped_def walked_def by blast
  ultimately show ?thesis using assms(1,2) unfolding walked_def by (simp add: stepped_def)
qed

lemma loop_steps_ok:
  "rx_inv s \<Longrightarrow> \<exists>s'. run_ops rx_exec s (replicate n RxStep) = Inr s' \<and> rx_inv s' \<and> walked n s s'"
proof (induction n arbitrary: s)
  case 0
  then show ?case by (simp add: walked_def)
next
  case (Suc n)
  obtain s1 where s1: "loop_step s = Inr s1" "rx_inv s1" "stepped s s1"
    using loop_step_ok[OF Suc.prems] by blast
  obtain s2 where s2: "run_ops rx_exec s1 (replicate n RxStep) = Inr s2" "rx_inv s2" "walked n s1 s2"
    using Suc.IH[OF s1(2)] by blast
  have "rx_left s1 = 0 \<Longrightarrow> s2 = s1" using loop_waits[of s1 n] s2(1) by simp
  with walked_step[OF s1(3) s2(3)] s1(1) s2(1,2) show ?case by simp
qed

section \<open>A channel's steps are handleEvent\<close>

text \<open>\<open>handleEvent\<close> of \<open>Channel\<close>, with the loop as the world its callbacks act on.\<close>

definition rx_callback :: "nat \<Rightarrow> channel \<times> reactor \<Rightarrow> callback \<Rightarrow> (channel \<times> reactor) res" where
  "rx_callback p cw k = bindR (loop_callback p k (snd cw)) (\<lambda>w. Inr (fst cw, w))"

lemma loop_callback_keeps:
  "loop_callback p k s = Inr s' \<Longrightarrow> rx_poller s' = rx_poller s \<and> rx_phase s' = rx_phase s \<and>
     rx_active s' = rx_active s"
  by (auto simp: loop_callback_def split: if_splits)

lemma loop_callback_phase:
  "loop_callback p k (s\<lparr>rx_phase := x\<rparr>) = bindR (loop_callback p k s) (\<lambda>w. Inr (w\<lparr>rx_phase := x\<rparr>))"
  by (simp add: loop_callback_def)

lemma step_as_dispatch:
  assumes "ep_objects (rx_poller s) p = Some c"
  shows "loop_step (s\<lparr>rx_phase := RxCalling p (k # ks)\<rparr>) =
    bindR (dispatch (rx_callback p) (c, s) k) (\<lambda>(_, s'). Inr (s'\<lparr>rx_phase := RxCalling p ks\<rparr>))"
  using assms
  by (simp add: loop_step_def ep_deref_def dispatch_def rx_callback_def loop_callback_phase bindR_assoc)

lemma dispatch_rx_keeps:
  "dispatch (rx_callback p) (c, s) k = Inr (c', s') \<Longrightarrow>
   c' = c \<and> rx_poller s' = rx_poller s \<and> rx_active s' = rx_active s"
  by (auto simp: dispatch_def rx_callback_def dest: loop_callback_keeps split: if_splits)

lemma calls_as_dispatch:
  "ep_objects (rx_poller s) p = Some c \<Longrightarrow>
   run_ops rx_exec (s\<lparr>rx_phase := RxCalling p ks\<rparr>) (replicate (length ks) RxStep) =
     bindR (run_ops (dispatch (rx_callback p)) (c, s) ks) (\<lambda>(_, s'). Inr (s'\<lparr>rx_phase := RxCalling p []\<rparr>))"
proof (induction ks arbitrary: s)
  case Nil
  then show ?case by simp
next
  case (Cons k ks)
  show ?case
  proof (cases "dispatch (rx_callback p) (c, s) k")
    case (Inl e)
    with step_as_dispatch[OF Cons.prems] show ?thesis by simp
  next
    case (Inr x)
    then obtain s' where x: "x = (c, s')" "rx_poller s' = rx_poller s"
      using dispatch_rx_keeps by (metis surj_pair)
    with Cons.IH[of s'] Cons.prems Inr step_as_dispatch[OF Cons.prems] show ?thesis by simp
  qed
qed

lemma run_dispatch_keeps:
  "run_ops (dispatch (rx_callback p)) (c, s) ks = Inr (c', s') \<Longrightarrow>
   c' = c \<and> rx_poller s' = rx_poller s \<and> rx_active s' = rx_active s"
proof (induction ks arbitrary: s)
  case (Cons k ks)
  then obtain y where y: "dispatch (rx_callback p) (c, s) k = Inr y"
    "run_ops (dispatch (rx_callback p)) y ks = Inr (c', s')" by auto
  moreover obtain s1 where "y = (c, s1)" "rx_poller s1 = rx_poller s" "rx_active s1 = rx_active s"
    using dispatch_rx_keeps y(1) by (metis surj_pair)
  ultimately show ?case using Cons.IH[of s1] by simp
qed simp

lemma loop_callback_poller:
  "loop_callback p k (s\<lparr>rx_poller := e\<rparr>) = bindR (loop_callback p k s) (\<lambda>w. Inr (w\<lparr>rx_poller := e\<rparr>))"
  by (simp add: loop_callback_def)

lemma run_dispatch_poller:
  "run_ops (dispatch (rx_callback p)) (c, s\<lparr>rx_poller := e\<rparr>) ks =
   bindR (run_ops (dispatch (rx_callback p)) (c, s) ks) (\<lambda>(c, w). Inr (c, w\<lparr>rx_poller := e\<rparr>))"
proof (induction ks arbitrary: s)
  case (Cons k ks)
  have step: "dispatch (rx_callback p) (c, s\<lparr>rx_poller := e\<rparr>) k =
      bindR (dispatch (rx_callback p) (c, s) k) (\<lambda>(c, w). Inr (c, w\<lparr>rx_poller := e\<rparr>))"
    by (simp add: dispatch_def rx_callback_def loop_callback_poller bindR_assoc)
  show ?case
  proof (cases "dispatch (rx_callback p) (c, s) k")
    case (Inr x)
    then obtain s' where "x = (c, s')" using dispatch_rx_keeps by (metis surj_pair)
    with Inr step Cons.IH[of s'] show ?thesis by simp
  qed (use step in simp)
qed simp

lemma handleEvent_list:
  "handleEvent run (c, w) =
   bindR (run_ops (dispatch run) (c\<lparr>eventHandling := True\<rparr>, w) all_callbacks)
     (\<lambda>(c', w'). Inr (c'\<lparr>eventHandling := False\<rparr>, w'))"
  by (simp add: handleEvent_def all_callbacks_def bindR_assoc)

lemma clear_after:
  "loop_step (s\<lparr>rx_poller := ep_put p c (rx_poller s), rx_phase := RxCalling p []\<rparr>) =
   Inr (s\<lparr>rx_poller := ep_put p (c\<lparr>eventHandling := False\<rparr>) (rx_poller s), rx_phase := RxDispatching\<rparr>)"
  by (simp add: loop_step_def ep_deref_def ep_put_def)

text \<open>
  The steps the loop takes for an active channel are Channel::handleEvent: six of them, with no
  other call in between, fail exactly when handleEvent on that channel does, and otherwise
  leave what it leaves, the flag cleared and the channel off the list.
\<close>

theorem loop_runs_handleEvent:
  assumes "rx_phase s = RxDispatching" "rx_active s = p # ps" "ep_objects (rx_poller s) p = Some c"
  shows "run_ops rx_exec s (replicate 6 RxStep) =
    bindR (handleEvent (rx_callback p) (c, s\<lparr>rx_active := ps\<rparr>))
      (\<lambda>(c', s'). Inr (s'\<lparr>rx_poller := ep_put p c' (rx_poller s'), rx_phase := RxDispatching\<rparr>))"
proof -
  let ?c = "c\<lparr>eventHandling := True\<rparr>"
  let ?s = "s\<lparr>rx_poller := ep_put p ?c (rx_poller s), rx_active := ps\<rparr>"
  have c: "ep_objects (rx_poller ?s) p = Some ?c" by (simp add: ep_put_def)
  have "?s = s\<lparr>rx_active := ps, rx_poller := ep_put p ?c (rx_poller s)\<rparr>" by (cases s) simp
  then have poller: "run_ops (dispatch (rx_callback p)) (?c, ?s) all_callbacks =
      bindR (run_ops (dispatch (rx_callback p)) (?c, s\<lparr>rx_active := ps\<rparr>) all_callbacks)
        (\<lambda>(c, w). Inr (c, w\<lparr>rx_poller := ep_put p ?c (rx_poller s)\<rparr>))"
    by (simp only: run_dispatch_poller)
  have "run_ops rx_exec s (replicate 6 RxStep) =
    run_ops rx_exec (?s\<lparr>rx_phase := RxCalling p all_callbacks\<rparr>) (replicate (length all_callbacks) RxStep @ [RxStep])"
    using assms by (simp add: loop_step_def ep_deref_def all_callbacks_def eval_nat_numeral)
  also have "\<dots> = bindR (run_ops (dispatch (rx_callback p)) (?c, ?s) all_callbacks)
      (\<lambda>(_, s'). loop_step (s'\<lparr>rx_phase := RxCalling p []\<rparr>))"
    unfolding run_ops_append calls_as_dispatch[OF c]
    by (cases "run_ops (dispatch (rx_callback p)) (?c, ?s) all_callbacks") (auto simp: bind_return)
  also have "\<dots> = bindR (run_ops (dispatch (rx_callback p)) (?c, s\<lparr>rx_active := ps\<rparr>) all_callbacks)
      (\<lambda>(_, s'). Inr (s'\<lparr>rx_poller := ep_put p (?c\<lparr>eventHandling := False\<rparr>) (rx_poller s'),
         rx_phase := RxDispatching\<rparr>))"
  proof (cases "run_ops (dispatch (rx_callback p)) (?c, s\<lparr>rx_active := ps\<rparr>) all_callbacks")
    case (Inl e)
    with poller show ?thesis by simp
  next
    case (Inr x)
    obtain c' s' where pair: "x = (c', s')" by fastforce
    from run_dispatch_keeps[OF Inr [unfolded pair]] pair
    have x: "x = (?c, s')" "rx_poller s' = rx_poller s" by simp_all
    have eq: "run_ops (dispatch (rx_callback p)) (?c, ?s) all_callbacks =
        Inr (?c, s'\<lparr>rx_poller := ep_put p ?c (rx_poller s')\<rparr>)"
      using poller Inr x by simp
    show ?thesis unfolding eq Inr x(1) bindR.simps prod.case by (rule clear_after)
  qed
  also have "\<dots> = bindR (handleEvent (rx_callback p) (c, s\<lparr>rx_active := ps\<rparr>))
      (\<lambda>(c', s'). Inr (s'\<lparr>rx_poller := ep_put p c' (rx_poller s'), rx_phase := RxDispatching\<rparr>))"
    by (cases "run_ops (dispatch (rx_callback p)) (?c, s\<lparr>rx_active := ps\<rparr>) all_callbacks")
      (auto simp: handleEvent_list dest!: run_dispatch_keeps)
  finally show ?thesis .
qed

section \<open>Properties\<close>

lemma owed_nil:
  assumes "rx_inv s" "\<not> in_dispatch s"
  shows "owed s = []"
proof -
  have "rx_active s = []" using rx_invD(4)[OF assms(1)] assms(2) by blast
  with assms(2) show ?thesis by (cases "rx_phase s") (simp_all add: owed_def in_dispatch_def)
qed

text \<open>
  C4: The reactor never fails and loses no event. However client and kernel act by their rules,
  in every reachable state each call they may make succeeds; the callbacks that ran, followed
  by those the present round still owes, are exactly the ones that everything the poller ever
  reported called for, in this order, and none is owed twice; outside the dispatch nothing is
  owed; and the kernel watches live channels only, with their present interest.
\<close>

theorem reactor_dispatches:
  assumes "reach rx_init (guarded rx_pre rx_exec) s"
  shows "(\<forall>x. rx_pre s x \<longrightarrow> (\<exists>s'. rx_exec s x = Inr s')) \<and>
    rx_called s @ owed s = rx_reported s \<and> distinct (owed s) \<and>
    (\<not> in_dispatch s \<longrightarrow> rx_called s = rx_reported s) \<and>
    (\<forall>fd e p. ep_interest (rx_poller s) fd = Some (e, p) \<longrightarrow>
       (\<exists>c. ep_objects (rx_poller s) p = Some c \<and> ch_fd c = fd \<and> events c = e))"
proof (intro conjI allI impI)
  have inv: "rx_inv s" using reactor.reach_inv[OF assms] .
  note A = rx_invD[OF inv]
  show "rx_called s @ owed s = rx_reported s" "distinct (owed s)" by (rule A)+
  show "\<exists>s'. rx_exec s x = Inr s'" if "rx_pre s x" for x using rx_exec_ok[OF inv that] by blast
  show "rx_called s = rx_reported s" if "\<not> in_dispatch s"
    using owed_nil[OF inv that] A(6) by simp
  show "\<exists>c. ep_objects (rx_poller s) p = Some c \<and> ch_fd c = fd \<and> events c = e"
    if "ep_interest (rx_poller s) fd = Some (e, p)" for fd e p
    using that ep_coreD(5)[OF A(1)] by blast
qed

text \<open>A loop in thread 7, with its timer channel 8 and its wakeup channel 9, that was posted to.\<close>

definition sample_loop :: "((nat \<rightharpoonup> nat) \<times> reactor) res" where
  "sample_loop = loop_create Map.empty 5 7 8 3 9 4"

lemma sample_polling:
  "\<exists>s. reach rx_init (guarded rx_pre rx_exec) s \<and> bindR sample_loop (\<lambda>x. run_ops rx_exec (snd x) [RxStart 7, RxPost 6 42]) = Inr s \<and>
     rx_pre s (RxPoll 1 [(9, POLLIN)]) \<and> rx_pre s (RxPoll 2 [(8, POLLIN), (9, POLLIN)]) \<and> rx_pending s = [42] \<and>
     rx_posted s = [42] \<and> rx_called s = [] \<and> \<not> rx_quit s \<and>
     calls_for (rx_poller s) (9, POLLIN) = [(9, ReadCb)]"
proof -
  have "case sample_loop of Inl _ \<Rightarrow> False
    | Inr x \<Rightarrow> \<not> rx_looping (snd x) \<and> rx_threadId (snd x) = 7" by code_simp
  then obtain x where x: "sample_loop = Inr x" "\<not> rx_looping (snd x)" "rx_threadId (snd x) = 7"
    by (elim case_sum_Inr conjE)
  define loops s0 where "loops = fst x" and "s0 = snd x"
  with x have s0: "sample_loop = Inr (loops, s0)" "\<not> rx_looping s0" "rx_threadId s0 = 7" by simp_all
  have r0: "reach rx_init (guarded rx_pre rx_exec) s0"
    unfolding rx_init_def using s0(1) [unfolded sample_loop_def]
    by (intro reach_init exI[of _ Map.empty] exI[of _ 5] exI[of _ 7] exI[of _ 8] exI[of _ 3] exI[of _ 9]
        exI[of _ 4] exI[of _ loops]) simp
  have "case bindR sample_loop (\<lambda>x. run_ops rx_exec (snd x) [RxStart 7, RxPost 6 42]) of Inl _ \<Rightarrow> False
    | Inr s \<Rightarrow> rx_phase s = RxPolling \<and> ep_events_size (rx_poller s) = 16 \<and>
        ep_interest (rx_poller s) 4 = Some (kReadEvent, 9) \<and> ep_interest (rx_poller s) 3 = Some (kReadEvent, 8) \<and>
        rx_wakeup s = 1 \<and> rx_pending s = [42] \<and>
        rx_posted s = [42] \<and> rx_called s = [] \<and> \<not> rx_quit s \<and>
        calls_for (rx_poller s) (9, POLLIN) = [(9, ReadCb)]" by code_simp
  then obtain s where s: "bindR (rx_exec s0 (RxStart 7)) (\<lambda>s1. bindR (rx_exec s1 (RxPost 6 42)) Inr) = Inr s"
      "rx_phase s = RxPolling" "ep_events_size (rx_poller s) = 16"
      "ep_interest (rx_poller s) 4 = Some (kReadEvent, 9)" "ep_interest (rx_poller s) 3 = Some (kReadEvent, 8)"
      "rx_wakeup s = 1" "rx_pending s = [42]"
      "rx_posted s = [42]" "rx_called s = []" "\<not> rx_quit s"
      "calls_for (rx_poller s) (9, POLLIN) = [(9, ReadCb)]"
    unfolding s0(1) bindR.simps snd_conv run_ops.simps by (elim case_sum_Inr conjE)
  then obtain s1 where r: "rx_exec s0 (RxStart 7) = Inr s1" "rx_exec s1 (RxPost 6 42) = Inr s"
    unfolding bindR_eq_Inr by blast
  have "reach rx_init (guarded rx_pre rx_exec) s1" by (rule reactor.reach_call[OF r0 _ r(1)]) (use s0 in simp)
  from reactor.reach_call[OF this _ r(2)] have "reach rx_init (guarded rx_pre rx_exec) s" by simp
  moreover have "bindR sample_loop (\<lambda>x. run_ops rx_exec (snd x) [RxStart 7, RxPost 6 42]) = Inr s"
    unfolding s0(1) bindR.simps snd_conv run_ops.simps using s(1) .
  moreover have "rx_pre s (RxPoll 1 [(9, POLLIN)])" "rx_pre s (RxPoll 2 [(8, POLLIN), (9, POLLIN)])"
    using s by auto
  ultimately show ?thesis using s by blast
qed

lemma reach_loop_steps:
  "reach rx_init (guarded rx_pre rx_exec) s \<Longrightarrow> run_ops rx_exec s (replicate n RxStep) = Inr s' \<Longrightarrow> reach rx_init (guarded rx_pre rx_exec) s'"
proof (induction n arbitrary: s)
  case (Suc n)
  then obtain s1 where s1: "loop_step s = Inr s1" "run_ops rx_exec s1 (replicate n RxStep) = Inr s'" by auto
  have "reach rx_init (guarded rx_pre rx_exec) s1"
    by (rule reactor.reach_call[OF Suc.prems(1), of RxStep]) (use s1 in simp_all)
  from Suc.IH[OF this s1(2)] show ?case .
qed simp

theorem reactor_dispatches_witness:
  "\<exists>s s'. rx_called s = [] \<and> rx_exec s (RxPoll 1 [(9, POLLIN)]) = Inr s' \<and> rx_called s @ owed s = rx_reported s"
proof -
  obtain s where s: "reach rx_init (guarded rx_pre rx_exec) s" "rx_pre s (RxPoll 1 [(9, POLLIN)])" "rx_called s = []"
    using sample_polling by blast
  from reactor_dispatches[OF s(1)] s(2,3) show ?thesis by blast
qed

text \<open>
  C10: Every round ends. When poll reports n events the loop thread takes exactly six steps for
  each of them, one for each functor that was pending and two more, none of which fails, and is
  back in poll (or has left loop(), if it was asked to quit); by then it has run the callbacks
  the events call for, in order, and every functor that was ever posted.
\<close>

theorem round_completes:
  assumes "reach rx_init (guarded rx_pre rx_exec) s" "rx_pre s (RxPoll n evs)"
  shows "\<exists>s'. run_ops rx_exec s (RxPoll n evs # replicate (6 * nat n + length (rx_pending s) + 2) RxStep) = Inr s' \<and>
    rx_phase s' = (if rx_quit s then RxIdle else RxPolling) \<and>
    rx_called s' = rx_called s @ concat (map (calls_for (rx_poller s)) (take (nat n) evs)) \<and>
    rx_ran s' = rx_posted s \<and> rx_pending s' = []"
proof -
  have inv: "rx_inv s" using reactor.reach_inv[OF assms(1)] .
  let ?calls = "concat (map (calls_for (rx_poller s)) (take (nat n) evs))"
  obtain s1 where s1: "rx_exec s (RxPoll n evs) = Inr s1" "rx_inv s1" "rx_phase s1 = RxDispatching"
    "rx_active s1 = map fst (take (nat n) evs)" "rx_quit s1 = rx_quit s" "rx_pending s1 = rx_pending s"
    "rx_posted s1 = rx_posted s" "rx_reported s1 = rx_reported s @ ?calls"
    using rx_poll_ok[OF inv assms(2)] by blast
  let ?n = "6 * nat n + length (rx_pending s) + 2"
  have "length (rx_active s1) = nat n" using assms(2) s1(4) by auto
  then have left: "rx_left s1 = ?n" using s1(3,6) by (simp add: rx_left_def)
  obtain s2 where s2: "run_ops rx_exec s1 (replicate ?n RxStep) = Inr s2" "rx_inv s2" "walked ?n s1 s2"
    using loop_steps_ok[OF s1(2)] by blast
  have w: "rx_reported s2 = rx_reported s1" "rx_posted s2 = rx_posted s1"
    "rx_phase s2 = (if rx_quit s then RxIdle else RxPolling)"
    "in_dispatch s1 \<longrightarrow> in_dispatch s2 \<or> rx_pending s2 = []"
    using s2(3) left s1(5) by (auto simp: walked_def)
  then have out: "\<not> in_dispatch s2" "rx_batch s2 = []" "in_dispatch s1"
    using s1(3) by (auto simp: in_dispatch_def rx_batch_def)
  have "owed s2 = []" using owed_nil[OF s2(2) out(1)] .
  moreover have "owed s = []"
    by (rule owed_nil[OF inv]) (use assms(2) in \<open>simp add: in_dispatch_def\<close>)
  ultimately have "rx_called s2 = rx_called s @ ?calls"
    using rx_invD(6)[OF s2(2)] rx_invD(6)[OF inv] w(1) s1(8) by simp
  moreover have "rx_pending s2 = []" using w(4) out by blast
  moreover from this have "rx_ran s2 = rx_posted s"
    using rx_invD(9)[OF s2(2)] out(2) w(2) s1(7) by simp
  ultimately show ?thesis using s1(1) s2(1) w(3) by (intro exI[of _ s2]) (simp del: replicate.simps rx_exec.simps)
qed

theorem round_completes_witness:
  "\<exists>s s'. run_ops rx_exec s (RxPoll 1 [(9, POLLIN)] # replicate 9 RxStep) = Inr s' \<and>
     rx_phase s' = RxPolling \<and> rx_called s' = [(9, ReadCb)] \<and> rx_ran s' = [42]"
proof -
  obtain s where s: "reach rx_init (guarded rx_pre rx_exec) s" "rx_pre s (RxPoll 1 [(9, POLLIN)])" "rx_called s = []"
    "rx_pending s = [42]" "rx_posted s = [42]" "\<not> rx_quit s"
    "calls_for (rx_poller s) (9, POLLIN) = [(9, ReadCb)]"
    using sample_polling by blast
  from round_completes[OF s(1,2)] show ?thesis
    using s(3-7) by (auto simp del: run_ops.simps replicate.simps)
qed

text \<open>
  C40: A callback must not destroy channels of its own round: destroying the channel that is being
  handled fails the assert of the destructor, and after the destruction of another one that is
  next on the list the loop goes on to a dangling pointer. This is why the owners of channels
  delete them in a functor.
\<close>

theorem destroy_in_callback:
  assumes "reach rx_init (guarded rx_pre rx_exec) s" "rx_phase s = RxCalling p []"
  shows "rx_exec s (RxDestroy p) = Inl AssertFail \<and>
    (\<forall>q qs. rx_active s = q # qs \<and> q \<noteq> p \<longrightarrow>
       (\<exists>s'. rx_exec s (RxDestroy q) = Inr s' \<and> run_ops rx_exec s' [RxStep, RxStep] = Inl UseAfterFree))"
proof (intro conjI allI impI)
  have inv: "rx_inv s" using reactor.reach_inv[OF assms(1)] .
  obtain c where c: "ep_objects (rx_poller s) p = Some c" "eventHandling c"
    using held_live[OF inv, of p] assms(2) by (auto simp: held_def in_call_def)
  then show "rx_exec s (RxDestroy p) = Inl AssertFail" by (simp add: ep_deref_def channel_destroy_def)
  fix q qs assume q: "rx_active s = q # qs \<and> q \<noteq> p"
  obtain d where d: "ep_objects (rx_poller s) q = Some d" "\<not> eventHandling d"
    using held_live[OF inv, of q] assms(2) q by (auto simp: held_def in_call_def)
  let ?s = "s\<lparr>rx_poller := (rx_poller s)\<lparr>ep_objects := (ep_objects (rx_poller s))(q := None)\<rparr>\<rparr>"
  have "rx_exec s (RxDestroy q) = Inr ?s" using d by (simp add: ep_deref_def channel_destroy_def)
  moreover have "run_ops rx_exec ?s [RxStep, RxStep] = Inl UseAfterFree"
    using c q assms(2) by (simp add: loop_step_def ep_deref_def ep_put_def)
  ultimately show "\<exists>s'. rx_exec s (RxDestroy q) = Inr s' \<and> run_ops rx_exec s' [RxStep, RxStep] = Inl UseAfterFree"
    by blast
qed

theorem destroy_in_callback_witness:
  "\<exists>s s'. rx_phase s = RxCalling 8 [] \<and> rx_exec s (RxDestroy 8) = Inl AssertFail \<and>
     rx_exec s (RxDestroy 9) = Inr s' \<and> run_ops rx_exec s' [RxStep, RxStep] = Inl UseAfterFree"
proof -
  let ?poll = "RxPoll 2 [(8, POLLIN), (9, POLLIN)]"
  obtain s where s: "reach rx_init (guarded rx_pre rx_exec) s" "rx_pre s ?poll"
    "bindR sample_loop (\<lambda>x. run_ops rx_exec (snd x) [RxStart 7, RxPost 6 42]) = Inr s"
    using sample_polling by blast
  have "case bindR (bindR sample_loop (\<lambda>x. run_ops rx_exec (snd x) [RxStart 7, RxPost 6 42]))
      (\<lambda>s. run_ops rx_exec s (?poll # replicate 5 RxStep)) of Inl _ \<Rightarrow> False
    | Inr s2 \<Rightarrow> rx_phase s2 = RxCalling 8 [] \<and> rx_active s2 = [9]" by code_simp
  then obtain s2 where "run_ops rx_exec s (?poll # replicate 5 RxStep) = Inr s2"
    "rx_phase s2 = RxCalling 8 []" "rx_active s2 = [9]"
    unfolding s(3) bindR.simps by (elim case_sum_Inr conjE)
  moreover from this obtain s1 where "rx_exec s ?poll = Inr s1" "run_ops rx_exec s1 (replicate 5 RxStep) = Inr s2"
    unfolding run_ops.simps bindR_eq_Inr by blast
  ultimately have "reach rx_init (guarded rx_pre rx_exec) s2"
    using reactor.reach_call[OF s(1,2)] reach_loop_steps by blast
  from destroy_in_callback[OF this \<open>rx_phase s2 = RxCalling 8 []\<close>] \<open>rx_active s2 = [9]\<close>
    \<open>rx_phase s2 = RxCalling 8 []\<close> show ?thesis by (auto simp del: run_ops.simps)
qed

text \<open>
  A thread has one loop: a second constructor aborts, and the first loop's destructor, which
  must not run inside \<^verbatim>\<open>loop()\<close>, makes room for another.
\<close>

theorem one_loop_per_thread:
  assumes "loop_create loops this tid tc tfd w wfd = Inr (loops', s)"
  shows "loop_create loops' this' tid tc' tfd' w' wfd' = Inl FatalAbort \<and>
    loop_destroy loops' tid s = Inr loops"
proof
  have l: "loops' = loops(tid \<mapsto> this)" "loops tid = None" "\<not> rx_looping s"
    using assms by (auto simp: loop_create_def split: if_splits)
  have "\<exists>ep. change_interest EnableReading tc' (ep_put tc' ((channel_new tfd')\<lparr>readCallback := True\<rparr>) ep_new) = Inr ep"
    by (simp add: change_interest_def ep_updateChannel_def ep_update_def ep_deref_def ep_put_def ep_new_def
        channel_new_def index_defs)
  with l(1) show "loop_create loops' this' tid tc' tfd' w' wfd' = Inl FatalAbort"
    by (auto simp: loop_create_def)
  have "loops'(tid := None) = loops" using l by auto
  with l(3) show "loop_destroy loops' tid s = Inr loops" by (simp add: loop_destroy_def)
qed

theorem one_loop_per_thread_witness:
  "\<exists>loops s. loop_create Map.empty 5 7 8 3 9 4 = Inr (loops, s) \<and>
     loop_create loops 6 7 18 13 19 14 = Inl FatalAbort \<and> loop_destroy loops 7 s = Inr Map.empty"
proof -
  have "case sample_loop of Inl _ \<Rightarrow> False | Inr x \<Rightarrow> True" by code_simp
  then obtain loops s where "loop_create Map.empty 5 7 8 3 9 4 = Inr (loops, s)"
    unfolding sample_loop_def by (elim case_sum_Inr) (metis prod.collapse)
  from this one_loop_per_thread[OF this] show ?thesis by blast
qed

end
