(* ===== verification/ConnFrame.thy ===== *)
theory ConnFrame
  imports TcpConnection
begin

text \<open>
  What a connection leaves alone. A relation between the states before and after that holds for
  the connection's elementary changes (a field that is not the stream, a call of the poller for
  its own channel, bytes handed to the kernel, a send if sends are counted) holds for every
  operation. The locale proves it once; its instances are the stream of bytes (\<open>keeps\<close>) and the
  part of the poller that belongs to others (\<open>touches\<close>).
\<close>

section \<open>Operations without a send\<close>

fun no_send :: "user_call \<Rightarrow> bool" where
  "no_send (USend message wr) = False"
| "no_send _ = True"

definition quiet :: "user \<Rightarrow> bool" where
  "quiet u \<longleftrightarrow> (\<forall>ev. list_all no_send (u ev))"

fun silent :: "conn_op \<Rightarrow> bool" where
  "silent (CEvents ev rd wr u) = quiet u"
| "silent (CCall c) = no_send c"
| "silent (COther c) = no_send c"
| "silent (CPending wr u) = quiet u"

definition posted_send :: "conn \<Rightarrow> bool" where
  "posted_send s \<longleftrightarrow> (\<exists>m. FSendInLoop m \<in> set (pending s))"

text \<open>A connection in a good state has no posted send outstanding.\<close>

lemma no_posted_send: "conn_ok s \<Longrightarrow> \<not> posted_send s"
  by (auto simp: conn_ok_def conn_fresh_def conn_dead_def conn_good_def conn_active_def queue_ok_def posted_send_def)

section \<open>The locale\<close>

text \<open>The fields the relations look at.\<close>

definition same_core :: "conn \<Rightarrow> conn \<Rightarrow> bool" where
  "same_core s s' \<longleftrightarrow> poller s' = poller s \<and> chan s' = chan s \<and> sockfd s' = sockfd s \<and>
     asked s' = asked s \<and> sent s' = sent s"

locale conn_relation =
  fixes R :: "conn \<Rightarrow> conn \<Rightarrow> bool" and sends :: bool
  assumes rel_core: "same_core s s' \<Longrightarrow> R s s'"
    and rel_trans: "R s s1 \<Longrightarrow> R s1 s2 \<Longrightarrow> R s s2"
    and rel_change: "conn_change k s = Inr s' \<Longrightarrow> R s s'"
    and rel_remove: "ep_removeChannel (chan s) (poller s) = Inr p \<Longrightarrow> R s (s\<lparr>poller := p\<rparr>)"
    and rel_release: "conn_release s = Inr s' \<Longrightarrow> R s s'"
    and rel_wrote: "R s (s\<lparr>outputBuffer := b, sent := sent s @ xs\<rparr>)"
    and rel_send: "sends \<Longrightarrow> sendInLoop wr m s = Inr s' \<Longrightarrow> R s s'"
begin

text \<open>Every result of a computation is related to the start; the form the proofs compose.\<close>

definition all_R :: "conn \<Rightarrow> conn res \<Rightarrow> bool" where
  "all_R s m \<longleftrightarrow> (\<forall>s'. m = Inr s' \<longrightarrow> R s s')"

lemma all_Inr [simp]: "all_R s (Inr s') = R s s'" "all_R s (Inl e)"
  by (simp_all add: all_R_def)

lemma rel_refl [simp]: "R s s"
  by (rule rel_core) (simp add: same_core_def)

lemma all_bind: "all_R s m \<Longrightarrow> (\<And>s'. m = Inr s' \<Longrightarrow> all_R s' (f s')) \<Longrightarrow> all_R s (bindR m f)"
  unfolding all_R_def by (auto intro: rel_trans)

lemma all_val: "(\<And>x. m = Inr x \<Longrightarrow> all_R s (f x)) \<Longrightarrow> all_R s (bindR m f)"
  by (cases m) simp_all

lemma all_if: "(c \<Longrightarrow> all_R s m) \<Longrightarrow> (\<not> c \<Longrightarrow> all_R s m') \<Longrightarrow> all_R s (if c then m else m')"
  by simp

lemma all_after: "R s s1 \<Longrightarrow> all_R s1 m \<Longrightarrow> all_R s m"
  unfolding all_R_def using rel_trans by blast

lemma all_start: "all_R s1 m \<Longrightarrow> same_core s s1 \<Longrightarrow> all_R s m"
  using all_after rel_core by blast

lemma all_core: "same_core s s' \<Longrightarrow> all_R s (Inr s')"
  by (simp add: rel_core)

lemma all_change: "all_R s (conn_change k s)"
  by (simp add: all_R_def rel_change)

lemma all_release: "all_R s (conn_release s)"
  by (simp add: all_R_def rel_release)

lemma all_shutdown: "all_R s (shutdownInLoop s)"
  unfolding shutdownInLoop_def by (intro all_val all_core) (simp add: same_core_def)

lemma all_conn_shutdown: "all_R s (conn_shutdown b s)"
proof -
  have core: "same_core s (s\<lparr>conn_st := kDisconnecting\<rparr>)" by (simp add: same_core_def)
  show ?thesis unfolding conn_shutdown_def Let_def
    by (intro all_if all_start[OF all_shutdown core] all_core) (simp_all add: same_core_def)
qed

lemma all_send: "sends \<Longrightarrow> all_R s (conn_send True wr m s)"
  by (simp add: all_R_def conn_send_def rel_send)

lemma all_post: "all_R s (conn_send False wr m s)"
  unfolding conn_send_def by (simp add: rel_core same_core_def)

lemma all_user: "sends \<or> no_send c \<Longrightarrow> all_R s (user_exec s c)"
proof (cases c)
  case (UConsume n)
  have "all_R s (user_exec s (UConsume n))"
    unfolding user_exec.simps Let_def by (intro all_val all_core) (simp add: same_core_def)
  with UConsume show ?thesis by simp
qed (simp_all add: all_conn_shutdown all_send)

lemma all_users: "sends \<or> list_all no_send cs \<Longrightarrow> all_R s (run_ops user_exec s cs)"
  by (induction cs arbitrary: s) (auto intro!: all_bind all_user)

lemma all_callback: "sends \<or> quiet u \<Longrightarrow> all_R s (connectionCallback u s)"
  unfolding connectionCallback_def Let_def quiet_def
  by (rule all_start[OF all_users]) (auto simp: same_core_def)

lemma all_established:
  assumes "sends \<or> quiet u" shows "all_R s (connectEstablished u s)"
  unfolding connectEstablished_def
  by (intro all_val all_bind all_start[OF all_change] all_callback[OF assms]) (simp add: same_core_def)

lemma all_destroyed:
  assumes "sends \<or> quiet u" shows "all_R s (connectDestroyed u s)"
proof -
  have rem: "all_R s2 (bindR (ep_removeChannel (chan s2) (poller s2)) (\<lambda>p. Inr (s2\<lparr>poller := p\<rparr>)))" for s2
    by (auto simp: all_R_def rel_remove)
  have chg: "all_R s (conn_change DisableAll (s\<lparr>conn_st := kDisconnected\<rparr>))"
    by (rule all_start[OF all_change]) (simp add: same_core_def)
  show ?thesis unfolding connectDestroyed_def
    by (rule all_val, rule all_bind[OF chg], rule all_bind[OF all_callback[OF assms]], rule rem)
qed

lemma all_close: "all_R s (handleClose s)"
proof -
  have "all_R s1 (closeCallback_server s1)" for s1
    unfolding closeCallback_server_def by (intro all_val all_core) (simp add: same_core_def)
  then show ?thesis unfolding handleClose_def by (intro all_val all_bind all_change)
qed

lemma all_read:
  assumes "sends \<or> quiet u" shows "all_R s (handleRead rd u s)"
proof -
  have users: "all_R s1 (run_ops user_exec s1 (u ev))" for s1 ev
    by (rule all_users) (use assms in \<open>auto simp: quiet_def\<close>)
  show ?thesis unfolding handleRead_def Let_def split_beta
    by (intro all_val all_if all_start[OF users] all_start[OF all_close] all_core)
      (simp_all add: same_core_def)
qed

lemma all_write: "all_R s (handleWrite wr s)"
proof -
  have flushed: "all_R s1 (bindR (conn_change DisableWriting s1) (\<lambda>s2.
        let s3 = s2\<lparr>pending := pending s2 @ (if hasWriteComplete s2 then [FWriteComplete] else [])\<rparr>
        in if conn_st s3 = kDisconnecting then shutdownInLoop s3 else Inr s3))" for s1
    unfolding Let_def
    by (intro all_bind all_change all_if all_start[OF all_shutdown] all_core) (simp_all add: same_core_def)
  have wrote: "all_R s (bindR (peek_bytes n (outputBuffer s)) (\<lambda>xs. bindR (retrieve n (outputBuffer s)) (\<lambda>b.
        let s1 = s\<lparr>outputBuffer := b, sent := sent s @ xs\<rparr> in
        if readableBytes b = 0
        then bindR (conn_change DisableWriting s1) (\<lambda>s2.
             let s3 = s2\<lparr>pending := pending s2 @ (if hasWriteComplete s2 then [FWriteComplete] else [])\<rparr>
             in if conn_st s3 = kDisconnecting then shutdownInLoop s3 else Inr s3)
        else Inr s1)))" for n
  proof (intro all_val)
    fix xs b
    let ?s1 = "s\<lparr>outputBuffer := b, sent := sent s @ xs\<rparr>"
    show "all_R s (let s1 = ?s1 in if readableBytes b = 0
        then bindR (conn_change DisableWriting s1) (\<lambda>s2.
             let s3 = s2\<lparr>pending := pending s2 @ (if hasWriteComplete s2 then [FWriteComplete] else [])\<rparr>
             in if conn_st s3 = kDisconnecting then shutdownInLoop s3 else Inr s3)
        else Inr s1)"
      unfolding Let_def [of ?s1]
      by (intro all_if all_after[OF rel_wrote flushed]) (simp add: rel_wrote)
  qed
  show ?thesis unfolding handleWrite_def
    by (intro all_val all_if) (use wrote in \<open>auto split: write_result.split\<close>)
qed

lemma all_events:
  assumes "sends \<or> quiet u" shows "all_R s (conn_events ev rd wr u s)"
proof -
  have "all_R s1 (conn_callback rd wr u s1 k)" for s1 k
    by (cases k) (simp_all add: all_close all_read[OF assms] all_write handleError_def)
  then have "all_R s1 (run_ops (conn_callback rd wr u) s1 ks)" for s1 ks
    by (induction ks arbitrary: s1) (auto intro!: all_bind)
  then show ?thesis by (simp add: conn_events_def)
qed

lemma all_batch:
  assumes "sends \<or> quiet u"
  shows "sends \<or> (\<forall>m. FSendInLoop m \<notin> set fs) \<Longrightarrow> all_R s (run_batch wr u i fs s)"
proof (induction fs arbitrary: s i)
  case (Cons f fs)
  have users: "all_R s (run_ops user_exec s (u ev))" for ev
    by (rule all_users) (use assms in \<open>auto simp: quiet_def\<close>)
  have "all_R s (run_functor (wr i) u f s)"
  proof (cases f)
    case (FSendInLoop m)
    with Cons.prems have sends by auto
    with FSendInLoop show ?thesis by (simp add: all_R_def rel_send)
  qed (simp_all add: all_shutdown all_established[OF assms] all_destroyed[OF assms] users)
  moreover have "sends \<or> (\<forall>m. FSendInLoop m \<notin> set fs)" using Cons.prems by auto
  ultimately show ?case using Cons.IH by (auto intro!: all_bind)
qed simp

text \<open>Every operation is in the relation, a send included if sends are.\<close>

lemma conn_exec_rel:
  assumes "sends \<or> silent x \<and> \<not> posted_send s" "conn_exec s x = Inr s'"
  shows "R s s'"
proof -
  have "all_R s (conn_exec s x)"
  proof (cases x)
    case (CEvents ev rd wr u)
    with assms(1) have u: "sends \<or> quiet u" by auto
    have "same_core s (s\<lparr>handled := True\<rparr>)" by (simp add: same_core_def)
    then show ?thesis unfolding CEvents conn_exec.simps
      by (intro all_if all_bind all_start[OF all_events[OF u]] all_release) simp_all
  next
    case (CCall c)
    with assms(1) have "sends \<or> no_send c" by auto
    then show ?thesis unfolding CCall conn_exec.simps by (intro all_bind all_if all_user all_release) simp_all
  next
    case (COther c)
    have "all_R s (case c of USend message wr \<Rightarrow> conn_send False wr message s
        | UShutdown \<Rightarrow> conn_shutdown False s | UConsume n \<Rightarrow> Inr s)"
      by (cases c) (simp_all add: all_post all_conn_shutdown)
    then show ?thesis unfolding COther conn_exec.simps by (intro all_bind all_if all_release) simp_all
  next
    case (CPending wr u)
    with assms(1) have "sends \<or> quiet u" "sends \<or> (\<forall>m. FSendInLoop m \<notin> set (pending s))"
      by (auto simp: posted_send_def)
    note b = all_batch[OF this]
    have "all_R s (run_batch wr u 0 (pending s) (s\<lparr>handled := False, pending := []\<rparr>))"
      by (rule all_start[OF b]) (simp add: same_core_def)
    then show ?thesis unfolding CPending conn_exec.simps conn_pending_def
      by (intro all_bind all_release) simp
  qed
  with assms(2) show ?thesis by (simp add: all_R_def)
qed

end

section \<open>The shape of a send\<close>

lemma sendInLoop_shape:
  assumes "sendInLoop wr m s = Inr s'"
  shows "\<exists>n fs b. let s1 = s\<lparr>asked := asked s @ m, sent := sent s @ take n m, pending := pending s @ fs,
      outputBuffer := b\<rparr> in s' = s1 \<or> conn_change EnableWriting s1 = Inr s'"
proof -
  obtain writing where w: "conn_isWriting s = Inr writing" using assms by (auto simp: sendInLoop_def)
  define n where "n = (if \<not> writing \<and> readableBytes (outputBuffer s) = 0
    then (case wr (length m) of Wrote n \<Rightarrow> n | WriteErr _ \<Rightarrow> 0) else 0)"
  define fs where "fs = (if (\<not> writing \<and> readableBytes (outputBuffer s) = 0) \<and> wr (length m) = Wrote n \<and>
    \<not> n < length m \<and> hasWriteComplete s then [FWriteComplete] else [])"
  define s1 where "s1 = s\<lparr>asked := asked s @ m, sent := sent s @ take n m, pending := pending s @ fs\<rparr>"
  have eq: "sendInLoop wr m s = (if n < length m
    then bindR (append (drop n m) (outputBuffer s1)) (\<lambda>b.
         bindR (conn_isWriting (s1\<lparr>outputBuffer := b\<rparr>)) (\<lambda>w.
         if \<not> w then conn_change EnableWriting (s1\<lparr>outputBuffer := b\<rparr>) else Inr (s1\<lparr>outputBuffer := b\<rparr>)))
    else Inr s1)"
    unfolding sendInLoop_def Let_def w bindR.simps n_def [symmetric] fs_def [symmetric] s1_def [symmetric] ..
  have "\<exists>b. s' = s1\<lparr>outputBuffer := b\<rparr> \<or> conn_change EnableWriting (s1\<lparr>outputBuffer := b\<rparr>) = Inr s'"
  proof (cases "n < length m")
    case True
    with assms eq show ?thesis by (auto split: if_splits)
  next
    case False
    with assms eq have "s' = s1\<lparr>outputBuffer := outputBuffer s1\<rparr>" by simp
    then show ?thesis by blast
  qed
  then show ?thesis unfolding s1_def Let_def by blast
qed

section \<open>Steps that do not read or send\<close>

definition same_streams :: "conn \<Rightarrow> conn \<Rightarrow> bool" where
  "same_streams s s' \<longleftrightarrow> asked s' = asked s \<and> received s' = received s \<and> inputBuffer s' = inputBuffer s \<and>
     conn_st s' = conn_st s"

lemma same_streams_trans: "same_streams s s1 \<Longrightarrow> same_streams s1 s2 \<Longrightarrow> same_streams s s2"
  by (auto simp: same_streams_def)

lemma change_same: "conn_change k s = Inr s' \<Longrightarrow> same_streams s s'"
  by (auto simp: conn_change_def same_streams_def)

lemma release_same: "conn_release s = Inr s' \<Longrightarrow> same_streams s s'"
  by (auto simp: conn_release_def same_streams_def split: if_splits)

lemma close_same: "handleClose s = Inr s' \<Longrightarrow> same_streams s s'"
proof -
  assume "handleClose s = Inr s'"
  then obtain s1 where s1: "conn_change DisableAll s = Inr s1" "closeCallback_server s1 = Inr s'"
    by (auto simp: handleClose_def)
  from s1(2) have "same_streams s1 s'" by (auto simp: closeCallback_server_def same_streams_def)
  with change_same[OF s1(1)] show ?thesis by (rule same_streams_trans)
qed

lemma shutdown_same: "shutdownInLoop s = Inr s' \<Longrightarrow> same_streams s s'"
  by (auto simp: shutdownInLoop_def same_streams_def split: if_splits)

lemma write_same:
  assumes "handleWrite wr s = Inr s'"
  shows "same_streams s s'"
proof -
  have refl: "same_streams s s" by (simp add: same_streams_def)
  obtain w where w: "conn_isWriting s = Inr w" using assms by (auto simp: handleWrite_def)
  show ?thesis
  proof (cases "w \<and> wr (readableBytes (outputBuffer s)) \<notin> insert (Wrote 0) (range WriteErr)")
    case False
    then have "s' = s" using assms w by (auto simp: handleWrite_def split: if_splits write_result.splits)
    with refl show ?thesis by simp
  next
    case True
    then obtain n where n: "wr (readableBytes (outputBuffer s)) = Wrote n" "n > 0" "w"
      by (cases "wr (readableBytes (outputBuffer s))") auto
    then obtain xs b where b: "peek_bytes n (outputBuffer s) = Inr xs" "retrieve n (outputBuffer s) = Inr b"
      using assms w by (auto simp: handleWrite_def)
    define s1 where "s1 = s\<lparr>outputBuffer := b, sent := sent s @ xs\<rparr>"
    have 1: "same_streams s s1" by (simp add: s1_def same_streams_def)
    have run: "handleWrite wr s = (if readableBytes b = 0
      then bindR (conn_change DisableWriting s1) (\<lambda>s2.
        let s3 = s2\<lparr>pending := pending s2 @ (if hasWriteComplete s2 then [FWriteComplete] else [])\<rparr>
        in if conn_st s3 = kDisconnecting then shutdownInLoop s3 else Inr s3)
      else Inr s1)"
      using w n b by (simp add: handleWrite_def s1_def Let_def)
    show ?thesis
    proof (cases "readableBytes b = 0")
      case True
      then obtain s2 where s2: "conn_change DisableWriting s1 = Inr s2"
        using assms run by auto
      from 1 change_same[OF s2] have 2: "same_streams s s2" by (rule same_streams_trans)
      define s3 where "s3 = s2\<lparr>pending := pending s2 @ (if hasWriteComplete s2 then [FWriteComplete] else [])\<rparr>"
      have "s' = s3 \<or> shutdownInLoop s3 = Inr s'"
        using assms True s2 run by (auto simp: Let_def s3_def split: if_splits)
      moreover have "same_streams s s3" using 2 by (simp add: s3_def same_streams_def)
      ultimately show ?thesis using shutdown_same same_streams_trans by blast
    next
      case False
      with assms run 1 show ?thesis by simp
    qed
  qed
qed

lemma send_same:
  assumes "sendInLoop wr m s = Inr s'"
  shows "asked s' = asked s @ m \<and> received s' = received s \<and> inputBuffer s' = inputBuffer s \<and> conn_st s' = conn_st s"
proof -
  obtain n fs b where "let s1 = s\<lparr>asked := asked s @ m, sent := sent s @ take n m,
      pending := pending s @ fs, outputBuffer := b\<rparr> in s' = s1 \<or> conn_change EnableWriting s1 = Inr s'"
    using sendInLoop_shape[OF assms] by blast
  then show ?thesis by (auto simp: Let_def dest!: change_same simp: same_streams_def)
qed

end
