(* ===== verification/EndToEnd.thy ===== *)
theory EndToEnd
  imports Codec ConnFrame
begin

text \<open>
  Messages from end to end: a sender that gives each message to \<^verbatim>\<open>LengthHeaderCodec::send\<close> and so
  to its \<^verbatim>\<open>TcpConnection\<close> (with partial writes, pending functors and the peer's events), the network,
  which carries what the kernel took in pieces of any size, and a receiver whose input buffer is
  filled by \<^verbatim>\<open>readv\<close> and emptied by \<^verbatim>\<open>LengthHeaderCodec::onMessage\<close>. The models of \<open>Codec\<close> and
  \<open>TcpConnection\<close> are used as they are; the composition has no code of its own.
\<close>

section \<open>The link\<close>

text \<open>
  \<open>arrived\<close> counts the bytes that reached the receiver, \<open>offered\<close> are the messages the sender's
  connection accepted.
\<close>

record link =
  tx :: conn
  offered :: "byte list list"
  arrived :: nat
  rx :: buffer
  delivered :: "byte list list"
  rx_shut :: bool

definition link_new :: "int \<Rightarrow> nat \<Rightarrow> bool \<Rightarrow> epoller \<Rightarrow> link" where
  "link_new fd p wc ep = \<lparr>tx = conn_new fd p wc ep, offered = [], arrived = 0, rx = buffer_new,
     delivered = [], rx_shut = False\<rparr>"

datatype link_op = LSend "byte list" kernel_write | LWork conn_op | LDeliver nat

text \<open>
  \<open>LSend\<close> is \<^verbatim>\<open>codec.send(conn, message)\<close> in the sender's loop; \<open>LWork\<close> is what else happens to the
  sender's connection; \<open>LDeliver n\<close> is a read of at most \<open>n\<close> of the bytes that are on the way.
\<close>

fun link_exec :: "link \<Rightarrow> link_op \<Rightarrow> link res" where
  "link_exec l (LSend m wr) =
     bindR (codec_wire m) (\<lambda>wire.
     bindR (conn_exec (tx l) (CCall (USend wire wr))) (\<lambda>t.
     Inr (l\<lparr>tx := t,
       offered := offered l @ (if alive (tx l) \<and> conn_st (tx l) = kConnected then [m] else [])\<rparr>)))"
| "link_exec l (LWork x) = bindR (conn_exec (tx l) x) (\<lambda>t. Inr (l\<lparr>tx := t\<rparr>))"
| "link_exec l (LDeliver n) =
     (let chunk = take n (drop (arrived l) (sent (tx l))) in
      if chunk = [] then Inr l
      else (case receive_chunks (rx l) (delivered l) (rx_shut l) [chunk] of
              None \<Rightarrow> Inl NoReturn
            | Some r \<Rightarrow> bindR r (\<lambda>(b, ms, sh).
                Inr (l\<lparr>arrived := arrived l + length chunk, rx := b, delivered := ms, rx_shut := sh\<rparr>))))"

text \<open>The sender sends through the codec only, in the loop's thread, and no message is longer than the receiver allows.\<close>

fun link_allowed :: "link_op \<Rightarrow> bool" where
  "link_allowed (LSend m wr) = (length m \<le> 65536 \<and> wr_ok wr)"
| "link_allowed (LWork x) = (conn_allowed x \<and> silent x)"
| "link_allowed (LDeliver n) = (n \<le> 65536)"

section \<open>What the connection does to the stream\<close>

text \<open>Without a send, what was given to send is as before, and what was sent only grows.\<close>

definition keeps :: "conn \<Rightarrow> conn \<Rightarrow> bool" where
  "keeps s s' \<longleftrightarrow> asked s' = asked s \<and> prefix (sent s) (sent s')"

interpretation keeping: conn_relation keeps False
proof
  show "keeps s s'" if "same_core s s'" for s s' using that by (simp add: keeps_def same_core_def)
  show "keeps s s2" if "keeps s s1" "keeps s1 s2" for s s1 s2
    using that unfolding keeps_def by (metis prefix_order.trans)
  show "keeps s s'" if "conn_change k s = Inr s'" for k s s' using that by (auto simp: conn_change_def keeps_def)
  show "keeps s s'" if "conn_release s = Inr s'" for s s'
    using that by (auto simp: conn_release_def keeps_def split: if_splits)
qed (simp_all add: keeps_def)

lemma silent_keeps: "conn_ok s \<Longrightarrow> silent x \<Longrightarrow> conn_exec s x = Inr s' \<Longrightarrow> keeps s s'"
  using keeping.conn_exec_rel no_posted_send by blast

text \<open>A send of the loop's thread adds what it was given, if the connection is up.\<close>

lemma sendInLoop_stream:
  "sendInLoop wr m s = Inr s' \<Longrightarrow> asked s' = asked s @ m \<and> prefix (sent s) (sent s')"
  by (auto simp: conn_change_def Let_def dest!: sendInLoop_shape)

lemma send_stream:
  assumes "conn_exec s (CCall (USend m wr)) = Inr s'"
  shows "asked s' = asked s @ (if alive s \<and> conn_st s = kConnected then m else [])"
    "prefix (sent s) (sent s')"
proof -
  obtain s1 where s1: "(if alive s then conn_send True wr m s else Inr s) = Inr s1" "conn_release s1 = Inr s'"
    using assms by (auto split: if_splits)
  have "asked s1 = asked s @ (if alive s \<and> conn_st s = kConnected then m else [])" "prefix (sent s) (sent s1)"
    using s1(1) sendInLoop_stream[of wr m s s1] by (auto simp: conn_send_def split: if_splits)
  moreover have "keeps s1 s'" using keeping.rel_release[OF s1(2)] .
  ultimately show "asked s' = asked s @ (if alive s \<and> conn_st s = kConnected then m else [])"
    "prefix (sent s) (sent s')"
    by (auto simp: keeps_def intro: prefix_order.trans)
qed

section \<open>A prefix of the stream\<close>

text \<open>Parsing a prefix of well-formed frames gives a prefix of the messages, and never a bad length.\<close>

lemma parse_prefix_frames:
  assumes "\<forall>m \<in> set msgs. length m \<le> 65536" "prefix xs (concat (map frame msgs))"
    "parse_frames xs = (ms, r, bad)"
  shows "prefix ms msgs" "\<not> bad" "xs = concat (map frame msgs) \<Longrightarrow> ms = msgs \<and> r = []"
proof -
  obtain ys where ys: "concat (map frame msgs) = xs @ ys" using assms(2) by (auto simp: prefix_def)
  obtain ms' r' bad' where p: "parse_frames (r @ ys) = (ms', r', bad')" by (cases "parse_frames (r @ ys)") auto
  from parse_append[OF assms(3) p] parse_frames_map_frame[OF assms(1)] ys
  have all: "ms @ ms' = msgs" "r' = []" "\<not> bad'" by auto
  then show "prefix ms msgs" by auto
  show "\<not> bad"
  proof
    assume bad
    with parse_rest_idle[OF assms(3)] have "parse_frames r = ([], r, True)" by simp
    from parse_bad_persists[OF this, of ys] p all(3) show False by simp
  qed
  show "ms = msgs \<and> r = []" if "xs = concat (map frame msgs)"
    using that assms(3) parse_frames_map_frame[OF assms(1)] by simp
qed

text \<open>What is left over is less than a frame.\<close>

lemma parse_rest_short:
  "parse_frames xs = (ms, r, False) \<Longrightarrow> length r < 65540"
proof (induction xs arbitrary: ms rule: parse_frames.induct)
  case (1 xs)
  let ?n = "4 + nat (header_len xs)"
  show ?case
  proof (cases "4 \<le> length xs \<and> \<not> bad_len (header_len xs) \<and> ?n \<le> length xs")
    case True
    obtain ms1 r1 bad1 where p1: "parse_frames (drop ?n xs) = (ms1, r1, bad1)"
      by (cases "parse_frames (drop ?n xs)") auto
    with True parse_frame "1.prems" have "r = r1" "\<not> bad1" by fastforce+
    with "1.IH" True p1 show ?thesis by (auto simp: not_less)
  next
    case False
    with "1.prems" parse_idle[of xs] have "r = xs" "\<not> (4 \<le> length xs \<and> bad_len (header_len xs))" by auto
    with False show ?thesis by (auto simp: bad_len_def)
  qed
qed

section \<open>The invariant of the link\<close>

definition link_ok :: "link \<Rightarrow> bool" where
  "link_ok l \<longleftrightarrow> conn_ok (tx l) \<and> asked (tx l) = concat (map frame (offered l)) \<and>
     (\<forall>m \<in> set (offered l). length m \<le> 65536) \<and> arrived l \<le> length (sent (tx l)) \<and> buffer_ok (rx l) \<and>
     parse_frames (take (arrived l) (sent (tx l))) = (delivered l, contents (rx l), rx_shut l)"

lemma link_okD:
  assumes "link_ok l"
  shows "conn_ok (tx l)" "asked (tx l) = concat (map frame (offered l))"
    "\<forall>m \<in> set (offered l). length m \<le> 65536" "arrived l \<le> length (sent (tx l))" "buffer_ok (rx l)"
    "parse_frames (take (arrived l) (sent (tx l))) = (delivered l, contents (rx l), rx_shut l)"
    "prefix (sent (tx l)) (asked (tx l))"
  using assms conn_ok_streams[of "tx l"] unfolding link_ok_def by (auto simp: streams_ok_def)

lemma link_good:
  assumes "link_ok l"
  shows "prefix (delivered l) (offered l)" "\<not> rx_shut l"
    "arrived l = length (asked (tx l)) \<Longrightarrow> delivered l = offered l \<and> contents (rx l) = []"
proof -
  note L = link_okD[OF assms]
  have pre: "prefix (take (arrived l) (sent (tx l))) (concat (map frame (offered l)))"
    using L(7) L(2) take_is_prefix prefix_order.trans by metis
  show "prefix (delivered l) (offered l)" "\<not> rx_shut l" by (rule parse_prefix_frames[OF L(3) pre L(6)])+
  show "delivered l = offered l \<and> contents (rx l) = []" if all: "arrived l = length (asked (tx l))"
  proof (rule parse_prefix_frames(3)[OF L(3) pre L(6)])
    have "length (sent (tx l)) = length (asked (tx l))" using L(4,7) all by (auto simp: prefix_def)
    with L(7) have "sent (tx l) = asked (tx l)" by (auto simp: prefix_def)
    then show "take (arrived l) (sent (tx l)) = concat (map frame (offered l))" using L(2) all by simp
  qed
qed

lemma deliver_ok:
  assumes "link_ok l" "n \<le> 65536"
  shows "\<exists>l'. link_exec l (LDeliver n) = Inr l' \<and> link_ok l' \<and> tx l' = tx l \<and> offered l' = offered l \<and>
    arrived l' = min (arrived l + n) (length (sent (tx l)))"
proof -
  note L = link_okD[OF assms(1)] and G = link_good[OF assms(1)]
  define chunk where "chunk = take n (drop (arrived l) (sent (tx l)))"
  show ?thesis
  proof (cases "chunk = []")
    case True
    then have "n = 0 \<or> length (sent (tx l)) \<le> arrived l" by (auto simp: chunk_def)
    with L(4) have "min (arrived l + n) (length (sent (tx l))) = arrived l" by auto
    with True show ?thesis using assms(1) by (simp add: chunk_def Let_def)
  next
    case False
    let ?c = "contents (rx l)" and ?all = "take (arrived l + length chunk) (sent (tx l))"
    have all: "?all = take (arrived l) (sent (tx l)) @ chunk"
      by (simp add: take_add chunk_def min_def)
    have len: "length chunk \<le> 65536" using assms(2) by (simp add: chunk_def)
    have idle: "parse_frames ?c = ([], ?c, False)" using parse_rest_idle[OF L(6)] G(2) by simp
    have "length ?c < 65540" using parse_rest_short L(6) G(2) by simp
    with len have cap: "3 * (length ?c + length (concat [chunk])) + 8 \<le> vec_max" by (simp add: vec_max_def)
    obtain ms r bad where p: "parse_frames (?c @ chunk) = (ms, r, bad)"
      by (cases "parse_frames (?c @ chunk)") auto
    then have p': "parse_frames (?c @ concat [chunk]) = (ms, r, bad)" by simp
    have "\<forall>c \<in> set [chunk]. length c \<le> extrabuf_size" using len by (simp add: extrabuf_size_def)
    from receive_chunks_parse[OF L(5) idle _ this cap p', of False "delivered l"] G(2) obtain b where
      b: "receive_chunks (rx l) (delivered l) (rx_shut l) [chunk] = Some (Inr (b, delivered l @ ms, bad))"
        "buffer_ok b" "contents b = r" by auto
    let ?l = "l\<lparr>arrived := arrived l + length chunk, rx := b, delivered := delivered l @ ms, rx_shut := bad\<rparr>"
    have "parse_frames ?all = (delivered l @ ms, r, bad)"
      unfolding all using parse_append[OF L(6) p] .
    moreover have "arrived l + length chunk \<le> length (sent (tx l))" using L(4) by (auto simp: chunk_def)
    ultimately have "link_ok ?l" using L b(2,3) by (simp add: link_ok_def)
    moreover have "link_exec l (LDeliver n) = Inr ?l"
      using b(1) False unfolding chunk_def by (simp add: Let_def del: receive_chunks.simps)
    moreover have "arrived l + length chunk = min (arrived l + n) (length (sent (tx l)))"
      using L(4) by (auto simp: chunk_def)
    ultimately show ?thesis by (intro exI[of _ ?l]) (simp del: link_exec.simps)
  qed
qed

lemma length_frame: "length (frame m) = 4 + length m"
  by (simp add: frame_def)

lemma link_grows:
  assumes "link_ok l" "prefix (sent (tx l)) (sent t)" "conn_ok t"
    "asked t = concat (map frame (offered l @ ms))" "\<forall>m \<in> set ms. length m \<le> 65536"
  shows "link_ok (l\<lparr>tx := t, offered := offered l @ ms\<rparr>)"
proof -
  note L = link_okD[OF assms(1)]
  obtain zs where zs: "sent t = sent (tx l) @ zs" using assms(2) by (auto simp: prefix_def)
  then have "take (arrived l) (sent t) = take (arrived l) (sent (tx l))" "arrived l \<le> length (sent t)"
    using L(4) by simp_all
  with L assms(3-5) show ?thesis by (auto simp: link_ok_def)
qed

lemma link_exec_ok:
  assumes "link_ok l" "link_allowed x"
  shows "ends (\<lambda>e. e = LengthError) link_ok (link_exec l x)"
proof -
  note L = link_okD[OF assms(1)]
  show ?thesis
  proof (cases x)
    case (LSend m wr)
    with assms(2) have m: "length m \<le> 65536" "wr_ok wr" by simp_all
    note wire = codec_wire_frame[OF m(1)]
    have "conn_allowed (CCall (USend (frame m) wr))" using m by (simp add: length_frame vec_max_def)
    note run = conn_exec_ok[OF L(1) this]
    show ?thesis
    proof (cases "conn_exec (tx l) (CCall (USend (frame m) wr))")
      case (Inl e)
      with run show ?thesis by (simp add: LSend wire del: conn_exec.simps)
    next
      case (Inr t)
      let ?ms = "if alive (tx l) \<and> conn_st (tx l) = kConnected then [m] else []"
      have "asked t = concat (map frame (offered l @ ?ms))" using send_stream(1)[OF Inr] L(2)
        by (cases "alive (tx l) \<and> conn_st (tx l) = kConnected") auto
      from link_grows[OF assms(1) send_stream(2)[OF Inr] _ this] run Inr m(1)
      show ?thesis by (simp add: LSend wire del: conn_exec.simps)
    qed
  next
    case (LWork y)
    with assms(2) have y: "conn_allowed y" "silent y" by simp_all
    note run = conn_exec_ok[OF L(1) y(1)]
    show ?thesis
    proof (cases "conn_exec (tx l) y")
      case (Inl e)
      with run show ?thesis by (simp add: LWork)
    next
      case (Inr t)
      have "keeps (tx l) t" using silent_keeps[OF L(1) y(2) Inr] .
      then have "prefix (sent (tx l)) (sent t)" "asked t = concat (map frame (offered l @ []))"
        using L(2) by (simp_all add: keeps_def)
      from link_grows[OF assms(1) this(1) _ this(2)] run Inr show ?thesis by (simp add: LWork)
    qed
  next
    case (LDeliver n)
    with deliver_ok[OF assms(1), of n] assms(2) show ?thesis by (auto simp del: link_exec.simps)
  qed
qed

interpretation link: object link_exec link_ok link_allowed "\<lambda>e. e = LengthError"
  by unfold_locales (rule link_exec_ok)

lemma link_new_ok:
  assumes "ep_ok ep" "ep_objects ep p = None" "\<forall>q c. ep_objects ep q = Some c \<longrightarrow> ch_fd c \<noteq> fd"
  shows "link_ok (link_new fd p wc ep)"
  using conn_new_ok[OF assms]
  by (simp add: link_ok_def link_new_def buffer_new_ok parse_short) (simp add: conn_new_def)

section \<open>Properties\<close>

text \<open>
  C2: Messages of at most 65536 bytes, sent in the loop's own thread, arrive whole and in order.
  (The codec sends longer ones too, but the receiver refuses them and shuts down: theorem
  \<open>long_line_disconnects\<close> of \<open>ChatClient\<close>. A send of another thread is only posted, and
  may come too late: the end of \<open>TcpConnection\<close>.) Under these two conditions, and with no event
  that makes the close and the read callback both run: whatever else the sender's connection goes
  through (partial writes, write errors, close and shutdown in any order, functors), and however
  the network cuts the bytes into reads of at most 65536 bytes, at every moment the messages
  delivered to the receiver's callback are a prefix of those the sender's connection accepted;
  once all bytes that were given to send have arrived, they are all of them, and nothing is left
  in the receiver's buffer. The receiver then never sees a bad length, its loop always returns, and
  the only failure is a sender's buffer that would pass the maximal vector size.
\<close>

theorem messages_end_to_end:
  assumes "ep_ok ep" "ep_objects ep p = None" "\<forall>q c. ep_objects ep q = Some c \<longrightarrow> ch_fd c \<noteq> fd"
    "list_all link_allowed ops"
  shows "case run_ops link_exec (link_new fd p wc ep) ops of
      Inl e \<Rightarrow> e = LengthError
    | Inr l \<Rightarrow> prefix (delivered l) (offered l) \<and> \<not> rx_shut l \<and>
        (arrived l = length (asked (tx l)) \<longrightarrow> delivered l = offered l \<and> contents (rx l) = [])"
proof (cases "run_ops link_exec (link_new fd p wc ep) ops")
  case (Inl e)
  then show ?thesis using link.run_safe_err[OF link_new_ok[OF assms(1-3)] assms(4)] by simp
next
  case (Inr l)
  then have "link_ok l" using link.run_safe_inv[OF link_new_ok[OF assms(1-3)] assms(4)] by simp
  from link_good[OF this] Inr show ?thesis by simp
qed

text \<open>A message is sent when the connection is up; the network delivers it in two pieces.\<close>

definition sample_talk :: "link_op list" where
  "sample_talk = [LWork (CPending (\<lambda>_ _. WriteErr 11) (\<lambda>_. [])), LSend [7, 8] (\<lambda>k. Wrote k)]"

theorem messages_end_to_end_witness:
  "\<exists>l. run_ops link_exec (link_new 5 64 True ep_new) (sample_talk @ [LDeliver 5, LDeliver 100]) = Inr l \<and>
     offered l = [[7, 8]] \<and> delivered l = [[7, 8]]"
proof -
  have none: "ep_objects ep_new 64 = None" "\<forall>q c. ep_objects ep_new q = Some c \<longrightarrow> ch_fd c \<noteq> 5"
    by (simp_all add: ep_new_def)
  have ok: "list_all link_allowed sample_talk"
    by (simp add: sample_talk_def wr_ok_def user_ok_def quiet_def)
  have "case run_ops link_exec (link_new 5 64 True ep_new) sample_talk of Inl _ \<Rightarrow> False
    | Inr l \<Rightarrow> offered l = [[7, 8]] \<and> length (sent (tx l)) = 6 \<and> length (asked (tx l)) = 6 \<and> arrived l = 0"
    by (simp add: sample_talk_def link_new_def codec_wire_frame length_frame conn_eval run_batch_nil bind_return)
  then obtain l where l: "run_ops link_exec (link_new 5 64 True ep_new) sample_talk = Inr l"
    "offered l = [[7, 8]]" "length (sent (tx l)) = 6" "length (asked (tx l)) = 6" "arrived l = 0"
    by (elim case_sum_Inr conjE)
  have "link_ok l" using link.run_safe_inv[OF link_new_ok[OF ep_new_ok none] ok l(1)] .
  from deliver_ok[OF this, of 5] l obtain l1 where l1: "link_exec l (LDeliver 5) = Inr l1" "link_ok l1"
    "tx l1 = tx l" "offered l1 = offered l" "arrived l1 = 5" by auto
  from deliver_ok[OF l1(2), of 100] l l1 obtain l2 where l2: "link_exec l1 (LDeliver 100) = Inr l2"
    "offered l2 = [[7, 8]]" "arrived l2 = length (asked (tx l2))" by auto
  have "run_ops link_exec (link_new 5 64 True ep_new) (sample_talk @ [LDeliver 5, LDeliver 100]) = Inr l2"
    using l(1) l1(1) l2(1) by (simp add: run_ops_append del: link_exec.simps)
  moreover from this messages_end_to_end[OF ep_new_ok none, of "sample_talk @ [LDeliver 5, LDeliver 100]" True] ok
  have "delivered l2 = offered l2" using l2(3) by simp
  ultimately show ?thesis using l2(2) by auto
qed

end
