(* ===== verification/Connections.thy ===== *)
theory Connections
  imports ConnFrame
begin

text \<open>
  Many connections in one loop. Each is a \<^verbatim>\<open>TcpConnection\<close> of its own (the model of
  \<open>TcpConnection\<close>), and all of them, with whatever other channels the loop has (its acceptor, its
  wakeup channel, connectors), share one poller. What is shown of one connection alone holds for each of them,
  because none touches what is another's.
\<close>

section \<open>The loop's connections\<close>

text \<open>
  The poller is the loop's; the copy in a connection's record is set before each of its
  operations. Connections that are gone stay in the list for the statements.
\<close>

record conn_loop =
  cl_poller :: epoller
  cl_conns :: "conn list"

definition conn_at :: "conn_loop \<Rightarrow> nat \<Rightarrow> conn" where
  "conn_at l i = (cl_conns l ! i)\<lparr>poller := cl_poller l\<rparr>"

datatype cl_op = ClAccept int nat bool | ClConn nat conn_op | ClOther ep_op

fun cl_exec :: "conn_loop \<Rightarrow> cl_op \<Rightarrow> conn_loop res" where
  "cl_exec l (ClAccept fd p wc) =
     (let s = conn_new fd p wc (cl_poller l)
      in Inr (l\<lparr>cl_poller := poller s, cl_conns := cl_conns l @ [s]\<rparr>))"
| "cl_exec l (ClConn i x) =
     bindR (conn_exec (conn_at l i) x) (\<lambda>s.
     Inr (l\<lparr>cl_poller := poller s, cl_conns := (cl_conns l)[i := s]\<rparr>))"
| "cl_exec l (ClOther x) = bindR (ep_exec (cl_poller l) x) (\<lambda>ep. Inr (l\<lparr>cl_poller := ep\<rparr>))"

definition live_at :: "conn_loop \<Rightarrow> nat \<Rightarrow> bool" where
  "live_at l i \<longleftrightarrow> i < length (cl_conns l) \<and> alive (cl_conns l ! i)"

fun target :: "ep_op \<Rightarrow> nat" where
  "target (EpCreate p fd) = p"
| "target (EpChange p k) = p"
| "target (EpRemove p) = p"
| "target (EpDestroy p) = p"

text \<open>
  The rules: a new connection has a descriptor no open channel has, and a new channel; only live
  connections are called; other handlers use the poller by its rules, and their own channels and
  descriptors.
\<close>

fun cl_pre :: "conn_loop \<Rightarrow> cl_op \<Rightarrow> bool" where
  "cl_pre l (ClAccept fd p wc) \<longleftrightarrow> ep_objects (cl_poller l) p = None \<and>
     (\<forall>q c. ep_objects (cl_poller l) q = Some c \<longrightarrow> ch_fd c \<noteq> fd)"
| "cl_pre l (ClConn i x) \<longleftrightarrow> live_at l i \<and> conn_allowed x"
| "cl_pre l (ClOther x) \<longleftrightarrow> ep_pre (ep_abs (cl_poller l)) x \<and>
     (\<forall>i. live_at l i \<longrightarrow> chan (cl_conns l ! i) \<noteq> target x \<and>
        (\<forall>p fd. x = EpCreate p fd \<longrightarrow> sockfd (cl_conns l ! i) \<noteq> fd))"

definition cl_init :: "conn_loop \<Rightarrow> bool" where
  "cl_init l \<longleftrightarrow> ep_ok (cl_poller l) \<and> cl_conns l = []"

section \<open>What a connection touches\<close>

text \<open>At the address \<open>p\<close> only, where an object keeps its descriptor.\<close>

definition only_at :: "nat \<Rightarrow> epoller \<Rightarrow> epoller \<Rightarrow> bool" where
  "only_at p a b \<longleftrightarrow> (\<forall>q. q \<noteq> p \<longrightarrow> ep_objects b q = ep_objects a q) \<and>
     (\<forall>d. ep_objects b p = Some d \<longrightarrow> (\<exists>c. ep_objects a p = Some c \<and> ch_fd d = ch_fd c))"

lemma only_at_refl: "only_at p a a"
  by (simp add: only_at_def)

lemma only_at_trans: "only_at p a b \<Longrightarrow> only_at p b c \<Longrightarrow> only_at p a c"
  unfolding only_at_def by (metis (no_types, lifting))

lemma update_only: "ep_updateChannel p s = Inr s' \<Longrightarrow> only_at p s s'"
  by (auto simp: only_at_def ep_updateChannel_def ep_update_def ep_put_def ep_deref_def Let_def
      split: if_splits option.splits)

lemma put_only: "ep_objects s p = Some c \<Longrightarrow> ch_fd c' = ch_fd c \<Longrightarrow> only_at p s (ep_put p c' s)"
  by (simp add: only_at_def ep_put_def)

lemma change_only: "change_interest k p s = Inr s' \<Longrightarrow> only_at p s s'"
proof -
  assume run: "change_interest k p s = Inr s'"
  then obtain c where c: "ep_objects s p = Some c"
    by (auto simp: change_interest_def ep_deref_def split: option.splits)
  let ?c = "c\<lparr>events := change_events k (events c)\<rparr>"
  have "ep_updateChannel p (ep_put p ?c s) = Inr s'" using run c by (simp add: change_interest_def ep_deref_def)
  from update_only[OF this] put_only[OF c, of ?c] show ?thesis by (auto intro: only_at_trans)
qed

lemma remove_only: "ep_removeChannel p s = Inr s' \<Longrightarrow> only_at p s s'"
  by (auto simp: only_at_def ep_removeChannel_def ep_update_def ep_put_def ep_deref_def Let_def
      split: if_splits option.splits)

lemma destroy_only: "ep_exec s (EpDestroy p) = Inr s' \<Longrightarrow> only_at p s s'"
  by (auto simp: only_at_def ep_deref_def split: option.splits)

definition touches :: "conn \<Rightarrow> conn \<Rightarrow> bool" where
  "touches s s' \<longleftrightarrow> chan s' = chan s \<and> sockfd s' = sockfd s \<and> only_at (chan s) (poller s) (poller s')"

interpretation touching: conn_relation touches True
proof
  show "touches s s'" if "same_core s s'" for s s'
    using that by (simp add: touches_def same_core_def only_at_refl)
  show "touches s s2" if "touches s s1" "touches s1 s2" for s s1 s2
    using that by (auto simp: touches_def intro: only_at_trans)
  show change: "touches s s'" if "conn_change k s = Inr s'" for k s s'
    using that change_only by (auto simp: conn_change_def touches_def)
  show "touches s (s\<lparr>poller := p\<rparr>)" if "ep_removeChannel (chan s) (poller s) = Inr p" for s p
    using remove_only[OF that] by (simp add: touches_def)
  show "touches s s'" if "conn_release s = Inr s'" for s s'
  proof (cases "s' = s")
    case False
    with that obtain p where "ep_exec (poller s) (EpDestroy (chan s)) = Inr p"
      "s' = s\<lparr>poller := p\<lparr>ep_interest := (ep_interest p)(sockfd s := None)\<rparr>, alive := False\<rparr>"
      by (auto simp: conn_release_def simp del: ep_exec.simps split: if_splits)
    with destroy_only show ?thesis by (auto simp: touches_def only_at_def)
  qed (simp add: touches_def only_at_refl)
  show "touches s (s\<lparr>outputBuffer := b, sent := sent s @ xs\<rparr>)" for s b xs
    by (simp add: touches_def only_at_refl)
  show "touches s s'" if send: "sendInLoop wr m s = Inr s'" for wr m s s'
  proof -
    obtain n fs b where s': "let s1 = s\<lparr>asked := asked s @ m, sent := sent s @ take n m,
        pending := pending s @ fs, outputBuffer := b\<rparr> in s' = s1 \<or> conn_change EnableWriting s1 = Inr s'"
      using sendInLoop_shape[OF send] by blast
    define s1 where "s1 = s\<lparr>asked := asked s @ m, sent := sent s @ take n m,
        pending := pending s @ fs, outputBuffer := b\<rparr>"
    have "poller s1 = poller s" "chan s1 = chan s" "sockfd s1 = sockfd s" by (simp_all add: s1_def)
    moreover have "s' = s1 \<or> conn_change EnableWriting s1 = Inr s'" using s' by (simp add: Let_def s1_def)
    ultimately show ?thesis using change[of EnableWriting s1 s'] by (auto simp: touches_def only_at_refl)
  qed
qed

section \<open>What a connection needs of the others\<close>

text \<open>Changes at another channel's address, whose descriptor is not the connection's.\<close>

lemma channel_ok_other:
  assumes "channel_ok e reg t" "ep_ok ep" "c \<noteq> chan t"
    "\<And>q. q \<noteq> c \<Longrightarrow> ep_objects ep q = ep_objects (poller t) q"
    "\<And>d. ep_objects ep c = Some d \<Longrightarrow> ch_fd d \<noteq> sockfd t"
  shows "channel_ok e reg (t\<lparr>poller := ep\<rparr>)"
proof -
  have same: "ep_abs ep q = ep_abs (poller t) q" if "q \<noteq> c" for q
    using assms(4)[OF that] by (simp add: ep_abs_def)
  have "ep_abs ep q \<noteq> Some (sockfd t, e', r)" if "q \<noteq> chan t" for q e' r
  proof (cases "q = c")
    case True
    with assms(5) show ?thesis by (auto simp: ep_abs_def)
  next
    case False
    with same that assms(1) show ?thesis by (simp add: channel_ok_def)
  qed
  with assms(1-3) same[of "chan t"] show ?thesis by (simp add: channel_ok_def)
qed

lemma conn_ok_other:
  assumes ok: "conn_ok t" "alive t" and other: "ep_ok ep" "c \<noteq> chan t"
    "\<And>q. q \<noteq> c \<Longrightarrow> ep_objects ep q = ep_objects (poller t) q"
    "\<And>d. ep_objects ep c = Some d \<Longrightarrow> ch_fd d \<noteq> sockfd t"
  shows "conn_ok (t\<lparr>poller := ep\<rparr>)"
proof -
  let ?t = "t\<lparr>poller := ep\<rparr>"
  note ch = channel_ok_other[OF _ other]
  have view: "streams_ok ?t = streams_ok t" "queue_ok fs ?t = queue_ok fs t" "phase_ok e reg ?t = phase_ok e reg t"
    for fs e reg by (simp_all add: streams_ok_def queue_ok_def phase_ok_def)
  have "\<not> conn_dead t" using ok(2) by (simp add: conn_dead_def)
  then consider "conn_fresh [] t" | "conn_good [] t" "inServerMap t \<or> pending t \<noteq> []"
    using ok(1) by (auto simp: conn_ok_def)
  then show ?thesis
  proof cases
    case 1
    then have "conn_fresh [] ?t" using ch[of 0 False] view by (simp add: conn_fresh_def)
    then show ?thesis by (simp add: conn_ok_def)
  next
    case 2
    from 2(1) obtain e reg where e: "channel_ok e reg t" "phase_ok e reg t"
      by (auto simp: conn_good_def conn_active_def)
    have "conn_active [] ?t"
      by (rule conn_activeI[of _ _ e reg]) (use 2(1) e ch[OF e(1)] view in
        \<open>simp_all add: conn_good_def conn_active_def\<close>)
    moreover have "conn_st ?t = kDisconnected \<longrightarrow> channel_ok 0 False ?t"
      using 2(1) ch[of 0 False] by (simp add: conn_good_def)
    ultimately show ?thesis using 2(2) by (simp add: conn_ok_def conn_good_def)
  qed
qed

lemma conn_ok_poller: "conn_ok s \<Longrightarrow> ep_ok (poller s)"
  by (auto simp: conn_ok_def conn_fresh_def conn_dead_def conn_good_def conn_active_def channel_ok_def)

lemma conn_ok_channel_ok: "conn_ok s \<Longrightarrow> alive s \<Longrightarrow> \<exists>e reg. channel_ok e reg s"
  by (auto simp: conn_ok_def conn_fresh_def conn_dead_def conn_good_def conn_active_def)

lemma conn_ok_channel:
  "conn_ok s \<Longrightarrow> alive s \<Longrightarrow> \<exists>c. ep_objects (poller s) (chan s) = Some c \<and> ch_fd c = sockfd s"
  using conn_ok_channel_ok[of s] by (auto simp: channel_ok_def ep_abs_def)

section \<open>The invariant of the loop\<close>

definition cl_inv :: "conn_loop \<Rightarrow> bool" where
  "cl_inv l \<longleftrightarrow> ep_ok (cl_poller l) \<and>
     (\<forall>i. live_at l i \<longrightarrow> conn_ok (conn_at l i)) \<and>
     (\<forall>i < length (cl_conns l). streams_ok (cl_conns l ! i)) \<and>
     (\<forall>i j. live_at l i \<and> live_at l j \<and> i \<noteq> j \<longrightarrow>
        chan (cl_conns l ! i) \<noteq> chan (cl_conns l ! j) \<and> sockfd (cl_conns l ! i) \<noteq> sockfd (cl_conns l ! j))"

lemma cl_invD:
  assumes "cl_inv l"
  shows "ep_ok (cl_poller l)" "live_at l i \<Longrightarrow> conn_ok (conn_at l i)"
    "i < length (cl_conns l) \<Longrightarrow> streams_ok (cl_conns l ! i)"
    "live_at l i \<Longrightarrow> live_at l j \<Longrightarrow> i \<noteq> j \<Longrightarrow> chan (cl_conns l ! i) \<noteq> chan (cl_conns l ! j) \<and>
       sockfd (cl_conns l ! i) \<noteq> sockfd (cl_conns l ! j)"
  using assms unfolding cl_inv_def by blast+

lemma live_channel:
  assumes "cl_inv l" "live_at l i"
  shows "\<exists>c. ep_objects (cl_poller l) (chan (cl_conns l ! i)) = Some c \<and> ch_fd c = sockfd (cl_conns l ! i)"
proof -
  have "alive (conn_at l i)" using assms(2) by (simp add: live_at_def conn_at_def)
  from conn_ok_channel[OF cl_invD(2)[OF assms] this] show ?thesis by (simp add: conn_at_def)
qed

text \<open>No other channel has the connection's descriptor.\<close>

lemma live_apart:
  assumes "cl_inv l" "live_at l i" "ep_objects (cl_poller l) q = Some c" "q \<noteq> chan (cl_conns l ! i)"
  shows "ch_fd c \<noteq> sockfd (cl_conns l ! i)"
proof -
  have "alive (conn_at l i)" using assms(2) by (simp add: live_at_def conn_at_def)
  from conn_ok_channel_ok[OF cl_invD(2)[OF assms(1,2)] this] obtain e reg where
    "channel_ok e reg (conn_at l i)" by blast
  then have "ep_abs (cl_poller l) q \<noteq> Some (sockfd (cl_conns l ! i), e', r)" for e' r
    using assms(4) by (simp add: channel_ok_def conn_at_def)
  with assms(3) show ?thesis by (auto simp: ep_abs_def)
qed

lemma accept_ok:
  assumes inv: "cl_inv l" and pre: "cl_pre l (ClAccept fd p wc)"
  shows "\<exists>l'. cl_exec l (ClAccept fd p wc) = Inr l' \<and> cl_inv l'"
proof -
  note D = cl_invD[OF inv]
  let ?ep = "ep_put p (conn_channel fd) (cl_poller l)"
  define s where "s = conn_new fd p wc (cl_poller l)"
  have new: "conn_ok s" using conn_new_ok[OF D(1)] pre by (simp add: s_def)
  have sf: "poller s = ?ep" "chan s = p" "sockfd s = fd" "alive s" by (simp_all add: s_def conn_new_def)
  let ?l = "l\<lparr>cl_poller := poller s, cl_conns := cl_conns l @ [s]\<rparr>"
  have nth: "cl_conns ?l ! i = (if i < length (cl_conns l) then cl_conns l ! i else s)"
    if "i < length (cl_conns ?l)" for i using that by (auto simp: nth_append less_Suc_eq)
  have live: "live_at ?l i \<longleftrightarrow> live_at l i \<or> i = length (cl_conns l)" for i
    using sf(4) by (auto simp: live_at_def nth_append less_Suc_eq)
  have epok: "ep_ok ?ep" using conn_ok_poller[OF new] sf(1) by simp
  have apart: "chan (cl_conns l ! i) \<noteq> p \<and> sockfd (cl_conns l ! i) \<noteq> fd" if "live_at l i" for i
    using live_channel[OF inv that] pre by auto
  have "conn_ok (conn_at ?l i)" if i: "live_at l i" for i
  proof -
    have "conn_ok ((conn_at l i)\<lparr>poller := ?ep\<rparr>)"
    proof (rule conn_ok_other[OF D(2)[OF i] _ epok, of p])
      show "alive (conn_at l i)" "p \<noteq> chan (conn_at l i)"
        using i apart[OF i] by (auto simp: conn_at_def live_at_def)
      show "q \<noteq> p \<Longrightarrow> ep_objects ?ep q = ep_objects (poller (conn_at l i)) q" for q
        by (simp add: ep_put_def conn_at_def)
      show "ep_objects ?ep p = Some d \<Longrightarrow> ch_fd d \<noteq> sockfd (conn_at l i)" for d
        using apart[OF i] by (auto simp: ep_put_def conn_at_def conn_channel_def channel_new_def)
    qed
    then show ?thesis using i sf(1) by (simp add: conn_at_def live_at_def nth_append)
  qed
  moreover have "conn_at ?l (length (cl_conns l)) = s" by (simp add: conn_at_def)
  ultimately have "live_at ?l i \<Longrightarrow> conn_ok (conn_at ?l i)" for i using live new by metis
  moreover have "streams_ok (cl_conns ?l ! i)" if "i < length (cl_conns ?l)" for i
    using D(3) conn_ok_streams[OF new] nth[OF that] by simp
  moreover have "chan (cl_conns ?l ! i) \<noteq> chan (cl_conns ?l ! j) \<and> sockfd (cl_conns ?l ! i) \<noteq> sockfd (cl_conns ?l ! j)"
    if ij: "live_at ?l i" "live_at ?l j" "i \<noteq> j" for i j
  proof -
    have old: "cl_conns ?l ! k = cl_conns l ! k" if "live_at l k" for k
      using that by (simp add: live_at_def nth_append)
    consider "live_at l i" "live_at l j" | "live_at l i" "j = length (cl_conns l)"
      | "i = length (cl_conns l)" "live_at l j" using ij unfolding live by blast
    then show ?thesis
    proof cases
      case 1
      with D(4) ij(3) old show ?thesis by simp
    next
      case 2
      with apart[of i] old[of i] sf show ?thesis by simp
    next
      case 3
      with apart[of j] old[of j] sf show ?thesis by auto
    qed
  qed
  ultimately have "cl_inv ?l" using epok sf(1) unfolding cl_inv_def by simp
  then show ?thesis by (simp add: s_def Let_def)
qed

text \<open>A change at the address \<open>c\<close> of the poller keeps every connection that is not there.\<close>

lemma others_ok:
  assumes inv: "cl_inv l" and i: "live_at l i" and ep: "ep_ok ep"
    and frame: "\<And>q. q \<noteq> c \<Longrightarrow> ep_objects ep q = ep_objects (cl_poller l) q"
    and apart: "chan (cl_conns l ! i) \<noteq> c" "\<And>d. ep_objects ep c = Some d \<Longrightarrow> ch_fd d \<noteq> sockfd (cl_conns l ! i)"
  shows "conn_ok ((cl_conns l ! i)\<lparr>poller := ep\<rparr>)"
proof -
  have "conn_ok ((conn_at l i)\<lparr>poller := ep\<rparr>)"
    by (rule conn_ok_other[OF cl_invD(2)[OF inv i] _ ep, of c])
      (use i frame apart in \<open>auto simp: conn_at_def live_at_def\<close>)
  then show ?thesis by (simp add: conn_at_def)
qed

text \<open>A change of one connection, whatever made it.\<close>

definition put_conn :: "nat \<Rightarrow> conn \<Rightarrow> conn_loop \<Rightarrow> conn_loop" where
  "put_conn i s l = l\<lparr>cl_poller := poller s, cl_conns := (cl_conns l)[i := s]\<rparr>"

lemma put_conn_live:
  "i < length (cl_conns l) \<Longrightarrow> live_at (put_conn i s l) j \<longleftrightarrow> (if j = i then alive s else live_at l j)"
  by (simp add: put_conn_def live_at_def)

lemma put_conn_nth:
  "i < length (cl_conns l) \<Longrightarrow> cl_conns (put_conn i s l) ! j = (if j = i then s else cl_conns l ! j)"
  by (simp add: put_conn_def)

lemma put_conn_ok:
  assumes inv: "cl_inv l" and i: "live_at l i" and ok: "conn_ok s" and t: "touches (conn_at l i) s"
  shows "cl_inv (put_conn i s l)"
proof -
  note D = cl_invD[OF inv]
  have len: "i < length (cl_conns l)" using i by (simp add: live_at_def)
  note live = put_conn_live[OF len, of s] and nth = put_conn_nth[OF len, of s]
  let ?l = "put_conn i s l"
  have same: "chan s = chan (cl_conns l ! i)" "sockfd s = sockfd (cl_conns l ! i)"
    "only_at (chan s) (cl_poller l) (poller s)" using t by (simp_all add: touches_def conn_at_def)
  have fd: "ch_fd d = sockfd s" if "ep_objects (poller s) (chan s) = Some d" for d
    using that same live_channel[OF inv i] by (auto simp: only_at_def)
  have "conn_ok (conn_at ?l j)" if j: "live_at ?l j" for j
  proof (cases "j = i")
    case True
    with ok len show ?thesis by (simp add: conn_at_def put_conn_def)
  next
    case False
    then have lj: "live_at l j" using j live by simp
    with D(4)[OF lj i False] same fd have "conn_ok ((cl_conns l ! j)\<lparr>poller := poller s\<rparr>)"
      by (intro others_ok[OF inv lj conn_ok_poller[OF ok], of "chan s"]) (auto simp: only_at_def)
    with False show ?thesis by (simp add: conn_at_def put_conn_def)
  qed
  moreover have "streams_ok (cl_conns ?l ! j)" if "j < length (cl_conns ?l)" for j
    using that D(3)[of j] conn_ok_streams[OF ok] by (simp add: nth) (simp add: put_conn_def)
  moreover have "chan (cl_conns ?l ! j) \<noteq> chan (cl_conns ?l ! k) \<and> sockfd (cl_conns ?l ! j) \<noteq> sockfd (cl_conns ?l ! k)"
    if jk: "live_at ?l j" "live_at ?l k" "j \<noteq> k" for j k
  proof -
    have "live_at l j" "live_at l k" using jk live i by (auto split: if_splits)
    from D(4)[OF this jk(3)] show ?thesis unfolding nth using same by auto
  qed
  moreover have "cl_poller ?l = poller s" by (simp add: put_conn_def)
  ultimately show ?thesis using conn_ok_poller[OF ok] unfolding cl_inv_def by simp
qed

lemma conn_op_ok:
  assumes inv: "cl_inv l" and pre: "cl_pre l (ClConn i x)"
  shows "ends (\<lambda>e. e = LengthError) cl_inv (cl_exec l (ClConn i x))"
proof (cases "conn_exec (conn_at l i) x")
  case (Inl e)
  with conn_exec_ok[OF cl_invD(2)[OF inv], of i x] pre show ?thesis by simp
next
  case (Inr s)
  have i: "live_at l i" and x: "conn_allowed x" using pre by simp_all
  have "conn_ok s" using conn_exec_ok[OF cl_invD(2)[OF inv i] x] Inr by simp
  from put_conn_ok[OF inv i this touching.conn_exec_rel[OF _ Inr]] Inr show ?thesis
    by (simp add: put_conn_def)
qed

lemma ep_exec_frame:
  assumes "ep_exec s x = Inr s'"
  shows "\<And>q. q \<noteq> target x \<Longrightarrow> ep_objects s' q = ep_objects s q"
    "\<And>d. ep_objects s' (target x) = Some d \<Longrightarrow> (\<exists>c. ep_objects s (target x) = Some c \<and> ch_fd d = ch_fd c) \<or>
       (\<exists>p. x = EpCreate p (ch_fd d))"
proof (atomize (full), cases x)
  case (EpCreate p fd)
  with assms show "(\<forall>q. q \<noteq> target x \<longrightarrow> ep_objects s' q = ep_objects s q) \<and>
    (\<forall>d. ep_objects s' (target x) = Some d \<longrightarrow> (\<exists>c. ep_objects s (target x) = Some c \<and> ch_fd d = ch_fd c) \<or>
       (\<exists>p. x = EpCreate p (ch_fd d)))"
    by (auto simp: ep_put_def channel_new_def)
next
  case (EpChange p k)
  with assms change_only[of k p s s'] show "(\<forall>q. q \<noteq> target x \<longrightarrow> ep_objects s' q = ep_objects s q) \<and>
    (\<forall>d. ep_objects s' (target x) = Some d \<longrightarrow> (\<exists>c. ep_objects s (target x) = Some c \<and> ch_fd d = ch_fd c) \<or>
       (\<exists>p. x = EpCreate p (ch_fd d)))"
    by (simp add: only_at_def)
next
  case (EpRemove p)
  with assms remove_only[of p s s'] show "(\<forall>q. q \<noteq> target x \<longrightarrow> ep_objects s' q = ep_objects s q) \<and>
    (\<forall>d. ep_objects s' (target x) = Some d \<longrightarrow> (\<exists>c. ep_objects s (target x) = Some c \<and> ch_fd d = ch_fd c) \<or>
       (\<exists>p. x = EpCreate p (ch_fd d)))"
    by (simp add: only_at_def)
next
  case (EpDestroy p)
  with assms destroy_only[of s p s'] show "(\<forall>q. q \<noteq> target x \<longrightarrow> ep_objects s' q = ep_objects s q) \<and>
    (\<forall>d. ep_objects s' (target x) = Some d \<longrightarrow> (\<exists>c. ep_objects s (target x) = Some c \<and> ch_fd d = ch_fd c) \<or>
       (\<exists>p. x = EpCreate p (ch_fd d)))"
    by (simp add: only_at_def)
qed

lemma other_op_ok:
  assumes inv: "cl_inv l" and pre: "cl_pre l (ClOther x)"
  shows "\<exists>l'. cl_exec l (ClOther x) = Inr l' \<and> cl_inv l'"
proof -
  note D = cl_invD[OF inv]
  obtain ep where ep: "ep_exec (cl_poller l) x = Inr ep" "ep_ok ep"
    using ep_exec_ok[OF D(1), of x] pre by auto
  note fr = ep_exec_frame[OF ep(1)]
  let ?l = "l\<lparr>cl_poller := ep\<rparr>"
  have live: "live_at ?l i = live_at l i" for i by (simp add: live_at_def)
  have "conn_ok (conn_at ?l i)" if i: "live_at l i" for i
  proof -
    have a: "chan (cl_conns l ! i) \<noteq> target x" "\<And>p fd. x = EpCreate p fd \<Longrightarrow> sockfd (cl_conns l ! i) \<noteq> fd"
      using pre i by auto
    have "ch_fd d \<noteq> sockfd (cl_conns l ! i)" if d: "ep_objects ep (target x) = Some d" for d
      using fr(2)[OF d]
    proof (elim disjE exE conjE)
      fix c assume "ep_objects (cl_poller l) (target x) = Some c" "ch_fd d = ch_fd c"
      with live_apart[OF inv i] a(1) show ?thesis by metis
    next
      fix p assume "x = EpCreate p (ch_fd d)"
      with a(2) show ?thesis by metis
    qed
    with others_ok[OF inv i ep(2) fr(1) a(1)] show ?thesis by (simp add: conn_at_def)
  qed
  then have "cl_inv ?l" using D(3,4) ep(2) unfolding cl_inv_def live by simp
  with ep(1) show ?thesis by simp
qed

lemma cl_exec_ok: "cl_inv l \<Longrightarrow> cl_pre l x \<Longrightarrow> ends (\<lambda>e. e = LengthError) cl_inv (cl_exec l x)"
proof (cases x)
  case (ClAccept fd p wc)
  with accept_ok[of l fd p wc] show "cl_inv l \<Longrightarrow> cl_pre l x \<Longrightarrow> ?thesis" by (auto simp del: cl_pre.simps cl_exec.simps)
next
  case (ClConn i y)
  with conn_op_ok[of l i y] show "cl_inv l \<Longrightarrow> cl_pre l x \<Longrightarrow> ?thesis" by (simp del: cl_pre.simps cl_exec.simps)
next
  case (ClOther y)
  with other_op_ok[of l y] show "cl_inv l \<Longrightarrow> cl_pre l x \<Longrightarrow> ?thesis" by (auto simp del: cl_pre.simps cl_exec.simps)
qed

lemma cl_init_inv: "cl_init l \<Longrightarrow> cl_inv l"
  by (simp add: cl_init_def cl_inv_def live_at_def)

interpretation conn_loop: guarded_object cl_init cl_pre cl_exec cl_inv "\<lambda>e. e = LengthError"
  by unfold_locales (rule cl_init_inv cl_exec_ok, assumption+)+

text \<open>
  C7: Connections do not interfere. In a loop with any number of connections, and whatever other
  handlers do to channels of their own, each connection's bytes are kept (what the kernel took
  and what is buffered is what was given to send, what the user took and what is buffered is what
  was read); writing is watched for exactly the connections with something left to send; the
  connections that are alive have channels and descriptors of their own; and whatever comes next,
  the worst that can happen is a buffer that would pass the maximal vector size.
\<close>

theorem connections_do_not_interfere:
  assumes "reach cl_init (guarded cl_pre cl_exec) l"
  shows "(\<forall>i < length (cl_conns l). let s = cl_conns l ! i in
       asked s = sent s @ contents (outputBuffer s) \<and> received s = taken s @ contents (inputBuffer s)) \<and>
     (\<forall>i. live_at l i \<and> inServerMap (cl_conns l ! i) \<and> conn_st (cl_conns l ! i) \<noteq> kConnecting \<longrightarrow>
       conn_isWriting (conn_at l i) = Inr (contents (outputBuffer (cl_conns l ! i)) \<noteq> [])) \<and>
     (\<forall>i j. live_at l i \<and> live_at l j \<and> i \<noteq> j \<longrightarrow> chan (cl_conns l ! i) \<noteq> chan (cl_conns l ! j) \<and>
       sockfd (cl_conns l ! i) \<noteq> sockfd (cl_conns l ! j)) \<and>
     (\<forall>x e. cl_pre l x \<and> cl_exec l x = Inl e \<longrightarrow> e = LengthError)"
proof (intro conjI allI impI)
  have inv: "cl_inv l" using conn_loop.reach_inv[OF assms] .
  note D = cl_invD[OF inv]
  show "let s = cl_conns l ! i in
       asked s = sent s @ contents (outputBuffer s) \<and> received s = taken s @ contents (inputBuffer s)"
    if "i < length (cl_conns l)" for i
    using D(3)[OF that] by (simp add: streams_ok_def Let_def)
  show "conn_isWriting (conn_at l i) = Inr (contents (outputBuffer (cl_conns l ! i)) \<noteq> [])"
    if i: "live_at l i \<and> inServerMap (cl_conns l ! i) \<and> conn_st (cl_conns l ! i) \<noteq> kConnecting" for i
  proof -
    have "conn_ok (conn_at l i)" using D(2) i by blast
    from conn_ok_isWriting[OF this] i show ?thesis by (simp add: conn_at_def)
  qed
  show "chan (cl_conns l ! i) \<noteq> chan (cl_conns l ! j)" "sockfd (cl_conns l ! i) \<noteq> sockfd (cl_conns l ! j)"
    if "live_at l i \<and> live_at l j \<and> i \<noteq> j" for i j
    using D(4) that by blast+
  show "e = LengthError" if "cl_pre l x \<and> cl_exec l x = Inl e" for x e
    using conn_loop.reach_exec[OF assms, of x] that by simp
qed

text \<open>Two connections; the kernel takes one of the three bytes the first is given to send.\<close>

theorem connections_do_not_interfere_witness:
  "\<exists>l. reach cl_init (guarded cl_pre cl_exec) l \<and> length (cl_conns l) = 2 \<and> sent (cl_conns l ! 0) = [1] \<and>
     contents (outputBuffer (cl_conns l ! 0)) = [2, 3] \<and> sockfd (cl_conns l ! 0) \<noteq> sockfd (cl_conns l ! 1) \<and>
     conn_isWriting (conn_at l 0) = Inr True"
proof -
  let ?l0 = "\<lparr>cl_poller = ep_new, cl_conns = []\<rparr>"
  have "reach cl_init (guarded cl_pre cl_exec) ?l0" by (intro reach_init) (simp add: cl_init_def ep_new_ok)
  moreover obtain l1 where l1: "cl_exec ?l0 (ClAccept 5 64 True) = Inr l1" by (simp add: Let_def)
  have "cl_pre ?l0 (ClAccept 5 64 True)" by (simp add: ep_new_def)
  ultimately have r1: "reach cl_init (guarded cl_pre cl_exec) l1" by (rule conn_loop.reach_call) (rule l1)
  obtain l2 where l2: "cl_exec l1 (ClAccept 6 65 True) = Inr l2" by (simp add: Let_def)
  have v1: "ep_objects (cl_poller l1) = [64 \<mapsto> conn_channel 5]"
    using l1 by (auto simp: conn_new_def ep_put_def ep_new_def)
  have "cl_pre l1 (ClAccept 6 65 True)" by (simp add: v1 conn_channel_def channel_new_def)
  from conn_loop.reach_call[OF r1 this l2] have r2: "reach cl_init (guarded cl_pre cl_exec) l2" .
  let ?up = "CPending (\<lambda>_ _. WriteErr 11) (\<lambda>_. [])" and ?send = "CCall (USend [1, 2, 3] (\<lambda>k. Wrote (min k 1)))"
  let ?done = "\<lambda>l. length (cl_conns l) = 2 \<and> sent (cl_conns l ! 0) = [1] \<and>
     contents (outputBuffer (cl_conns l ! 0)) = [2, 3] \<and> live_at l 0 \<and> live_at l 1 \<and>
     inServerMap (cl_conns l ! 0) \<and> conn_st (cl_conns l ! 0) = kConnected"
  obtain b where b: "append [2, 3] buffer_new = Inr b" "contents b = [2, 3]"
    using append_ok[OF buffer_new_ok, of "[2, 3]"] by (auto simp: vec_max_def)
  have "live_at l2 0" using l1 l2 by (auto simp: live_at_def conn_new_def)
  moreover have "case cl_exec l2 (ClConn 0 ?up) of Inl _ \<Rightarrow> False | Inr l3 \<Rightarrow> live_at l3 0 \<and>
      (case cl_exec l3 (ClConn 0 ?send) of Inl _ \<Rightarrow> False | Inr l4 \<Rightarrow> ?done l4)"
    using l1 l2 by (auto simp: conn_at_def live_at_def conn_eval run_batch_nil bind_return b)
  then obtain l3 l4 where l3: "cl_exec l2 (ClConn 0 ?up) = Inr l3" "live_at l3 0"
    and l4: "cl_exec l3 (ClConn 0 ?send) = Inr l4" "?done l4"
    by (elim case_sum_Inr conjE) blast
  have "cl_pre l2 (ClConn 0 ?up)" by (use calculation in \<open>simp add: user_ok_def\<close>)
  from conn_loop.reach_call[OF r2 this l3(1)] have r3: "reach cl_init (guarded cl_pre cl_exec) l3" .
  have "cl_pre l3 (ClConn 0 ?send)" by (use l3(2) in \<open>simp add: wr_ok_def vec_max_def\<close>)
  from conn_loop.reach_call[OF r3 this l4(1)] have r4: "reach cl_init (guarded cl_pre cl_exec) l4" .
  from connections_do_not_interfere[OF r4] l4(2) show ?thesis
    by (intro exI[of _ l4] conjI r4) (auto simp del: cl_exec.simps)
qed

end
