(* ===== verification/Locking.thy ===== *)
theory Locking
  imports Contracts
begin

text \<open>
  base/Mutex.h, base/Condition.h, base/CountDownLatch.cc: a mutex and the guard that holds it for a
  scope, a condition variable, and the latch built from them, used by any number of threads. One
  step is one access to the shared state; a thread that waits for the mutex or for the condition
  has no step. Waiting releases the mutex and goes to sleep in one step, as
  \<^verbatim>\<open>pthread_cond_wait\<close> does, and may end without a notification.
\<close>

section \<open>Mutex\<close>

text \<open>A mutex is the thread that holds it. Locking a held mutex waits (\<open>None\<close>), also for its holder.\<close>

type_synonym mutex = "nat option"

definition mutex_new :: mutex where
  "mutex_new = None"

definition mutex_lock :: "nat \<Rightarrow> mutex \<Rightarrow> mutex option" where
  "mutex_lock t m = (case m of None \<Rightarrow> Some (Some t) | Some _ \<Rightarrow> None)"

definition mutex_unlock :: "mutex \<Rightarrow> mutex" where
  "mutex_unlock m = None"

lemma mutex_lock_Some [simp]: "mutex_lock t m = Some m' \<longleftrightarrow> m = None \<and> m' = Some t"
  by (auto simp: mutex_lock_def split: option.splits)

section \<open>Condition\<close>

text \<open>
  A condition variable is where its sleepers are. A thread that wakes up takes the mutex again
  before \<^verbatim>\<open>wait\<close> returns.
\<close>

datatype sleep = Awake | Asleep | Woken

type_synonym cond = "nat \<Rightarrow> sleep"

definition cond_wait :: "nat \<Rightarrow> cond \<times> mutex \<Rightarrow> cond \<times> mutex" where
  "cond_wait t x = (case x of (c, m) \<Rightarrow> (c(t := Asleep), mutex_unlock m))"

definition cond_relock :: "nat \<Rightarrow> cond \<times> mutex \<Rightarrow> (cond \<times> mutex) option" where
  "cond_relock t x = (case x of (c, m) \<Rightarrow>
     if c t = Woken then map_option (\<lambda>m'. (c(t := Awake), m')) (mutex_lock t m) else None)"

definition cond_notify :: "nat \<Rightarrow> cond \<Rightarrow> cond" where
  "cond_notify t c = (if c t = Asleep then c(t := Woken) else c)"

definition cond_notifyAll :: "cond \<Rightarrow> cond" where
  "cond_notifyAll c = (\<lambda>t. if c t = Asleep then Woken else c t)"

section \<open>CountDownLatch\<close>

text \<open>
  Where a thread is in \<^verbatim>\<open>wait()\<close> (its test of the count, in the condition, behind the loop) or in
  \<^verbatim>\<open>countDown()\<close> (before and behind its body).
\<close>

datatype latch_pc = LOut | LLockWait | LTest | LCond | LLockDown | LDown | LLeave | LLeft

record latch =
  lt_mutex :: mutex
  lt_cond :: cond
  lt_count :: int
  lt_pc :: "nat \<Rightarrow> latch_pc"

definition latch_new :: "int \<Rightarrow> latch" where
  "latch_new count = \<lparr>lt_mutex = mutex_new, lt_cond = (\<lambda>_. Awake), lt_count = count, lt_pc = (\<lambda>_. LOut)\<rparr>"

definition lt_goto :: "nat \<Rightarrow> latch_pc \<Rightarrow> latch \<Rightarrow> latch" where
  "lt_goto t pc s = s\<lparr>lt_pc := (lt_pc s)(t := pc)\<rparr>"

text \<open>The body of the \<^verbatim>\<open>while\<close> in \<^verbatim>\<open>wait()\<close>, and of \<^verbatim>\<open>countDown()\<close> under its guard.\<close>

definition latch_test :: "nat \<Rightarrow> latch \<Rightarrow> latch" where
  "latch_test t s =
     (if lt_count s > 0
      then (let (c, m) = cond_wait t (lt_cond s, lt_mutex s)
            in lt_goto t LCond (s\<lparr>lt_cond := c, lt_mutex := m\<rparr>))
      else lt_goto t LLeave s)"

definition latch_down :: "nat \<Rightarrow> latch \<Rightarrow> latch" where
  "latch_down t s =
     (let s1 = s\<lparr>lt_count := lt_count s - 1\<rparr>;
          s2 = (if lt_count s1 = 0 then s1\<lparr>lt_cond := cond_notifyAll (lt_cond s1)\<rparr> else s1)
      in lt_goto t LLeft s2)"

inductive latch_step :: "latch \<Rightarrow> latch \<Rightarrow> bool" where
  enter_wait: "lt_pc s t = LOut \<Longrightarrow> latch_step s (lt_goto t LLockWait s)"
| enter_down: "lt_pc s t = LOut \<Longrightarrow> latch_step s (lt_goto t LLockDown s)"
| lock_wait: "lt_pc s t = LLockWait \<Longrightarrow> mutex_lock t (lt_mutex s) = Some m \<Longrightarrow>
    latch_step s (lt_goto t LTest (s\<lparr>lt_mutex := m\<rparr>))"
| lock_down: "lt_pc s t = LLockDown \<Longrightarrow> mutex_lock t (lt_mutex s) = Some m \<Longrightarrow>
    latch_step s (lt_goto t LDown (s\<lparr>lt_mutex := m\<rparr>))"
| test: "lt_pc s t = LTest \<Longrightarrow> latch_step s (latch_test t s)"
| spurious: "latch_step s (s\<lparr>lt_cond := cond_notify t (lt_cond s)\<rparr>)"
| relock: "lt_pc s t = LCond \<Longrightarrow> cond_relock t (lt_cond s, lt_mutex s) = Some (c, m) \<Longrightarrow>
    latch_step s (lt_goto t LTest (s\<lparr>lt_cond := c, lt_mutex := m\<rparr>))"
| down: "lt_pc s t = LDown \<Longrightarrow> latch_step s (latch_down t s)"
| leave: "lt_pc s t \<in> {LLeave, LLeft} \<Longrightarrow> latch_step s (lt_goto t LOut (s\<lparr>lt_mutex := mutex_unlock (lt_mutex s)\<rparr>))"

inductive_cases latch_stepE: "latch_step s s'"

definition latch_inv :: "latch \<Rightarrow> bool" where
  "latch_inv s \<longleftrightarrow>
     (\<forall>t. lt_mutex s = Some t \<longleftrightarrow> lt_pc s t \<in> {LTest, LDown, LLeave, LLeft}) \<and>
     (\<forall>t. lt_cond s t \<noteq> Awake \<longleftrightarrow> lt_pc s t = LCond) \<and>
     (\<forall>t. lt_cond s t = Asleep \<longrightarrow> lt_count s > 0) \<and>
     (\<forall>t. lt_pc s t = LLeave \<longrightarrow> lt_count s \<le> 0)"

lemmas latch_ops = lt_goto_def latch_test_def latch_down_def cond_wait_def cond_relock_def
  cond_notify_def cond_notifyAll_def mutex_unlock_def Let_def

lemma latch_new_inv: "latch_inv (latch_new n)"
  by (simp add: latch_inv_def latch_new_def mutex_new_def)

lemma latch_invD:
  assumes "latch_inv s"
  shows "lt_mutex s = Some t \<longleftrightarrow> lt_pc s t \<in> {LTest, LDown, LLeave, LLeft}"
    "lt_cond s t \<noteq> Awake \<longleftrightarrow> lt_pc s t = LCond" "lt_cond s t = Asleep \<Longrightarrow> lt_count s > 0"
    "lt_pc s t = LLeave \<Longrightarrow> lt_count s \<le> 0"
  using assms unfolding latch_inv_def by blast+

lemma latch_step_inv:
  assumes "latch_inv s" "latch_step s s'"
  shows "latch_inv s'"
proof -
  note D = latch_invD[OF assms(1)]
  have only: "lt_pc s u \<in> {LTest, LDown, LLeave, LLeft} \<Longrightarrow> u = t" if "lt_pc s t \<in> {LTest, LDown, LLeave, LLeft}" for t u
    using that D(1)[of t] D(1)[of u] by simp
  from assms(2) show ?thesis
  proof cases
    case (test t)
    with D only[of t] show ?thesis unfolding latch_inv_def
      by (cases "lt_count s > 0") (auto simp: latch_ops)
  next
    case (down t)
    have s': "lt_mutex s' = lt_mutex s" "lt_pc s' = (lt_pc s)(t := LLeft)" "lt_count s' = lt_count s - 1"
      "lt_cond s' = (if lt_count s = 1 then cond_notifyAll (lt_cond s) else lt_cond s)"
      using down(1) by (simp_all add: latch_down_def lt_goto_def Let_def)
    have awake: "lt_cond s' u \<noteq> Awake \<longleftrightarrow> lt_cond s u \<noteq> Awake" for u
      unfolding s' cond_notifyAll_def by simp
    show ?thesis unfolding latch_inv_def
    proof (intro conjI allI impI)
      show "(lt_mutex s' = Some u) = (lt_pc s' u \<in> {LTest, LDown, LLeave, LLeft})" for u
        using D(1)[of u] down(2) unfolding s' by auto
      show "(lt_cond s' u \<noteq> Awake) = (lt_pc s' u = LCond)" for u
        using D(2)[of u] down(2) unfolding awake by (auto simp: s')
      show "lt_count s' > 0" if "lt_cond s' u = Asleep" for u
        using that D(3)[of u] unfolding s' cond_notifyAll_def by (auto split: if_splits)
      show "lt_count s' \<le> 0" if "lt_pc s' u = LLeave" for u
        using that D(4)[of u] unfolding s' by (auto split: if_splits)
    qed
  next
    case (leave t)
    with D only[of t] show ?thesis unfolding latch_inv_def by (auto simp: latch_ops)
  next
    case (relock t c m)
    then have "lt_mutex s = None" "c = (lt_cond s)(t := Awake)" "m = Some t"
      by (auto simp: cond_relock_def split: if_splits)
    with relock D show ?thesis unfolding latch_inv_def by (auto simp: latch_ops)
  next
    case (spurious t)
    moreover have "lt_cond s t = Asleep \<Longrightarrow> lt_pc s t = LCond" using D(2)[of t] by simp
    ultimately show ?thesis using D by (auto simp: latch_inv_def latch_ops split: if_splits)
  qed (use D in \<open>auto simp: latch_inv_def latch_ops split: if_splits\<close>)
qed

interpretation latch: machine "\<lambda>s. s = latch_new n" latch_step latch_inv for n
  by unfold_locales (auto simp: latch_new_inv intro: latch_step_inv)

section \<open>Properties\<close>

text \<open>
  C27: The latch is safe and opens. However many threads wait and count down, with any spurious
  wakeups: at most one is between its lock and its unlock; a thread that is behind the loop of
  \<^verbatim>\<open>wait()\<close> finds the count down to zero, however it was woken up; when the count is down no thread
  sleeps; and then every thread that is still in \<^verbatim>\<open>wait()\<close> can, whenever the mutex is free, return
  by its own steps.
\<close>

theorem latch_opens:
  assumes "reach (\<lambda>s. s = latch_new n) latch_step s"
  shows "(\<forall>t u. lt_pc s t \<in> {LTest, LDown, LLeave, LLeft} \<and> lt_pc s u \<in> {LTest, LDown, LLeave, LLeft} \<longrightarrow> t = u) \<and>
    (\<forall>t. lt_pc s t = LLeave \<longrightarrow> lt_count s \<le> 0) \<and>
    (lt_count s \<le> 0 \<longrightarrow> (\<forall>t. lt_cond s t \<noteq> Asleep) \<and>
      (\<forall>t. lt_mutex s = None \<and> lt_pc s t \<in> {LLockWait, LCond} \<longrightarrow>
        (\<exists>s'. latch_step\<^sup>*\<^sup>* s s' \<and> lt_pc s' t = LOut \<and> lt_mutex s' = None)))"
proof -
  have inv: "latch_inv s" using latch.reach_inv[OF assms] .
  note D = latch_invD[OF inv]
  have one: "lt_pc s t \<in> {LTest, LDown, LLeave, LLeft} \<and> lt_pc s u \<in> {LTest, LDown, LLeave, LLeft} \<longrightarrow> t = u" for t u
    using D(1)[of t] D(1)[of u] by auto
  have returns: "\<exists>s'. latch_step\<^sup>*\<^sup>* s s' \<and> lt_pc s' t = LOut \<and> lt_mutex s' = None"
    if c: "lt_count s \<le> 0" and t: "lt_mutex s = None" "lt_pc s t \<in> {LLockWait, LCond}" for t
  proof -
    have "\<exists>s1. latch_step s s1 \<and> lt_pc s1 t = LTest \<and> lt_count s1 = lt_count s"
    proof (cases "lt_pc s t = LLockWait")
      case True
      have "latch_step s (lt_goto t LTest (s\<lparr>lt_mutex := Some t\<rparr>))"
        by (rule latch_step.lock_wait[OF True]) (simp add: t(1))
      then show ?thesis
        by (intro exI[of _ "lt_goto t LTest (s\<lparr>lt_mutex := Some t\<rparr>)"]) (simp add: lt_goto_def)
    next
      case False
      with t(2) have pc: "lt_pc s t = LCond" by simp
      have "lt_cond s t \<noteq> Asleep" using D(3)[of t] c by auto
      moreover have "lt_cond s t \<noteq> Awake" using D(2)[of t] pc by simp
      ultimately have "lt_cond s t = Woken" by (cases "lt_cond s t") auto
      then have "cond_relock t (lt_cond s, lt_mutex s) = Some ((lt_cond s)(t := Awake), Some t)"
        using t(1) by (simp add: cond_relock_def mutex_lock_def)
      from latch_step.relock[OF pc this] show ?thesis
        by (intro exI[of _ "lt_goto t LTest (s\<lparr>lt_cond := (lt_cond s)(t := Awake), lt_mutex := Some t\<rparr>)"])
          (simp add: lt_goto_def)
    qed
    then obtain s1 where s1: "latch_step s s1" "lt_pc s1 t = LTest" "lt_count s1 = lt_count s" by blast
    let ?s2 = "latch_test t s1"
    have "lt_pc ?s2 t \<in> {LLeave, LLeft}" using s1(3) c by (simp add: latch_test_def lt_goto_def)
    note steps = s1(1) latch_step.test[OF s1(2)] latch_step.leave[OF this]
    let ?s3 = "lt_goto t LOut (?s2\<lparr>lt_mutex := mutex_unlock (lt_mutex ?s2)\<rparr>)"
    from steps have "latch_step\<^sup>*\<^sup>* s ?s3"
      by (meson converse_rtranclp_into_rtranclp rtranclp.rtrancl_refl)
    moreover have "lt_pc ?s3 t = LOut" "lt_mutex ?s3 = None"
      by (simp_all add: lt_goto_def mutex_unlock_def)
    ultimately show ?thesis by blast
  qed
  have awake: "lt_cond s t \<noteq> Asleep" if "lt_count s \<le> 0" for t using D(3)[of t] that by auto
  show ?thesis using one D(4) returns awake by blast
qed

theorem latch_opens_witness:
  "\<exists>s. reach (\<lambda>s. s = latch_new 0) latch_step s \<and> lt_pc s 5 = LLockWait \<and>
     (\<exists>s'. latch_step\<^sup>*\<^sup>* s s' \<and> lt_pc s' 5 = LOut)"
proof -
  let ?s = "lt_goto 5 LLockWait (latch_new 0)"
  have "reach (\<lambda>s. s = latch_new 0) latch_step (latch_new 0)" by (rule reach_init) simp
  moreover have "latch_step (latch_new 0) ?s" by (rule latch_step.enter_wait) (simp add: latch_new_def)
  ultimately have r: "reach (\<lambda>s. s = latch_new 0) latch_step ?s" by (rule reach_step)
  have s: "lt_pc ?s 5 = LLockWait" "lt_mutex ?s = None" "lt_count ?s \<le> 0"
    by (simp_all add: lt_goto_def latch_new_def mutex_new_def)
  from latch_opens[OF r] s have "\<exists>s'. latch_step\<^sup>*\<^sup>* ?s s' \<and> lt_pc s' 5 = LOut" by blast
  with r s(1) show ?thesis by blast
qed

end
