(* ===== verification/ThreadedChat.thy ===== *)
theory ThreadedChat
  imports ChatServer Locking
begin

text \<open>
  example/chat/server_threaded.cc: the chat server whose connections are in several loops. Its
  callbacks run in any of their threads and take a mutex; \<^verbatim>\<open>onStringMessage\<close> holds it while it
  iterates over the set. One step is one access to the shared state. The plain server of
  \<open>ChatServer\<close>, whose callbacks run one after the other, is the specification.
\<close>

section \<open>The server\<close>

datatype chat_call = ChatConnection bool nat | ChatMessage string

text \<open>
  Where a thread is: outside, waiting for the mutex with a call to make, about to change the set,
  in the loop with its iterator (\<open>None\<close> is \<^verbatim>\<open>end()\<close>), at the end of the scope of its guard.
\<close>

datatype tc_pc =
    TcOut
  | TcLock chat_call
  | TcUpdate bool nat
  | TcLoop "nat option" string
  | TcLeave

text \<open>\<open>tc_log\<close> records the calls in the order in which they got the mutex.\<close>

record threaded_chat =
  tc_mutex :: mutex
  tc_server :: chat
  tc_pc :: "nat \<Rightarrow> tc_pc"
  tc_log :: "chat_call list"

definition tc_new :: threaded_chat where
  "tc_new = \<lparr>tc_mutex = mutex_new, tc_server = chat_new, tc_pc = (\<lambda>_. TcOut), tc_log = []\<rparr>"

definition tc_goto :: "nat \<Rightarrow> tc_pc \<Rightarrow> threaded_chat \<Rightarrow> threaded_chat" where
  "tc_goto t pc s = s\<lparr>tc_pc := (tc_pc s)(t := pc)\<rparr>"

text \<open>The first statement of each callback after the lock.\<close>

fun tc_enter :: "chat_call \<Rightarrow> chat \<Rightarrow> tc_pc" where
  "tc_enter (ChatConnection up c) v = TcUpdate up c"
| "tc_enter (ChatMessage message) v = TcLoop (first_in (chat_conns v)) message"

definition tc_send :: "nat \<Rightarrow> string \<Rightarrow> chat \<Rightarrow> chat" where
  "tc_send c message v = v\<lparr>chat_sent := chat_sent v @ [(c, message)]\<rparr>"

text \<open>
  The next step of thread \<open>t\<close>; \<open>None\<close> while it has to wait. An iterator to an element that is no
  longer in the set must not be used.
\<close>

definition tc_next :: "nat \<Rightarrow> threaded_chat \<Rightarrow> threaded_chat res option" where
  "tc_next t s =
     (case tc_pc s t of
       TcOut \<Rightarrow> None
     | TcLock call \<Rightarrow>
         (case mutex_lock t (tc_mutex s) of None \<Rightarrow> None
          | Some m \<Rightarrow> Some (Inr (tc_goto t (tc_enter call (tc_server s))
              (s\<lparr>tc_mutex := m, tc_log := tc_log s @ [call]\<rparr>))))
     | TcUpdate up c \<Rightarrow>
         Some (Inr (tc_goto t TcLeave (s\<lparr>tc_server := chat_onConnection up c (tc_server s)\<rparr>)))
     | TcLoop (Some c) message \<Rightarrow>
         Some (if c \<in> chat_conns (tc_server s)
               then Inr (tc_goto t (TcLoop (next_in c (chat_conns (tc_server s))) message)
                          (s\<lparr>tc_server := tc_send c message (tc_server s)\<rparr>))
               else Inl UseAfterFree)
     | TcLoop None message \<Rightarrow> Some (Inr (tc_goto t TcLeave s))
     | TcLeave \<Rightarrow> Some (Inr (tc_goto t TcOut (s\<lparr>tc_mutex := mutex_unlock (tc_mutex s)\<rparr>))))"

inductive tc_step :: "threaded_chat \<Rightarrow> threaded_chat \<Rightarrow> bool" where
  tc_call: "tc_pc s t = TcOut \<Longrightarrow> tc_step s (tc_goto t (TcLock call) s)"
| tc_go: "tc_next t s = Some (Inr s') \<Longrightarrow> tc_step s s'"

inductive_cases tc_stepE: "tc_step s s'"

section \<open>The calls one after the other\<close>

fun chat_call_exec :: "chat \<Rightarrow> chat_call \<Rightarrow> chat" where
  "chat_call_exec v (ChatConnection up c) = chat_onConnection up c v"
| "chat_call_exec v (ChatMessage message) = chat_onStringMessage message v"

text \<open>What the server will be when the call that holds the mutex is done.\<close>

definition chat_after :: "tc_pc \<Rightarrow> chat \<Rightarrow> chat" where
  "chat_after pc v = (case pc of
     TcUpdate up c \<Rightarrow> chat_onConnection up c v
   | TcLoop at message \<Rightarrow> v\<lparr>chat_sent := chat_sent v @ map (\<lambda>c. (c, message)) (todo_of at (chat_conns v))\<rparr>
   | _ \<Rightarrow> v)"

fun in_scope :: "tc_pc \<Rightarrow> bool" where
  "in_scope TcOut = False"
| "in_scope (TcLock call) = False"
| "in_scope _ = True"

fun pc_ok :: "tc_pc \<Rightarrow> chat \<Rightarrow> bool" where
  "pc_ok (TcLoop (Some c) message) v = (c \<in> chat_conns v)"
| "pc_ok _ v = True"

lemma out_of_scope: "\<not> in_scope pc \<Longrightarrow> pc_ok pc v \<and> chat_after pc v = v"
  by (cases pc) (simp_all add: chat_after_def)

definition tc_inv :: "threaded_chat \<Rightarrow> bool" where
  "tc_inv s \<longleftrightarrow> finite (chat_conns (tc_server s)) \<and>
     (\<forall>t. tc_mutex s = Some t \<longleftrightarrow> in_scope (tc_pc s t)) \<and>
     (\<forall>t. pc_ok (tc_pc s t) (tc_server s)) \<and>
     (case tc_mutex s of None \<Rightarrow> tc_server s | Some t \<Rightarrow> chat_after (tc_pc s t) (tc_server s)) =
       foldl chat_call_exec chat_new (tc_log s)"

lemma tc_invD:
  assumes "tc_inv s"
  shows "finite (chat_conns (tc_server s))" "tc_mutex s = Some t \<longleftrightarrow> in_scope (tc_pc s t)"
    "pc_ok (tc_pc s t) (tc_server s)"
    "tc_mutex s = None \<Longrightarrow> tc_server s = foldl chat_call_exec chat_new (tc_log s)"
    "tc_mutex s = Some t \<Longrightarrow> chat_after (tc_pc s t) (tc_server s) = foldl chat_call_exec chat_new (tc_log s)"
proof -
  note A = assms [unfolded tc_inv_def]
  from A show "finite (chat_conns (tc_server s))" "tc_mutex s = Some t \<longleftrightarrow> in_scope (tc_pc s t)"
    "pc_ok (tc_pc s t) (tc_server s)" by blast+
  from A have "(case tc_mutex s of None \<Rightarrow> tc_server s | Some t \<Rightarrow> chat_after (tc_pc s t) (tc_server s)) =
    foldl chat_call_exec chat_new (tc_log s)" by blast
  then show "tc_mutex s = None \<Longrightarrow> tc_server s = foldl chat_call_exec chat_new (tc_log s)"
    "tc_mutex s = Some t \<Longrightarrow> chat_after (tc_pc s t) (tc_server s) = foldl chat_call_exec chat_new (tc_log s)"
    by (simp_all split: option.splits)
qed

lemma tc_new_inv: "tc_inv tc_new"
  by (simp add: tc_inv_def tc_new_def mutex_new_def chat_new_def)

lemma tc_enter_ok:
  assumes "finite (chat_conns v)"
  shows "chat_after (tc_enter call v) v = chat_call_exec v call" "pc_ok (tc_enter call v) v"
    "in_scope (tc_enter call v)"
proof -
  show "chat_after (tc_enter call v) v = chat_call_exec v call"
    using todo_first(1)[OF assms] by (cases call) (simp_all add: chat_after_def chat_onStringMessage_def)
  show "pc_ok (tc_enter call v) v"
    using todo_first(2)[OF assms] by (cases call; cases "first_in (chat_conns v)") simp_all
  show "in_scope (tc_enter call v)" by (cases call) simp_all
qed

text \<open>The thread in the scope of its guard goes on, and the others are outside.\<close>

lemma tc_scope:
  assumes inv: "tc_inv s" and t: "tc_mutex s = Some t"
    and s': "tc_mutex s' = Some t" "tc_pc s' = (tc_pc s)(t := pc)" "tc_log s' = tc_log s"
      "finite (chat_conns (tc_server s'))" "in_scope pc" "pc_ok pc (tc_server s')"
      "chat_after pc (tc_server s') = chat_after (tc_pc s t) (tc_server s)"
  shows "tc_inv s'"
proof -
  have out: "\<not> in_scope (tc_pc s u)" if "u \<noteq> t" for u using tc_invD(2)[OF inv, of u] t that by simp
  moreover from this out_of_scope have "pc_ok (tc_pc s u) v" if "u \<noteq> t" for u v
    using that by blast
  ultimately show ?thesis using s' tc_invD(5)[OF inv t] unfolding tc_inv_def by auto
qed

lemma tc_next_inv:
  assumes inv: "tc_inv s"
  shows "tc_next t s = None \<or> (\<exists>s'. tc_next t s = Some (Inr s') \<and> tc_inv s')"
proof -
  note D = tc_invD[OF inv]
  have held: "in_scope (tc_pc s t) \<Longrightarrow> tc_mutex s = Some t" using D(2)[of t] by simp
  show ?thesis
  proof (cases "tc_pc s t")
    case (TcLock call)
    show ?thesis
    proof (cases "tc_mutex s")
      case None
      let ?pc = "tc_enter call (tc_server s)"
      let ?s = "tc_goto t ?pc (s\<lparr>tc_mutex := Some t, tc_log := tc_log s @ [call]\<rparr>)"
      have "\<not> in_scope (tc_pc s u)" for u using D(2)[of u] None by simp
      then have "tc_inv ?s"
        using D(1,3,4) None tc_enter_ok[OF D(1)] unfolding tc_inv_def tc_goto_def by simp
      with TcLock None show ?thesis by (simp add: tc_next_def mutex_lock_def)
    qed (use TcLock in \<open>simp add: tc_next_def mutex_lock_def\<close>)
  next
    case pc: (TcUpdate up c)
    let ?s = "tc_goto t TcLeave (s\<lparr>tc_server := chat_onConnection up c (tc_server s)\<rparr>)"
    have "tc_inv ?s"
      by (rule tc_scope[OF inv, of t ?s TcLeave])
        (use held pc D(1) in \<open>simp_all add: tc_goto_def chat_after_def chat_onConnection_def\<close>)
    with pc show ?thesis by (simp add: tc_next_def)
  next
    case pc: (TcLoop at message)
    show ?thesis
    proof (cases at)
      case None
      have "tc_inv (tc_goto t TcLeave s)"
        by (rule tc_scope[OF inv, of t _ TcLeave])
          (use held pc None D(1) in \<open>simp_all add: tc_goto_def chat_after_def todo_of_def\<close>)
      with pc None show ?thesis by (simp add: tc_next_def)
    next
      case (Some c)
      let ?S = "chat_conns (tc_server s)"
      have c: "c \<in> ?S" using D(3)[of t] pc Some by simp
      note todo = todo_next[OF D(1) c]
      let ?pc = "TcLoop (next_in c ?S) message"
      let ?s = "tc_goto t ?pc (s\<lparr>tc_server := tc_send c message (tc_server s)\<rparr>)"
      have nxt: "pc_ok ?pc v" if "chat_conns v = ?S" for v
        using todo(2) that by (cases "next_in c ?S") simp_all
      have "tc_inv ?s"
        by (rule tc_scope[OF inv, of t ?s ?pc])
          (use held pc Some D(1) todo(1) nxt in \<open>simp_all add: tc_goto_def chat_after_def tc_send_def\<close>)
      with pc Some c show ?thesis by (simp add: tc_next_def)
    qed
  next
    case TcLeave
    let ?s = "tc_goto t TcOut (s\<lparr>tc_mutex := mutex_unlock (tc_mutex s)\<rparr>)"
    have m: "tc_mutex s = Some t" using held TcLeave by (simp)
    have out: "\<not> in_scope (tc_pc ?s u)" for u using D(2)[of u] m by (auto simp: tc_goto_def)
    have "chat_after (tc_pc s t) (tc_server s) = tc_server s" using TcLeave by (simp add: chat_after_def)
    with D(5)[OF m] have "tc_server ?s = foldl chat_call_exec chat_new (tc_log ?s)"
      by (simp add: tc_goto_def)
    moreover have "tc_mutex ?s = None" "finite (chat_conns (tc_server ?s))"
      using D(1) by (simp_all add: tc_goto_def mutex_unlock_def)
    ultimately have "tc_inv ?s" unfolding tc_inv_def using out out_of_scope by simp
    with TcLeave show ?thesis by (simp add: tc_next_def)
  qed (simp add: tc_next_def)
qed

lemma tc_step_inv:
  assumes "tc_inv s" "tc_step s s'"
  shows "tc_inv s'"
  using assms(2)
proof cases
  case (tc_call t call)
  let ?s = "tc_goto t (TcLock call) s"
  note D = tc_invD[OF assms(1)]
  have "tc_mutex s \<noteq> Some t" using D(2)[of t] tc_call(2) by simp
  then have "tc_inv ?s"
    using D unfolding tc_inv_def by (auto simp: tc_goto_def split: option.splits)
  with tc_call show ?thesis by simp
next
  case (tc_go t)
  with tc_next_inv[OF assms(1), of t] show ?thesis by auto
qed

interpretation threaded: machine "\<lambda>s. s = tc_new" tc_step tc_inv
  by unfold_locales (auto simp: tc_new_inv intro: tc_step_inv)

section \<open>The holder gets done\<close>

text \<open>How many steps the call that holds the mutex has left.\<close>

fun tc_left :: "tc_pc \<Rightarrow> nat set \<Rightarrow> nat" where
  "tc_left (TcUpdate up c) S = 2"
| "tc_left (TcLoop at message) S = length (todo_of at S) + 2"
| "tc_left TcLeave S = 1"
| "tc_left _ S = 0"

lemma holder_goes_on:
  assumes inv: "tc_inv s" and t: "tc_mutex s = Some t"
  shows "\<exists>s'. tc_step s s' \<and> tc_log s' = tc_log s \<and> (tc_mutex s' = None \<or> tc_mutex s' = Some t \<and>
    tc_left (tc_pc s' t) (chat_conns (tc_server s')) < tc_left (tc_pc s t) (chat_conns (tc_server s)))"
proof -
  note D = tc_invD[OF inv]
  have scope: "in_scope (tc_pc s t)" using D(2)[of t] t by simp
  have "\<exists>s'. tc_next t s = Some (Inr s') \<and> tc_log s' = tc_log s \<and> (tc_mutex s' = None \<or> tc_mutex s' = Some t \<and>
    tc_left (tc_pc s' t) (chat_conns (tc_server s')) < tc_left (tc_pc s t) (chat_conns (tc_server s)))"
  proof (cases "tc_pc s t")
    case (TcLoop at message)
    show ?thesis
    proof (cases at)
      case (Some c)
      then have "c \<in> chat_conns (tc_server s)" using D(3)[of t] TcLoop by simp
      with todo_next(1)[OF D(1) this] TcLoop Some t show ?thesis
        by (simp add: tc_next_def tc_goto_def tc_send_def)
    qed (use TcLoop t in \<open>simp add: tc_next_def tc_goto_def\<close>)
  qed (use scope t in \<open>simp_all add: tc_next_def tc_goto_def mutex_unlock_def\<close>)
  then show ?thesis using tc_step.tc_go by blast
qed

lemma holder_finishes:
  "tc_inv s \<Longrightarrow> tc_mutex s = Some t \<Longrightarrow>
   \<exists>s'. tc_step\<^sup>*\<^sup>* s s' \<and> tc_mutex s' = None \<and> tc_log s' = tc_log s"
proof (induction "tc_left (tc_pc s t) (chat_conns (tc_server s))" arbitrary: s rule: less_induct)
  case less
  obtain s1 where s1: "tc_step s s1" "tc_log s1 = tc_log s" "tc_mutex s1 = None \<or> tc_mutex s1 = Some t \<and>
    tc_left (tc_pc s1 t) (chat_conns (tc_server s1)) < tc_left (tc_pc s t) (chat_conns (tc_server s))"
    using holder_goes_on[OF less.prems] by blast
  show ?case
  proof (cases "tc_mutex s1 = None")
    case True
    with s1 show ?thesis by blast
  next
    case False
    with s1 less.hyps[of s1] tc_step_inv[OF less.prems(1) s1(1)] obtain s2 where
      "tc_step\<^sup>*\<^sup>* s1 s2" "tc_mutex s2 = None" "tc_log s2 = tc_log s1" by auto
    with s1(1,2) show ?thesis by (metis converse_rtranclp_into_rtranclp)
  qed
qed

section \<open>Properties\<close>

text \<open>
  C21: The threaded server is the plain one. In every reachable state no thread is about to use an
  iterator whose element is gone; whenever the mutex is free, the set of connections and all
  that was sent, in order, are what the plain server gets from the same calls made one after the
  other in the order in which they got the mutex; and a call that has the mutex can always run
  to its end, without a further one getting in.
\<close>

theorem threaded_is_sequential:
  assumes "reach (\<lambda>s. s = tc_new) tc_step s"
  shows "(\<forall>t e. tc_next t s \<noteq> Some (Inl e)) \<and>
    (tc_mutex s = None \<longrightarrow> tc_server s = foldl chat_call_exec chat_new (tc_log s)) \<and>
    (\<exists>s'. tc_step\<^sup>*\<^sup>* s s' \<and> tc_mutex s' = None \<and> tc_log s' = tc_log s \<and>
       tc_server s' = foldl chat_call_exec chat_new (tc_log s))"
proof (intro conjI allI impI)
  have inv: "tc_inv s" using threaded.reach_inv[OF assms] .
  show "tc_next t s \<noteq> Some (Inl e)" for t e using tc_next_inv[OF inv, of t] by auto
  show "tc_server s = foldl chat_call_exec chat_new (tc_log s)" if "tc_mutex s = None"
    using tc_invD(4)[OF inv that] .
  obtain s' where s': "tc_step\<^sup>*\<^sup>* s s'" "tc_mutex s' = None" "tc_log s' = tc_log s"
    using holder_finishes[OF inv] by (cases "tc_mutex s") auto
  have "tc_inv s'" using s'(1) inv by (induction rule: rtranclp_induct) (auto intro: tc_step_inv)
  from tc_invD(4)[OF this s'(2)] s' show "\<exists>s'. tc_step\<^sup>*\<^sup>* s s' \<and> tc_mutex s' = None \<and> tc_log s' = tc_log s \<and>
       tc_server s' = foldl chat_call_exec chat_new (tc_log s)" by auto
qed

text \<open>A connection joins in thread 5 while thread 6 has a message for the mutex.\<close>

theorem threaded_is_sequential_witness:
  "\<exists>s s'. tc_mutex s = Some 5 \<and> tc_pc s 6 = TcLock (ChatMessage ''a'') \<and> tc_step\<^sup>*\<^sup>* s s' \<and>
     tc_mutex s' = None \<and> chat_conns (tc_server s') = {8}"
proof -
  let ?r = "reach (\<lambda>s. s = tc_new) tc_step"
  let ?s1 = "tc_goto 6 (TcLock (ChatMessage ''a'')) tc_new"
  let ?s2 = "tc_goto 5 (TcLock (ChatConnection True 8)) ?s1"
  let ?s3 = "tc_goto 5 (TcUpdate True 8) (?s2\<lparr>tc_mutex := Some 5, tc_log := [ChatConnection True 8]\<rparr>)"
  have r0: "?r tc_new" by (rule reach_init) simp
  have "tc_step tc_new ?s1" by (rule tc_step.tc_call) (simp add: tc_new_def)
  with r0 have r1: "?r ?s1" by (rule reach_step)
  have "tc_step ?s1 ?s2" by (rule tc_step.tc_call) (simp add: tc_new_def tc_goto_def)
  with r1 have r2: "?r ?s2" by (rule reach_step)
  have "tc_next 5 ?s2 = Some (Inr ?s3)"
    by (simp add: tc_next_def tc_goto_def tc_new_def mutex_new_def mutex_lock_def)
  then have "tc_step ?s2 ?s3" by (rule tc_step.tc_go)
  with r2 have r3: "?r ?s3" by (rule reach_step)
  from threaded_is_sequential[OF r3] obtain s' where s': "tc_step\<^sup>*\<^sup>* ?s3 s'" "tc_mutex s' = None"
    "tc_server s' = foldl chat_call_exec chat_new (tc_log ?s3)" by blast
  moreover have "chat_conns (tc_server s') = {8}"
    by (simp add: s'(3) tc_goto_def tc_new_def chat_onConnection_def chat_new_def)
  moreover have "tc_mutex ?s3 = Some 5" "tc_pc ?s3 6 = TcLock (ChatMessage ''a'')"
    by (simp_all add: tc_goto_def)
  ultimately show ?thesis by blast
qed

end
