(* ===== verification/ChatClient.thy ===== *)
theory ChatClient
  imports Codec TcpClient ChatServer
begin

text \<open>
  example/chat/client.cc: the chat client. It keeps a pointer to its connection under a mutex,
  writes each line of its input through the codec to it, and prints each message it gets.
  Its socket is the model of \<open>TcpClient\<close>. The last section joins it with the codec and the plain
  server of \<open>ChatServer\<close>.
\<close>

section \<open>The client\<close>

text \<open>
  \<open>ch_out\<close> records what was given to \<^verbatim>\<open>send\<close> of which connection, \<open>ch_output\<close> what was printed.
\<close>

record chat_client =
  ch_client :: client
  ch_connection :: "nat option"
  ch_out :: "(nat \<times> byte list) list"
  ch_output :: "byte list"

definition chat_client_new :: "epoller \<Rightarrow> chat_client" where
  "chat_client_new ep = \<lparr>ch_client = enableRetry (client_new ep), ch_connection = None, ch_out = [],
     ch_output = []\<rparr>"

definition chat_connect :: "attempt \<Rightarrow> chat_client \<Rightarrow> chat_client res" where
  "chat_connect att s =
     bindR (client_connect att (ch_client s)) (\<lambda>c. Inr (s\<lparr>ch_client := c\<rparr>))"

definition chat_disconnect :: "chat_client \<Rightarrow> chat_client" where
  "chat_disconnect s = s\<lparr>ch_client := client_disconnect (ch_client s)\<rparr>"

text \<open>\<open>up\<close> is whether the connection is in the state connected when its \<^verbatim>\<open>send\<close> looks.\<close>

definition chat_write :: "bool \<Rightarrow> byte list \<Rightarrow> chat_client \<Rightarrow> chat_client res" where
  "chat_write up message s =
     (case ch_connection s of
        None \<Rightarrow> Inr s
      | Some c \<Rightarrow> bindR (codec_wire message) (\<lambda>wire.
          Inr (if up then s\<lparr>ch_out := ch_out s @ [(c, wire)]\<rparr> else s)))"

definition client_onConnection :: "bool \<Rightarrow> nat \<Rightarrow> chat_client \<Rightarrow> chat_client" where
  "client_onConnection connected c s =
     (if connected then s\<lparr>ch_connection := Some c\<rparr> else s\<lparr>ch_connection := None\<rparr>)"

text \<open>\<^verbatim>\<open>printf("<<< %s\n", message.c_str())\<close>: the text ends at the first zero byte.\<close>

definition bytes_of :: "string \<Rightarrow> byte list" where
  "bytes_of s = map (\<lambda>c. word_of_nat (of_char c)) s"

definition printed :: "byte list \<Rightarrow> byte list" where
  "printed message = bytes_of ''<<< '' @ takeWhile (\<lambda>b. b \<noteq> 0) message @ [10]"

definition client_onStringMessage :: "byte list \<Rightarrow> chat_client \<Rightarrow> chat_client" where
  "client_onStringMessage message s = s\<lparr>ch_output := ch_output s @ printed message\<rparr>"

text \<open>The loop of \<^verbatim>\<open>main\<close> over the lines of the standard input.\<close>

fun chat_lines :: "byte list list \<Rightarrow> chat_client \<Rightarrow> chat_client res" where
  "chat_lines [] s = Inr s"
| "chat_lines (line # ls) s = bindR (chat_write True line s) (chat_lines ls)"

section \<open>Lemmas\<close>

definition text_of :: "byte list \<Rightarrow> string" where
  "text_of bs = map (\<lambda>b. char_of (unat b)) bs"

lemma bytes_of_text: "bytes_of (text_of bs) = bs"
proof -
  have "word_of_nat (of_char (char_of (unat b) :: char)) = b" for b :: byte
  proof -
    have "unat b < 256" using unsigned_less[of b, where 'a = nat] by simp
    then have "of_char (char_of (unat b) :: char) = unat b" by simp
    then show ?thesis by simp
  qed
  then show ?thesis by (simp add: bytes_of_def text_of_def comp_def)
qed

lemma chat_lines_out:
  assumes "ch_connection s = Some c" "\<forall>m \<in> set ms. length m \<le> 65536"
  shows "chat_lines ms s = Inr (s\<lparr>ch_out := ch_out s @ map (\<lambda>m. (c, frame m)) ms\<rparr>)"
  using assms
proof (induction ms arbitrary: s)
  case (Cons m ms)
  then have "chat_write True m s = Inr (s\<lparr>ch_out := ch_out s @ [(c, frame m)]\<rparr>)"
    by (simp add: chat_write_def codec_wire_frame)
  with Cons show ?case by simp
qed simp

text \<open>What the server sends to a member while the messages of another connection come in.\<close>

definition sent_to :: "nat \<Rightarrow> chat \<Rightarrow> string list" where
  "sent_to d v = map snd (filter (\<lambda>x. fst x = d) (chat_sent v))"

definition server_receives :: "byte list list \<Rightarrow> chat \<Rightarrow> chat" where
  "server_receives ms v = foldl (\<lambda>v m. chat_onStringMessage (text_of m) v) v ms"

definition client_receives :: "byte list list \<Rightarrow> chat_client \<Rightarrow> chat_client" where
  "client_receives ms s = foldl (\<lambda>s m. client_onStringMessage m s) s ms"

lemma once_each:
  assumes "finite S" "d \<in> S"
  shows "filter (\<lambda>x. fst x = d) (map (\<lambda>c. (c, m)) (sorted_list_of_set S)) = [(d, m)]"
proof -
  have "filter (\<lambda>c. c = d) xs = (if d \<in> set xs then [d] else [])" if "distinct xs" for xs
    using that by (induction xs) auto
  then have "filter (\<lambda>c. c = d) (sorted_list_of_set S) = [d]" using assms by simp
  then show ?thesis by (simp add: filter_map comp_def)
qed

lemma server_receives_sent:
  "finite (chat_conns v) \<Longrightarrow> d \<in> chat_conns v \<Longrightarrow>
   chat_conns (server_receives ms v) = chat_conns v \<and> sent_to d (server_receives ms v) = sent_to d v @ map text_of ms"
proof (induction ms arbitrary: v)
  case Nil
  then show ?case by (simp add: server_receives_def)
next
  case (Cons m ms)
  let ?v = "chat_onStringMessage (text_of m) v"
  have "chat_conns ?v = chat_conns v" "sent_to d ?v = sent_to d v @ [text_of m]"
    using once_each[OF Cons.prems, of "text_of m"] by (simp_all add: chat_onStringMessage_def sent_to_def)
  with Cons.IH[of ?v] Cons.prems show ?case by (simp add: server_receives_def)
qed

lemma client_receives_output: "ch_output (client_receives ms r) = ch_output r @ concat (map printed ms)"
  by (induction ms arbitrary: r) (simp_all add: client_receives_def client_onStringMessage_def)

text \<open>Any cut of well-formed frames is received as the messages.\<close>

lemma frames_received:
  assumes "\<forall>m \<in> set ms. length m \<le> 65536" "concat chunks = concat (map frame ms)"
    "\<forall>c \<in> set chunks. length c \<le> 65536" "3 * length (concat chunks) + 8 \<le> vec_max"
  shows "\<exists>b. receive_chunks buffer_new [] False chunks = Some (Inr (b, ms, False)) \<and> contents b = []"
proof -
  have "parse_frames (contents buffer_new @ concat chunks) = (ms, [], False)"
    using assms(1,2) by (simp add: parse_frames_map_frame)
  then show ?thesis
    using receive_chunks_parse[OF buffer_new_ok, of False False chunks ms "[]" False "[]"] assms
    by (auto simp: parse_short extrabuf_size_def)
qed

section \<open>Properties\<close>

text \<open>
  C28: A line typed at one client is printed at every other. A client whose connection is up writes
  lines of at most 65536 bytes: they go to its connection as frames. However the network
  cuts these, in reads of at most 65536 bytes and within what the buffer can hold, the server's
  codec gives messages to the server, which sends something to each member for them; and however
  the network cuts the frames of that, the member's codec gives messages to the member's client,
  and what this prints for them is the lines, in the order in which they were typed. (A longer
  line ends the connection: \<open>long_line_disconnects\<close>.)
\<close>

theorem lines_reach_everyone:
  assumes "\<forall>m \<in> set ms. length m \<le> 65536" "ch_connection s = Some c"
    "finite (chat_conns v)" "d \<in> chat_conns v"
  shows "\<exists>s'. chat_lines ms s = Inr s' \<and>
    (\<forall>chunks. concat chunks = concat (map snd (drop (length (ch_out s)) (ch_out s'))) \<and>
        (\<forall>x \<in> set chunks. length x \<le> 65536) \<and> 3 * length (concat chunks) + 8 \<le> vec_max \<longrightarrow>
      (\<exists>b got news. receive_chunks buffer_new [] False chunks = Some (Inr (b, got, False)) \<and>
        sent_to d (server_receives got v) = sent_to d v @ news \<and>
        (\<forall>chunks2 r. concat chunks2 = concat (map (\<lambda>m. frame (bytes_of m)) news) \<and>
            (\<forall>x \<in> set chunks2. length x \<le> 65536) \<and> 3 * length (concat chunks2) + 8 \<le> vec_max \<longrightarrow>
          (\<exists>b2 got2. receive_chunks buffer_new [] False chunks2 = Some (Inr (b2, got2, False)) \<and>
            ch_output (client_receives got2 r) = ch_output r @ concat (map printed ms)))))"
proof -
  let ?s = "s\<lparr>ch_out := ch_out s @ map (\<lambda>m. (c, frame m)) ms\<rparr>"
  have run: "chat_lines ms s = Inr ?s" by (rule chat_lines_out[OF assms(2,1)])
  have out: "concat (map snd (drop (length (ch_out s)) (ch_out ?s))) = concat (map frame ms)"
    by (simp add: comp_def)
  have news: "sent_to d (server_receives ms v) = sent_to d v @ map text_of ms"
    using server_receives_sent[OF assms(3,4)] by simp
  have again: "concat (map (\<lambda>m. frame (bytes_of m)) (map text_of ms)) = concat (map frame ms)"
    by (simp add: comp_def bytes_of_text)
  have rec: "\<exists>b. receive_chunks buffer_new [] False chunks = Some (Inr (b, ms, False))"
    if "concat chunks = concat (map frame ms) \<and> (\<forall>x \<in> set chunks. length x \<le> 65536) \<and>
      3 * length (concat chunks) + 8 \<le> vec_max" for chunks
    using frames_received[OF assms(1), of chunks] that by blast
  have member: "\<exists>b2 got2. receive_chunks buffer_new [] False chunks2 = Some (Inr (b2, got2, False)) \<and>
      ch_output (client_receives got2 r) = ch_output r @ concat (map printed ms)"
    if "concat chunks2 = concat (map frame ms) \<and> (\<forall>x \<in> set chunks2. length x \<le> 65536) \<and>
      3 * length (concat chunks2) + 8 \<le> vec_max" for chunks2 r
    using rec[OF that] client_receives_output[of ms r] by blast
  show ?thesis
  proof (intro exI[of _ ?s] conjI allI impI run)
    fix chunks assume "concat chunks = concat (map snd (drop (length (ch_out s)) (ch_out ?s))) \<and>
      (\<forall>x \<in> set chunks. length x \<le> 65536) \<and> 3 * length (concat chunks) + 8 \<le> vec_max"
    from rec[OF this[unfolded out]] obtain b where "receive_chunks buffer_new [] False chunks = Some (Inr (b, ms, False))"
      by blast
    then show "\<exists>b got news. receive_chunks buffer_new [] False chunks = Some (Inr (b, got, False)) \<and>
        sent_to d (server_receives got v) = sent_to d v @ news \<and>
        (\<forall>chunks2 r. concat chunks2 = concat (map (\<lambda>m. frame (bytes_of m)) news) \<and>
            (\<forall>x \<in> set chunks2. length x \<le> 65536) \<and> 3 * length (concat chunks2) + 8 \<le> vec_max \<longrightarrow>
          (\<exists>b2 got2. receive_chunks buffer_new [] False chunks2 = Some (Inr (b2, got2, False)) \<and>
            ch_output (client_receives got2 r) = ch_output r @ concat (map printed ms)))"
      using news member unfolding again[symmetric] by blast
  qed
qed

text \<open>Two lines, typed by connection 3, in a room with the members 3 and 4.\<close>

theorem lines_reach_everyone_witness:
  "\<exists>b got. receive_chunks buffer_new [] False [[0, 0, 0, 2, 104], [105, 0, 0, 0, 1, 33]] = Some (Inr (b, got, False)) \<and>
   sent_to 4 (server_receives got \<lparr>chat_conns = {3, 4}, chat_sent = []\<rparr>) = [''hi'', ''!''] \<and>
   (\<forall>r. \<exists>b2 got2. receive_chunks buffer_new [] False [[0, 0, 0], [2, 104, 105, 0, 0, 0, 1, 33]] = Some (Inr (b2, got2, False)) \<and>
     ch_output (client_receives got2 r) = ch_output r @ bytes_of ''<<< hi'' @ [10] @ bytes_of ''<<< !'' @ [10])"
proof -
  let ?ms = "[[104, 105], [33]]" and ?v = "\<lparr>chat_conns = {3, 4}, chat_sent = []\<rparr>"
  let ?s = "\<lparr>ch_client = client_new ep_new, ch_connection = Some 3, ch_out = [], ch_output = []\<rparr>"
  have len: "\<forall>m \<in> set ?ms. length m \<le> 65536" by simp
  have fr: "frame [104, 105] = [0, 0, 0, 2, 104, 105]" "frame [33] = [0, 0, 0, 1, 33]" by code_simp+
  have "ch_connection ?s = Some 3" "finite (chat_conns ?v)" "4 \<in> chat_conns ?v" by simp_all
  from lines_reach_everyone[OF len this] obtain s' where s': "chat_lines ?ms ?s = Inr s'"
    "\<forall>chunks. concat chunks = concat (map snd (drop (length (ch_out ?s)) (ch_out s'))) \<and>
        (\<forall>x \<in> set chunks. length x \<le> 65536) \<and> 3 * length (concat chunks) + 8 \<le> vec_max \<longrightarrow>
      (\<exists>b got news. receive_chunks buffer_new [] False chunks = Some (Inr (b, got, False)) \<and>
        sent_to 4 (server_receives got ?v) = sent_to 4 ?v @ news \<and>
        (\<forall>chunks2 r. concat chunks2 = concat (map (\<lambda>m. frame (bytes_of m)) news) \<and>
            (\<forall>x \<in> set chunks2. length x \<le> 65536) \<and> 3 * length (concat chunks2) + 8 \<le> vec_max \<longrightarrow>
          (\<exists>b2 got2. receive_chunks buffer_new [] False chunks2 = Some (Inr (b2, got2, False)) \<and>
            ch_output (client_receives got2 r) = ch_output r @ concat (map printed ?ms))))" by blast
  have "chat_lines ?ms ?s = Inr (?s\<lparr>ch_out := ch_out ?s @ map (\<lambda>m. (3, frame m)) ?ms\<rparr>)"
    by (rule chat_lines_out) simp_all
  with s'(1) have s'eq: "s' = ?s\<lparr>ch_out := ch_out ?s @ map (\<lambda>m. (3, frame m)) ?ms\<rparr>"
    by (simp only: sum.inject)
  have "concat (map snd (drop (length (ch_out ?s)) (ch_out s'))) = [0, 0, 0, 2, 104, 105, 0, 0, 0, 1, 33]"
    unfolding s'eq using fr by simp
  then obtain b got news where g: "receive_chunks buffer_new [] False [[0, 0, 0, 2, 104], [105, 0, 0, 0, 1, 33]] = Some (Inr (b, got, False))"
    "sent_to 4 (server_receives got ?v) = sent_to 4 ?v @ news"
    "\<forall>chunks2 r. concat chunks2 = concat (map (\<lambda>m. frame (bytes_of m)) news) \<and>
        (\<forall>x \<in> set chunks2. length x \<le> 65536) \<and> 3 * length (concat chunks2) + 8 \<le> vec_max \<longrightarrow>
      (\<exists>b2 got2. receive_chunks buffer_new [] False chunks2 = Some (Inr (b2, got2, False)) \<and>
        ch_output (client_receives got2 r) = ch_output r @ concat (map printed ?ms))"
    using s'(2) [rule_format, of "[[0, 0, 0, 2, 104], [105, 0, 0, 0, 1, 33]]"]
    by (auto simp: vec_max_def simp del: receive_chunks.simps)
  have "got = ?ms"
    using frames_received[OF len, of "[[0, 0, 0, 2, 104], [105, 0, 0, 0, 1, 33]]"] g(1) fr
    by (auto simp: vec_max_def simp del: receive_chunks.simps)
  moreover have t: "map text_of ?ms = [''hi'', ''!'']" by code_simp
  ultimately have n: "news = [''hi'', ''!'']" "sent_to 4 (server_receives got ?v) = [''hi'', ''!'']"
    using server_receives_sent[of ?v 4 ?ms] g(2) by (simp_all add: sent_to_def)
  have "concat (map (\<lambda>m. frame (bytes_of m)) news) = [0, 0, 0, 2, 104, 105, 0, 0, 0, 1, 33]"
    unfolding n(1) by code_simp
  moreover have "concat (map printed ?ms) = bytes_of ''<<< hi'' @ [10] @ bytes_of ''<<< !'' @ [10]" by code_simp
  ultimately have "\<exists>b2 got2. receive_chunks buffer_new [] False [[0, 0, 0], [2, 104, 105, 0, 0, 0, 1, 33]] = Some (Inr (b2, got2, False)) \<and>
     ch_output (client_receives got2 r) = ch_output r @ bytes_of ''<<< hi'' @ [10] @ bytes_of ''<<< !'' @ [10]" for r
    using g(3) [rule_format, of "[[0, 0, 0], [2, 104, 105, 0, 0, 0, 1, 33]]" r]
    by (auto simp: vec_max_def simp del: receive_chunks.simps)
  with g(1) n(2) show ?thesis by blast
qed

text \<open>
  Nobody checks the length of a line: the codec sends one of more than 65536 bytes as it does any
  other, and the receiving codec shuts the connection down at its header, so that one long line
  ends the connection of the client that typed it. Lines that follow are not delivered.
\<close>

theorem long_line_disconnects:
  assumes "ch_connection s = Some c" "65536 < length m" "length m < 2 ^ 31"
    "concat chunks = frame m @ later" "\<forall>x \<in> set chunks. length x \<le> 65536"
    "3 * length (concat chunks) + 8 \<le> vec_max"
  shows "chat_write True m s = Inr (s\<lparr>ch_out := ch_out s @ [(c, frame m)]\<rparr>) \<and>
    (\<exists>b. receive_chunks buffer_new [] False chunks = Some (Inr (b, [], True)) \<and>
       contents b = frame m @ later)"
proof
  have cap: "2 * length m + 8 \<le> vec_max" using assms(3) by (simp add: vec_max_def)
  then show "chat_write True m s = Inr (s\<lparr>ch_out := ch_out s @ [(c, frame m)]\<rparr>)"
    using assms(1) by (simp add: chat_write_def codec_wire_any)
  have "header_len (frame m @ later) = int (length m)" using assms(3) by (rule header_len_frame)
  then have "bad_len (header_len (frame m @ later))" using assms(2) by (simp add: bad_len_def)
  moreover have "4 \<le> length (frame m @ later)" by (simp add: frame_def)
  ultimately have "parse_frames (contents buffer_new @ concat chunks) = ([], frame m @ later, True)"
    using assms(4) by (simp add: parse_bad)
  then show "\<exists>b. receive_chunks buffer_new [] False chunks = Some (Inr (b, [], True)) \<and> contents b = frame m @ later"
    using receive_chunks_parse[OF buffer_new_ok, of False False chunks "[]" "frame m @ later" True "[]"] assms
    by (auto simp: parse_short extrabuf_size_def)
qed

end
