(* ===== verification/ChatRoom.thy ===== *)
theory ChatRoom
  imports Connections EndToEnd
begin

text \<open>
  The chat server (example/chat/server.cc) over its real connections: any number of
  \<^verbatim>\<open>TcpConnection\<close>s in one loop (the model of \<open>Connections\<close>), the codec as their message callback, and a
  broadcast that sends each message to all members from within the handler of the one it came from.
  The callbacks of one event run in the order of \<^verbatim>\<open>Channel::handleEvent\<close>, with the broadcast between
  the reading and the writing of the same event.
\<close>

section \<open>The server\<close>

text \<open>
  \<open>rm_members\<close> is \<^verbatim>\<open>connections_\<close>. \<open>rm_log\<close> records the messages that were broadcast, each with the
  connection it came from; \<open>rm_since\<close> how many there were when a connection became a member.
\<close>

record room =
  rm_loop :: conn_loop
  rm_members :: "nat set"
  rm_log :: "(nat \<times> byte list) list"
  rm_since :: "nat \<Rightarrow> nat"

definition room_new :: "epoller \<Rightarrow> room" where
  "room_new ep = \<lparr>rm_loop = \<lparr>cl_poller = ep, cl_conns = []\<rparr>, rm_members = {}, rm_log = [], rm_since = (\<lambda>_. 0)\<rparr>"

definition on_loop :: "(conn_loop \<Rightarrow> conn_loop res) \<Rightarrow> room \<Rightarrow> room res" where
  "on_loop f r = bindR (f (rm_loop r)) (\<lambda>l. Inr (r\<lparr>rm_loop := l\<rparr>))"

definition at_conn :: "nat \<Rightarrow> (conn \<Rightarrow> conn res) \<Rightarrow> conn_loop \<Rightarrow> conn_loop res" where
  "at_conn i f l = bindR (f (conn_at l i)) (\<lambda>s. Inr (put_conn i s l))"

definition room_onConnection :: "nat \<Rightarrow> bool \<Rightarrow> room \<Rightarrow> room" where
  "room_onConnection i connected r =
     (if connected
      then r\<lparr>rm_members := insert i (rm_members r), rm_since := (rm_since r)(i := length (rm_log r))\<rparr>
      else r\<lparr>rm_members := rm_members r - {i}\<rparr>)"

text \<open>
  \<^verbatim>\<open>onStringMessage\<close>: the set is ordered by the addresses of the connections, so the order is an
  argument; \<open>w\<close> is what the kernel answers to each member's write.
\<close>

primrec room_send :: "(nat \<Rightarrow> kernel_write) \<Rightarrow> byte list \<Rightarrow> nat list \<Rightarrow> conn_loop \<Rightarrow> conn_loop res" where
  "room_send w m [] l = Inr l"
| "room_send w m (c # cs) l =
     bindR (codec_wire m) (\<lambda>wire.
     bindR (cl_exec l (ClConn c (CCall (USend wire (w c))))) (room_send w m cs))"

primrec room_broadcast ::
  "nat \<Rightarrow> (nat \<Rightarrow> nat \<Rightarrow> kernel_write) \<Rightarrow> nat list \<Rightarrow> nat \<Rightarrow> byte list list \<Rightarrow> room \<Rightarrow> room res" where
  "room_broadcast i w ord k [] r = Inr r"
| "room_broadcast i w ord k (m # ms) r =
     bindR (room_send (w k) m ord (rm_loop r)) (\<lambda>l.
     room_broadcast i w ord (k + 1) ms (r\<lparr>rm_loop := l, rm_log := rm_log r @ [(i, m)]\<rparr>))"

text \<open>
  \<^verbatim>\<open>LengthHeaderCodec::onMessage\<close> on the input buffer of connection \<open>i\<close>. A send leaves the input
  buffers alone, so the messages are broadcast after the loop of the codec, in order, before the shutdown a
  bad length leads to.
\<close>

definition room_onMessage :: "nat \<Rightarrow> (nat \<Rightarrow> nat \<Rightarrow> kernel_write) \<Rightarrow> nat list \<Rightarrow> room \<Rightarrow> room res" where
  "room_onMessage i w ord r =
     (let s = conn_at (rm_loop r) i in
      case onMessage (inputBuffer s) of
        None \<Rightarrow> Inl NoReturn
      | Some res \<Rightarrow> bindR res (\<lambda>(b, ms, bad).
          let k = readableBytes (inputBuffer s) - readableBytes b;
              s1 = s\<lparr>inputBuffer := b, taken := taken s @ take k (contents (inputBuffer s))\<rparr> in
          bindR (room_broadcast i w ord 0 ms (r\<lparr>rm_loop := put_conn i s1 (rm_loop r)\<rparr>)) (\<lambda>r1.
          if bad then on_loop (\<lambda>l. cl_exec l (ClConn i (CCall UShutdown))) r1 else Inr r1)))"

definition nobody :: user where
  "nobody = (\<lambda>_. [])"

definition room_read :: "nat \<Rightarrow> kernel_read \<Rightarrow> (nat \<Rightarrow> nat \<Rightarrow> kernel_write) \<Rightarrow> nat list \<Rightarrow> room \<Rightarrow> room res" where
  "room_read i rd w ord r =
     (let answer = rd (writableBytes (inputBuffer (conn_at (rm_loop r) i)) + extrabuf_size) in
      bindR (on_loop (at_conn i (handleRead rd nobody)) r) (\<lambda>r1.
      case answer of
        ReadOk xs \<Rightarrow> if xs \<noteq> [] then room_onMessage i w ord r1 else Inr r1
      | ReadErr _ \<Rightarrow> Inr r1))"

fun room_callback ::
  "nat \<Rightarrow> kernel_read \<Rightarrow> kernel_write \<Rightarrow> (nat \<Rightarrow> nat \<Rightarrow> kernel_write) \<Rightarrow> nat list \<Rightarrow> room \<Rightarrow> callback \<Rightarrow> room res" where
  "room_callback i rd wr w ord r CloseCb = on_loop (at_conn i handleClose) r"
| "room_callback i rd wr w ord r ErrorCb = on_loop (at_conn i handleError) r"
| "room_callback i rd wr w ord r ReadCb = room_read i rd w ord r"
| "room_callback i rd wr w ord r WriteCb = on_loop (at_conn i (handleWrite wr)) r"

text \<open>An event, as in \<open>CEvents\<close>; nothing is released in it, since a close queues a functor that holds the connection.\<close>

definition room_events ::
  "nat \<Rightarrow> 32 word \<Rightarrow> kernel_read \<Rightarrow> kernel_write \<Rightarrow> (nat \<Rightarrow> nat \<Rightarrow> kernel_write) \<Rightarrow> nat list \<Rightarrow> room \<Rightarrow> room res" where
  "room_events i ev rd wr w ord r =
     (let s = conn_at (rm_loop r) i in
      if handled s then Inr r
      else bindR (on_loop (at_conn i (\<lambda>s. Inr (s\<lparr>handled := True\<rparr>))) r) (\<lambda>r1.
        if ep_interest (poller s) (sockfd s) \<noteq> None
        then run_ops (room_callback i rd wr w ord) r1 (due_callbacks ((conn_channel (sockfd s))\<lparr>revents := ev\<rparr>))
        else Inr r1))"

text \<open>The functors of a connection; those that establish or destroy it call the connection callback.\<close>

definition room_pending :: "nat \<Rightarrow> (nat \<Rightarrow> kernel_write) \<Rightarrow> room \<Rightarrow> room res" where
  "room_pending i wr r =
     bindR (on_loop (\<lambda>l. cl_exec l (ClConn i (CPending wr nobody))) r) (\<lambda>r1.
     let called = drop (length (conn_calls (cl_conns (rm_loop r) ! i))) (conn_calls (cl_conns (rm_loop r1) ! i))
     in Inr (foldl (\<lambda>r up. room_onConnection i up r) r1 called))"

datatype room_op =
    RmAccept int nat
  | RmEvents nat "32 word" kernel_read kernel_write "nat \<Rightarrow> nat \<Rightarrow> kernel_write" "nat list"
  | RmPending nat "nat \<Rightarrow> kernel_write"
  | RmOther ep_op

fun room_exec :: "room \<Rightarrow> room_op \<Rightarrow> room res" where
  "room_exec r (RmAccept fd p) = on_loop (\<lambda>l. cl_exec l (ClAccept fd p False)) r"
| "room_exec r (RmEvents i ev rd wr w ord) = room_events i ev rd wr w ord r"
| "room_exec r (RmPending i wr) = room_pending i wr r"
| "room_exec r (RmOther x) = on_loop (\<lambda>l. cl_exec l (ClOther x)) r"

text \<open>The rules of the loop; the order of a broadcast is one of the members.\<close>

fun room_pre :: "room \<Rightarrow> room_op \<Rightarrow> bool" where
  "room_pre r (RmAccept fd p) \<longleftrightarrow> cl_pre (rm_loop r) (ClAccept fd p False)"
| "room_pre r (RmEvents i ev rd wr w ord) \<longleftrightarrow> live_at (rm_loop r) i \<and> rd_ok rd \<and> wr_ok wr \<and> (\<forall>k c. wr_ok (w k c)) \<and>
     (callback_bits CloseCb ev \<longrightarrow> \<not> callback_bits ReadCb ev) \<and> distinct ord \<and> set ord = rm_members r"
| "room_pre r (RmPending i wr) \<longleftrightarrow> live_at (rm_loop r) i"
| "room_pre r (RmOther x) \<longleftrightarrow> cl_pre (rm_loop r) (ClOther x)"

definition room_init :: "room \<Rightarrow> bool" where
  "room_init r \<longleftrightarrow> (\<exists>ep. ep_ok ep \<and> r = room_new ep)"

section \<open>One connection at a time\<close>

text \<open>While it is up a connection is neither new nor gone.\<close>

lemma up_active: "conn_ok s \<Longrightarrow> conn_calls s = [True] \<Longrightarrow> conn_active [] s"
  by (auto simp: conn_ok_def conn_fresh_def conn_dead_def conn_good_def)

lemma up_alive: "conn_ok s \<Longrightarrow> conn_calls s = [True] \<Longrightarrow> alive s"
  by (drule (1) up_active) (simp add: conn_active_def)

lemma active_up:
  assumes "conn_active [] s" "conn_calls s = [True]"
  shows "conn_ok s"
proof -
  have st: "conn_st s \<noteq> kDisconnected" using assms by (auto simp: conn_active_def phase_ok_def)
  have "inServerMap s \<or> pending s \<noteq> []"
    using assms(1) st by (auto simp: conn_active_def queue_ok_def split: if_splits)
  with assms(1) st show ?thesis by (simp add: conn_ok_def conn_good_def)
qed

text \<open>The calls of the connection callback tell the state.\<close>

lemma conn_ok_calls:
  assumes "conn_ok s"
  shows "conn_calls s = [] \<and> conn_st s = kConnecting \<or>
    conn_calls s = [True] \<and> (conn_st s = kConnected \<or> conn_st s = kDisconnecting) \<or>
    conn_calls s = [True, False] \<and> conn_st s = kDisconnected"
proof -
  consider "conn_fresh [] s" | "conn_dead s" | "conn_active [] s" using assms by (auto simp: conn_ok_def conn_good_def)
  then show ?thesis
  proof cases
    case 3
    then obtain e reg where "phase_ok e reg s" by (auto simp: conn_active_def)
    then show ?thesis unfolding phase_ok_def by (cases "conn_st s") simp_all
  qed (simp_all add: conn_fresh_def conn_dead_def)
qed

lemma conn_ok_handled: "conn_ok s \<Longrightarrow> conn_ok (s\<lparr>handled := True\<rparr>)"
proof -
  assume ok: "conn_ok s"
  let ?s = "s\<lparr>handled := True\<rparr>"
  have "conn_fresh [] s \<Longrightarrow> conn_fresh [] ?s" by (simp add: conn_fresh_def streams_ok_def)
  moreover have "conn_dead s \<Longrightarrow> conn_dead ?s" by (simp add: conn_dead_def streams_ok_def)
  moreover have "conn_good [] s \<Longrightarrow> conn_good [] ?s"
    by (simp add: conn_good_def conn_active_def streams_ok_def queue_ok_def phase_ok_def)
  ultimately show ?thesis using ok unfolding conn_ok_def by auto
qed

text \<open>Only a connection that is up is watched, and the server still has it.\<close>

lemma watched_up:
  assumes "conn_ok s" "\<not> handled s" "ep_interest (poller s) (sockfd s) \<noteq> None"
  shows "conn_calls s = [True]" "inServerMap s"
proof -
  consider "conn_fresh [] s" | "conn_dead s" | "conn_good [] s" using assms(1) by (auto simp: conn_ok_def)
  then have "conn_calls s = [True] \<and> inServerMap s"
  proof cases
    case 1
    with no_interest(2)[of 0 s] assms(3) show ?thesis by (simp add: conn_fresh_def)
  next
    case 2
    with assms(3) show ?thesis by (simp add: conn_dead_def)
  next
    case 3
    have st: "conn_st s \<noteq> kDisconnected" using 3 no_interest(2)[of 0 s] assms(3) by (auto simp: conn_good_def)
    have q: "queue_ok (pending s) s" using 3 by (simp add: conn_good_def conn_active_def)
    then have "FDestroyed \<notin> set (pending s)" using assms(2) by (simp add: queue_ok_def)
    then have "filter (\<lambda>f. f = FDestroyed) (pending s) = []" by (auto simp: filter_empty_conv)
    with q st have "inServerMap s" by (simp add: queue_ok_def split: if_splits)
    moreover have "conn_calls s = [True]" using 3 st by (auto simp: conn_good_def conn_active_def phase_ok_def)
    ultimately show ?thesis by simp
  qed
  then show "conn_calls s = [True]" "inServerMap s" by simp_all
qed

text \<open>What a step leaves as it is, but for what was given to send.\<close>

definition hears_on :: "conn \<Rightarrow> conn \<Rightarrow> bool" where
  "hears_on s s' \<longleftrightarrow> received s' = received s \<and> contents (inputBuffer s') = contents (inputBuffer s) \<and>
     conn_st s' = conn_st s \<and> conn_calls s' = conn_calls s"

lemma same_hears: "same_streams s s' \<Longrightarrow> conn_calls s' = conn_calls s \<Longrightarrow> hears_on s s'"
  by (simp add: same_streams_def hears_on_def)

lemma release_calls: "conn_release s = Inr s' \<Longrightarrow> conn_calls s' = conn_calls s"
  by (auto simp: conn_release_def split: if_splits)

text \<open>Each callback of a connection that is up, on its own.\<close>

lemma up_step:
  assumes "conn_ends (conn_active []) m" "\<And>s'. m = Inr s' \<Longrightarrow> touches s s' \<and> same_streams s s' \<and> conn_calls s' = conn_calls s"
    "conn_calls s = [True]"
  shows "conn_ends (\<lambda>s'. conn_ok s' \<and> touches s s' \<and> hears_on s s' \<and> asked s' = asked s) m"
proof (cases m)
  case (Inr s')
  with assms have "touches s s'" "same_streams s s'" "conn_calls s' = conn_calls s" "conn_active [] s'" by auto
  with assms(3) active_up[of s'] same_hears[of s s'] Inr show ?thesis by (simp add: same_streams_def)
qed (use assms(1) in simp)

lemma close_step:
  assumes "conn_ok s" "conn_calls s = [True]" "inServerMap s" "handled s"
  shows "conn_ends (\<lambda>s'. conn_ok s' \<and> touches s s' \<and> hears_on s s' \<and> asked s' = asked s) (handleClose s)"
  by (rule up_step[OF handleClose_ok[OF up_active[OF assms(1,2)] assms(3,4)] _ assms(2)])
    (use touching.all_close in \<open>auto simp: touching.all_R_def close_same handleClose_calls\<close>)

lemma write_step:
  assumes "conn_ok s" "conn_calls s = [True]" "wr_ok wr"
  shows "conn_ends (\<lambda>s'. conn_ok s' \<and> touches s s' \<and> hears_on s s' \<and> asked s' = asked s) (handleWrite wr s)"
  by (rule up_step[OF handleWrite_ok[OF up_active[OF assms(1,2)] assms(3)] _ assms(2)])
    (use touching.all_write in \<open>auto simp: touching.all_R_def write_same handleWrite_calls\<close>)

text \<open>Reading with a callback that does nothing.\<close>

lemma nobody_ok: "user_ok nobody" "quiet nobody"
  by (simp_all add: nobody_def user_ok_def quiet_def)

fun data_of :: "readv_result \<Rightarrow> byte list" where
  "data_of (ReadOk xs) = xs"
| "data_of (ReadErr _) = []"

lemma read_shape:
  assumes "handleRead rd nobody s = Inr s'" "buffer_ok (inputBuffer s)" "rd_ok rd"
  shows "let xs = data_of (rd (writableBytes (inputBuffer s) + extrabuf_size)) in
     received s' = received s @ xs \<and> contents (inputBuffer s') = contents (inputBuffer s) @ xs \<and>
     buffer_ok (inputBuffer s') \<and> conn_st s' = conn_st s \<and> asked s' = asked s"
proof -
  let ?n = "writableBytes (inputBuffer s) + extrabuf_size"
  show ?thesis
  proof (cases "rd ?n")
    case (ReadErr e)
    then have "s' = s\<lparr>inputBuffer := inputBuffer s, received := received s @ []\<rparr>"
      using assms(1) by (simp add: handleRead_def readFd_error)
    with ReadErr assms(2) show ?thesis by simp
  next
    case (ReadOk xs)
    with assms(3) have "length xs \<le> ?n" by (simp add: rd_ok_def)
    from readFd_total[OF assms(2) this] assms(1) obtain b where
      b: "readFd (ReadOk xs) (inputBuffer s) = Inr (int (length xs), None, b)" "buffer_ok b"
        "contents b = contents (inputBuffer s) @ xs"
      by (auto simp: handleRead_def ReadOk)
    let ?s = "s\<lparr>inputBuffer := b, received := received s @ xs\<rparr>"
    have "same_streams ?s s'"
    proof (cases "xs = []")
      case True
      then have "handleClose ?s = Inr s'" using assms(1) b(1) by (simp add: handleRead_def ReadOk)
      then show ?thesis by (rule close_same)
    next
      case False
      then have "s' = ?s"
        using assms(1) b(1,2) by (simp add: handleRead_def ReadOk readableBytes_contents peek_bytes_contents nobody_def)
      then show ?thesis by (simp add: same_streams_def)
    qed
    with b ReadOk show ?thesis by (simp add: same_streams_def)
  qed
qed

lemma read_step:
  assumes "conn_ok s" "conn_calls s = [True]" "inServerMap s" "handled s" "rd_ok rd"
  shows "conn_ends (\<lambda>s'. let xs = data_of (rd (writableBytes (inputBuffer s) + extrabuf_size)) in
      conn_ok s' \<and> touches s s' \<and> received s' = received s @ xs \<and>
      contents (inputBuffer s') = contents (inputBuffer s) @ xs \<and> buffer_ok (inputBuffer s') \<and>
      conn_st s' = conn_st s \<and> asked s' = asked s \<and> conn_calls s' = [True]) (handleRead rd nobody s)"
proof -
  have act: "conn_active [] s" by (rule up_active[OF assms(1,2)])
  then have buf: "buffer_ok (inputBuffer s)" by (simp add: conn_active_def streams_ok_def)
  note ends = handleRead_ok[OF act assms(3-5) nobody_ok(1)]
  show ?thesis
  proof (cases "handleRead rd nobody s")
    case (Inr s')
    have "conn_calls s' = [True]" using handleRead_calls[OF Inr] assms(2) by simp
    moreover have "touches s s'" using touching.all_read[of nobody s rd] Inr by (simp add: touching.all_R_def)
    moreover have "conn_active [] s'" using ends Inr by simp
    ultimately show ?thesis using active_up[of s'] read_shape[OF Inr buf assms(5)] Inr by (simp add: Let_def)
  qed (use ends in simp)
qed

text \<open>A send and a shutdown by a handler of the loop.\<close>

lemma send_step:
  assumes "conn_ok s" "conn_calls s = [True]" "length m \<le> vec_max" "wr_ok wr"
  shows "conn_ends (\<lambda>s'. conn_ok s' \<and> touches s s' \<and> hears_on s s' \<and>
      asked s' = asked s @ (if conn_st s = kConnected then m else [])) (conn_exec s (CCall (USend m wr)))"
proof -
  have "conn_allowed (CCall (USend m wr))" using assms(3,4) by simp
  note ends = conn_exec_ok[OF assms(1) this]
  show ?thesis
  proof (cases "conn_exec s (CCall (USend m wr))")
    case (Inr s')
    have al: "alive s" using up_alive assms(1,2) .
    then obtain s1 where s1: "conn_send True wr m s = Inr s1" "conn_release s1 = Inr s'" using Inr by auto
    have "hears_on s s1" using s1(1) send_same[of wr m s s1] sendInLoop_calls[of wr m s s1]
      by (cases "conn_st s = kConnected") (auto simp: conn_send_def hears_on_def)
    then have "hears_on s s'" using release_same[OF s1(2)] release_calls[OF s1(2)]
      by (simp add: hears_on_def same_streams_def)
    moreover have "touches s s'" using touching.conn_exec_rel[OF _ Inr] by simp
    moreover have "conn_ok s'" using ends unfolding Inr by simp
    ultimately show ?thesis using send_stream(1)[OF Inr] al unfolding Inr by simp
  qed (use ends in simp)
qed

lemma shutdown_step:
  assumes "conn_ok s" "conn_calls s = [True]"
  shows "conn_ends (\<lambda>s'. conn_ok s' \<and> touches s s' \<and> received s' = received s \<and>
      contents (inputBuffer s') = contents (inputBuffer s) \<and> conn_calls s' = [True] \<and> asked s' = asked s \<and>
      conn_st s' = kDisconnecting) (conn_exec s (CCall UShutdown))"
proof -
  note ends = conn_exec_ok[OF assms(1), of "CCall UShutdown"]
  show ?thesis
  proof (cases "conn_exec s (CCall UShutdown)")
    case (Inr s')
    have al: "alive s" using up_alive assms .
    then obtain s1 where s1: "conn_shutdown True s = Inr s1" "conn_release s1 = Inr s'" using Inr by auto
    have st: "conn_st s = kConnected \<or> conn_st s = kDisconnecting" using conn_ok_calls[OF assms(1)] assms(2) by auto
    let ?s = "s\<lparr>conn_st := kDisconnecting\<rparr>"
    have "same_streams ?s s1 \<and> conn_calls s1 = conn_calls s"
    proof (cases "conn_st s = kConnected")
      case True
      then have "shutdownInLoop ?s = Inr s1" using s1(1) by (simp add: conn_shutdown_def)
      from shutdown_same[OF this] shutdownInLoop_calls[OF this] show ?thesis by simp
    next
      case False
      with st s1(1) show ?thesis by (auto simp: conn_shutdown_def same_streams_def)
    qed
    then have "same_streams ?s s'" "conn_calls s' = [True]"
      using release_same[OF s1(2)] release_calls[OF s1(2)] assms(2) by (auto intro: same_streams_trans)
    moreover have "touches s s'" using touching.conn_exec_rel[OF _ Inr] by simp
    moreover have "conn_ok s'" using ends unfolding Inr by simp
    ultimately show ?thesis unfolding Inr by (simp add: same_streams_def)
  qed (use ends in simp)
qed

section \<open>What a connection has heard and said\<close>

definition frames_of :: "(nat \<times> byte list) list \<Rightarrow> byte list" where
  "frames_of log = concat (map (\<lambda>x. frame (snd x)) log)"

lemma frames_of_append [simp]: "frames_of (xs @ ys) = frames_of xs @ frames_of ys"
  by (simp add: frames_of_def)

lemma frames_of_from [simp]: "frames_of (map (Pair i) ms) = concat (map frame ms)"
  by (simp add: frames_of_def comp_def)

definition said_by :: "nat \<Rightarrow> (nat \<times> byte list) list \<Rightarrow> byte list list" where
  "said_by i log = map snd (filter (\<lambda>x. fst x = i) log)"

lemma said_by_append [simp]: "said_by i (xs @ ys) = said_by i xs @ said_by i ys"
  by (simp add: said_by_def)

lemma said_by_from [simp]: "said_by i (map (Pair j) ms) = (if i = j then ms else [])"
  by (simp add: said_by_def comp_def filter_map)

text \<open>
  The messages of the log that came from \<open>i\<close> are what its bytes parse to; what it was sent is a
  piece of the log from the moment it became a member, up to the end while it is connected.
\<close>

definition said_ok :: "nat \<Rightarrow> conn \<Rightarrow> (nat \<times> byte list) list \<Rightarrow> bool" where
  "said_ok i s log \<longleftrightarrow> (\<exists>bad. parse_frames (received s) = (said_by i log, contents (inputBuffer s), bad) \<and>
     (bad \<longrightarrow> conn_st s \<noteq> kConnected))"

definition heard_ok :: "conn \<Rightarrow> (nat \<times> byte list) list \<Rightarrow> nat \<Rightarrow> bool" where
  "heard_ok s log k \<longleftrightarrow> (conn_st s = kConnected \<longrightarrow> conn_calls s = [True]) \<and>
     (if conn_calls s = [] then asked s = [] \<and> received s = []
      else k \<le> length log \<and> (\<exists>n. asked s = frames_of (take n (drop k log)) \<and>
        (conn_st s = kConnected \<longrightarrow> length (drop k log) \<le> n)))"

lemma heard_ok_cong:
  "asked s' = asked s \<Longrightarrow> received s' = received s \<Longrightarrow> conn_st s' = conn_st s \<Longrightarrow> conn_calls s' = conn_calls s \<Longrightarrow>
   heard_ok s' = heard_ok s"
  by (rule ext)+ (simp add: heard_ok_def)

lemma heard_some:
  assumes "heard_ok s log k"
  shows "\<exists>n. asked s = frames_of (take n (drop k log))"
proof (cases "conn_calls s = []")
  case True
  then have "asked s = frames_of (take 0 (drop k log))" using assms by (simp add: heard_ok_def frames_of_def)
  then show ?thesis by blast
next
  case False
  with assms show ?thesis by (auto simp: heard_ok_def)
qed

text \<open>The messages \<open>ms\<close> are broadcast: those that are connected are sent them.\<close>

lemma heard_more:
  assumes "heard_ok s log k" "asked s' = asked s @ (if conn_st s = kConnected then frames_of new else [])"
    "conn_st s' = kConnected \<Longrightarrow> conn_st s = kConnected" "conn_calls s' = conn_calls s"
    "conn_calls s = [] \<Longrightarrow> received s' = received s"
  shows "heard_ok s' (log @ new) k"
proof (cases "conn_calls s = []")
  case True
  with assms show ?thesis by (auto simp: heard_ok_def)
next
  case False
  with assms(1) obtain n where k: "k \<le> length log" and n: "asked s = frames_of (take n (drop k log))"
    "conn_st s = kConnected \<longrightarrow> length (drop k log) \<le> n" by (auto simp: heard_ok_def)
  have dropn: "drop k (log @ new) = drop k log @ new" using k by simp
  have "\<exists>n. asked s' = frames_of (take n (drop k (log @ new))) \<and>
      (conn_st s = kConnected \<longrightarrow> length (drop k (log @ new)) \<le> n)"
  proof (cases "conn_st s = kConnected")
    case True
    with n assms(2) have "asked s' = frames_of (take (length (drop k (log @ new))) (drop k (log @ new)))"
      unfolding dropn by simp
    then show ?thesis by blast
  next
    case False
    let ?n = "min n (length (drop k log))"
    have "take ?n (drop k log @ new) = take n (drop k log)" by (simp add: take_append min_def)
    with n assms(2) False have "asked s' = frames_of (take ?n (drop k (log @ new)))" unfolding dropn by simp
    with False show ?thesis by blast
  qed
  moreover have "conn_st s' = kConnected \<Longrightarrow> conn_calls s' = [True]" using assms(1,3,4) by (auto simp: heard_ok_def)
  moreover have "k \<le> length (log @ new)" "conn_calls s' \<noteq> []" using k False assms(4) by simp_all
  ultimately show ?thesis using assms(3) unfolding heard_ok_def by auto
qed

section \<open>The invariant of the room\<close>

definition room_ok :: "room \<Rightarrow> bool" where
  "room_ok r \<longleftrightarrow> cl_inv (rm_loop r) \<and>
     (\<forall>i < length (cl_conns (rm_loop r)). said_ok i (cl_conns (rm_loop r) ! i) (rm_log r) \<and>
        heard_ok (cl_conns (rm_loop r) ! i) (rm_log r) (rm_since r i)) \<and>
     (\<forall>i. i \<in> rm_members r \<longleftrightarrow> live_at (rm_loop r) i \<and> conn_calls (cl_conns (rm_loop r) ! i) = [True]) \<and>
     (\<forall>i < length (cl_conns (rm_loop r)). conn_calls (cl_conns (rm_loop r) ! i) = [True] \<longrightarrow> live_at (rm_loop r) i) \<and>
     (\<forall>x \<in> set (rm_log r). fst x < length (cl_conns (rm_loop r)) \<and> length (snd x) \<le> 65536)"

lemma room_okD:
  assumes "room_ok r"
  shows "cl_inv (rm_loop r)"
    "i < length (cl_conns (rm_loop r)) \<Longrightarrow> said_ok i (cl_conns (rm_loop r) ! i) (rm_log r)"
    "i < length (cl_conns (rm_loop r)) \<Longrightarrow> heard_ok (cl_conns (rm_loop r) ! i) (rm_log r) (rm_since r i)"
    "i \<in> rm_members r \<longleftrightarrow> live_at (rm_loop r) i \<and> conn_calls (cl_conns (rm_loop r) ! i) = [True]"
    "i < length (cl_conns (rm_loop r)) \<Longrightarrow> conn_calls (cl_conns (rm_loop r) ! i) = [True] \<Longrightarrow> live_at (rm_loop r) i"
    "x \<in> set (rm_log r) \<Longrightarrow> fst x < length (cl_conns (rm_loop r))"
    "x \<in> set (rm_log r) \<Longrightarrow> length (snd x) \<le> 65536"
  using assms unfolding room_ok_def by blast+

text \<open>Connection \<open>i\<close> is up, in the loop \<open>l\<close>.\<close>

definition up_at :: "conn_loop \<Rightarrow> nat \<Rightarrow> bool" where
  "up_at l i \<longleftrightarrow> live_at l i \<and> conn_calls (cl_conns l ! i) = [True]"

lemma up_atD:
  assumes "cl_inv l" "up_at l i"
  shows "live_at l i" "i < length (cl_conns l)" "conn_ok (conn_at l i)" "conn_calls (conn_at l i) = [True]"
  using assms cl_invD(2)[OF assms(1), of i] by (auto simp: up_at_def live_at_def conn_at_def)

lemma conn_at_fields [simp]:
  "received (conn_at l i) = received (cl_conns l ! i)" "inputBuffer (conn_at l i) = inputBuffer (cl_conns l ! i)"
  "asked (conn_at l i) = asked (cl_conns l ! i)" "conn_st (conn_at l i) = conn_st (cl_conns l ! i)"
  "conn_calls (conn_at l i) = conn_calls (cl_conns l ! i)" "alive (conn_at l i) = alive (cl_conns l ! i)"
  by (simp_all add: conn_at_def)

lemma conn_at_put: "i < length (cl_conns l) \<Longrightarrow> conn_at (put_conn i s l) i = s"
  by (simp add: conn_at_def put_conn_def)

lemma put_put: "put_conn i s (put_conn i s' l) = put_conn i s l"
  by (simp add: put_conn_def)

lemma put_conn_length [simp]: "length (cl_conns (put_conn i s l)) = length (cl_conns l)"
  by (simp add: put_conn_def)

text \<open>A step of one connection that is up and stays up.\<close>

lemma put_up:
  assumes "cl_inv l" "up_at l i" "conn_ok s" "touches (conn_at l i) s" "conn_calls s = [True]"
  shows "cl_inv (put_conn i s l)" "\<And>j. live_at (put_conn i s l) j = live_at l j" "up_at (put_conn i s l) i"
proof -
  note U = up_atD[OF assms(1,2)]
  show "cl_inv (put_conn i s l)" by (rule put_conn_ok[OF assms(1) U(1) assms(3,4)])
  show live: "live_at (put_conn i s l) j = live_at l j" for j
    using up_alive[OF assms(3,5)] U(1) by (simp add: put_conn_live[OF U(2)])
  show "up_at (put_conn i s l) i" using live[of i] U assms(5) by (simp add: up_at_def put_conn_nth)
qed

text \<open>Any step of one connection, with what it does to the members.\<close>

lemma change_room:
  assumes ok: "room_ok r" and live: "live_at (rm_loop r) i" and s: "conn_ok s" "touches (conn_at (rm_loop r) i) s"
    and said: "said_ok i s (rm_log r)" and heard: "heard_ok s (rm_log r) (k i)"
    and M: "i \<in> M \<longleftrightarrow> conn_calls s = [True]" "\<And>j. j \<noteq> i \<Longrightarrow> (j \<in> M \<longleftrightarrow> j \<in> rm_members r) \<and> k j = rm_since r j"
  shows "room_ok (r\<lparr>rm_loop := put_conn i s (rm_loop r), rm_members := M, rm_since := k\<rparr>)"
proof -
  note D = room_okD[OF ok]
  let ?l = "put_conn i s (rm_loop r)" and ?r = "r\<lparr>rm_loop := put_conn i s (rm_loop r), rm_members := M, rm_since := k\<rparr>"
  have len: "i < length (cl_conns (rm_loop r))" using live by (simp add: live_at_def)
  have nth: "cl_conns ?l ! j = (if j = i then s else cl_conns (rm_loop r) ! j)" for j by (rule put_conn_nth[OF len])
  have lv: "live_at ?l j = (if j = i then alive s else live_at (rm_loop r) j)" for j by (rule put_conn_live[OF len])
  have up: "conn_calls s = [True] \<Longrightarrow> alive s" using up_alive[OF s(1)] .
  have member: "j \<in> M \<longleftrightarrow> live_at ?l j \<and> conn_calls (cl_conns ?l ! j) = [True]" for j
    using M up D(4)[of j] by (cases "j = i") (auto simp: nth lv)
  have calls: "live_at ?l j" if "j < length (cl_conns ?l)" "conn_calls (cl_conns ?l ! j) = [True]" for j
    using that up D(5)[of j] by (auto simp: nth lv split: if_splits)
  have peers: "said_ok j (cl_conns ?l ! j) (rm_log r) \<and> heard_ok (cl_conns ?l ! j) (rm_log r) (k j)"
    if "j < length (cl_conns ?l)" for j
    using that said heard D(2,3)[of j] M(2)[of j] by (auto simp: nth)
  show ?thesis unfolding room_ok_def
  proof (intro conjI allI impI ballI)
    show "cl_inv (rm_loop ?r)" using put_conn_ok[OF D(1) live s] by simp
  qed (use member calls peers D(6,7) in auto)
qed

lemma put_room:
  assumes ok: "room_ok r" and live: "live_at (rm_loop r) i" and s: "conn_ok s" "touches (conn_at (rm_loop r) i) s"
    and same: "hears_on (conn_at (rm_loop r) i) s" "asked s = asked (conn_at (rm_loop r) i)"
  shows "room_ok (r\<lparr>rm_loop := put_conn i s (rm_loop r)\<rparr>)"
proof -
  note D = room_okD[OF ok]
  have len: "i < length (cl_conns (rm_loop r))" using live by (simp add: live_at_def)
  have "said_ok i s (rm_log r)" using D(2)[OF len] same(1) by (simp add: said_ok_def hears_on_def)
  moreover have "heard_ok s (rm_log r) (rm_since r i)"
    using D(3)[OF len] same heard_ok_cong[of s "cl_conns (rm_loop r) ! i"] by (simp add: hears_on_def)
  moreover have "i \<in> rm_members r \<longleftrightarrow> conn_calls s = [True]" using D(4)[of i] live same(1) by (simp add: hears_on_def)
  ultimately have "room_ok (r\<lparr>rm_loop := put_conn i s (rm_loop r), rm_members := rm_members r, rm_since := rm_since r\<rparr>)"
    by (intro change_room[OF ok live s]) auto
  then show ?thesis by simp
qed

text \<open>A callback that neither reads nor sends.\<close>

lemma quiet_room:
  assumes ok: "room_ok r" and up: "up_at (rm_loop r) i"
    and f: "conn_ends (\<lambda>s'. conn_ok s' \<and> touches (conn_at (rm_loop r) i) s' \<and> hears_on (conn_at (rm_loop r) i) s' \<and>
      asked s' = asked (conn_at (rm_loop r) i)) (f (conn_at (rm_loop r) i))"
  shows "ends (\<lambda>e. e = LengthError) (\<lambda>r'. room_ok r' \<and> up_at (rm_loop r') i) (on_loop (at_conn i f) r)"
proof (cases "f (conn_at (rm_loop r) i)")
  case (Inr s)
  note D = room_okD[OF ok] and U = up_atD[OF room_okD(1)[OF ok] up]
  have s: "conn_ok s" "touches (conn_at (rm_loop r) i) s" "conn_calls s = [True]" "hears_on (conn_at (rm_loop r) i) s"
    "asked s = asked (cl_conns (rm_loop r) ! i)" using f U(4) unfolding Inr by (simp_all add: hears_on_def)
  have "room_ok (r\<lparr>rm_loop := put_conn i s (rm_loop r)\<rparr>)" by (rule put_room[OF ok U(1) s(1,2,4)]) (simp add: s(5))
  with put_up(3)[OF D(1) up s(1-3)] Inr show ?thesis by (simp add: on_loop_def at_conn_def)
qed (use f in \<open>simp add: on_loop_def at_conn_def\<close>)

section \<open>The broadcast\<close>

text \<open>The loop \<open>l'\<close> is \<open>l\<close> after the messages \<open>ms\<close> were given to the connections \<open>C\<close>.\<close>

definition told :: "conn_loop \<Rightarrow> conn_loop \<Rightarrow> nat set \<Rightarrow> byte list list \<Rightarrow> bool" where
  "told l l' C ms \<longleftrightarrow> length (cl_conns l') = length (cl_conns l) \<and> (\<forall>j. live_at l' j = live_at l j) \<and>
     (\<forall>j < length (cl_conns l). hears_on (cl_conns l ! j) (cl_conns l' ! j) \<and>
        asked (cl_conns l' ! j) = asked (cl_conns l ! j) @
          (if j \<in> C \<and> conn_st (cl_conns l ! j) = kConnected then concat (map frame ms) else []))"

lemma told_none: "told l l C []"
  by (simp add: told_def hears_on_def)

lemma told_trans: "told l l1 C ms \<Longrightarrow> told l1 l2 C ms' \<Longrightarrow> told l l2 C (ms @ ms')"
  by (auto simp: told_def hears_on_def)

lemma told_join: "told l l1 C [m] \<Longrightarrow> told l1 l2 C' [m] \<Longrightarrow> C \<inter> C' = {} \<Longrightarrow> told l l2 (C \<union> C') [m]"
  by (auto simp: told_def hears_on_def)

lemma told_up: "told l l' C ms \<Longrightarrow> up_at l j \<Longrightarrow> up_at l' j"
  by (auto simp: told_def hears_on_def up_at_def live_at_def)

lemma cl_exec_conn: "cl_exec l (ClConn i x) = at_conn i (\<lambda>s. conn_exec s x) l"
  by (simp add: at_conn_def put_conn_def)

lemma one_send_ok:
  assumes "cl_inv l" "up_at l c" "length m \<le> 65536" "wr_ok wr"
  shows "ends (\<lambda>e. e = LengthError) (\<lambda>l'. cl_inv l' \<and> told l l' {c} [m])
    (cl_exec l (ClConn c (CCall (USend (frame m) wr))))"
proof -
  note U = up_atD[OF assms(1,2)]
  have "length (frame m) \<le> vec_max" using assms(3) by (simp add: length_frame vec_max_def)
  note step = send_step[OF U(3,4) this assms(4)]
  show ?thesis
  proof (cases "conn_exec (conn_at l c) (CCall (USend (frame m) wr))")
    case (Inl e)
    with step show ?thesis by (simp add: cl_exec_conn at_conn_def del: cl_exec.simps conn_exec.simps)
  next
    case (Inr s)
    have s: "conn_ok s" "touches (conn_at l c) s" "hears_on (cl_conns l ! c) s"
      "asked s = asked (cl_conns l ! c) @ (if conn_st (cl_conns l ! c) = kConnected then frame m else [])"
      using step unfolding Inr by (auto simp: hears_on_def)
    then have calls: "conn_calls s = [True]" using U(4) by (simp add: hears_on_def)
    note P = put_up[OF assms(1,2) s(1,2) calls]
    have "told l (put_conn c s l) {c} [m]"
      using P(2) s(3,4) U(2) by (auto simp: told_def put_conn_nth hears_on_def)
    with P(1) Inr show ?thesis by (simp add: cl_exec_conn at_conn_def del: cl_exec.simps conn_exec.simps)
  qed
qed

lemma room_send_ok:
  "cl_inv l \<Longrightarrow> \<forall>c \<in> set cs. up_at l c \<Longrightarrow> distinct cs \<Longrightarrow> length m \<le> 65536 \<Longrightarrow> \<forall>c. wr_ok (w c) \<Longrightarrow>
   ends (\<lambda>e. e = LengthError) (\<lambda>l'. cl_inv l' \<and> told l l' (set cs) [m]) (room_send w m cs l)"
proof (induction cs arbitrary: l)
  case Nil
  then show ?case by (simp add: told_def hears_on_def)
next
  case (Cons c cs)
  have "ends (\<lambda>e. e = LengthError) (\<lambda>l'. cl_inv l' \<and> told l l' {c} [m])
      (cl_exec l (ClConn c (CCall (USend (frame m) (w c)))))"
    using Cons.prems by (intro one_send_ok) auto
  then have "ends (\<lambda>e. e = LengthError) (\<lambda>l'. cl_inv l' \<and> told l l' (set (c # cs)) [m])
      (bindR (cl_exec l (ClConn c (CCall (USend (frame m) (w c))))) (room_send w m cs))"
  proof (rule ends_bind)
    fix l1 assume l1: "cl_inv l1 \<and> told l l1 {c} [m]"
    then have "\<forall>d \<in> set cs. up_at l1 d" using Cons.prems(2) told_up by auto
    with Cons.IH[of l1] Cons.prems l1
    have "ends (\<lambda>e. e = LengthError) (\<lambda>l'. cl_inv l' \<and> told l1 l' (set cs) [m]) (room_send w m cs l1)" by simp
    then show "ends (\<lambda>e. e = LengthError) (\<lambda>l'. cl_inv l' \<and> told l l' (set (c # cs)) [m]) (room_send w m cs l1)"
      by (rule ends_mono) (use l1 told_join[of l l1 "{c}" m _ "set cs"] Cons.prems(3) in auto)
  qed
  with Cons.prems(4) show ?case by (simp add: codec_wire_frame del: cl_exec.simps)
qed

lemma room_broadcast_ok:
  "cl_inv (rm_loop r) \<Longrightarrow> \<forall>c \<in> set ord. up_at (rm_loop r) c \<Longrightarrow> distinct ord \<Longrightarrow> \<forall>m \<in> set ms. length m \<le> 65536 \<Longrightarrow>
   \<forall>k c. wr_ok (w k c) \<Longrightarrow>
   ends (\<lambda>e. e = LengthError) (\<lambda>r'. cl_inv (rm_loop r') \<and> told (rm_loop r) (rm_loop r') (set ord) ms \<and>
       r' = r\<lparr>rm_loop := rm_loop r', rm_log := rm_log r @ map (Pair i) ms\<rparr>) (room_broadcast i w ord k ms r)"
proof (induction ms arbitrary: r k)
  case Nil
  then show ?case by (simp add: told_none)
next
  case (Cons m ms)
  have "ends (\<lambda>e. e = LengthError) (\<lambda>l. cl_inv l \<and> told (rm_loop r) l (set ord) [m]) (room_send (w k) m ord (rm_loop r))"
    using Cons.prems by (intro room_send_ok) auto
  then show ?case unfolding room_broadcast.simps
  proof (rule ends_bind)
    fix l assume l: "cl_inv l \<and> told (rm_loop r) l (set ord) [m]"
    let ?r = "r\<lparr>rm_loop := l, rm_log := rm_log r @ [(i, m)]\<rparr>"
    have "\<forall>c \<in> set ord. up_at (rm_loop ?r) c" using Cons.prems(2) told_up l by auto
    with Cons.IH[of ?r "k + 1"] Cons.prems l
    have "ends (\<lambda>e. e = LengthError) (\<lambda>r'. cl_inv (rm_loop r') \<and> told l (rm_loop r') (set ord) ms \<and>
        r' = ?r\<lparr>rm_loop := rm_loop r', rm_log := rm_log ?r @ map (Pair i) ms\<rparr>) (room_broadcast i w ord (k + 1) ms ?r)"
      by simp
    then show "ends (\<lambda>e. e = LengthError) (\<lambda>r'. cl_inv (rm_loop r') \<and> told (rm_loop r) (rm_loop r') (set ord) (m # ms) \<and>
        r' = r\<lparr>rm_loop := rm_loop r', rm_log := rm_log r @ map (Pair i) (m # ms)\<rparr>) (room_broadcast i w ord (k + 1) ms ?r)"
      by (rule ends_mono) (use l told_trans[of "rm_loop r" l "set ord" "[m]" _ ms] in auto)
  qed
qed

section \<open>A message arrives\<close>

lemma parse_rest_suffix:
  "parse_frames xs = (ms, r, bad) \<Longrightarrow> r = drop (length xs - length r) xs \<and> (\<forall>m \<in> set ms. length m \<le> 65536)"
proof (induction xs arbitrary: ms rule: parse_frames.induct)
  case (1 xs)
  let ?n = "4 + nat (header_len xs)"
  show ?case
  proof (cases "4 \<le> length xs \<and> \<not> bad_len (header_len xs) \<and> ?n \<le> length xs")
    case True
    obtain ms1 r1 bad1 where p1: "parse_frames (drop ?n xs) = (ms1, r1, bad1)"
      by (cases "parse_frames (drop ?n xs)") auto
    with True parse_frame "1.prems" have eqs: "ms = take (nat (header_len xs)) (drop 4 xs) # ms1" "r = r1" "bad = bad1"
      by fastforce+
    have IH: "r1 = drop (length (drop ?n xs) - length r1) (drop ?n xs) \<and> (\<forall>m \<in> set ms1. length m \<le> 65536)"
      using "1.IH"[OF _ _ _ p1[folded eqs(2,3)]] True eqs(2) by (auto simp: not_less)
    have "length r1 \<le> length xs - ?n" using parse_rest_length[OF p1] by simp
    moreover have "?n \<le> length xs" using True by blast
    ultimately have "length (drop ?n xs) - length r1 + ?n = length xs - length r1" unfolding length_drop by arith
    with IH have "r = drop (length xs - length r) xs" unfolding eqs by (metis drop_drop)
    moreover have "length (take (nat (header_len xs)) (drop 4 xs)) \<le> 65536"
      using True by (auto simp: bad_len_def intro: min.coboundedI2)
    ultimately show ?thesis using IH eqs by simp
  next
    case False
    with "1.prems" parse_idle[of xs] show ?thesis by auto
  qed
qed

text \<open>The codec empties the front of the input buffer.\<close>

lemma consume_ok:
  assumes "conn_ok s" "conn_calls s = [True]" "buffer_ok b" "contents b = drop k (contents (inputBuffer s))"
  shows "conn_ok (s\<lparr>inputBuffer := b, taken := taken s @ take k (contents (inputBuffer s))\<rparr>)"
proof (rule active_up)
  show "conn_active [] (s\<lparr>inputBuffer := b, taken := taken s @ take k (contents (inputBuffer s))\<rparr>)"
    using up_active[OF assms(1,2)] assms(3,4) unfolding conn_active_def
    by (simp add: streams_ok_def queue_ok_def phase_ok_def)
qed (use assms(2) in simp)

text \<open>What the room is after connection \<open>i\<close> has read \<open>xs\<close> and the messages in it were broadcast.\<close>

lemma room_after:
  assumes ok: "room_ok r" and i: "i < length (cl_conns (rm_loop r))"
    and inv: "cl_inv l" "length (cl_conns l) = length (cl_conns (rm_loop r))" "\<And>j. live_at l j = live_at (rm_loop r) j"
    and parse: "parse_frames (contents (inputBuffer (cl_conns (rm_loop r) ! i)) @ xs) = (ms, contents (inputBuffer (cl_conns l ! i)), bad)"
    and bad: "bad \<Longrightarrow> conn_st (cl_conns l ! i) \<noteq> kConnected"
    and new: "\<And>j. j < length (cl_conns l) \<Longrightarrow> conn_calls (cl_conns l ! j) = conn_calls (cl_conns (rm_loop r) ! j) \<and>
      received (cl_conns l ! j) = received (cl_conns (rm_loop r) ! j) @ (if j = i then xs else []) \<and>
      asked (cl_conns l ! j) = asked (cl_conns (rm_loop r) ! j) @
        (if conn_st (cl_conns (rm_loop r) ! j) = kConnected then concat (map frame ms) else []) \<and>
      (conn_st (cl_conns l ! j) = kConnected \<longrightarrow> conn_st (cl_conns (rm_loop r) ! j) = kConnected)"
    and old: "\<And>j. j < length (cl_conns l) \<Longrightarrow> j \<noteq> i \<Longrightarrow>
      contents (inputBuffer (cl_conns l ! j)) = contents (inputBuffer (cl_conns (rm_loop r) ! j))"
    and up: "conn_calls (cl_conns (rm_loop r) ! i) = [True]"
  shows "room_ok (r\<lparr>rm_loop := l, rm_log := rm_log r @ map (Pair i) ms\<rparr>)"
proof -
  note D = room_okD[OF ok]
  let ?log = "rm_log r @ map (Pair i) ms"
  have said: "said_ok j (cl_conns l ! j) ?log" if j: "j < length (cl_conns l)" for j
  proof -
    from D(2)[of j] j inv(2) obtain b where
      b: "parse_frames (received (cl_conns (rm_loop r) ! j)) =
        (said_by j (rm_log r), contents (inputBuffer (cl_conns (rm_loop r) ! j)), b)"
        "b \<longrightarrow> conn_st (cl_conns (rm_loop r) ! j) \<noteq> kConnected" by (auto simp: said_ok_def)
    show ?thesis
    proof (cases "j = i")
      case True
      from parse_append[OF b(1) parse[folded True]] new[OF j] True bad show ?thesis
        by (auto simp: said_ok_def)
    next
      case False
      with b new[OF j] old[OF j] show ?thesis by (auto simp: said_ok_def)
    qed
  qed
  have heard: "heard_ok (cl_conns l ! j) ?log (rm_since r j)" if j: "j < length (cl_conns l)" for j
  proof (rule heard_more)
    show "heard_ok (cl_conns (rm_loop r) ! j) (rm_log r) (rm_since r j)" using D(3) j inv(2) by simp
  qed (use new[OF j] up in auto)
  have msgs: "\<forall>m \<in> set ms. length m \<le> 65536" using parse_rest_suffix[OF parse] by blast
  have calls: "conn_calls (cl_conns l ! j) = conn_calls (cl_conns (rm_loop r) ! j)" if "live_at l j" for j
    using new that by (simp add: live_at_def)
  show ?thesis unfolding room_ok_def
  proof (intro conjI allI impI ballI)
    show "j \<in> rm_members (r\<lparr>rm_loop := l, rm_log := ?log\<rparr>) \<longleftrightarrow> live_at (rm_loop (r\<lparr>rm_loop := l, rm_log := ?log\<rparr>)) j \<and>
      conn_calls (cl_conns (rm_loop (r\<lparr>rm_loop := l, rm_log := ?log\<rparr>)) ! j) = [True]" for j
      using D(4)[of j] inv(3)[of j] calls[of j] by auto
    show "live_at (rm_loop (r\<lparr>rm_loop := l, rm_log := ?log\<rparr>)) j"
      if "j < length (cl_conns (rm_loop (r\<lparr>rm_loop := l, rm_log := ?log\<rparr>)))"
        "conn_calls (cl_conns (rm_loop (r\<lparr>rm_loop := l, rm_log := ?log\<rparr>)) ! j) = [True]" for j
      using that D(5)[of j] inv(2,3) new[of j] by simp
  qed (use D inv said heard msgs i in auto)
qed

lemma room_onMessage_ok:
  assumes ok: "room_ok r" and up: "up_at (rm_loop r) i"
    and s: "conn_ok s" "touches (conn_at (rm_loop r) i) s" "conn_calls s = [True]" "buffer_ok (inputBuffer s)"
    and xs: "received s = received (cl_conns (rm_loop r) ! i) @ xs"
      "contents (inputBuffer s) = contents (inputBuffer (cl_conns (rm_loop r) ! i)) @ xs"
      "conn_st s = conn_st (cl_conns (rm_loop r) ! i)" "asked s = asked (cl_conns (rm_loop r) ! i)"
    and w: "distinct ord" "set ord = rm_members r" "\<forall>k c. wr_ok (w k c)"
  shows "ends (\<lambda>e. e = LengthError) (\<lambda>r'. room_ok r' \<and> up_at (rm_loop r') i)
    (room_onMessage i w ord (r\<lparr>rm_loop := put_conn i s (rm_loop r)\<rparr>))"
proof -
  let ?l = "rm_loop r" and ?c = "contents (inputBuffer s)"
  note D = room_okD[OF ok] and U = up_atD[OF room_okD(1)[OF ok] up]
  obtain ms rest bad where p: "parse_frames ?c = (ms, rest, bad)" by (cases "parse_frames ?c") auto
  obtain b where b: "onMessage (inputBuffer s) = Some (Inr (b, ms, bad))" "buffer_ok b" "contents b = rest"
    using onMessage_loop_parse[OF s(4) p, of "[]"] by (auto simp: onMessage_def)
  note rest = parse_rest_suffix[OF p]
  define k where "k = readableBytes (inputBuffer s) - readableBytes b"
  have k: "contents b = drop k ?c"
    using rest b s(4) by (simp add: k_def readableBytes_contents)
  define s1 where "s1 = s\<lparr>inputBuffer := b, taken := taken s @ take k ?c\<rparr>"
  define r1 where "r1 = r\<lparr>rm_loop := put_conn i s1 ?l\<rparr>"
  have s1: "conn_ok s1" unfolding s1_def by (rule consume_ok[OF s(1,3) b(2) k])
  have "same_core s s1" by (simp add: same_core_def s1_def)
  with s(2) have t1: "touches (conn_at ?l i) s1" using touching.rel_core touching.rel_trans by blast
  have calls1: "conn_calls s1 = [True]" using s(3) by (simp add: s1_def)
  note P = put_up[OF D(1) up s1 t1 calls1]
  have mem: "\<forall>c \<in> set ord. up_at (rm_loop r1) c"
  proof
    fix c assume "c \<in> set ord"
    then have "up_at ?l c" using D(4) w(2) by (simp add: up_at_def)
    then show "up_at (rm_loop r1) c" using P(2,3) U(2) by (cases "c = i") (simp_all add: r1_def up_at_def put_conn_nth)
  qed
  have old: "cl_conns (rm_loop r1) ! j = (if j = i then s1 else cl_conns ?l ! j)" for j
    by (simp add: r1_def put_conn_nth[OF U(2)])
  have inv1: "cl_inv (rm_loop r1)" using P(1) by (simp add: r1_def)
  note sends = room_broadcast_ok[OF inv1 mem w(1) conjunct2[OF rest] w(3), of i 0]
  have connected: "j \<in> rm_members r" if "j < length (cl_conns ?l)" "conn_st (cl_conns ?l ! j) = kConnected" for j
    using D(3)[OF that(1)] D(4)[of j] D(5)[OF that(1)] that(2) by (simp add: heard_ok_def)
  have run: "room_onMessage i w ord (r\<lparr>rm_loop := put_conn i s ?l\<rparr>) =
    bindR (room_broadcast i w ord 0 ms r1) (\<lambda>r2.
      if bad then on_loop (\<lambda>l. cl_exec l (ClConn i (CCall UShutdown))) r2 else Inr r2)"
    by (simp add: room_onMessage_def conn_at_put[OF U(2)] b(1) put_put Let_def k_def[symmetric] s1_def[symmetric] r1_def[symmetric]
        del: cl_exec.simps)
  show ?thesis unfolding run
  proof (rule ends_bind[OF sends])
    fix r2 assume r2: "cl_inv (rm_loop r2) \<and> told (rm_loop r1) (rm_loop r2) (set ord) ms \<and>
      r2 = r1\<lparr>rm_loop := rm_loop r2, rm_log := rm_log r1 @ map (Pair i) ms\<rparr>"
    let ?l2 = "rm_loop r2"
    have r2': "r2 = r\<lparr>rm_loop := ?l2, rm_log := rm_log r @ map (Pair i) ms\<rparr>" using r2 by (simp add: r1_def)
    have len: "length (cl_conns ?l2) = length (cl_conns ?l)" and live: "\<And>j. live_at ?l2 j = live_at ?l j"
      using r2 P(2) by (simp_all add: told_def r1_def)
    have T: "hears_on (cl_conns (rm_loop r1) ! j) (cl_conns ?l2 ! j)"
      "asked (cl_conns ?l2 ! j) = asked (cl_conns (rm_loop r1) ! j) @
        (if j \<in> set ord \<and> conn_st (cl_conns (rm_loop r1) ! j) = kConnected then concat (map frame ms) else [])"
      if "j < length (cl_conns ?l)" for j using r2 that by (simp_all add: told_def r1_def)
    have up2: "up_at ?l2 i" using told_up r2 P(3) by (auto simp: r1_def)
    have facts: "conn_calls (cl_conns ?l2 ! j) = conn_calls (cl_conns ?l ! j) \<and>
      received (cl_conns ?l2 ! j) = received (cl_conns ?l ! j) @ (if j = i then xs else []) \<and>
      asked (cl_conns ?l2 ! j) = asked (cl_conns ?l ! j) @
        (if conn_st (cl_conns ?l ! j) = kConnected then concat (map frame ms) else []) \<and>
      conn_st (cl_conns ?l2 ! j) = conn_st (cl_conns ?l ! j) \<and>
      contents (inputBuffer (cl_conns ?l2 ! j)) = (if j = i then rest else contents (inputBuffer (cl_conns ?l ! j)))"
      if "j < length (cl_conns ?l)" for j
      using T[OF that] connected[OF that] w(2) U(4) s(3) xs b(3)
      by (cases "j = i") (auto simp: old hears_on_def s1_def)
    have parse: "parse_frames (contents (inputBuffer (cl_conns ?l ! i)) @ xs) = (ms, rest, bad)" using p xs(2) by simp
    have calls: "conn_calls (cl_conns ?l ! i) = [True]" using U(4) by simp
    show "ends (\<lambda>e. e = LengthError) (\<lambda>r'. room_ok r' \<and> up_at (rm_loop r') i)
      (if bad then on_loop (\<lambda>l. cl_exec l (ClConn i (CCall UShutdown))) r2 else Inr r2)"
    proof (cases bad)
      case False
      have "room_ok (r\<lparr>rm_loop := ?l2, rm_log := rm_log r @ map (Pair i) ms\<rparr>)"
        by (rule room_after[OF ok U(2) _ len live, where xs = xs and bad = bad]) (use r2 facts parse False calls U(2) len in auto)
      with False up2 r2' show ?thesis by simp
    next
      case True
      have inv2: "cl_inv ?l2" using r2 by blast
      note U2 = up_atD[OF inv2 up2]
      note step = shutdown_step[OF U2(3,4)]
      show ?thesis
      proof (cases "conn_exec (conn_at ?l2 i) (CCall UShutdown)")
        case (Inl e)
        with step True show ?thesis by (simp add: on_loop_def cl_exec_conn at_conn_def del: cl_exec.simps conn_exec.simps)
      next
        case (Inr s3)
        have s3: "conn_ok s3" "touches (conn_at ?l2 i) s3" "conn_calls s3 = [True]" "received s3 = received (cl_conns ?l2 ! i)"
          "contents (inputBuffer s3) = contents (inputBuffer (cl_conns ?l2 ! i))" "asked s3 = asked (cl_conns ?l2 ! i)"
          "conn_st s3 = kDisconnecting" using step unfolding Inr by simp_all
        note P3 = put_up[OF inv2 up2 s3(1-3)]
        let ?l3 = "put_conn i s3 ?l2"
        have nth: "cl_conns ?l3 ! j = (if j = i then s3 else cl_conns ?l2 ! j)" for j by (rule put_conn_nth[OF U2(2)])
        have "room_ok (r\<lparr>rm_loop := ?l3, rm_log := rm_log r @ map (Pair i) ms\<rparr>)"
          by (rule room_after[OF ok U(2), where xs = xs and bad = bad])
            (use P3(1,2) facts parse s3 calls U(2) len live in \<open>auto simp: nth\<close>)
        moreover from arg_cong[OF r2', of "\<lambda>x. x\<lparr>rm_loop := ?l3\<rparr>"]
        have "r2\<lparr>rm_loop := ?l3\<rparr> = r\<lparr>rm_loop := ?l3, rm_log := rm_log r @ map (Pair i) ms\<rparr>" by simp
        ultimately have "room_ok (r2\<lparr>rm_loop := ?l3\<rparr>)" by simp
        with P3(3) True Inr show ?thesis
          by (simp add: on_loop_def cl_exec_conn at_conn_def del: cl_exec.simps conn_exec.simps)
      qed
    qed
  qed
qed

section \<open>Events\<close>

definition served_at :: "conn_loop \<Rightarrow> nat \<Rightarrow> bool" where
  "served_at l i \<longleftrightarrow> up_at l i \<and> inServerMap (conn_at l i) \<and> handled (conn_at l i)"

lemma served_up: "served_at l i \<Longrightarrow> up_at l i"
  by (simp add: served_at_def)

abbreviation room_ends :: "nat \<Rightarrow> room res \<Rightarrow> bool" where
  "room_ends i \<equiv> ends (\<lambda>e. e = LengthError) (\<lambda>r. room_ok r \<and> up_at (rm_loop r) i)"

lemma room_read_ok:
  assumes ok: "room_ok r" and at: "served_at (rm_loop r) i" and rd: "rd_ok rd"
    and w: "distinct ord" "set ord = rm_members r" "\<forall>k c. wr_ok (w k c)"
  shows "room_ends i (room_read i rd w ord r)"
proof -
  let ?s = "conn_at (rm_loop r) i"
  note up = served_up[OF at]
  note U = up_atD[OF room_okD(1)[OF ok] up]
  define answer where "answer = rd (writableBytes (inputBuffer (cl_conns (rm_loop r) ! i)) + extrabuf_size)"
  have "inServerMap ?s" "handled ?s" using at by (simp_all add: served_at_def)
  note step = read_step[OF U(3,4) this rd, unfolded Let_def conn_at_fields, folded answer_def]
  have run: "room_read i rd w ord r = bindR (on_loop (at_conn i (handleRead rd nobody)) r) (\<lambda>r1.
      if data_of answer \<noteq> [] then room_onMessage i w ord r1 else Inr r1)"
    by (cases answer) (simp_all add: room_read_def Let_def answer_def[symmetric])
  show ?thesis
  proof (cases "data_of answer = []")
    case True
    have "room_ends i (on_loop (at_conn i (handleRead rd nobody)) r)"
      by (rule quiet_room[OF ok up], rule ends_mono[OF step]) (use True U(4) in \<open>simp add: hears_on_def\<close>)
    with True show ?thesis by (simp add: run bind_return)
  next
    case False
    show ?thesis
    proof (cases "handleRead rd nobody ?s")
      case (Inl e)
      with step show ?thesis by (simp add: run on_loop_def at_conn_def)
    next
      case (Inr s)
      have s: "conn_ok s" "touches ?s s" "conn_calls s = [True]" "buffer_ok (inputBuffer s)"
        "received s = received (cl_conns (rm_loop r) ! i) @ data_of answer"
        "contents (inputBuffer s) = contents (inputBuffer (cl_conns (rm_loop r) ! i)) @ data_of answer"
        "conn_st s = conn_st (cl_conns (rm_loop r) ! i)" "asked s = asked (cl_conns (rm_loop r) ! i)"
        using step unfolding Inr by simp_all
      from room_onMessage_ok[OF ok up s w] False Inr show ?thesis
        by (simp add: run on_loop_def at_conn_def)
    qed
  qed
qed

lemma room_error: 
  assumes "room_ok r" "served_at (rm_loop r) i"
  shows "\<exists>r'. room_callback i rd wr w ord r ErrorCb = Inr r' \<and> room_ok r' \<and> served_at (rm_loop r') i \<and>
    rm_members r' = rm_members r"
proof -
  let ?s = "conn_at (rm_loop r) i"
  let ?r = "r\<lparr>rm_loop := put_conn i ?s (rm_loop r)\<rparr>"
  note U = up_atD[OF room_okD(1)[OF assms(1)] served_up[OF assms(2)]]
  have "touches ?s ?s" by simp
  note P = put_up(3)[OF room_okD(1)[OF assms(1)] served_up[OF assms(2)] U(3) this U(4)]
  have "room_ok ?r" by (rule put_room[OF assms(1) U(1,3)]) (simp_all add: hears_on_def)
  moreover have "served_at (rm_loop ?r) i" using P assms(2) by (simp add: served_at_def conn_at_put[OF U(2)])
  ultimately show ?thesis by (simp add: on_loop_def at_conn_def handleError_def)
qed

lemma callbacks_room:
  assumes ok: "room_ok r" "served_at (rm_loop r) i" and env: "rd_ok rd" "wr_ok wr" "\<forall>k c. wr_ok (w k c)"
    and ord: "distinct ord" "set ord = rm_members r"
    and ev: "callback_bits CloseCb ev \<Longrightarrow> \<not> callback_bits ReadCb ev"
  shows "room_ends i (run_ops (room_callback i rd wr w ord) r (due_callbacks ((conn_channel fd)\<lparr>revents := ev\<rparr>)))"
proof -
  let ?run = "\<lambda>ks r. run_ops (room_callback i rd wr w ord) r ks"
  let ?if = "\<lambda>k. if callback_bits k ev then [k] else []"
  have list: "due_callbacks ((conn_channel fd)\<lparr>revents := ev\<rparr>) =
    ?if CloseCb @ ?if ErrorCb @ ?if ReadCb @ ?if WriteCb"
    by (simp add: due_callbacks_def conn_channel_def)
  have quiet: "room_ends i (on_loop (at_conn i f) r')"
    if "room_ok r'" "up_at (rm_loop r') i" "\<And>s. conn_ok s \<Longrightarrow> conn_calls s = [True] \<Longrightarrow> s = conn_at (rm_loop r') i \<Longrightarrow>
      conn_ends (\<lambda>s'. conn_ok s' \<and> touches s s' \<and> hears_on s s' \<and> asked s' = asked s) (f s)" for f r'
    using that(3)[OF up_atD(3,4)[OF room_okD(1)[OF that(1)] that(2)] refl] by (rule quiet_room[OF that(1,2)])
  have wrt: "room_ends i (?run (?if WriteCb) r')" if "room_ok r' \<and> up_at (rm_loop r') i" for r'
    using quiet[of r' "handleWrite wr", OF _ _ write_step[OF _ _ env(2)]] that by (simp add: bind_return)
  have err: "room_ends i (?run (?if ErrorCb) r')" if "room_ok r' \<and> up_at (rm_loop r') i" for r'
    using quiet[of r' handleError] that by (simp add: bind_return handleError_def hears_on_def)
  have first: "room_ends i (?run (?if CloseCb @ ?if ErrorCb @ ?if ReadCb) r)"
  proof (cases "callback_bits CloseCb ev")
    case True
    have "room_ends i (on_loop (at_conn i handleClose) r)"
      by (rule quiet[OF ok(1) served_up[OF ok(2)] close_step]) (use ok(2) in \<open>auto simp: served_at_def\<close>)
    from ends_bind[OF this err] ev[OF True] True show ?thesis by simp
  next
    case False
    obtain r1 where r1: "?run (?if ErrorCb) r = Inr r1" "room_ok r1" "served_at (rm_loop r1) i" "rm_members r1 = rm_members r"
      using room_error[OF ok, of rd wr w ord] ok by (cases "callback_bits ErrorCb ev") (auto simp: bind_return simp del: room_callback.simps)
    have "room_ends i (?run (?if ReadCb) r1)"
      using room_read_ok[OF r1(2,3) env(1) ord(1) _ env(3)] ord(2) r1 by (simp add: bind_return served_up)
    with False r1(1) show ?thesis by (simp add: run_ops_append del: callback_bits.simps)
  qed
  have "?run (?if CloseCb @ ?if ErrorCb @ ?if ReadCb @ ?if WriteCb) r =
    bindR (?run (?if CloseCb @ ?if ErrorCb @ ?if ReadCb) r) (?run (?if WriteCb))"
    using run_ops_append[of "room_callback i rd wr w ord" r "?if CloseCb @ ?if ErrorCb @ ?if ReadCb" "?if WriteCb"]
    by simp
  with ends_bind[OF first wrt] show ?thesis by (simp add: list)
qed

lemma room_events_ok:
  assumes ok: "room_ok r" and pre: "room_pre r (RmEvents i ev rd wr w ord)"
  shows "ends (\<lambda>e. e = LengthError) room_ok (room_events i ev rd wr w ord r)"
proof (cases "handled (conn_at (rm_loop r) i)")
  case True
  with ok show ?thesis by (simp add: room_events_def)
next
  case False
  let ?s = "conn_at (rm_loop r) i"
  let ?s1 = "?s\<lparr>handled := True\<rparr>"
  let ?r = "r\<lparr>rm_loop := put_conn i ?s1 (rm_loop r)\<rparr>"
  have live: "live_at (rm_loop r) i" using pre by simp
  then have len: "i < length (cl_conns (rm_loop r))" by (simp add: live_at_def)
  have s: "conn_ok ?s" using cl_invD(2)[OF room_okD(1)[OF ok] live] .
  have "same_core ?s ?s1" by (simp add: same_core_def)
  then have t: "touches ?s ?s1" by (rule touching.rel_core)
  have ok1: "room_ok ?r"
    by (rule put_room[OF ok live conn_ok_handled[OF s] t]) (simp_all add: hears_on_def)
  have run: "room_events i ev rd wr w ord r = (if ep_interest (poller ?s) (sockfd ?s) \<noteq> None
    then run_ops (room_callback i rd wr w ord) ?r (due_callbacks ((conn_channel (sockfd ?s))\<lparr>revents := ev\<rparr>)) else Inr ?r)"
    using False by (simp add: room_events_def on_loop_def at_conn_def Let_def)
  show ?thesis
  proof (cases "ep_interest (poller ?s) (sockfd ?s) = None")
    case True
    with ok1 show ?thesis by (simp add: run)
  next
    case watched: False
    note W = watched_up[OF s False watched]
    have up: "up_at (rm_loop r) i" using W(1) live by (simp add: up_at_def)
    have "up_at (rm_loop ?r) i"
      using put_up(3)[OF room_okD(1)[OF ok] up conn_ok_handled[OF s] t] W(1) by simp
    then have "served_at (rm_loop ?r) i" using W(2) by (simp add: served_at_def conn_at_put[OF len])
    from callbacks_room[OF ok1 this, of rd wr w ord ev] pre
    have "room_ends i (run_ops (room_callback i rd wr w ord) ?r (due_callbacks ((conn_channel (sockfd ?s))\<lparr>revents := ev\<rparr>)))"
      by simp
    with watched show ?thesis unfolding run by (auto intro: ends_mono)
  qed
qed

section \<open>Functors, new connections, other handlers\<close>

text \<open>What the functors of a connection may change when nobody calls it back.\<close>

definition settles :: "conn \<Rightarrow> conn \<Rightarrow> bool" where
  "settles s s' \<longleftrightarrow> received s' = received s \<and> inputBuffer s' = inputBuffer s \<and> asked s' = asked s \<and>
     prefix (conn_calls s) (conn_calls s') \<and> (conn_st s' = kConnecting \<longrightarrow> conn_st s = kConnecting) \<and>
     (conn_st s' = kConnected \<longrightarrow> conn_st s \<in> {kConnecting, kConnected})"

lemma settles_trans: "settles s s1 \<Longrightarrow> settles s1 s2 \<Longrightarrow> settles s s2"
  unfolding settles_def using prefix_order.trans by auto

lemma same_settles: "same_streams s s' \<Longrightarrow> conn_calls s' = conn_calls s \<Longrightarrow> settles s s'"
  by (simp add: settles_def same_streams_def)

lemma functor_settles:
  assumes "run_functor wr nobody f s = Inr s'" "\<And>m. f \<noteq> FSendInLoop m"
  shows "settles s s'"
proof -
  have cb: "connectionCallback nobody t = Inr t' \<Longrightarrow> t' = t\<lparr>conn_calls := conn_calls t @ [conn_st t = kConnected]\<rparr>" for t t'
    by (simp add: connectionCallback_def nobody_def Let_def)
  show ?thesis
  proof (cases f)
    case FShutdownInLoop
    with assms(1) show ?thesis by (auto intro!: same_settles shutdown_same shutdownInLoop_calls)
  next
    case FEstablished
    then obtain s1 where s1: "conn_st s = kConnecting" "conn_change EnableReading (s\<lparr>conn_st := kConnected\<rparr>) = Inr s1"
      "connectionCallback nobody s1 = Inr s'" using assms(1) by (auto simp: connectEstablished_def)
    with cb[OF s1(3)] change_same[OF s1(2)] conn_change_calls[OF s1(2)] show ?thesis
      by (simp add: settles_def same_streams_def)
  next
    case FDestroyed
    then obtain s1 s2 p where s1: "conn_change DisableAll (s\<lparr>conn_st := kDisconnected\<rparr>) = Inr s1"
      "connectionCallback nobody s1 = Inr s2" "s' = s2\<lparr>poller := p\<rparr>"
      using assms(1) by (auto simp: connectDestroyed_def)
    with cb[OF s1(2)] change_same[OF s1(1)] conn_change_calls[OF s1(1)] show ?thesis
      by (simp add: settles_def same_streams_def)
  next
    case FWriteComplete
    with assms(1) show ?thesis by (simp add: nobody_def settles_def)
  qed (use assms(2) in blast)
qed

lemma batch_settles:
  "run_batch wr nobody i fs s = Inr s' \<Longrightarrow> (\<And>m. FSendInLoop m \<notin> set fs) \<Longrightarrow> settles s s'"
proof (induction fs arbitrary: i s)
  case Nil
  then show ?case by (simp add: settles_def)
next
  case (Cons f fs)
  then obtain s1 where s1: "run_functor (wr i) nobody f s = Inr s1" "run_batch wr nobody (i + 1) fs s1 = Inr s'"
    by (auto split: if_splits)
  have "f \<noteq> FSendInLoop m" for m using Cons.prems(2)[of m] by auto
  from functor_settles[OF s1(1) this] Cons.IH[OF s1(2)] Cons.prems(2) show ?case by (auto intro: settles_trans)
qed

lemma pending_settles:
  assumes "conn_ok s" "conn_exec s (CPending wr nobody) = Inr s'"
  shows "settles s s'"
proof -
  let ?s = "s\<lparr>handled := False, pending := []\<rparr>"
  obtain s1 where s1: "run_batch wr nobody 0 (pending s) ?s = Inr s1" "conn_release s1 = Inr s'"
    using assms(2) by (auto simp: conn_pending_def)
  have "FSendInLoop m \<notin> set (pending s)" for m using no_posted_send[OF assms(1)] by (simp add: posted_send_def)
  from batch_settles[OF s1(1) this] have "settles s s1" by (simp add: settles_def)
  with same_settles[OF release_same[OF s1(2)] release_calls[OF s1(2)]] show ?thesis by (rule settles_trans[rotated])
qed

lemma room_pending_ok:
  assumes ok: "room_ok r" and live: "live_at (rm_loop r) i"
  shows "ends (\<lambda>e. e = LengthError) room_ok (room_pending i wr r)"
proof -
  let ?s = "conn_at (rm_loop r) i"
  note D = room_okD[OF ok]
  have len: "i < length (cl_conns (rm_loop r))" using live by (simp add: live_at_def)
  have s: "conn_ok ?s" by (rule cl_invD(2)[OF D(1) live])
  have ends: "ends (\<lambda>e. e = LengthError) conn_ok (conn_exec ?s (CPending wr nobody))"
    by (rule conn_exec_ok[OF s]) (simp add: nobody_ok)
  show ?thesis
  proof (cases "conn_exec ?s (CPending wr nobody)")
    case (Inl e)
    with ends show ?thesis by (simp add: room_pending_def on_loop_def cl_exec_conn at_conn_def del: cl_exec.simps conn_exec.simps)
  next
    case (Inr s')
    have s': "conn_ok s'" using ends unfolding Inr by simp
    have t: "touches ?s s'" using touching.conn_exec_rel[OF _ Inr] by (simp add: nobody_ok)
    have S: "received s' = received (cl_conns (rm_loop r) ! i)" "inputBuffer s' = inputBuffer (cl_conns (rm_loop r) ! i)"
      "asked s' = asked (cl_conns (rm_loop r) ! i)" "prefix (conn_calls (cl_conns (rm_loop r) ! i)) (conn_calls s')"
      "conn_st s' = kConnected \<Longrightarrow> conn_st (cl_conns (rm_loop r) ! i) \<in> {kConnecting, kConnected}"
      using pending_settles[OF s Inr] by (auto simp: settles_def)
    let ?c = "cl_conns (rm_loop r) ! i"
    let ?called = "drop (length (conn_calls ?c)) (conn_calls s')"
    define joins where "joins = (conn_calls ?c = [] \<and> conn_calls s' \<noteq> [])"
    define M where "M = (if conn_calls s' = [True] then insert i (rm_members r) else if conn_calls s' = [] then rm_members r
      else rm_members r - {i})"
    define k where "k = (if joins then (rm_since r)(i := length (rm_log r)) else rm_since r)"
    note C = conn_ok_calls[OF s] conn_ok_calls[OF s']
    have old: "i \<in> rm_members r \<longleftrightarrow> conn_calls ?c = [True]" using D(4)[of i] live by simp
    have run: "room_pending i wr r = Inr (r\<lparr>rm_loop := put_conn i s' (rm_loop r), rm_members := M, rm_since := k\<rparr>)"
    proof -
      have "foldl (\<lambda>r up. room_onConnection i up r) (r\<lparr>rm_loop := put_conn i s' (rm_loop r)\<rparr>) ?called =
        r\<lparr>rm_loop := put_conn i s' (rm_loop r), rm_members := M, rm_since := k\<rparr>"
        using C S(4) old by (auto simp: room_onConnection_def M_def k_def joins_def insert_absorb)
      with Inr show ?thesis
        by (simp add: room_pending_def on_loop_def cl_exec_conn at_conn_def put_conn_nth[OF len] Let_def
            del: cl_exec.simps conn_exec.simps)
    qed
    have said: "said_ok i s' (rm_log r)"
    proof -
      from D(2)[OF len] obtain bad where
        p: "parse_frames (received ?c) = (said_by i (rm_log r), contents (inputBuffer ?c), bad)"
          "bad \<longrightarrow> conn_st ?c \<noteq> kConnected" by (auto simp: said_ok_def)
      have "conn_st s' \<noteq> kConnected" if bad
      proof
        assume st: "conn_st s' = kConnected"
        with S(5) p(2) that have "conn_calls ?c = []" using C(1) by auto
        with D(3)[OF len] have "received ?c = []" by (simp add: heard_ok_def)
        with p(1) that show False by (simp add: parse_short)
      qed
      with p(1) S(1,2) show ?thesis by (auto simp: said_ok_def)
    qed
    have heard: "heard_ok s' (rm_log r) (k i)"
    proof (cases "conn_calls ?c = []")
      case True
      with D(3)[OF len] have none: "asked ?c = []" "received ?c = []" by (simp_all add: heard_ok_def)
      have "frames_of (take n (drop (length (rm_log r)) (rm_log r))) = []" for n by (simp add: frames_of_def)
      with True none S(1,3) C(2) show ?thesis
        by (auto simp: heard_ok_def k_def joins_def)
    next
      case False
      with S(4) have "conn_calls s' \<noteq> []" by auto
      moreover have "conn_st s' = kConnected \<Longrightarrow> conn_st ?c = kConnected" using S(5) C(1) False by auto
      ultimately show ?thesis using D(3)[OF len] False S(3) C(2) by (auto simp: heard_ok_def k_def joins_def)
    qed
    have "room_ok (r\<lparr>rm_loop := put_conn i s' (rm_loop r), rm_members := M, rm_since := k\<rparr>)"
    proof (rule change_room[where k = k, OF ok live s' t said heard])
      show "i \<in> M \<longleftrightarrow> conn_calls s' = [True]" using old S(4) by (auto simp: M_def)
      show "(j \<in> M \<longleftrightarrow> j \<in> rm_members r) \<and> k j = rm_since r j" if "j \<noteq> i" for j
        using that by (auto simp: M_def k_def)
    qed
    then show ?thesis unfolding run by simp
  qed
qed

lemma room_accept_ok:
  assumes ok: "room_ok r" and pre: "room_pre r (RmAccept fd p)"
  shows "ends (\<lambda>e. e = LengthError) room_ok (room_exec r (RmAccept fd p))"
proof -
  note D = room_okD[OF ok]
  let ?n = "length (cl_conns (rm_loop r))"
  obtain l where l: "cl_exec (rm_loop r) (ClAccept fd p False) = Inr l" "cl_inv l"
    using accept_ok[OF D(1), of fd p False] pre by auto
  define s where "s = conn_new fd p False (cl_poller (rm_loop r))"
  have conns: "cl_conns l = cl_conns (rm_loop r) @ [s]" using l(1) by (auto simp: s_def Let_def)
  have nth: "cl_conns l ! j = (if j < ?n then cl_conns (rm_loop r) ! j else s)" if "j < Suc ?n" for j
    using that conns by (auto simp: nth_append less_Suc_eq)
  have live: "live_at l j \<longleftrightarrow> live_at (rm_loop r) j \<or> j = ?n" for j
    by (auto simp: live_at_def conns nth_append less_Suc_eq s_def conn_new_def)
  have s: "conn_calls s = []" "received s = []" "asked s = []" "contents (inputBuffer s) = []" "conn_st s = kConnecting"
    by (simp_all add: s_def conn_new_def)
  have "filter (\<lambda>x. fst x = ?n) (rm_log r) = []" by (auto simp: filter_empty_conv dest!: D(6))
  then have "said_ok ?n s (rm_log r)" using s by (auto simp: said_ok_def said_by_def parse_short)
  moreover have "heard_ok s (rm_log r) k" for k using s by (simp add: heard_ok_def)
  ultimately have peers: "said_ok j (cl_conns l ! j) (rm_log r) \<and> heard_ok (cl_conns l ! j) (rm_log r) (rm_since r j)"
    if "j < Suc ?n" for j using D(2,3)[of j] that by (cases "j = ?n") (auto simp: nth)
  have member: "j \<in> rm_members r \<longleftrightarrow> live_at l j \<and> conn_calls (cl_conns l ! j) = [True]" for j
  proof (cases "j = ?n")
    case True
    with D(4)[of j] s(1) nth[of j] show ?thesis by (auto simp: live live_at_def)
  next
    case False
    have "live_at (rm_loop r) j \<Longrightarrow> j < ?n" by (simp add: live_at_def)
    with False D(4)[of j] nth[of j] show ?thesis by (auto simp: live)
  qed
  have "room_ok (r\<lparr>rm_loop := l\<rparr>)" unfolding room_ok_def
  proof (intro conjI allI impI ballI)
    show "live_at (rm_loop (r\<lparr>rm_loop := l\<rparr>)) j"
      if "j < length (cl_conns (rm_loop (r\<lparr>rm_loop := l\<rparr>)))"
        "conn_calls (cl_conns (rm_loop (r\<lparr>rm_loop := l\<rparr>)) ! j) = [True]" for j
      using that D(5)[of j] s(1) nth[of j] by (auto simp: live conns split: if_splits)
  qed (use l(2) peers member D(6,7) in \<open>auto simp: conns less_Suc_eq\<close>)
  with l(1) show ?thesis by (simp add: on_loop_def del: cl_exec.simps)
qed

lemma room_other_ok:
  assumes ok: "room_ok r" and pre: "room_pre r (RmOther x)"
  shows "ends (\<lambda>e. e = LengthError) room_ok (room_exec r (RmOther x))"
proof -
  note D = room_okD[OF ok]
  obtain l where l: "cl_exec (rm_loop r) (ClOther x) = Inr l" "cl_inv l" using other_op_ok[OF D(1), of x] pre by auto
  then have conns: "cl_conns l = cl_conns (rm_loop r)" by auto
  then have "live_at l j = live_at (rm_loop r) j" for j by (simp add: live_at_def)
  with ok l(2) conns have "room_ok (r\<lparr>rm_loop := l\<rparr>)" by (simp add: room_ok_def)
  with l(1) show ?thesis by (simp add: on_loop_def del: cl_exec.simps)
qed

lemma room_exec_ok: "room_ok r \<Longrightarrow> room_pre r x \<Longrightarrow> ends (\<lambda>e. e = LengthError) room_ok (room_exec r x)"
proof (cases x)
  case (RmEvents i ev rd wr w ord)
  with room_events_ok[of r i ev rd wr w ord] show "room_ok r \<Longrightarrow> room_pre r x \<Longrightarrow> ?thesis" by (simp del: room_pre.simps)
next
  case (RmPending i wr)
  with room_pending_ok[of r i wr] show "room_ok r \<Longrightarrow> room_pre r x \<Longrightarrow> ?thesis" by simp
qed (use room_accept_ok room_other_ok in blast)+

lemma room_init_ok: "room_init r \<Longrightarrow> room_ok r"
  by (auto simp: room_init_def room_ok_def room_new_def cl_inv_def live_at_def)

interpretation room: guarded_object room_init room_pre room_exec room_ok "\<lambda>e. e = LengthError"
  by unfold_locales (rule room_init_ok room_exec_ok, assumption+)+

section \<open>The property\<close>

text \<open>What has reached a client parses to messages of the log, whole and in order.\<close>

lemma client_parses:
  assumes ok: "room_ok r" and i: "i < length (cl_conns (rm_loop r))"
    and p: "parse_frames (take n (sent (cl_conns (rm_loop r) ! i))) = (ms, rest, bad)"
  shows "prefix ms (map snd (drop (rm_since r i) (rm_log r))) \<and> \<not> bad"
proof -
  note D = room_okD[OF ok]
  let ?s = "cl_conns (rm_loop r) ! i" and ?log = "drop (rm_since r i) (rm_log r)"
  have "prefix (sent ?s) (asked ?s)" using cl_invD(3)[OF D(1) i] by (simp add: streams_ok_def)
  then have pre: "prefix (take n (sent ?s)) (asked ?s)" using take_is_prefix prefix_order.trans by blast
  have "\<exists>n. asked ?s = frames_of (take n ?log)"
    by (rule heard_some[OF D(3)[OF i]])
  then obtain n' where n': "asked ?s = concat (map frame (map snd (take n' ?log)))"
    by (auto simp: frames_of_def comp_def)
  have short: "\<forall>m \<in> set (map snd (take n' ?log)). length m \<le> 65536"
    using D(7) by (auto dest!: in_set_takeD in_set_dropD)
  from parse_prefix_frames(1,2)[OF short pre[unfolded n'] p]
  have "prefix ms (map snd (take n' ?log))" "\<not> bad" .
  moreover have "prefix (map snd (take n' ?log)) (map snd ?log)" by (simp add: take_is_prefix map_mono_prefix)
  ultimately show ?thesis using prefix_order.trans by blast
qed

text \<open>
  C3: Everybody in the room hears the same conversation. In a loop with any number of connections that
  come and go, whatever each read and write takes, and in whatever order a broadcast visits the
  members: the members are exactly the connections that were established and not yet destroyed; what
  a connection said (what its bytes parse to) is what the log has of it; what it was sent is, in
  whole frames, a piece of the log that begins when it became a member and, while it is connected,
  goes to the end; what reaches a client parses to a prefix of that, and never to a bad length; and
  whatever comes next, the worst that can happen is a buffer that would pass the maximal vector size.
\<close>

theorem room_hears_one_log:
  assumes "reach room_init (guarded room_pre room_exec) r"
  shows "(\<forall>i. i \<in> rm_members r \<longleftrightarrow> live_at (rm_loop r) i \<and> conn_calls (cl_conns (rm_loop r) ! i) = [True]) \<and>
    (\<forall>i < length (cl_conns (rm_loop r)). let s = cl_conns (rm_loop r) ! i; heard = drop (rm_since r i) (rm_log r) in
       fst (parse_frames (received s)) = said_by i (rm_log r) \<and>
       (\<exists>n. asked s = frames_of (take n heard)) \<and>
       (conn_st s = kConnected \<longrightarrow> i \<in> rm_members r \<and> asked s = frames_of heard) \<and>
       (\<forall>n ms rest bad. parse_frames (take n (sent s)) = (ms, rest, bad) \<longrightarrow> prefix ms (map snd heard) \<and> \<not> bad)) \<and>
    (\<forall>x e. room_pre r x \<and> room_exec r x = Inl e \<longrightarrow> e = LengthError)"
proof (intro conjI allI impI)
  have ok: "room_ok r" using room.reach_inv[OF assms] .
  note D = room_okD[OF ok]
  show "i \<in> rm_members r \<longleftrightarrow> live_at (rm_loop r) i \<and> conn_calls (cl_conns (rm_loop r) ! i) = [True]" for i
    by (rule D(4))
  show "e = LengthError" if "room_pre r x \<and> room_exec r x = Inl e" for x e
    using room.reach_exec[OF assms, of x] that by simp
  show "let s = cl_conns (rm_loop r) ! i; heard = drop (rm_since r i) (rm_log r) in
       fst (parse_frames (received s)) = said_by i (rm_log r) \<and>
       (\<exists>n. asked s = frames_of (take n heard)) \<and>
       (conn_st s = kConnected \<longrightarrow> i \<in> rm_members r \<and> asked s = frames_of heard) \<and>
       (\<forall>n ms rest bad. parse_frames (take n (sent s)) = (ms, rest, bad) \<longrightarrow> prefix ms (map snd heard) \<and> \<not> bad)"
    if i: "i < length (cl_conns (rm_loop r))" for i
  proof -
    let ?s = "cl_conns (rm_loop r) ! i" and ?heard = "drop (rm_since r i) (rm_log r)"
    have "fst (parse_frames (received ?s)) = said_by i (rm_log r)" using D(2)[OF i] by (auto simp: said_ok_def)
    moreover have "\<exists>n. asked ?s = frames_of (take n ?heard)"
      by (rule heard_some[OF D(3)[OF i]])
    moreover have "i \<in> rm_members r \<and> asked ?s = frames_of ?heard" if "conn_st ?s = kConnected"
    proof -
      have "conn_calls ?s = [True]" using D(3)[OF i] that by (simp add: heard_ok_def)
      then show ?thesis using D(3)[OF i] D(4)[of i] D(5)[OF i] that by (auto simp: heard_ok_def)
    qed
    ultimately show ?thesis using client_parses[OF ok i] unfolding Let_def by blast
  qed
qed

text \<open>Two clients come; the first one says [7], which both are sent.\<close>

theorem room_hears_one_log_witness:
  "\<exists>r. reach room_init (guarded room_pre room_exec) r \<and> rm_members r = {0, 1} \<and> rm_log r = [(0, [7])] \<and>
     asked (cl_conns (rm_loop r) ! 1) = frame [7]"
proof -
  let ?none = "\<lambda>_ _. WriteErr 11" and ?all = "\<lambda>k. Wrote k"
  let ?r0 = "room_new ep_new"
  let ?come = "[RmAccept 5 64, RmAccept 6 65, RmPending 0 ?none, RmPending 1 ?none]"
  let ?say = "RmEvents 0 POLLIN (\<lambda>k. ReadOk (take k (frame [7]))) ?all (\<lambda>_ _. ?all) [0, 1]"
  have r0: "reach room_init (guarded room_pre room_exec) ?r0"
    by (rule reach_init) (use ep_new_ok in \<open>auto simp: room_init_def\<close>)
  obtain b where b: "readFd (ReadOk (frame [7])) buffer_new = Inr (5, None, b)" "buffer_ok b" "contents b = frame [7]"
    using readFd_ok[OF buffer_new_ok, of "frame [7]"] by (auto simp: length_frame extrabuf_size_def vec_max_def)
  have "parse_frames (contents b) = ([[7]], [], False)"
    using parse_frame_append[of "[7]" "[]" "[]" "[]" False] b(3) by (simp add: parse_short)
  from onMessage_loop_parse[OF b(2) this, of "[]"] obtain b' where
    b': "onMessage b = Some (Inr (b', [[7]], False))" "readableBytes b' = 0" by (auto simp: onMessage_def readableBytes_contents)
  have five: "take (writableBytes buffer_new + extrabuf_size) (frame [7]) = frame [7]" by (simp add: length_frame extrabuf_size_def)
  have peek: "peek_bytes (readableBytes b) b = Inr (frame [7])"
    using b(2,3) by (simp add: readableBytes_contents peek_bytes_contents)
  have env: "rd_ok (\<lambda>k. ReadOk (take k (frame [7])))" "wr_ok ?all" "{0, Suc 0} = {Suc 0, 0}"
    "0 < extrabuf_size" "frame [7] \<noteq> []"
    by (auto simp: rd_ok_def wr_ok_def extrabuf_size_def frame_def)
  have "case run_guarded room_pre room_exec ?r0 (?come @ [?say]) of None \<Rightarrow> False | Some r \<Rightarrow>
      rm_members r = {0, 1} \<and> conn_st (cl_conns (rm_loop r) ! 1) = kConnected \<and> rm_log r = [(0, [7])] \<and>
      rm_since r 1 = 0 \<and> length (cl_conns (rm_loop r)) = 2"
    by (simp add: room_new_def on_loop_def room_pending_def room_events_def room_read_def room_onMessage_def at_conn_def put_conn_def
        nobody_def conn_at_def live_at_def run_batch_nil bind_return room_onConnection_def conn_eval b b' five peek env codec_wire_frame length_frame del: readFd_def)
  then obtain r where r: "run_guarded room_pre room_exec ?r0 (?come @ [?say]) = Some r" "rm_members r = {0, 1}"
    "conn_st (cl_conns (rm_loop r) ! 1) = kConnected" "rm_log r = [(0, [7])]" "rm_since r 1 = 0" "length (cl_conns (rm_loop r)) = 2"
    by (elim case_option_Some conjE) blast
  have run: "reach room_init (guarded room_pre room_exec) r" by (rule reach_run_guarded[OF r0 r(1)])
  from room_hears_one_log[OF run] have "\<forall>i < length (cl_conns (rm_loop r)). conn_st (cl_conns (rm_loop r) ! i) = kConnected \<longrightarrow>
      asked (cl_conns (rm_loop r) ! i) = frames_of (drop (rm_since r i) (rm_log r))" by (simp add: Let_def)
  with r have "asked (cl_conns (rm_loop r) ! 1) = frame [7]" by (simp add: frames_of_def)
  with run r show ?thesis by blast
qed
end
