(* ===== verification/TimedWait.thy ===== *)
theory TimedWait
  imports Complex_Main Locking
begin

text \<open>
  base/Condition.h: \<^verbatim>\<open>waitForSeconds\<close>, a wait on the condition of \<open>Locking\<close> that also ends when a deadline
  has passed.
\<close>

section \<open>The deadline\<close>

text \<open>
  The deadline is the real time plus the seconds, cut to a whole number by the
  cast to \<^verbatim>\<open>time_t\<close>, with the nanoseconds of the present; the result is whether it passed before a
  notification came.
\<close>

type_synonym timespec = "int \<times> int"

definition to_time_t :: "rat \<Rightarrow> int" where
  "to_time_t x = (if x < 0 then \<lceil>x\<rceil> else \<lfloor>x\<rfloor>)"

definition abstime :: "rat \<Rightarrow> timespec \<Rightarrow> timespec" where
  "abstime seconds now = (fst now + to_time_t seconds, snd now)"

definition past :: "timespec \<Rightarrow> timespec \<Rightarrow> bool" where
  "past t now \<longleftrightarrow> fst t < fst now \<or> fst t = fst now \<and> snd t \<le> snd now"

text \<open>
  Any number of threads in \<^verbatim>\<open>waitForSeconds\<close> on one condition. \<open>tw_result\<close> is what a thread is about to
  return once it has the mutex again; \<open>tw_returned\<close> records each return: the thread, its
  deadline, the time and the result. The clock does not go back.
\<close>

record timed =
  tw_cond :: cond
  tw_mutex :: mutex
  tw_clock :: timespec
  tw_deadline :: "nat \<Rightarrow> timespec"
  tw_result :: "nat \<Rightarrow> bool"
  tw_returned :: "(nat \<times> timespec \<times> timespec \<times> bool) list"

definition timed_wait :: "nat \<Rightarrow> rat \<Rightarrow> timed \<Rightarrow> timed" where
  "timed_wait t seconds s =
     (let (c, m) = cond_wait t (tw_cond s, tw_mutex s)
      in s\<lparr>tw_cond := c, tw_mutex := m, tw_deadline := (tw_deadline s)(t := abstime seconds (tw_clock s)),
           tw_result := (tw_result s)(t := False)\<rparr>)"

definition timed_return :: "nat \<Rightarrow> cond \<times> mutex \<Rightarrow> timed \<Rightarrow> timed" where
  "timed_return t x s = s\<lparr>tw_cond := fst x, tw_mutex := snd x,
     tw_returned := tw_returned s @ [(t, tw_deadline s t, tw_clock s, tw_result s t)]\<rparr>"

inductive timed_step :: "timed \<Rightarrow> timed \<Rightarrow> bool" where
  take: "tw_cond s t = Awake \<Longrightarrow> mutex_lock t (tw_mutex s) = Some m \<Longrightarrow> timed_step s (s\<lparr>tw_mutex := m\<rparr>)"
| give: "tw_cond s t = Awake \<Longrightarrow> tw_mutex s = Some t \<Longrightarrow> timed_step s (s\<lparr>tw_mutex := mutex_unlock (tw_mutex s)\<rparr>)"
| sleep: "tw_cond s t = Awake \<Longrightarrow> tw_mutex s = Some t \<Longrightarrow> timed_step s (timed_wait t seconds s)"
| notify: "timed_step s (s\<lparr>tw_cond := cond_notify t (tw_cond s)\<rparr>)"
| time: "past (tw_clock s) now \<Longrightarrow> timed_step s (s\<lparr>tw_clock := now\<rparr>)"
| timeout: "tw_cond s t = Asleep \<Longrightarrow> past (tw_deadline s t) (tw_clock s) \<Longrightarrow>
    timed_step s (s\<lparr>tw_cond := (tw_cond s)(t := Woken), tw_result := (tw_result s)(t := True)\<rparr>)"
| wake: "cond_relock t (tw_cond s, tw_mutex s) = Some x \<Longrightarrow> timed_step s (timed_return t x s)"

definition timed_init :: "timed \<Rightarrow> bool" where
  "timed_init s \<longleftrightarrow> tw_cond s = (\<lambda>_. Awake) \<and> tw_mutex s = mutex_new \<and> tw_returned s = []"

definition timed_inv :: "timed \<Rightarrow> bool" where
  "timed_inv s \<longleftrightarrow> (\<forall>t. tw_mutex s = Some t \<longrightarrow> tw_cond s t = Awake) \<and>
     (\<forall>t. tw_cond s t = Asleep \<longrightarrow> \<not> tw_result s t) \<and>
     (\<forall>t. tw_cond s t = Woken \<and> tw_result s t \<longrightarrow> past (tw_deadline s t) (tw_clock s)) \<and>
     (\<forall>(t, d, now, r) \<in> set (tw_returned s). r \<longrightarrow> past d now)"

lemma past_trans: "past a b \<Longrightarrow> past b c \<Longrightarrow> past a c"
  by (auto simp: past_def)

lemma timed_step_inv:
  assumes "timed_inv s" "timed_step s s'"
  shows "timed_inv s'"
  using assms(2)
proof cases
  case (time now)
  with assms(1) past_trans[of _ "tw_clock s" now] show ?thesis by (auto simp: timed_inv_def)
next
  case (wake t x)
  then have x: "tw_cond s t = Woken" "tw_mutex s = None" "x = ((tw_cond s)(t := Awake), Some t)"
    by (auto simp: cond_relock_def split: if_splits)
  with assms(1) wake(1) show ?thesis by (auto simp: timed_inv_def timed_return_def)
qed (use assms(1) in \<open>auto simp: timed_inv_def timed_wait_def cond_wait_def cond_notify_def mutex_unlock_def split: if_splits\<close>)

lemma timed_init_inv: "timed_init s \<Longrightarrow> timed_inv s"
  by (auto simp: timed_init_def timed_inv_def mutex_new_def)

interpretation timed: machine timed_init timed_step timed_inv
  by unfold_locales (rule timed_init_inv timed_step_inv, assumption+)+

text \<open>
  A timed wait ends. It says that it timed out only when its deadline has passed; and a thread
  whose deadline has passed can, whenever the mutex is free, return by its own steps.
\<close>

theorem timed_wait_ends:
  assumes "reach timed_init timed_step s"
  shows "(\<forall>(t, d, now, r) \<in> set (tw_returned s). r \<longrightarrow> past d now) \<and>
    (\<forall>t. tw_cond s t \<noteq> Awake \<and> past (tw_deadline s t) (tw_clock s) \<and> tw_mutex s = None \<longrightarrow>
       (\<exists>s' r. timed_step\<^sup>*\<^sup>* s s' \<and> tw_cond s' t = Awake \<and>
          tw_returned s' = tw_returned s @ [(t, tw_deadline s t, tw_clock s, r)]))"
proof (intro conjI allI impI)
  show "\<forall>(t, d, now, r) \<in> set (tw_returned s). r \<longrightarrow> past d now"
    using timed.reach_inv[OF assms] by (simp add: timed_inv_def)
next
  fix t
  assume a: "tw_cond s t \<noteq> Awake \<and> past (tw_deadline s t) (tw_clock s) \<and> tw_mutex s = None"
  have ends: "\<exists>s' r. timed_step\<^sup>*\<^sup>* u s' \<and> tw_cond s' t = Awake \<and>
      tw_returned s' = tw_returned u @ [(t, tw_deadline u t, tw_clock u, r)]"
    if "tw_cond u t = Woken" "tw_mutex u = None" for u
  proof -
    have "cond_relock t (tw_cond u, tw_mutex u) = Some ((tw_cond u)(t := Awake), Some t)"
      using that by (simp add: cond_relock_def mutex_lock_def)
    from timed_step.wake[OF this] show ?thesis
      by (intro exI[of _ "timed_return t ((tw_cond u)(t := Awake), Some t) u"] exI[of _ "tw_result u t"])
        (auto simp: timed_return_def)
  qed
  show "\<exists>s' r. timed_step\<^sup>*\<^sup>* s s' \<and> tw_cond s' t = Awake \<and>
      tw_returned s' = tw_returned s @ [(t, tw_deadline s t, tw_clock s, r)]"
  proof (cases "tw_cond s t")
    case Asleep
    let ?u = "s\<lparr>tw_cond := (tw_cond s)(t := Woken), tw_result := (tw_result s)(t := True)\<rparr>"
    have "timed_step s ?u" by (rule timed_step.timeout) (use Asleep a in auto)
    moreover from ends[of ?u] a obtain s' r where "timed_step\<^sup>*\<^sup>* ?u s'" "tw_cond s' t = Awake"
      "tw_returned s' = tw_returned s @ [(t, tw_deadline s t, tw_clock s, r)]" by auto
    ultimately show ?thesis by (meson converse_rtranclp_into_rtranclp)
  qed (use a ends[of s] in auto)
qed

text \<open>The fraction of a second does not count: a wait of 0.9 seconds has passed when it begins.\<close>

lemma fraction_is_cut: "past (abstime (9 / 10) now) now"
proof -
  have "\<lfloor>9 / 10 :: rat\<rfloor> = 0" by (simp add: floor_eq_iff)
  then show ?thesis by (simp add: abstime_def to_time_t_def past_def)
qed

theorem timed_wait_ends_witness:
  "\<exists>s s'. reach timed_init timed_step s \<and> tw_cond s 3 = Asleep \<and> timed_step\<^sup>*\<^sup>* s s' \<and> tw_cond s' 3 = Awake"
proof -
  let ?s0 = "\<lparr>tw_cond = (\<lambda>_. Awake), tw_mutex = None, tw_clock = (100, 5), tw_deadline = (\<lambda>_. (0, 0)),
    tw_result = (\<lambda>_. False), tw_returned = []\<rparr>"
  let ?s1 = "?s0\<lparr>tw_mutex := Some 3\<rparr>"
  let ?s2 = "timed_wait 3 (9 / 10) ?s1"
  have r0: "reach timed_init timed_step ?s0" by (rule reach_init) (simp add: timed_init_def mutex_new_def)
  have "timed_step ?s0 (?s0\<lparr>tw_mutex := Some 3\<rparr>)" by (rule timed_step.take[of _ 3]) simp_all
  then have r1: "reach timed_init timed_step ?s1" by (rule reach_step[OF r0])
  have "timed_step ?s1 ?s2" by (rule timed_step.sleep) simp_all
  then have r: "reach timed_init timed_step ?s2" by (rule reach_step[OF r1])
  have s2: "tw_cond ?s2 3 = Asleep" "tw_mutex ?s2 = None" "tw_deadline ?s2 3 = abstime (9 / 10) (100, 5)" "tw_clock ?s2 = (100, 5)"
    by (simp_all add: timed_wait_def cond_wait_def mutex_unlock_def)
  have "tw_cond ?s2 3 \<noteq> Awake \<and> past (tw_deadline ?s2 3) (tw_clock ?s2) \<and> tw_mutex ?s2 = None"
    unfolding s2 using fraction_is_cut by simp
  with conjunct2[OF timed_wait_ends[OF r]] obtain s' where "timed_step\<^sup>*\<^sup>* ?s2 s'" "tw_cond s' 3 = Awake" by blast
  with r s2(1) show ?thesis by blast
qed

end
