(* ===== verification/ThreadObject.thy ===== *)
theory ThreadObject
  imports Contracts LogStream
begin

text \<open>
  base/Thread.h, base/Thread.cc, base/CurrentThread.h: \<^verbatim>\<open>Thread\<close> objects and the threads of the kernel
  they stand for, any number of each. A thread reaches its object through the pointers in its
  \<^verbatim>\<open>ThreadData\<close> until it has counted the latch down; \<^verbatim>\<open>start()\<close> waits for that. Each operation is one
  access to the shared state. (\<open>Threads\<close> has the one thread of an \<^verbatim>\<open>EventLoopThread\<close> and its loop.)
\<close>

section \<open>CurrentThread\<close>

record current_thread =
  t_cachedTid :: int
  t_tidString :: string
  t_tidStringLength :: int
  t_threadName :: string

definition current_thread_new :: current_thread where
  "current_thread_new = \<lparr>t_cachedTid = 0, t_tidString = [], t_tidStringLength = 6, t_threadName = ''default''\<rparr>"

text \<open>\<open>gettid\<close> is what the kernel says; \<^verbatim>\<open>snprintf\<close> returns the length of the whole text.\<close>

definition cacheTid :: "int \<Rightarrow> current_thread \<Rightarrow> current_thread" where
  "cacheTid gettid t =
     (if t_cachedTid t = 0
      then let text = convert gettid @ '' '' in
           t\<lparr>t_cachedTid := gettid, t_tidString := snprintf 32 text, t_tidStringLength := int (length text)\<rparr>
      else t)"

definition ct_tid :: "int \<Rightarrow> current_thread \<Rightarrow> int \<times> current_thread" where
  "ct_tid gettid t =
     (let t1 = (if t_cachedTid t = 0 then cacheTid gettid t else t) in (t_cachedTid t1, t1))"

section \<open>State\<close>

text \<open>Where a thread is: at its beginning, its identifier stored, the latch counted down, in \<^verbatim>\<open>func_\<close>, ended.\<close>

datatype run_pc = RBegin | RTid | RLatched | RFunc | REnded

record thread_data =
  td_name :: string
  td_thread :: nat

text \<open>
  The kernel keeps a thread until it is joined or detached. \<open>kt_gettid\<close> is its identifier,
  \<open>kt_comm\<close> the name set with \<^verbatim>\<open>prctl\<close>, at most 15 characters.
\<close>

record kthread =
  kt_pc :: run_pc
  kt_gettid :: int
  kt_tls :: current_thread
  kt_data :: "thread_data option"
  kt_comm :: string
  kt_joined :: bool
  kt_detached :: bool

text \<open>\<open>starting\<close> is whether \<^verbatim>\<open>start()\<close> is at the latch.\<close>

record thread_obj =
  started :: bool
  joined :: bool
  pthreadId :: nat
  obj_tid :: int
  obj_name :: string
  obj_latch :: int
  starting :: bool

record threads =
  thread_objs :: "nat \<rightharpoonup> thread_obj"
  kthreads :: "nat \<rightharpoonup> kthread"

definition obj_deref :: "nat \<Rightarrow> threads \<Rightarrow> thread_obj res" where
  "obj_deref p s = (case thread_objs s p of None \<Rightarrow> Inl UseAfterFree | Some x \<Rightarrow> Inr x)"

definition put_obj :: "nat \<Rightarrow> thread_obj \<Rightarrow> threads \<Rightarrow> threads" where
  "put_obj p x s = s\<lparr>thread_objs := (thread_objs s)(p \<mapsto> x)\<rparr>"

definition put_kthread :: "nat \<Rightarrow> kthread \<Rightarrow> threads \<Rightarrow> threads" where
  "put_kthread t k s = s\<lparr>kthreads := (kthreads s)(t \<mapsto> k)\<rparr>"

section \<open>The operations of Thread\<close>

definition setDefaultName :: "string \<Rightarrow> string" where
  "setDefaultName name = (if name = [] then snprintf 32 ''Thread'' else name)"

definition thread_new :: "string \<Rightarrow> thread_obj" where
  "thread_new name = \<lparr>started = False, joined = False, pthreadId = 0, obj_tid = 0,
     obj_name = setDefaultName name, obj_latch = 1, starting = False\<rparr>"

text \<open>\<open>created\<close> is the thread \<^verbatim>\<open>pthread_create\<close> made, with its identifier, or nothing if it failed.\<close>

definition start_thread :: "nat \<Rightarrow> (nat \<times> int) option \<Rightarrow> threads \<Rightarrow> threads res" where
  "start_thread p created s =
     bindR (obj_deref p s) (\<lambda>x.
     bindR (assertR (\<not> started x)) (\<lambda>_.
     case created of
       None \<Rightarrow> Inr (put_obj p (x\<lparr>started := False\<rparr>) s)
     | Some (t, tid) \<Rightarrow>
         Inr (put_kthread t \<lparr>kt_pc = RBegin, kt_gettid = tid, kt_tls = current_thread_new,
                kt_data = Some \<lparr>td_name = obj_name x, td_thread = p\<rparr>, kt_comm = [], kt_joined = False,
                kt_detached = False\<rparr>
              (put_obj p (x\<lparr>started := True, pthreadId := t, starting := True\<rparr>) s))))"

text \<open>The end of \<^verbatim>\<open>start()\<close>, when \<^verbatim>\<open>latch_.wait()\<close> returns.\<close>

definition start_return :: "nat \<Rightarrow> threads \<Rightarrow> threads res" where
  "start_return p s =
     bindR (obj_deref p s) (\<lambda>x.
     if starting x \<and> obj_latch x \<le> 0
     then bindR (assertR (obj_tid x > 0)) (\<lambda>_. Inr (put_obj p (x\<lparr>starting := False\<rparr>) s))
     else Inr s)"

text \<open>\<^verbatim>\<open>pthread_join\<close> and \<^verbatim>\<open>pthread_detach\<close> need a thread that is neither joined nor detached.\<close>

definition kernel_join :: "nat \<Rightarrow> threads \<Rightarrow> threads res" where
  "kernel_join t s = (case kthreads s t of
       None \<Rightarrow> Inl UseAfterFree
     | Some k \<Rightarrow> if kt_joined k \<or> kt_detached k then Inl UseAfterFree
                 else Inr (put_kthread t (k\<lparr>kt_joined := True\<rparr>) s))"

definition kernel_detach :: "nat \<Rightarrow> threads \<Rightarrow> threads res" where
  "kernel_detach t s = (case kthreads s t of
       None \<Rightarrow> Inl UseAfterFree
     | Some k \<Rightarrow> if kt_joined k \<or> kt_detached k then Inl UseAfterFree
                 else Inr (put_kthread t (k\<lparr>kt_detached := True\<rparr>) s))"

definition join_thread :: "nat \<Rightarrow> threads \<Rightarrow> threads res" where
  "join_thread p s =
     bindR (obj_deref p s) (\<lambda>x.
     bindR (assertR (started x)) (\<lambda>_.
     bindR (assertR (\<not> joined x)) (\<lambda>_.
     kernel_join (pthreadId x) (put_obj p (x\<lparr>joined := True\<rparr>) s))))"

definition thread_destroy :: "nat \<Rightarrow> threads \<Rightarrow> threads res" where
  "thread_destroy p s =
     bindR (obj_deref p s) (\<lambda>x.
     bindR (if started x \<and> \<not> joined x then kernel_detach (pthreadId x) s else Inr s) (\<lambda>s1.
     Inr (s1\<lparr>thread_objs := (thread_objs s1)(p := None)\<rparr>)))"

section \<open>runInThread\<close>

text \<open>The next step of the thread \<open>t\<close>; the last one also deletes the \<^verbatim>\<open>ThreadData\<close>.\<close>

definition runInThread :: "nat \<Rightarrow> threads \<Rightarrow> threads res" where
  "runInThread t s = (case kthreads s t of None \<Rightarrow> Inr s | Some k \<Rightarrow>
     (case kt_data k of None \<Rightarrow> Inr s | Some d \<Rightarrow>
       (case kt_pc k of
          RBegin \<Rightarrow> bindR (obj_deref (td_thread d) s) (\<lambda>x.
            let (tid, tls) = ct_tid (kt_gettid k) (kt_tls k) in
            Inr (put_kthread t (k\<lparr>kt_tls := tls, kt_pc := RTid\<rparr>)
                  (put_obj (td_thread d) (x\<lparr>obj_tid := tid\<rparr>) s)))
        | RTid \<Rightarrow> bindR (obj_deref (td_thread d) s) (\<lambda>x.
            Inr (put_kthread t (k\<lparr>kt_pc := RLatched\<rparr>)
                  (put_obj (td_thread d) (x\<lparr>obj_latch := obj_latch x - 1\<rparr>) s)))
        | RLatched \<Rightarrow>
            (let name = (if td_name d = [] then ''Thread'' else td_name d) in
             Inr (put_kthread t (k\<lparr>kt_tls := (kt_tls k)\<lparr>t_threadName := name\<rparr>, kt_comm := take 15 name,
                                  kt_pc := RFunc\<rparr>) s))
        | RFunc \<Rightarrow>
            Inr (put_kthread t (k\<lparr>kt_tls := (kt_tls k)\<lparr>t_threadName := ''finished''\<rparr>, kt_data := None,
                                 kt_pc := REnded\<rparr>) s)
        | REnded \<Rightarrow> Inr s)))"

datatype th_op =
    ThNew nat string
  | ThStart nat "(nat \<times> int) option"
  | ThStarted nat
  | ThJoin nat
  | ThDestroy nat
  | ThRun nat

fun th_exec :: "threads \<Rightarrow> th_op \<Rightarrow> threads res" where
  "th_exec s (ThNew p name) = Inr (put_obj p (thread_new name) s)"
| "th_exec s (ThStart p created) = start_thread p created s"
| "th_exec s (ThStarted p) = start_return p s"
| "th_exec s (ThJoin p) = join_thread p s"
| "th_exec s (ThDestroy p) = thread_destroy p s"
| "th_exec s (ThRun t) = runInThread t s"

text \<open>
  The rules: an object is started once, joined once and only after \<^verbatim>\<open>start()\<close> has returned, and not
  destroyed while \<^verbatim>\<open>start()\<close> is running; the kernel gives out new threads, with positive identifiers.
\<close>

fun th_pre :: "threads \<Rightarrow> th_op \<Rightarrow> bool" where
  "th_pre s (ThNew p name) \<longleftrightarrow> thread_objs s p = None"
| "th_pre s (ThStart p created) \<longleftrightarrow> (\<exists>x. thread_objs s p = Some x \<and> \<not> started x) \<and>
     (case created of None \<Rightarrow> True | Some (t, tid) \<Rightarrow> kthreads s t = None \<and> 0 < tid \<and> tid < 2 ^ 31)"
| "th_pre s (ThStarted p) \<longleftrightarrow> thread_objs s p \<noteq> None"
| "th_pre s (ThJoin p) \<longleftrightarrow> (\<exists>x. thread_objs s p = Some x \<and> started x \<and> \<not> joined x \<and> \<not> starting x)"
| "th_pre s (ThDestroy p) \<longleftrightarrow> (\<exists>x. thread_objs s p = Some x \<and> \<not> starting x)"
| "th_pre s (ThRun t) \<longleftrightarrow> True"

definition th_init :: "threads \<Rightarrow> bool" where
  "th_init s \<longleftrightarrow> thread_objs s = Map.empty \<and> kthreads s = Map.empty"

section \<open>Invariant\<close>

text \<open>A thread whose object must not go: it still has the pointers.\<close>

definition early :: "kthread \<Rightarrow> bool" where
  "early k \<longleftrightarrow> kt_pc k \<in> {RBegin, RTid}"

text \<open>The object \<open>p\<close> is responsible for the thread \<open>t\<close>.\<close>

definition holds :: "threads \<Rightarrow> nat \<Rightarrow> nat \<Rightarrow> bool" where
  "holds s p t \<longleftrightarrow> (\<exists>x. thread_objs s p = Some x \<and> started x \<and> \<not> joined x \<and> pthreadId x = t)"

definition kthread_ok :: "threads \<Rightarrow> nat \<Rightarrow> kthread \<Rightarrow> bool" where
  "kthread_ok s t k \<longleftrightarrow>
     \<not> (kt_joined k \<and> kt_detached k) \<and>
     (\<not> kt_joined k \<and> \<not> kt_detached k \<longleftrightarrow> (\<exists>p. holds s p t)) \<and>
     0 < kt_gettid k \<and> kt_gettid k < 2 ^ 31 \<and>
     (kt_data k = None \<longleftrightarrow> kt_pc k = REnded) \<and>
     (early k \<longrightarrow> (\<exists>d x. kt_data k = Some d \<and> thread_objs s (td_thread d) = Some x \<and>
        started x \<and> \<not> joined x \<and> starting x \<and> pthreadId x = t \<and> obj_latch x = 1 \<and>
        (kt_pc k = RTid \<longrightarrow> obj_tid x > 0))) \<and>
     (\<forall>d. kt_data k = Some d \<longrightarrow> td_name d \<noteq> []) \<and>
     (if kt_pc k = RBegin then kt_tls k = current_thread_new
      else t_cachedTid (kt_tls k) = kt_gettid k \<and> t_tidString (kt_tls k) = convert (kt_gettid k) @ '' '' \<and>
           t_tidStringLength (kt_tls k) = int (length (t_tidString (kt_tls k)))) \<and>
     (kt_pc k = RFunc \<longrightarrow> (\<exists>d. kt_data k = Some d \<and> t_threadName (kt_tls k) = td_name d))"

definition obj_ok :: "threads \<Rightarrow> thread_obj \<Rightarrow> bool" where
  "obj_ok s x \<longleftrightarrow> obj_name x \<noteq> [] \<and> (\<not> started x \<longrightarrow> obj_latch x = 1 \<and> \<not> joined x) \<and> (starting x \<longrightarrow> started x \<and> \<not> joined x) \<and>
     (started x \<and> \<not> joined x \<longrightarrow> (\<exists>k. kthreads s (pthreadId x) = Some k \<and>
        (starting x \<or> \<not> early k))) \<and>
     (starting x \<and> obj_latch x \<le> 0 \<longrightarrow> obj_tid x > 0)"

definition th_inv :: "threads \<Rightarrow> bool" where
  "th_inv s \<longleftrightarrow> (\<forall>t k. kthreads s t = Some k \<longrightarrow> kthread_ok s t k) \<and>
     (\<forall>p x. thread_objs s p = Some x \<longrightarrow> obj_ok s x) \<and>
     (\<forall>p q t. holds s p t \<and> holds s q t \<longrightarrow> p = q)"

lemma th_invD:
  assumes "th_inv s"
  shows "kthreads s t = Some k \<Longrightarrow> kthread_ok s t k" "thread_objs s p = Some x \<Longrightarrow> obj_ok s x"
    "holds s p t \<Longrightarrow> holds s q t \<Longrightarrow> p = q"
  using assms unfolding th_inv_def by blast+

lemma th_invI:
  assumes "\<And>t k. kthreads s t = Some k \<Longrightarrow> kthread_ok s t k"
    "\<And>p x. thread_objs s p = Some x \<Longrightarrow> obj_ok s x"
    "\<And>p q t. holds s p t \<Longrightarrow> holds s q t \<Longrightarrow> p = q"
  shows "th_inv s"
  using assms unfolding th_inv_def by blast

text \<open>Of the objects a thread is concerned with the one that is starting it.\<close>

lemma kthread_ok_frame:
  assumes "kthread_ok s t k" "(\<exists>q. holds s' q t) = (\<exists>q. holds s q t)"
    "\<And>q y. thread_objs s q = Some y \<Longrightarrow> starting y \<Longrightarrow> pthreadId y = t \<Longrightarrow> thread_objs s' q = Some y"
  shows "kthread_ok s' t k"
proof -
  have "early k \<longrightarrow> (\<exists>d x. kt_data k = Some d \<and> thread_objs s' (td_thread d) = Some x \<and>
        started x \<and> \<not> joined x \<and> starting x \<and> pthreadId x = t \<and> obj_latch x = 1 \<and>
        (kt_pc k = RTid \<longrightarrow> obj_tid x > 0))"
    using assms(1,3) unfolding kthread_ok_def by blast
  with assms(1) show ?thesis unfolding kthread_ok_def assms(2) by blast
qed

lemma put_fields [simp]:
  "thread_objs (put_obj p x s) = (thread_objs s)(p \<mapsto> x)" "kthreads (put_obj p x s) = kthreads s"
  "thread_objs (put_kthread t k s) = thread_objs s" "kthreads (put_kthread t k s) = (kthreads s)(t \<mapsto> k)"
  "put_kthread t k (put_obj p x s) = put_obj p x (put_kthread t k s)"
  by (simp_all add: put_obj_def put_kthread_def)

lemma obj_deref_Some [simp]: "thread_objs s p = Some x \<Longrightarrow> obj_deref p s = Inr x"
  by (simp add: obj_deref_def)

lemma early_held:
  assumes "th_inv s" "kthreads s t = Some k" "early k"
  obtains d x where "kt_data k = Some d" "thread_objs s (td_thread d) = Some x" "started x" "\<not> joined x" "starting x"
    "pthreadId x = t" "obj_latch x = 1" "kt_pc k = RTid \<Longrightarrow> obj_tid x > 0" "holds s (td_thread d) t"
  using th_invD(1)[OF assms(1,2)] assms(3) unfolding kthread_ok_def holds_def by blast

text \<open>A thread goes on.\<close>

lemma put_kthread_inv:
  assumes "th_inv s" "kthreads s t = Some k" "kthread_ok s t k'" "early k' \<longrightarrow> early k"
  shows "th_inv (put_kthread t k' s)"
proof -
  have same: "kthread_ok (put_kthread t k' s) u j = kthread_ok s u j" "holds (put_kthread t k' s) p u = holds s p u" for u j p
    by (simp_all add: kthread_ok_def holds_def)
  have "obj_ok (put_kthread t k' s) x" if "thread_objs s p = Some x" for p x
    using th_invD(2)[OF assms(1) that] assms(2,4) by (auto simp: obj_ok_def)
  with th_invD[OF assms(1)] assms(3) show ?thesis unfolding th_inv_def same by simp metis
qed

text \<open>An object changes and stays responsible for the same thread.\<close>

lemma put_obj_inv:
  assumes inv: "th_inv s" and x: "thread_objs s p = Some x" "obj_ok s x'"
    and resp: "started x' = started x" "joined x' = joined x" "pthreadId x' = pthreadId x"
    and keep: "\<And>k. kthreads s (pthreadId x) = Some k \<Longrightarrow> early k \<Longrightarrow> starting x \<Longrightarrow>
      starting x' \<and> obj_latch x' = 1 \<and> (kt_pc k = RTid \<longrightarrow> obj_tid x' > 0)"
  shows "th_inv (put_obj p x' s)"
proof -
  have holds: "holds (put_obj p x' s) q t = holds s q t" for q t
    using x resp by (simp add: holds_def)
  have k: "kthread_ok (put_obj p x' s) t k" if k: "kthreads s t = Some k" for t k
  proof (cases "early k")
    case True
    from early_held[OF inv k True] obtain d y where d: "kt_data k = Some d" "thread_objs s (td_thread d) = Some y"
      "started y" "\<not> joined y" "starting y" "pthreadId y = t" "obj_latch y = 1" "kt_pc k = RTid \<longrightarrow> obj_tid y > 0" by blast
    have "\<exists>d x. kt_data k = Some d \<and> thread_objs (put_obj p x' s) (td_thread d) = Some x \<and>
        started x \<and> \<not> joined x \<and> starting x \<and> pthreadId x = t \<and> obj_latch x = 1 \<and> (kt_pc k = RTid \<longrightarrow> obj_tid x > 0)"
    proof (cases "td_thread d = p")
      case True
      with x d have "y = x" by simp
      with keep[of k] k True d resp \<open>early k\<close> show ?thesis by auto
    qed (use d in auto)
    with th_invD(1)[OF inv k] show ?thesis unfolding kthread_ok_def holds by blast
  next
    case False
    with th_invD(1)[OF inv k] show ?thesis unfolding kthread_ok_def holds by blast
  qed
  show ?thesis
  proof (rule th_invI)
    show "obj_ok (put_obj p x' s) y" if "thread_objs (put_obj p x' s) q = Some y" for q y
    proof (cases "q = p")
      case True
      with that x(2) show ?thesis by (simp add: obj_ok_def)
    next
      case False
      with that have "obj_ok s y" using th_invD(2)[OF inv] by simp
      then show ?thesis by (simp add: obj_ok_def)
    qed
  qed (use k th_invD(3)[OF inv] in \<open>simp_all add: holds\<close>)
qed

text \<open>An object gives up its thread, when \<^verbatim>\<open>start()\<close> is over.\<close>

lemma release_inv:
  assumes inv: "th_inv s" and x: "thread_objs s p = Some x" "started x" "\<not> joined x" "\<not> starting x"
    and k: "kthreads s (pthreadId x) = Some k" "\<not> early k"
    and k': "k' = k\<lparr>kt_joined := True\<rparr> \<or> k' = k\<lparr>kt_detached := True\<rparr>"
    and y: "y = None \<or> y = Some (x\<lparr>joined := True\<rparr>)"
    and s': "thread_objs s' = (thread_objs s)(p := y)" "kthreads s' = (kthreads s)(pthreadId x \<mapsto> k')"
  shows "th_inv s'"
proof -
  let ?t = "pthreadId x"
  have "holds s p ?t" using x by (simp add: holds_def)
  note only = th_invD(3)[OF inv this]
  have holds: "holds s' q t \<longleftrightarrow> q \<noteq> p \<and> holds s q t" for q t
    using y s'(1) by (auto simp: holds_def)
  have free: "\<not> holds s' q ?t" for q using only[of q] holds by blast
  have other: "holds s' q t = holds s q t" if "t \<noteq> ?t" for q t
    using that holds x by (auto simp: holds_def)
  have nk: "\<not> kt_joined k" "\<not> kt_detached k"
    using th_invD(1)[OF inv k(1)] \<open>holds s p ?t\<close> unfolding kthread_ok_def by blast+
  have e: "early k' = early k" using k' by (auto simp: early_def)
  have "kthread_ok s' ?t k'"
    using th_invD(1)[OF inv k(1)] k(2) nk k' e free by (auto simp: kthread_ok_def)
  moreover have "kthread_ok s' t j" if j: "kthreads s t = Some j" "t \<noteq> ?t" for t j
  proof (rule kthread_ok_frame[OF th_invD(1)[OF inv j(1)]])
    show "thread_objs s' q = Some z" if "thread_objs s q = Some z" "starting z" for q z
      using that x s'(1) by auto
  qed (simp add: other[OF j(2)])
  ultimately have ks: "\<forall>t j. kthreads s' t = Some j \<longrightarrow> kthread_ok s' t j" using s'(2) by auto
  have "obj_ok s' z" if z: "thread_objs s' q = Some z" for q z
  proof (cases "q = p")
    case True
    with z y s'(1) th_invD(2)[OF inv x(1)] x show ?thesis by (auto simp: obj_ok_def)
  next
    case False
    with z s'(1) have "obj_ok s z" using th_invD(2)[OF inv] by simp
    with e k(1) s'(2) show ?thesis by (auto simp: obj_ok_def)
  qed
  with ks th_invD(3)[OF inv] holds show ?thesis unfolding th_inv_def by blast
qed

section \<open>Every operation keeps it\<close>

abbreviation th_fine :: "threads res \<Rightarrow> bool" where
  "th_fine r \<equiv> ends (\<lambda>e. False) th_inv r"

lemma th_new_ok:
  assumes "th_inv s" "thread_objs s p = None"
  shows "th_inv (put_obj p (thread_new name) s)"
proof -
  have new: "\<not> started (thread_new name)" "obj_ok s' (thread_new name)" for s'
    by (simp_all add: thread_new_def obj_ok_def setDefaultName_def snprintf_def)
  have holds: "holds (put_obj p (thread_new name) s) q t = holds s q t" for q t
    using assms(2) new(1) by (simp add: holds_def)
  show ?thesis
  proof (rule th_invI)
    show "kthread_ok (put_obj p (thread_new name) s) t k" if "kthreads (put_obj p (thread_new name) s) t = Some k" for t k
      by (rule kthread_ok_frame[of s]) (use that th_invD(1)[OF assms(1)] assms(2) in \<open>auto simp: holds\<close>)
    show "obj_ok (put_obj p (thread_new name) s) x" if x: "thread_objs (put_obj p (thread_new name) s) q = Some x" for q x
    proof (cases "q = p")
      case False
      with x th_invD(2)[OF assms(1)] show ?thesis by (simp add: obj_ok_def)
    qed (use x new(2) in simp)
  qed (use th_invD(3)[OF assms(1)] in \<open>simp add: holds\<close>)
qed

lemma start_thread_ok:
  assumes inv: "th_inv s" and pre: "th_pre s (ThStart p created)"
  shows "th_fine (start_thread p created s)"
proof -
  obtain x where x: "thread_objs s p = Some x" "\<not> started x" using pre by auto
  note ok = th_invD(2)[OF inv x(1), unfolded obj_ok_def]
  show ?thesis
  proof (cases created)
    case None
    have "x\<lparr>started := False\<rparr> = x" using x(2) by (cases x) simp
    then have "put_obj p (x\<lparr>started := False\<rparr>) s = s" using x(1) by (simp add: put_obj_def fun_upd_idem)
    with None x inv show ?thesis by (simp add: start_thread_def)
  next
    case (Some tt)
    obtain t tid where tt: "tt = (t, tid)" by (cases tt)
    with pre Some have t: "kthreads s t = None" "0 < tid" "tid < 2 ^ 31" by auto
    let ?k = "\<lparr>kt_pc = RBegin, kt_gettid = tid, kt_tls = current_thread_new,
      kt_data = Some \<lparr>td_name = obj_name x, td_thread = p\<rparr>, kt_comm = [], kt_joined = False, kt_detached = False\<rparr>"
    let ?x = "x\<lparr>started := True, pthreadId := t, starting := True\<rparr>"
    define s' where "s' = put_obj p ?x (put_kthread t ?k s)"
    have run: "start_thread p created s = Inr s'" using Some tt x by (simp add: start_thread_def s'_def)
    have none: "\<not> holds s q t" for q
    proof
      assume "holds s q t"
      then obtain y where "thread_objs s q = Some y" "started y" "\<not> joined y" "pthreadId y = t"
        by (auto simp: holds_def)
      with th_invD(2)[OF inv] t(1) show False unfolding obj_ok_def by fastforce
    qed
    have holds: "holds s' q u \<longleftrightarrow> (if q = p then u = t else holds s q u)" for q u
      using ok x by (auto simp: holds_def s'_def)
    have "\<not> holds s p u" for u using x by (simp add: holds_def)
    then have keep: "u \<noteq> t \<Longrightarrow> (\<exists>q. holds s' q u) = (\<exists>q. holds s q u)" for u using holds by metis
    have "kthread_ok s' t ?k"
      using ok x t holds by (auto simp: kthread_ok_def s'_def)
    moreover have "kthread_ok s' u k" if k: "kthreads s u = Some k" for u k
    proof -
      have u: "u \<noteq> t" using k t(1) by auto
      show ?thesis
        by (rule kthread_ok_frame[OF th_invD(1)[OF inv k] keep[OF u]]) (use x ok in \<open>auto simp: s'_def\<close>)
    qed
    ultimately have "\<forall>u k. kthreads s' u = Some k \<longrightarrow> kthread_ok s' u k" by (simp add: s'_def)
    moreover have "obj_ok s' y" if y: "thread_objs s' q = Some y" for q y
    proof (cases "q = p")
      case True
      with y ok x show ?thesis by (auto simp: obj_ok_def s'_def)
    next
      case False
      with y have "obj_ok s y" using th_invD(2)[OF inv] by (simp add: s'_def)
      with t(1) show ?thesis by (auto simp: obj_ok_def s'_def)
    qed
    moreover have "q = r" if "holds s' q u" "holds s' r u" for q r u
      using that none th_invD(3)[OF inv] unfolding holds by (metis (full_types))
    ultimately have "th_inv s'" by (intro th_invI) blast+
    with run show ?thesis by simp
  qed
qed

lemma start_return_ok:
  assumes "th_inv s" "thread_objs s p \<noteq> None"
  shows "th_fine (start_return p s)"
proof -
  obtain x where x: "thread_objs s p = Some x" using assms(2) by auto
  note ok = th_invD(2)[OF assms(1) x, unfolded obj_ok_def]
  have "th_inv (put_obj p (x\<lparr>starting := False\<rparr>) s)" if w: "starting x" "obj_latch x \<le> 0"
  proof (rule put_obj_inv[OF assms(1) x])
    have no: "\<not> early k" if k: "kthreads s (pthreadId x) = Some k" for k
    proof
      assume e: "early k"
      obtain d y where d: "kt_data k = Some d" and
        dy: "thread_objs s (td_thread d) = Some y" "obj_latch y = 1" "holds s (td_thread d) (pthreadId x)"
        by (rule early_held[OF assms(1) k e]) blast
      have "holds s p (pthreadId x)" using x w ok by (simp add: holds_def)
      from th_invD(3)[OF assms(1) this dy(3)] dy(1,2) x w(2) show False by simp
    qed
    with ok w show "obj_ok s (x\<lparr>starting := False\<rparr>)" by (auto simp: obj_ok_def)
    show "starting (x\<lparr>starting := False\<rparr>) \<and> obj_latch (x\<lparr>starting := False\<rparr>) = 1 \<and>
        (kt_pc k = RTid \<longrightarrow> obj_tid (x\<lparr>starting := False\<rparr>) > 0)"
      if "kthreads s (pthreadId x) = Some k" "early k" for k using no that by blast
  qed simp_all
  with x ok assms(1) show ?thesis by (simp add: start_return_def)
qed

lemma thread_release_ok:
  assumes "th_inv s" "thread_objs s p = Some x" "started x" "\<not> joined x" "\<not> starting x"
  obtains k where "kthreads s (pthreadId x) = Some k" "\<not> early k" "\<not> kt_joined k" "\<not> kt_detached k"
proof -
  obtain k where k: "kthreads s (pthreadId x) = Some k" "\<not> early k"
    using th_invD(2)[OF assms(1,2)] assms(3-5) by (auto simp: obj_ok_def)
  have "holds s p (pthreadId x)" using assms by (simp add: holds_def)
  with th_invD(1)[OF assms(1) k(1)] have "\<not> kt_joined k" "\<not> kt_detached k"
    unfolding kthread_ok_def by blast+
  with k that show thesis by blast
qed

lemma join_thread_ok:
  assumes "th_inv s" "th_pre s (ThJoin p)"
  shows "th_fine (join_thread p s)"
proof -
  obtain x where x: "thread_objs s p = Some x" "started x" "\<not> joined x" "\<not> starting x" using assms(2) by auto
  from thread_release_ok[OF assms(1) x] obtain k where
    k: "kthreads s (pthreadId x) = Some k" "\<not> early k" "\<not> kt_joined k" "\<not> kt_detached k" .
  let ?s = "put_kthread (pthreadId x) (k\<lparr>kt_joined := True\<rparr>) (put_obj p (x\<lparr>joined := True\<rparr>) s)"
  have "th_inv ?s" by (rule release_inv[OF assms(1) x k(1,2)]) simp_all
  with x k show ?thesis by (simp add: join_thread_def kernel_join_def)
qed

lemma thread_destroy_ok:
  assumes "th_inv s" "th_pre s (ThDestroy p)"
  shows "th_fine (thread_destroy p s)"
proof -
  obtain x where x: "thread_objs s p = Some x" "\<not> starting x" using assms(2) by auto
  show ?thesis
  proof (cases "started x \<and> \<not> joined x")
    case True
    then have st: "started x" "\<not> joined x" by simp_all
    from thread_release_ok[OF assms(1) x(1) st x(2)] obtain k where
      k: "kthreads s (pthreadId x) = Some k" "\<not> early k" "\<not> kt_joined k" "\<not> kt_detached k" .
    let ?s = "put_kthread (pthreadId x) (k\<lparr>kt_detached := True\<rparr>) s"
    have "th_inv (?s\<lparr>thread_objs := (thread_objs ?s)(p := None)\<rparr>)"
      by (rule release_inv[OF assms(1) x(1) st x(2) k(1,2)]) (simp_all add: put_kthread_def)
    with True x k show ?thesis by (simp add: thread_destroy_def kernel_detach_def)
  next
    case False
    let ?s = "s\<lparr>thread_objs := (thread_objs s)(p := None)\<rparr>"
    have holds: "holds ?s q t = holds s q t" for q t using False x by (auto simp: holds_def)
    have "th_inv ?s"
    proof (rule th_invI)
      show "kthread_ok ?s t k" if "kthreads ?s t = Some k" for t k
        by (rule kthread_ok_frame[of s]) (use that th_invD(1)[OF assms(1)] x in \<open>auto simp: holds\<close>)
      show "obj_ok ?s y" if "thread_objs ?s q = Some y" for q y
      proof -
        have "obj_ok s y" using that th_invD(2)[OF assms(1)] by (simp split: if_splits)
        then show ?thesis by (simp add: obj_ok_def)
      qed
    qed (use th_invD(3)[OF assms(1)] in \<open>simp add: holds\<close>)
    moreover have "thread_destroy p s = Inr ?s" using x(1) by (simp add: thread_destroy_def if_not_P[OF False] del: not_not de_Morgan_conj)
    ultimately show ?thesis by simp
  qed
qed

text \<open>The thread itself: it stores its identifier before it counts the latch down, and ends with its name.\<close>

lemma runInThread_ok:
  assumes inv: "th_inv s"
  shows "th_fine (runInThread t s)"
proof (cases "kthreads s t")
  case None
  with inv show ?thesis by (simp add: runInThread_def)
next
  case (Some k)
  note K = Some and ok = th_invD(1)[OF inv Some, unfolded kthread_ok_def]
  show ?thesis
  proof (cases "kt_data k")
    case None
    with inv K show ?thesis by (simp add: runInThread_def)
  next
    case (Some d)
    show ?thesis
    proof (cases "kt_pc k")
      case RBegin
      then have e: "early k" by (simp add: early_def)
      obtain d' x where d': "kt_data k = Some d'" "thread_objs s (td_thread d') = Some x" "started x" "\<not> joined x" "starting x"
        "pthreadId x = t" "obj_latch x = 1" "holds s (td_thread d') t" by (rule early_held[OF inv K e])
      with Some have x: "thread_objs s (td_thread d) = Some x" "holds s (td_thread d) t" by simp_all
      let ?tls = "cacheTid (kt_gettid k) (kt_tls k)"
      have new: "kt_tls k = current_thread_new" "0 < kt_gettid k" "kt_gettid k < 2 ^ 31" using ok RBegin by simp_all
      have len: "length (convert (kt_gettid k)) \<le> 20" by (rule length_convert) (use new in simp_all)
      have tls: "t_cachedTid ?tls = kt_gettid k" "t_tidString ?tls = convert (kt_gettid k) @ '' ''"
        "t_tidStringLength ?tls = int (length (t_tidString ?tls))"
        using new len by (simp_all add: cacheTid_def current_thread_new_def snprintf_def Let_def)
      let ?x = "x\<lparr>obj_tid := kt_gettid k\<rparr>" and ?k = "k\<lparr>kt_tls := ?tls, kt_pc := RTid\<rparr>"
      let ?s = "put_obj (td_thread d) ?x s"
      have s1: "th_inv ?s"
        by (rule put_obj_inv[OF inv x(1)])
          (use th_invD(2)[OF inv x(1)] d' new RBegin K in \<open>auto simp: obj_ok_def\<close>)
      have "kthread_ok ?s t k" using th_invD(1)[OF s1] K by simp
      then have "kthread_ok ?s t ?k"
        using e d' x new tls RBegin Some by (simp add: kthread_ok_def early_def holds_def)
      from put_kthread_inv[OF s1 _ this] K e have "th_inv (put_kthread t ?k ?s)" by simp
      moreover have "runInThread t s = Inr (put_kthread t ?k ?s)"
        using K Some RBegin x new tls by (simp add: runInThread_def ct_tid_def current_thread_new_def Let_def)
      ultimately show ?thesis by simp
    next
      case RTid
      then have e: "early k" by (simp add: early_def)
      obtain d' x where d': "kt_data k = Some d'" "thread_objs s (td_thread d') = Some x" "started x" "\<not> joined x" "starting x"
        "pthreadId x = t" "obj_latch x = 1" "kt_pc k = RTid \<longrightarrow> obj_tid x > 0" "holds s (td_thread d') t"
        by (rule early_held[OF inv K e]) blast
      with Some have x: "thread_objs s (td_thread d) = Some x" by simp
      let ?k = "k\<lparr>kt_pc := RLatched\<rparr>" and ?x = "x\<lparr>obj_latch := obj_latch x - 1\<rparr>"
      have "kthread_ok s t ?k" using ok RTid by (auto simp: kthread_ok_def early_def)
      from put_kthread_inv[OF inv K this] have s1: "th_inv (put_kthread t ?k s)" by (simp add: early_def)
      have "th_inv (put_obj (td_thread d) ?x (put_kthread t ?k s))"
        by (rule put_obj_inv[OF s1, of _ x])
          (use x d' RTid th_invD(2)[OF inv x] in \<open>auto simp: obj_ok_def early_def\<close>)
      then show ?thesis using K Some RTid x by (simp add: runInThread_def)
    next
      case RLatched
      let ?k = "k\<lparr>kt_tls := (kt_tls k)\<lparr>t_threadName := td_name d\<rparr>, kt_comm := take 15 (td_name d), kt_pc := RFunc\<rparr>"
      have "td_name d \<noteq> []" using ok Some by blast
      moreover have "kthread_ok s t ?k" using ok RLatched Some by (auto simp: kthread_ok_def early_def)
      from put_kthread_inv[OF inv K this] have "th_inv (put_kthread t ?k s)" by (simp add: early_def)
      ultimately show ?thesis using K Some RLatched by (simp add: runInThread_def Let_def)
    next
      case RFunc
      let ?k = "k\<lparr>kt_tls := (kt_tls k)\<lparr>t_threadName := ''finished''\<rparr>, kt_data := None, kt_pc := REnded\<rparr>"
      have "kthread_ok s t ?k" using ok RFunc by (auto simp: kthread_ok_def early_def)
      from put_kthread_inv[OF inv K this] have "th_inv (put_kthread t ?k s)" by (simp add: early_def)
      then show ?thesis using K Some RFunc by (simp add: runInThread_def)
    next
      case REnded
      with inv K Some show ?thesis by (simp add: runInThread_def)
    qed
  qed
qed

lemma th_exec_ok: "th_inv s \<Longrightarrow> th_pre s x \<Longrightarrow> th_fine (th_exec s x)"
  by (cases x) (simp_all add: th_new_ok start_thread_ok start_return_ok join_thread_ok thread_destroy_ok runInThread_ok
      del: th_pre.simps(2,4,5))

lemma th_init_inv: "th_init s \<Longrightarrow> th_inv s"
  by (simp add: th_init_def th_inv_def holds_def)

interpretation threads: guarded_object th_init th_pre th_exec th_inv "\<lambda>e. False"
  by unfold_locales (rule th_init_inv th_exec_ok, assumption+)+

section \<open>Properties\<close>

text \<open>
  C18: Threads and their objects. Whatever objects are made, started, joined and destroyed by the
  rules and however the threads run in between, no assert fails, no thread uses an object that is
  gone, and none is joined or detached twice. A thread of the kernel is released (joined or
  detached) or has exactly one object that is responsible for it, so none is ever leaked. And
  inside the function of a thread, \<^verbatim>\<open>CurrentThread\<close> knows who it is: its identifier, that number in
  decimal with its length, and the name its object had, which is never empty.
\<close>

theorem threads_reclaimed:
  assumes "reach th_init (guarded th_pre th_exec) s"
  shows "(\<forall>x. th_pre s x \<longrightarrow> (\<exists>s'. th_exec s x = Inr s')) \<and>
    (\<forall>t k. kthreads s t = Some k \<longrightarrow>
       \<not> (kt_joined k \<and> kt_detached k) \<and>
       (\<not> kt_joined k \<and> \<not> kt_detached k \<longrightarrow>
         (\<exists>!p. \<exists>x. thread_objs s p = Some x \<and> started x \<and> \<not> joined x \<and> pthreadId x = t))) \<and>
    (\<forall>t k. kthreads s t = Some k \<and> kt_pc k = RFunc \<longrightarrow>
       t_cachedTid (kt_tls k) = kt_gettid k \<and> t_tidString (kt_tls k) = convert (kt_gettid k) @ '' '' \<and>
       t_tidStringLength (kt_tls k) = int (length (t_tidString (kt_tls k))) \<and>
       (\<exists>d. kt_data k = Some d \<and> t_threadName (kt_tls k) = td_name d \<and> td_name d \<noteq> []))"
proof (intro conjI allI impI)
  have inv: "th_inv s" using threads.reach_inv[OF assms] .
  show "\<exists>s'. th_exec s x = Inr s'" if "th_pre s x" for x
    using th_exec_ok[OF inv that] by (cases "th_exec s x") simp_all
  fix t k
  {
    assume k: "kthreads s t = Some k"
    note ok = th_invD(1)[OF inv k, unfolded kthread_ok_def]
    show "\<not> (kt_joined k \<and> kt_detached k)" using ok by blast
    assume "\<not> kt_joined k \<and> \<not> kt_detached k"
    with ok have "\<exists>p. holds s p t" by blast
    with th_invD(3)[OF inv] have "\<exists>!p. holds s p t" by blast
    then show "\<exists>!p. \<exists>x. thread_objs s p = Some x \<and> started x \<and> \<not> joined x \<and> pthreadId x = t"
      unfolding holds_def .
  }
  assume k: "kthreads s t = Some k \<and> kt_pc k = RFunc"
  then have ok: "kthread_ok s t k" using th_invD(1)[OF inv] by blast
  show "t_cachedTid (kt_tls k) = kt_gettid k" "t_tidString (kt_tls k) = convert (kt_gettid k) @ '' ''"
    "t_tidStringLength (kt_tls k) = int (length (t_tidString (kt_tls k)))"
    using ok k by (simp_all add: kthread_ok_def)
  show "\<exists>d. kt_data k = Some d \<and> t_threadName (kt_tls k) = td_name d \<and> td_name d \<noteq> []"
    using ok k unfolding kthread_ok_def by blast
qed

text \<open>An object without a name starts the thread 3, with the identifier 77.\<close>

lemma threads_sample:
  "\<exists>s k. reach th_init (guarded th_pre th_exec) s \<and> kthreads s 3 = Some k \<and> kt_pc k = RFunc \<and> kt_gettid k = 77 \<and>
     th_pre s (ThStarted 1) \<and> \<not> kt_joined k \<and> \<not> kt_detached k"
proof -
  let ?s0 = "\<lparr>thread_objs = Map.empty, kthreads = Map.empty\<rparr>"
  let ?R = "reach th_init (guarded th_pre th_exec)"
  have r0: "?R ?s0" by (rule reach_init) (simp add: th_init_def)
  obtain s1 where s1: "th_exec ?s0 (ThNew 1 []) = Inr s1" by simp
  have r1: "?R s1" by (rule threads.reach_call[OF r0 _ s1]) simp
  have v1: "s1 = put_obj 1 (thread_new []) ?s0" using s1 by simp
  obtain s2 where s2: "th_exec s1 (ThStart 1 (Some (3, 77))) = Inr s2"
    unfolding v1 by (simp add: start_thread_def thread_new_def)
  have r2: "?R s2" by (rule threads.reach_call[OF r1 _ s2]) (simp add: v1 thread_new_def)
  have c: "convert 77 = ''77''" by code_simp
  have "case run_ops th_exec s2 [ThRun 3, ThRun 3, ThRun 3] of Inl _ \<Rightarrow> False | Inr s5 \<Rightarrow>
      (\<exists>k. kthreads s5 3 = Some k \<and> kt_pc k = RFunc \<and> kt_gettid k = 77 \<and> \<not> kt_joined k \<and> \<not> kt_detached k) \<and>
      thread_objs s5 1 \<noteq> None"
    using s2 unfolding v1
    by (auto simp: start_thread_def thread_new_def setDefaultName_def snprintf_def runInThread_def ct_tid_def
        cacheTid_def current_thread_new_def c Let_def)
  then obtain s3 s4 s5 k where s: "th_exec s2 (ThRun 3) = Inr s3" "th_exec s3 (ThRun 3) = Inr s4"
    "th_exec s4 (ThRun 3) = Inr s5" and k: "kthreads s5 3 = Some k" "kt_pc k = RFunc" "kt_gettid k = 77"
    "\<not> kt_joined k" "\<not> kt_detached k" "thread_objs s5 1 \<noteq> None"
    by (auto simp: bindR_eq_Inr split: sum.splits elim!: case_sum_Inr simp del: th_exec.simps)
  have r3: "?R s3" by (rule threads.reach_call[OF r2 _ s(1)]) simp
  have r4: "?R s4" by (rule threads.reach_call[OF r3 _ s(2)]) simp
  have r5: "?R s5" by (rule threads.reach_call[OF r4 _ s(3)]) simp
  with k show ?thesis by auto
qed

theorem threads_reclaimed_witness:
  "\<exists>s k. kthreads s 3 = Some k \<and> t_tidString (kt_tls k) = ''77 '' \<and>
     (\<exists>!p. \<exists>x. thread_objs s p = Some x \<and> started x \<and> \<not> joined x \<and> pthreadId x = 3) \<and>
     (\<exists>s'. th_exec s (ThStarted 1) = Inr s')"
proof -
  obtain s k where s: "reach th_init (guarded th_pre th_exec) s" "kthreads s 3 = Some k" "kt_pc k = RFunc" "kt_gettid k = 77"
    "th_pre s (ThStarted 1)" "\<not> kt_joined k" "\<not> kt_detached k"
    using threads_sample by blast
  have c: "convert 77 = ''77''" by code_simp
  note all = threads_reclaimed[OF s(1)]
  from all s(5) have "\<exists>s'. th_exec s (ThStarted 1) = Inr s'" by blast
  moreover from all s(2-4) c have "t_tidString (kt_tls k) = ''77 ''" by simp
  moreover from all s(2,6,7) have "\<exists>!p. \<exists>x. thread_objs s p = Some x \<and> started x \<and> \<not> joined x \<and> pthreadId x = 3"
    by blast
  ultimately show ?thesis using s(2) by blast
qed

text \<open>A thread is joined once: a second join fails the assert, whatever happened in between.\<close>

theorem second_join_aborts:
  assumes "join_thread p s = Inr s'"
  shows "join_thread p s' = Inl AssertFail"
proof -
  obtain x where x: "thread_objs s p = Some x" "started x" "\<not> joined x"
    using assms by (auto simp: join_thread_def obj_deref_def assertR_def split: option.splits if_splits)
  with assms have "thread_objs s' p = Some (x\<lparr>joined := True\<rparr>)"
    by (auto simp: join_thread_def kernel_join_def split: option.splits if_splits)
  with x(2) show ?thesis by (simp add: join_thread_def)
qed

theorem second_join_aborts_witness:
  "\<exists>s s'. join_thread 1 s = Inr s' \<and> join_thread 1 s' = Inl AssertFail"
proof -
  obtain s1 where "start_thread 1 (Some (3, 77)) \<lparr>thread_objs = [1 \<mapsto> thread_new ''a''], kthreads = Map.empty\<rparr> = Inr s1"
    "\<exists>s'. join_thread 1 s1 = Inr s'"
    by (simp add: start_thread_def thread_new_def join_thread_def kernel_join_def)
  then obtain s' where "join_thread 1 s1 = Inr s'" by blast
  with second_join_aborts[OF this] show ?thesis by blast
qed

end
