(* ===== verification/PingPongServer.thy ===== *)
theory PingPongServer
  imports ConnFrame
begin

text \<open>
  example/pingpong/server.cc: the server of the throughput test sends back whatever it gets. Its
  callbacks are put into the model of \<open>TcpConnection\<close>, with partial reads and writes.
\<close>

section \<open>The callbacks\<close>

text \<open>
  \<open>wr\<close> is the kernel's answer to the write of \<^verbatim>\<open>send\<close>. \<^verbatim>\<open>onConnection\<close> only sets an option of the
  socket.
\<close>

definition pingpong_server :: "kernel_write \<Rightarrow> user" where
  "pingpong_server wr ev = (case ev of
     OnConnection up \<Rightarrow> []
   | OnMessage buf \<Rightarrow> [UConsume (length buf), USend buf wr]
   | OnWriteComplete \<Rightarrow> [])"

text \<open>What happens to a connection of the server: events, and the functors of its loop.\<close>

datatype pps_op =
    PpsEvents "32 word" kernel_read kernel_write kernel_write
  | PpsPending "nat \<Rightarrow> kernel_write" kernel_write

fun pps_conn :: "pps_op \<Rightarrow> conn_op" where
  "pps_conn (PpsEvents ev rd wr w) = CEvents ev rd wr (pingpong_server w)"
| "pps_conn (PpsPending wr w) = CPending wr (pingpong_server w)"

fun pps_allowed :: "pps_op \<Rightarrow> bool" where
  "pps_allowed (PpsEvents ev rd wr w) \<longleftrightarrow> rd_ok rd \<and> wr_ok wr \<and> wr_ok w \<and>
     (callback_bits CloseCb ev \<longrightarrow> \<not> callback_bits ReadCb ev)"
| "pps_allowed (PpsPending wr w) \<longleftrightarrow> wr_ok w"

lemma pingpong_server_ok: "wr_ok w \<Longrightarrow> user_ok (pingpong_server w)"
  by (auto simp: user_ok_def pingpong_server_def split: user_event.splits)

lemma pps_conn_allowed: "pps_allowed x \<Longrightarrow> conn_allowed (pps_conn x)"
  by (cases x) (simp_all add: pingpong_server_ok)

section \<open>What stays\<close>

definition echoed :: "conn \<Rightarrow> bool" where
  "echoed s \<longleftrightarrow> asked s = received s \<and> buffer_ok (inputBuffer s) \<and> contents (inputBuffer s) = [] \<and>
     conn_st s \<noteq> kDisconnecting"

lemma same_streams_echoed: "same_streams s s' \<Longrightarrow> echoed s \<Longrightarrow> echoed s'"
  by (auto simp: same_streams_def echoed_def)

section \<open>Reading\<close>

lemma users_echo:
  assumes "run_ops user_exec s (pingpong_server w (OnMessage (contents (inputBuffer s)))) = Inr s'"
    "conn_st s = kConnected" "buffer_ok (inputBuffer s)"
  shows "asked s' = asked s @ contents (inputBuffer s) \<and> received s' = received s \<and>
    buffer_ok (inputBuffer s') \<and> contents (inputBuffer s') = [] \<and> conn_st s' = kConnected"
proof -
  let ?xs = "contents (inputBuffer s)"
  obtain b where b: "retrieve (length ?xs) (inputBuffer s) = Inr b" "buffer_ok b" "contents b = []"
    using retrieve_ok[OF assms(3), of "length ?xs"] by auto
  have "sendInLoop w ?xs (s\<lparr>inputBuffer := b, taken := taken s @ ?xs\<rparr>) = Inr s'"
    using assms b by (simp add: pingpong_server_def conn_send_def readableBytes_contents peek_bytes_contents bind_return)
  from send_same[OF this] b assms(2) show ?thesis by simp
qed

lemma read_echo:
  assumes run: "handleRead rd (pingpong_server w) s = Inr s'" and ok: "echoed s" "conn_st s = kConnected"
    and rd: "rd_ok rd"
  shows "echoed s' \<and> conn_st s' = kConnected"
proof -
  let ?n = "writableBytes (inputBuffer s) + extrabuf_size"
  have buf: "buffer_ok (inputBuffer s)" using ok by (simp add: echoed_def)
  show ?thesis
  proof (cases "rd ?n")
    case (ReadErr e)
    then have "s' = s\<lparr>inputBuffer := inputBuffer s, received := received s @ []\<rparr>"
      using run by (simp add: handleRead_def readFd_error)
    with ok show ?thesis by (simp add: echoed_def)
  next
    case (ReadOk xs)
    with rd have "length xs \<le> ?n" by (simp add: rd_ok_def)
    from readFd_total[OF buf this] run obtain b where
      b: "readFd (ReadOk xs) (inputBuffer s) = Inr (int (length xs), None, b)" "buffer_ok b" "contents b = contents (inputBuffer s) @ xs"
      by (auto simp: handleRead_def ReadOk)
    then have c: "contents b = xs" using ok(1) by (simp add: echoed_def)
    let ?s = "s\<lparr>inputBuffer := b, received := received s @ xs\<rparr>"
    show ?thesis
    proof (cases "xs = []")
      case True
      then have "handleClose ?s = Inr s'" using run b(1) by (simp add: handleRead_def ReadOk)
      from close_same[OF this] ok b(2) c True show ?thesis by (simp add: same_streams_def echoed_def)
    next
      case False
      then have "run_ops user_exec ?s (pingpong_server w (OnMessage (contents (inputBuffer ?s)))) = Inr s'"
        using run b(1,2) by (simp add: handleRead_def ReadOk readableBytes_contents peek_bytes_contents)
      from users_echo[OF this] b(2) ok c show ?thesis by (simp add: echoed_def)
    qed
  qed
qed

section \<open>Whole operations\<close>

lemma callback_echo:
  assumes "conn_callback rd wr (pingpong_server w) s k = Inr s'" "echoed s" "conn_st s = kConnected" "rd_ok rd"
  shows "echoed s' \<and> conn_st s' = kConnected"
proof (cases k)
  case ReadCb
  with assms read_echo show ?thesis by simp
next
  case CloseCb
  with assms(1) have "same_streams s s'" by (simp add: close_same)
  from same_streams_echoed[OF this assms(2)] this assms(3) show ?thesis by (simp add: same_streams_def)
next
  case WriteCb
  with assms(1,3) have "same_streams s s'" by (simp add: write_same)
  from same_streams_echoed[OF this assms(2)] this assms(3) show ?thesis by (simp add: same_streams_def)
qed (use assms in \<open>simp add: handleError_def\<close>)

lemma callbacks_echo:
  "run_ops (conn_callback rd wr (pingpong_server w)) s ks = Inr s' \<Longrightarrow> echoed s \<Longrightarrow> conn_st s = kConnected \<Longrightarrow>
   rd_ok rd \<Longrightarrow> echoed s'"
  by (induction ks arbitrary: s) (auto dest: callback_echo)

text \<open>Only a connected channel is watched.\<close>

lemma watched_connected:
  assumes "conn_ok s" "echoed s" "ep_interest (poller s) (sockfd s) \<noteq> None"
  shows "conn_st s = kConnected"
proof -
  consider "conn_fresh [] s" | "conn_dead s" | "conn_good [] s" using assms(1) by (auto simp: conn_ok_def)
  then show ?thesis
  proof cases
    case 1
    with no_interest(2)[of 0 s] assms(3) show ?thesis by (simp add: conn_fresh_def)
  next
    case 2
    with assms(3) show ?thesis by (simp add: conn_dead_def)
  next
    case 3
    then have "conn_st s \<noteq> kConnecting" by (auto simp: conn_good_def conn_active_def phase_ok_def)
    moreover have "conn_st s \<noteq> kDisconnected"
      using 3 no_interest(2)[of 0 s] assms(3) by (auto simp: conn_good_def)
    ultimately show ?thesis using assms(2) by (cases "conn_st s") (simp_all add: echoed_def)
  qed
qed

lemma functor_echo:
  assumes "run_functor wr (pingpong_server w) f s = Inr s'" "echoed s" "\<And>m. f \<noteq> FSendInLoop m"
  shows "echoed s'"
proof -
  have cb: "connectionCallback (pingpong_server w) t = Inr t' \<Longrightarrow> same_streams t t'" for t t'
    by (auto simp: connectionCallback_def pingpong_server_def same_streams_def)
  show ?thesis
  proof (cases f)
    case (FSendInLoop m)
    with assms(3) show ?thesis by blast
  next
    case FShutdownInLoop
    with assms(1,2) show ?thesis by (auto simp: shutdownInLoop_def echoed_def split: if_splits)
  next
    case FEstablished
    then obtain s1 where s1: "conn_change EnableReading (s\<lparr>conn_st := kConnected\<rparr>) = Inr s1"
      "connectionCallback (pingpong_server w) s1 = Inr s'" using assms(1) by (auto simp: connectEstablished_def)
    have "echoed (s\<lparr>conn_st := kConnected\<rparr>)" using assms(2) by (simp add: echoed_def)
    from same_streams_echoed[OF cb[OF s1(2)] same_streams_echoed[OF change_same[OF s1(1)] this]] show ?thesis .
  next
    case FDestroyed
    then obtain s1 s2 p where s1: "conn_change DisableAll (s\<lparr>conn_st := kDisconnected\<rparr>) = Inr s1"
      "connectionCallback (pingpong_server w) s1 = Inr s2" "s' = s2\<lparr>poller := p\<rparr>"
      using assms(1) by (auto simp: connectDestroyed_def)
    have "echoed (s\<lparr>conn_st := kDisconnected\<rparr>)" using assms(2) by (simp add: echoed_def)
    from same_streams_echoed[OF cb[OF s1(2)] same_streams_echoed[OF change_same[OF s1(1)] this]] s1(3)
    show ?thesis by (simp add: echoed_def)
  next
    case FWriteComplete
    with assms(1,2) show ?thesis by (simp add: pingpong_server_def)
  qed
qed

lemma batch_echo:
  "run_batch wr (pingpong_server w) i fs s = Inr s' \<Longrightarrow> echoed s \<Longrightarrow> (\<And>m. FSendInLoop m \<notin> set fs) \<Longrightarrow> echoed s'"
proof (induction fs arbitrary: i s)
  case (Cons f fs)
  then obtain s1 where s1: "run_functor (wr i) (pingpong_server w) f s = Inr s1"
    "run_batch wr (pingpong_server w) (i + 1) fs s1 = Inr s'" by (auto split: if_splits)
  have "f \<noteq> FSendInLoop m" for m using Cons.prems(3)[of m] by auto
  from Cons.IH[OF s1(2) functor_echo[OF s1(1) Cons.prems(2) this]] Cons.prems(3) show ?case by simp
qed simp

lemma pps_echo:
  assumes ok: "conn_ok s" "echoed s" and x: "pps_allowed x" and run: "conn_exec s (pps_conn x) = Inr s'"
  shows "echoed s'"
proof (cases x)
  case (PpsEvents ev rd wr w)
  show ?thesis
  proof (cases "handled s \<or> ep_interest (poller s) (sockfd s) = None")
    case True
    with run ok PpsEvents same_streams_echoed[OF release_same, of "s\<lparr>handled := True\<rparr>" s'] show ?thesis
      by (auto simp: conn_events_def echoed_def split: if_splits)
  next
    case False
    let ?s = "s\<lparr>handled := True\<rparr>"
    obtain s1 where s1: "run_ops (conn_callback rd wr (pingpong_server w)) ?s
        (due_callbacks ((conn_channel (sockfd s))\<lparr>revents := ev\<rparr>)) = Inr s1" "conn_release s1 = Inr s'"
      using run False PpsEvents by (auto simp: conn_events_def)
    have "echoed ?s" "conn_st ?s = kConnected"
      using ok watched_connected[OF ok] False by (simp_all add: echoed_def)
    from callbacks_echo[OF s1(1) this] x PpsEvents same_streams_echoed[OF release_same[OF s1(2)]] show ?thesis
      by simp
  qed
next
  case (PpsPending wr w)
  let ?s = "s\<lparr>handled := False, pending := []\<rparr>"
  obtain s1 where s1: "run_batch wr (pingpong_server w) 0 (pending s) ?s = Inr s1" "conn_release s1 = Inr s'"
    using run PpsPending by (auto simp: conn_pending_def)
  have "echoed ?s" using ok(2) by (simp add: echoed_def)
  moreover have "FSendInLoop m \<notin> set (pending s)" for m
    using no_posted_send[OF ok(1)] by (simp add: posted_send_def)
  ultimately have "echoed s1" using batch_echo[OF s1(1)] by blast
  with release_same[OF s1(2)] show ?thesis by (rule same_streams_echoed)
qed

interpretation pingpong: object "\<lambda>s x. conn_exec s (pps_conn x)" "\<lambda>s. conn_ok s \<and> echoed s" pps_allowed "\<lambda>e. e = LengthError"
proof
  show "ends (\<lambda>e. e = LengthError) (\<lambda>s. conn_ok s \<and> echoed s) (conn_exec s (pps_conn x))"
    if "conn_ok s \<and> echoed s" "pps_allowed x" for s x
    using conn_exec_ok[OF _ pps_conn_allowed, of s x] pps_echo[of s x] that by (cases "conn_exec s (pps_conn x)") auto
qed

section \<open>The property\<close>

text \<open>
  C24: The server returns the stream. Whatever pieces the bytes arrive in and however little each
  write takes, what was sent back followed by what waits in the output buffer is exactly what was
  read, nothing stays in the input buffer, and the only failure is a buffer that would pass the
  maximal vector size.
\<close>

theorem pingpong_returns_stream:
  assumes "ep_ok ep" "ep_objects ep p = None" "\<forall>q c. ep_objects ep q = Some c \<longrightarrow> ch_fd c \<noteq> fd"
    "list_all pps_allowed xs"
  shows "case run_ops (\<lambda>s x. conn_exec s (pps_conn x)) (conn_new fd p wc ep) xs of
      Inl e \<Rightarrow> e = LengthError
    | Inr s \<Rightarrow> sent s @ contents (outputBuffer s) = received s \<and> contents (inputBuffer s) = []"
proof -
  have "echoed (conn_new fd p wc ep)" by (simp add: echoed_def conn_new_def buffer_new_ok)
  with conn_new_ok[OF assms(1-3)] have "conn_ok (conn_new fd p wc ep) \<and> echoed (conn_new fd p wc ep)" by blast
  from pingpong.run_safe[OF this assms(4)] show ?thesis
    by (auto simp: echoed_def streams_ok_def dest!: conn_ok_streams split: sum.splits)
qed

text \<open>Two bytes arrive, the kernel takes one of them when they are sent back.\<close>

theorem pingpong_returns_stream_witness:
  "case run_ops (\<lambda>s x. conn_exec s (pps_conn x)) (conn_new 5 64 False ep_new)
      [PpsPending (\<lambda>_ _. WriteErr 11) (\<lambda>_. WriteErr 11),
       PpsEvents POLLIN (\<lambda>k. ReadOk (take k [1, 2])) (\<lambda>_. WriteErr 11) (\<lambda>k. Wrote (min k 1))] of
     Inl _ \<Rightarrow> False
   | Inr s \<Rightarrow> received s = [1, 2] \<and> sent s = [1] \<and> contents (outputBuffer s) = [2] \<and>
       sent s @ contents (outputBuffer s) = received s"
proof -
  let ?xs = "[PpsPending (\<lambda>_ _. WriteErr 11) (\<lambda>_. WriteErr 11),
       PpsEvents POLLIN (\<lambda>k. ReadOk (take k [1, 2])) (\<lambda>_. WriteErr 11) (\<lambda>k. Wrote (min k 1))]"
  let ?run = "run_ops (\<lambda>s x. conn_exec s (pps_conn x)) (conn_new 5 64 False ep_new) ?xs"
  have w: "writableBytes buffer_new = 1024" by code_simp
  obtain b where b: "readFd (ReadOk [1, 2]) buffer_new = Inr (2, None, b)" "buffer_ok b" "contents b = [1, 2]"
    using readFd_ok[OF buffer_new_ok, of "[1, 2]"] by (auto simp: extrabuf_size_def vec_max_def)
  obtain b1 where b1: "retrieve 2 b = Inr b1" using retrieve_ok[OF b(2), of 2] b(3) by auto
  obtain b2 where b2: "append [2] buffer_new = Inr b2"
    using append_ok[OF buffer_new_ok, of "[2]"] by (auto simp: vec_max_def)
  have r: "readableBytes b = 2" "peek_bytes 2 b = Inr [1, 2]"
    using b readableBytes_contents[OF b(2)] peek_bytes_contents[OF b(2), of 2] by simp_all
  note r2 = r(2)[unfolded numeral_2_eq_2] and b12 = b1[unfolded numeral_2_eq_2]
  have "case ?run of Inl _ \<Rightarrow> False | Inr s \<Rightarrow> received s = [1, 2] \<and> sent s = [1]"
    by (simp add: conn_eval run_batch_nil bind_return pingpong_server_def b b1 b12 b2 r r2 w del: readFd_def)
  then obtain s where s: "?run = Inr s" "received s = [1, 2]" "sent s = [1]" by (elim case_sum_Inr conjE)
  have new: "\<forall>q c. ep_objects ep_new q = Some c \<longrightarrow> ch_fd c \<noteq> 5" "ep_objects ep_new 64 = None"
    by (simp_all add: ep_new_def)
  have "list_all pps_allowed ?xs" by (simp add: rd_ok_def wr_ok_def poll_flags)
  from pingpong_returns_stream[OF ep_new_ok new(2,1) this, of False]
  have "sent s @ contents (outputBuffer s) = received s" unfolding s(1) by simp
  with s(2,3) show ?thesis unfolding s(1) by simp
qed

end
