(* ===== verification/PingPongClient.thy ===== *)
theory PingPongClient
  imports PingPong TcpServer TcpClient
begin

text \<open>
  example/pingpong/client.cc as a whole: the \<^verbatim>\<open>Client\<close> starts a pool of loops and gives each session a
  loop and a \<^verbatim>\<open>TcpClient\<close> (the models of \<open>TcpServer\<close> and \<open>TcpClient\<close>); a timer tells all sessions to
  disconnect; when the last session is down the end of the program travels from the session's loop
  to the main loop. The counters are those of \<open>PingPong\<close>.
\<close>

section \<open>State\<close>

text \<open>
  What was posted and not yet run, with its loop: \<^verbatim>\<open>Client::quit\<close> in the loop of a session,
  \<^verbatim>\<open>EventLoop::quit\<close> in the main loop.
\<close>

datatype bench_functor = FClientQuit | FLoopQuit

record bench =
  bn_counts :: pp_client
  bn_pool :: pool
  bn_clients :: "(nat \<times> client) list"
  bn_posted :: "(nat \<times> bench_functor) list"
  bn_quit :: bool

section \<open>The constructor\<close>

definition session_start :: "attempt \<Rightarrow> client \<Rightarrow> client res" where
  "session_start att c = client_connect att c"

definition session_stop :: "client \<Rightarrow> client" where
  "session_stop c = client_disconnect c"

text \<open>\<open>startLoop\<close> is the loop of each new thread.\<close>

definition bench_pool :: "(nat \<Rightarrow> nat) \<Rightarrow> int \<Rightarrow> pool res" where
  "bench_pool startLoop threadCount =
     bindR (if threadCount > 1 then setThreadNum threadCount pool_new else Inr pool_new) (pool_start startLoop)"

text \<open>
  The sessions from number \<open>i\<close> on: \<open>eps i\<close> is the poller of the i-th session's loop as the session finds it, \<open>atts i\<close> what
  the kernel answers to its first attempt.
\<close>

primrec start_sessions ::
  "(nat \<Rightarrow> epoller) \<Rightarrow> (nat \<Rightarrow> attempt) \<Rightarrow> nat \<Rightarrow> nat \<Rightarrow> bench \<Rightarrow> bench res" where
  "start_sessions eps atts i 0 s = Inr s"
| "start_sessions eps atts i (Suc n) s =
     bindR (getNextLoop (bn_pool s)) (\<lambda>(l, p).
     bindR (session_start (atts i) (client_new (eps i))) (\<lambda>c.
     start_sessions eps atts (i + 1) n (s\<lparr>bn_pool := p, bn_clients := bn_clients s @ [(l, c)]\<rparr>)))"

definition bench_new ::
  "(nat \<Rightarrow> nat) \<Rightarrow> (nat \<Rightarrow> epoller) \<Rightarrow> (nat \<Rightarrow> attempt) \<Rightarrow> nat \<Rightarrow> nat \<Rightarrow> int \<Rightarrow> bench res" where
  "bench_new startLoop eps atts blockSize n threadCount =
     bindR (bench_pool startLoop threadCount) (\<lambda>p.
     start_sessions eps atts 0 n
       \<lparr>bn_counts = pp_new blockSize n, bn_pool = p, bn_clients = [], bn_posted = [], bn_quit = False\<rparr>)"

section \<open>Callbacks\<close>

text \<open>\<^verbatim>\<open>Session::onConnection\<close> and \<^verbatim>\<open>Session::onMessage\<close> of session \<open>i\<close>; the last one down posts \<^verbatim>\<open>Client::quit\<close>.\<close>

definition bench_onConnection :: "bool \<Rightarrow> nat \<Rightarrow> bench \<Rightarrow> bench" where
  "bench_onConnection connected i s =
     (let c = pp_onConnection connected i (bn_counts s) in
      s\<lparr>bn_counts := c,
        bn_posted := bn_posted s @
          (if quits c = quits (bn_counts s) then [] else [(fst (bn_clients s ! i), FClientQuit)])\<rparr>)"

definition bench_onMessage :: "nat \<Rightarrow> string \<Rightarrow> bench \<Rightarrow> bench" where
  "bench_onMessage i buf s = s\<lparr>bn_counts := pp_onMessage i buf (bn_counts s)\<rparr>"

definition bench_handleTimeout :: "bench \<Rightarrow> bench" where
  "bench_handleTimeout s = s\<lparr>bn_clients := map (map_prod id session_stop) (bn_clients s)\<rparr>"

definition bench_run :: "bench_functor \<Rightarrow> bench \<Rightarrow> bench" where
  "bench_run f s = (case f of
     FClientQuit \<Rightarrow> s\<lparr>bn_posted := bn_posted s @ [(baseLoop, FLoopQuit)]\<rparr>
   | FLoopQuit \<Rightarrow> s\<lparr>bn_quit := True\<rparr>)"

text \<open>Any loop runs the first functor that was posted to it.\<close>

inductive bench_step :: "bench \<Rightarrow> bench \<Rightarrow> bool" where
  session: "i < length (bn_clients s) \<Longrightarrow> bench_step s (bench_onConnection connected i s)"
| got_data: "i < length (bn_clients s) \<Longrightarrow> bench_step s (bench_onMessage i buf s)"
| timer: "bench_step s (bench_handleTimeout s)"
| functor_run: "bn_posted s = xs @ (l, f) # ys \<Longrightarrow> l \<notin> fst ` set xs \<Longrightarrow>
    bench_step s (bench_run f (s\<lparr>bn_posted := xs @ ys\<rparr>))"
| client: "i < length (bn_clients s) \<Longrightarrow> client_exec ntop (snd (bn_clients s ! i)) x = Inr c \<Longrightarrow>
    bench_step s (s\<lparr>bn_clients := (bn_clients s)[i := (fst (bn_clients s ! i), c)]\<rparr>)"

section \<open>Where the sessions run\<close>

lemma start_sessions_loops:
  "start_sessions eps atts i n s = Inr t \<Longrightarrow>
   \<exists>p. next_loops k p0 = Inr (ls, bn_pool s) \<longrightarrow>
     next_loops (k + n) p0 = Inr (ls @ drop (length (bn_clients s)) (map fst (bn_clients t)), p) \<and>
     length (bn_clients t) = length (bn_clients s) + n \<and> take (length (bn_clients s)) (bn_clients t) = bn_clients s"
proof (induction n arbitrary: i s k ls)
  case (Suc n)
  then obtain l p c where s1: "getNextLoop (bn_pool s) = Inr (l, p)"
    "start_sessions eps atts (i + 1) n (s\<lparr>bn_pool := p, bn_clients := bn_clients s @ [(l, c)]\<rparr>) = Inr t"
    by (auto split: prod.splits)
  let ?s = "s\<lparr>bn_pool := p, bn_clients := bn_clients s @ [(l, c)]\<rparr>"
  from Suc.IH[OF s1(2), of "Suc k" "ls @ [l]"] obtain q where
    q: "next_loops (Suc k) p0 = Inr (ls @ [l], p) \<longrightarrow>
      next_loops (Suc k + n) p0 = Inr ((ls @ [l]) @ drop (Suc (length (bn_clients s))) (map fst (bn_clients t)), q) \<and>
      length (bn_clients t) = Suc (length (bn_clients s)) + n \<and>
      take (Suc (length (bn_clients s))) (bn_clients t) = bn_clients s @ [(l, c)]" by auto
  have "next_loops (k + Suc n) p0 = Inr (ls @ drop (length (bn_clients s)) (map fst (bn_clients t)), q) \<and>
      length (bn_clients t) = length (bn_clients s) + Suc n \<and> take (length (bn_clients s)) (bn_clients t) = bn_clients s"
    if "next_loops k p0 = Inr (ls, bn_pool s)"
  proof -
    have "next_loops (Suc k) p0 = Inr (ls @ [l], p)" using that s1(1) by simp
    with q have t: "next_loops (Suc k + n) p0 = Inr ((ls @ [l]) @ drop (Suc (length (bn_clients s))) (map fst (bn_clients t)), q)"
      "length (bn_clients t) = Suc (length (bn_clients s)) + n"
      "take (Suc (length (bn_clients s))) (bn_clients t) = bn_clients s @ [(l, c)]" by auto
    have at: "bn_clients t ! length (bn_clients s) = (l, c)"
      using arg_cong[OF t(3), of "\<lambda>xs. xs ! length (bn_clients s)"] t(2) by simp
    have "drop (length (bn_clients s)) (map fst (bn_clients t)) =
        l # drop (Suc (length (bn_clients s))) (map fst (bn_clients t))"
      using t(2) at by (subst Cons_nth_drop_Suc[symmetric]) auto
    moreover have "take (length (bn_clients s)) (bn_clients t) = bn_clients s"
      using arg_cong[OF t(3), of "take (length (bn_clients s))"] by (simp add: min_def)
    ultimately show ?thesis using t by simp
  qed
  then show ?case by blast
qed auto

text \<open>The constructor goes through when each session's first attempt does not end the program.\<close>

lemma start_sessions_total:
  assumes "\<And>i. \<exists>c. client_connect (atts i) (client_new (eps i)) = Inr c"
  shows "(loops (bn_pool s) \<noteq> [] \<Longrightarrow> next_loop (bn_pool s) < length (loops (bn_pool s))) \<Longrightarrow>
    \<exists>t. start_sessions eps atts i n s = Inr t"
proof (induction n arbitrary: i s)
  case (Suc n)
  obtain l p where p: "getNextLoop (bn_pool s) = Inr (l, p)" "loops p \<noteq> [] \<Longrightarrow> next_loop p < length (loops p)"
    using Suc.prems by (fastforce simp: getNextLoop_def Let_def split: if_splits)
  obtain c where c: "client_connect (atts i) (client_new (eps i)) = Inr c" using assms by blast
  have "\<exists>t. start_sessions eps atts (i + 1) n (s\<lparr>bn_pool := p, bn_clients := bn_clients s @ [(l, c)]\<rparr>) = Inr t"
    by (rule Suc.IH) (simp add: p(2))
  with p(1) c show ?case by (simp add: session_start_def)
qed simp

text \<open>
  The sessions are spread over the threads of the pool in turn, and none runs in the main loop:
  \<open>threadCount\<close> is the number of threads besides the main one, though the program says it includes
  it. With one thread or none all of them run in the main loop.
\<close>

theorem sessions_are_spread:
  assumes "bench_new startLoop eps atts blockSize n threadCount = Inr s"
  shows "map fst (bn_clients s) =
    map (\<lambda>i. if threadCount > 1 then startLoop (i mod nat threadCount) else baseLoop) [0..<n]"
proof -
  obtain p where p: "bench_pool startLoop threadCount = Inr p" using assms by (auto simp: bench_new_def)
  let ?s0 = "\<lparr>bn_counts = pp_new blockSize n, bn_pool = p, bn_clients = [], bn_posted = [], bn_quit = False\<rparr>"
  have "start_sessions eps atts 0 n ?s0 = Inr s" using assms p by (simp add: bench_new_def)
  from start_sessions_loops[OF this, of 0 p "[]"] obtain q where
    loops: "next_loops n p = Inr (map fst (bn_clients s), q)" by auto
  show ?thesis
  proof (cases "threadCount > 1")
    case True
    then have "bindR (setThreadNum threadCount pool_new) (pool_start startLoop) = Inr p" using p by (simp add: bench_pool_def)
    from round_robin[OF _ this, of n] loops True show ?thesis by simp
  next
    case False
    then have "bindR (setThreadNum 0 pool_new) (pool_start startLoop) = Inr p"
      using p by (auto simp: bench_pool_def setThreadNum_def pool_start_def pool_new_def)
    from round_robin[OF _ this, of n] loops False show ?thesis by simp
  qed
qed

text \<open>Two threads, three sessions, the first attempt of each in progress.\<close>

theorem sessions_are_spread_witness:
  "\<exists>s. bench_new Suc (\<lambda>_. ep_new) (\<lambda>i. (5, EINPROGRESS, 64)) 4 3 2 = Inr s \<and> map fst (bn_clients s) = [1, 2, 1]"
proof -
  obtain c where c: "client_connect (5, EINPROGRESS, 64) (client_new ep_new) = Inr c"
  proof -
    have "admissible client_pre client_spec (client_abs (client_new ep_new)) [TcConnect (5, EINPROGRESS, 64)]"
      unfolding client_new_view by (simp add: connector_eval)
    from tcp_client.run_ok[OF client_new_ok[OF ep_new_ok] this, of "\<lambda>_. None"] that show ?thesis by (auto simp: bind_return)
  qed
  have "\<exists>s. bench_new Suc (\<lambda>_. ep_new) (\<lambda>i. (5, EINPROGRESS, 64)) 4 3 2 = Inr s"
  proof -
    have "bench_pool Suc 2 = Inr \<lparr>pool_started = True, numThreads = 2, next_loop = 0, loops = [1, 2]\<rparr>"
      by (simp add: bench_pool_def setThreadNum_def pool_start_def pool_new_def numeral_2_eq_2)
    then show ?thesis unfolding bench_new_def using start_sessions_total[of "\<lambda>i. (5, EINPROGRESS, 64)" "\<lambda>_. ep_new"] c by simp
  qed
  then obtain s where s: "bench_new Suc (\<lambda>_. ep_new) (\<lambda>i. (5, EINPROGRESS, 64)) 4 3 2 = Inr s" by (elim exE)
  have "map fst (bn_clients s) = map (\<lambda>i. if (2::int) > 1 then Suc (i mod nat 2) else baseLoop) [0..<3]"
    by (rule sessions_are_spread[OF s])
  moreover have "[0..<3] = [0, 1, 2::nat]" by (simp add: numeral_3_eq_3 numeral_2_eq_2)
  ultimately have "map fst (bn_clients s) = [1, 2, 1]" by simp
  then show ?thesis by (intro exI[of _ s] conjI s)
qed

section \<open>The end of the program\<close>

text \<open>Once \<^verbatim>\<open>Client::quit\<close> or \<^verbatim>\<open>EventLoop::quit\<close> is posted, the loops can end the program by themselves.\<close>

lemma first_of_loop:
  assumes "(l, f) \<in> set ps"
  shows "\<exists>xs g ys. ps = xs @ (l, g) # ys \<and> l \<notin> fst ` set xs"
proof -
  have "\<exists>x \<in> set ps. fst x = l" using assms by force
  then obtain xs x ys where "ps = xs @ x # ys" "fst x = l" "\<forall>y \<in> set xs. fst y \<noteq> l"
    by (rule split_list_first_propE)
  then show ?thesis by (cases x) force
qed

definition quits_left :: "bench \<Rightarrow> nat" where
  "quits_left s = sum_list (map (\<lambda>x. case snd x of FClientQuit \<Rightarrow> 2 | FLoopQuit \<Rightarrow> 1) (bn_posted s))"

lemma bench_ends:
  "bn_posted s \<noteq> [] \<Longrightarrow> \<exists>s'. bench_step\<^sup>*\<^sup>* s s' \<and> bn_quit s'"
proof (induction "quits_left s" arbitrary: s rule: less_induct)
  case less
  from less.prems obtain l f ps where "bn_posted s = (l, f) # ps" by (cases "bn_posted s") auto
  then have "(l, f) \<in> set (bn_posted s)" by simp
  from first_of_loop[OF this] obtain xs g ys where ps: "bn_posted s = xs @ (l, g) # ys" "l \<notin> fst ` set xs" by blast
  let ?s = "bench_run g (s\<lparr>bn_posted := xs @ ys\<rparr>)"
  have step: "bench_step s ?s" by (rule bench_step.functor_run[OF ps])
  show ?case
  proof (cases g)
    case FLoopQuit
    then have "bn_quit ?s" by (simp add: bench_run_def)
    with step show ?thesis by blast
  next
    case FClientQuit
    then have "bn_posted ?s \<noteq> []" "quits_left ?s < quits_left s"
      using ps(1) by (simp_all add: bench_run_def quits_left_def)
    from less.hyps[OF this(2,1)] step show ?thesis by (meson converse_rtranclp_into_rtranclp)
  qed
qed

text \<open>
  When the last session goes down the program can end: from the state after its callback the
  loops, by running what was posted to them, reach the end of the main loop.
\<close>

theorem last_down_ends:
  assumes "pp_agrees n (bn_counts s) a" "up_sessions a = {i}"
  shows "\<exists>s'. bench_step\<^sup>*\<^sup>* (bench_onConnection False i s) s' \<and> bn_quit s'"
proof -
  have "pp_agrees n (pp_onConnection False i (bn_counts s)) (pp_spec n a (PpConnection False i))"
    using down_agrees[OF assms(1)] assms(2) by simp
  then have "quits (pp_onConnection False i (bn_counts s)) = quits (bn_counts s) + 1"
    using assms by (simp add: pp_agrees_def)
  then have "bn_posted (bench_onConnection False i s) \<noteq> []" by (simp add: bench_onConnection_def Let_def)
  then show ?thesis by (rule bench_ends)
qed

theorem last_down_ends_witness:
  "\<exists>s s'. numConnected (bn_counts s) = 1 \<and> bench_step\<^sup>*\<^sup>* (bench_onConnection False 0 s) s' \<and> bn_quit s'"
proof -
  let ?a = "pp_spec 1 pp_start (PpConnection True 0)"
  let ?s = "\<lparr>bn_counts = pp_onConnection True 0 (pp_new 4 1), bn_pool = pool_new,
    bn_clients = [(0, client_new ep_new)], bn_posted = [], bn_quit = False\<rparr>"
  have "pp_agrees 1 (bn_counts ?s) ?a"
    using up_agrees[OF pp_new_agrees[of 1 4], of 0] by (simp add: pp_start_def)
  moreover have "up_sessions ?a = {0}" by (simp add: pp_start_def)
  ultimately obtain s' where "bench_step\<^sup>*\<^sup>* (bench_onConnection False 0 ?s) s'" "bn_quit s'"
    using last_down_ends[of 1 ?s ?a 0] by blast
  moreover have "numConnected (bn_counts ?s) = 1"
    by (simp add: pp_onConnection_def onConnect_def incrementAndGet_def addAndGet_def getAndAdd_def pp_new_def Let_def)
  ultimately show ?thesis by blast
qed

text \<open>
  A session that is still connecting when the time is up is missed: \<^verbatim>\<open>disconnect()\<close> only shuts down a
  connection that is there, and does not stop the connector. The connection that is then made is
  not shut down, and the program goes on without an end.
\<close>

theorem timeout_misses_connecting:
  assumes "client_ok c" "connection c = None" "client_pre (client_abs c) (TcEvents ev info)"
    "connected_fd (client_spec (client_abs c) (TcEvents ev info)) = Some fd"
  shows "\<exists>c' conn. client_exec ntop (session_stop c) (TcEvents ev info) = Inr c' \<and> connection c' = Some conn \<and>
    cc_fd conn = fd \<and> \<not> cc_shutdown conn"
proof -
  have stop: "session_stop c = c\<lparr>tc_connect_flag := False\<rparr>"
    using assms(2) by (simp add: session_stop_def client_disconnect_def Let_def)
  have abs: "client_abs (session_stop c) = (client_abs c)\<lparr>wish := False\<rparr>" by (simp add: stop client_abs_def)
  have ok: "client_ok (session_stop c)" using assms(1) by (simp add: stop client_ok_def)
  have "client_pre (client_abs (session_stop c)) (TcEvents ev info)" using assms(3) by (simp add: abs)
  from tcp_client.exec_ok[OF ok this, of ntop] obtain c' where
    c': "client_exec ntop (session_stop c) (TcEvents ev info) = Inr c'"
      "client_abs c' = client_spec ((client_abs c)\<lparr>wish := False\<rparr>) (TcEvents ev info)" unfolding abs by blast
  let ?new = "drop (length (handed (socket (client_abs c)))) (handed (connector_spec (socket (client_abs c)) (CnEvents ev info)))"
  have "connected_fd (client_spec ((client_abs c)\<lparr>wish := False\<rparr>) (TcEvents ev info)) =
      connected_fd (client_spec (client_abs c) (TcEvents ev info))"
    by (cases ?new) (simp_all add: Let_def del: connector_spec.simps drop_eq_Nil)
  then have "connected_fd (client_spec ((client_abs c)\<lparr>wish := False\<rparr>) (TcEvents ev info)) = Some fd"
    using assms(4) by simp
  then obtain conn where conn: "connection c' = Some conn" "cc_fd conn = fd"
    unfolding c'(2)[symmetric] by (auto simp: client_abs_def)
  have "client_events ntop ev info (session_stop c) = Inr c'" using c'(1) by simp
  then obtain k where k: "(case drop (length (cn_handed (tc_connector c))) (cn_handed k) of
       [] \<Rightarrow> Inr (c\<lparr>tc_connect_flag := False, tc_connector := k\<rparr>)
     | fd # _ \<Rightarrow> client_newConnection ntop info fd (c\<lparr>tc_connect_flag := False, tc_connector := k\<rparr>)) = Inr c'"
    by (auto simp: client_events_def stop)
  have "\<not> cc_shutdown conn"
  proof (cases "drop (length (cn_handed (tc_connector c))) (cn_handed k)")
    case Nil
    with k have "c' = c\<lparr>tc_connect_flag := False, tc_connector := k\<rparr>" by (simp del: drop_eq_Nil)
    with conn(1) assms(2) show ?thesis by simp
  next
    case (Cons fd fds)
    with k have "client_newConnection ntop info fd (c\<lparr>tc_connect_flag := False, tc_connector := k\<rparr>) = Inr c'" by simp
    with conn(1) show ?thesis
      by (cases info) (auto simp: client_newConnection_def Let_def split: if_splits)
  qed
  with c'(1) conn show ?thesis by blast
qed

text \<open>The timer fires between the attempt of the session and its success.\<close>

theorem timeout_misses_connecting_witness:
  "\<exists>c c' conn. client_connect (5, EINPROGRESS, 64) (client_new ep_new) = Inr c \<and>
    client_exec (\<lambda>_. None) (session_stop c)
      (TcEvents POLLOUT (0, Some sockaddr_zero, Some (sockaddr_zero\<lparr>sin_port := 1\<rparr>))) = Inr c' \<and>
    connection c' = Some conn \<and> cc_fd conn = 5 \<and> \<not> cc_shutdown conn"
proof -
  let ?a = "client_abs (client_new ep_new)" and ?att = "(5, EINPROGRESS, 64) :: attempt"
  let ?ev = "TcEvents POLLOUT (0, Some sockaddr_zero, Some (sockaddr_zero\<lparr>sin_port := 1\<rparr>))"
  have "client_pre ?a (TcConnect ?att)" unfolding client_new_view by (simp add: connector_eval)
  from tcp_client.exec_ok[OF client_new_ok[OF ep_new_ok] this, of "\<lambda>_. None"] obtain c where
    c: "client_connect ?att (client_new ep_new) = Inr c" "client_ok c" "client_abs c = client_spec ?a (TcConnect ?att)" by auto
  have "connected_fd (client_abs c) = None" "client_pre (client_abs c) ?ev" "connected_fd (client_spec (client_abs c) ?ev) = Some 5"
    unfolding c(3) client_new_view by (simp_all add: connector_eval)
  from timeout_misses_connecting[OF c(2) _ this(2,3), of "\<lambda>_. None"] this(1) c(1) show ?thesis
    by (auto simp: client_abs_def)
qed

end
