(* ===== verification/Programs.thy ===== *)
theory Programs
  imports LocalChat TimingWheel ChatClient PingPongClient
begin

text \<open>
  The \<^verbatim>\<open>main\<close> functions under example/: how a program reads its arguments, which objects it makes and in
  which order it starts them. A program ends with a usage message or goes into its loop with the
  state it has built.
\<close>

section \<open>Arguments\<close>

text \<open>
  \<^verbatim>\<open>atoi\<close>, which glibc defines as \<^verbatim>\<open>(int) strtol(s, NULL, 10)\<close>: blanks, a sign, digits up to the first
  other character, the bounds of \<^verbatim>\<open>long\<close> when they say more, the low 32 bits of that.
\<close>

definition is_space :: "char \<Rightarrow> bool" where
  "is_space c \<longleftrightarrow> c = CHR '' '' \<or> (9 \<le> (of_char c :: nat) \<and> (of_char c :: nat) \<le> 13)"

definition leading_int :: "string \<Rightarrow> int" where
  "leading_int s =
     (let num = (\<lambda>cs. dec_val (takeWhile (\<lambda>c. c \<in> set dec_digits) cs)) in
      case dropWhile is_space s of
        [] \<Rightarrow> 0
      | c # cs \<Rightarrow> if c = CHR ''-'' then - num cs else if c = CHR ''+'' then num cs else num (c # cs))"

definition atoi :: "string \<Rightarrow> int" where
  "atoi s = sint (word_of_int (max (- (2 ^ 63)) (min (2 ^ 63 - 1) (leading_int s))) :: 32 word)"

text \<open>\<^verbatim>\<open>static_cast<uint16_t>(atoi(arg))\<close>.\<close>

definition port_arg :: "string \<Rightarrow> 16 word" where
  "port_arg arg = word_of_int (atoi arg)"

text \<open>\<^verbatim>\<open>argv[0]\<close> as \<^verbatim>\<open>printf\<close> shows it.\<close>

definition arg0 :: "string list \<Rightarrow> string" where
  "arg0 argv = (case argv of [] \<Rightarrow> ''(null)'' | p # ps \<Rightarrow> p)"

datatype 'a program = Usage string | Running 'a

section \<open>Servers\<close>

text \<open>The constructor of a server takes the text of its address as its name.\<close>

type_synonym ntop = "32 word \<Rightarrow> string option"

definition server_at :: "ntop \<Rightarrow> sockaddr_in \<Rightarrow> server" where
  "server_at ntop addr = server_new (inet_toHostPort ntop addr)"

definition sv_setThreadNum :: "int \<Rightarrow> server \<Rightarrow> server res" where
  "sv_setThreadNum n s =
     bindR (assertR (0 \<le> n)) (\<lambda>_. bindR (setThreadNum n (sv_pool s)) (\<lambda>p. Inr (s\<lparr>sv_pool := p\<rparr>)))"

definition chat_main :: "ntop \<Rightarrow> (nat \<Rightarrow> nat) \<Rightarrow> string list \<Rightarrow> server program res" where
  "chat_main ntop startLoop argv =
     (if length argv > 1
      then let port = port_arg (argv ! 1); server = server_at ntop (inet_any port) in
           bindR (server_start startLoop server) (\<lambda>s. Inr (Running s))
      else Inr (Usage (''Usage: '' @ arg0 argv @ '' port'' @ [CHR 10])))"

definition threaded_main :: "ntop \<Rightarrow> (nat \<Rightarrow> nat) \<Rightarrow> string list \<Rightarrow> server program res" where
  "threaded_main ntop startLoop argv =
     (if length argv > 1
      then let port = port_arg (argv ! 1); server = server_at ntop (inet_any port) in
           bindR (if length argv > 2 then sv_setThreadNum (atoi (argv ! 2)) server else Inr server) (\<lambda>s.
           bindR (server_start startLoop s) (\<lambda>s. Inr (Running s)))
      else Inr (Usage (''Usage: '' @ arg0 argv @ '' port [thread_num]'' @ [CHR 10])))"

text \<open>The copy-on-write server has the same \<^verbatim>\<open>main\<close>.\<close>

definition efficient_main :: "ntop \<Rightarrow> (nat \<Rightarrow> nat) \<Rightarrow> string list \<Rightarrow> server program res" where
  "efficient_main ntop startLoop argv = threaded_main ntop startLoop argv"

text \<open>
  The server with local connections gives \<^verbatim>\<open>threadInit\<close> to the pool, which calls it in each new
  thread before the next one is started, or for the base loop when there are no threads.
\<close>

definition init_loops :: "pool \<Rightarrow> hp_server \<Rightarrow> hp_server res" where
  "init_loops p h = run_ops hp_exec h (map HpInit (if numThreads p = 0 then [baseLoop] else loops p))"

definition highperformance_main :: "ntop \<Rightarrow> (nat \<Rightarrow> nat) \<Rightarrow> string list \<Rightarrow> (server \<times> hp_server) program res" where
  "highperformance_main ntop startLoop argv =
     (if length argv > 1
      then let port = port_arg (argv ! 1); server = server_at ntop (inet_any port) in
           bindR (if length argv > 2 then sv_setThreadNum (atoi (argv ! 2)) server else Inr server) (\<lambda>s.
           bindR (server_start startLoop s) (\<lambda>s.
           bindR (init_loops (sv_pool s) hp_new) (\<lambda>h. Inr (Running (s, h)))))
      else Inr (Usage (''Usage: '' @ arg0 argv @ '' port [thread_num]'' @ [CHR 10])))"

definition pingpong_main ::
  "(string \<Rightarrow> 32 word option) \<Rightarrow> ntop \<Rightarrow> (nat \<Rightarrow> nat) \<Rightarrow> string list \<Rightarrow> server program res" where
  "pingpong_main pton ntop startLoop argv =
     (if length argv < 4 then Inr (Usage (''Usage: server <address> <port> <threads>'' @ [CHR 10]))
      else let port = port_arg (argv ! 2); threadCount = atoi (argv ! 3);
               server = server_at ntop (inet_of pton (argv ! 1) port) in
           bindR (if threadCount > 1 then sv_setThreadNum threadCount server else Inr server) (\<lambda>s.
           bindR (server_start startLoop s) (\<lambda>s. Inr (Running s))))"

text \<open>
  The constructor of \<^verbatim>\<open>circular_buffer\<close>: \<^verbatim>\<open>while (n--)\<close> tests \<open>n\<close> against zero only. The decrement of the
  least integer overflows.
\<close>

function fill_buckets :: "int \<Rightarrow> nat set list \<Rightarrow> nat set list res" where
  "fill_buckets n buffers =
     (if n = 0 then Inr buffers
      else if n \<le> - (2 ^ 31) then Inl SignedOverflow
      else fill_buckets (n - 1) (buffers @ [{}]))"
  by pat_completeness auto
termination
  by (relation "measure (\<lambda>(n, buffers). nat (n + 2 ^ 31))") auto

declare fill_buckets.simps [simp del]

definition echo_server :: "int \<Rightarrow> echo res" where
  "echo_server idleSeconds =
     bindR (fill_buckets idleSeconds []) (\<lambda>w. Inr ((echo_new 0)\<lparr>wheel := w\<rparr>))"

definition echo_main :: "ntop \<Rightarrow> (nat \<Rightarrow> nat) \<Rightarrow> string list \<Rightarrow> (server \<times> echo) program res" where
  "echo_main ntop startLoop argv =
     (let idleSeconds = (if length argv > 1 then atoi (argv ! 1) else 10) in
      bindR (echo_server idleSeconds) (\<lambda>e.
      bindR (server_start startLoop (server_at ntop (inet_any 2007))) (\<lambda>s. Inr (Running (s, e)))))"

section \<open>Clients\<close>

text \<open>
  The loop over the input of the chat client: before each line the thread of the loop may have done
  something (\<open>env\<close>), and \<open>up\<close> is what \<^verbatim>\<open>send\<close> finds. Then \<^verbatim>\<open>disconnect\<close>.
\<close>

fun chat_session ::
  "((chat_client \<Rightarrow> chat_client) \<times> bool \<times> byte list) list \<Rightarrow> chat_client \<Rightarrow> chat_client res" where
  "chat_session [] s = Inr (chat_disconnect s)"
| "chat_session ((env, up, line) # ls) s = bindR (chat_write up line (env s)) (chat_session ls)"

definition chat_client_main ::
  "(string \<Rightarrow> 32 word option) \<Rightarrow> epoller \<Rightarrow> attempt \<Rightarrow> ((chat_client \<Rightarrow> chat_client) \<times> bool \<times> byte list) list \<Rightarrow>
   string list \<Rightarrow> (sockaddr_in \<times> chat_client) program res" where
  "chat_client_main pton ep att input argv =
     (if length argv > 2
      then let serverAddr = inet_of pton (argv ! 1) (port_arg (argv ! 2)) in
           bindR (chat_connect att (chat_client_new ep)) (\<lambda>c.
           bindR (chat_session input c) (\<lambda>c. Inr (Running (serverAddr, c))))
      else Inr (Usage (''Usage: '' @ arg0 argv @ '' host_ip port'' @ [CHR 10])))"

text \<open>
  The ping-pong client: \<open>timeout\<close> is what the timer is set to. The loops of the constructor count up to \<open>blockSize\<close> and
  \<open>sessionCount\<close>, so a negative number is as good as zero to them.
\<close>

definition bench_main ::
  "(string \<Rightarrow> 32 word option) \<Rightarrow> (nat \<Rightarrow> nat) \<Rightarrow> (nat \<Rightarrow> epoller) \<Rightarrow> (nat \<Rightarrow> attempt) \<Rightarrow> string list \<Rightarrow>
   (sockaddr_in \<times> int \<times> bench) program res" where
  "bench_main pton startLoop eps atts argv =
     (if length argv \<noteq> 7
      then Inr (Usage (''Usage: client <host_ip> <port> <threads> <blocksize> <sessions> <time>'' @ [CHR 10]))
      else let serverAddr = inet_of pton (argv ! 1) (port_arg (argv ! 2)); threadCount = atoi (argv ! 3);
               blockSize = atoi (argv ! 4); n = atoi (argv ! 5); timeout = atoi (argv ! 6) in
           bindR (bench_new startLoop eps atts (nat blockSize) (nat n) threadCount) (\<lambda>b.
           Inr (Running (serverAddr, timeout, b\<lparr>bn_counts := (bn_counts b)\<lparr>sessionCount := n\<rparr>\<rparr>))))"

section \<open>Reading numbers\<close>

lemma not_space: "c \<in> set dec_digits \<Longrightarrow> \<not> is_space c" "\<not> is_space CHR ''-''"
  by (auto simp: dec_digits_def is_space_def)

lemma sign_not_digit: "CHR ''-'' \<notin> set dec_digits" "CHR ''+'' \<notin> set dec_digits"
  by (simp_all add: dec_digits_def)

text \<open>What \<^verbatim>\<open>convert\<close> prints is read back.\<close>

lemma leading_int_convert: "leading_int (convert n) = n"
proof -
  let ?ds = "rev (convert_loop n)"
  have all: "c \<in> set ?ds \<Longrightarrow> c \<in> set dec_digits" for c using set_convert_loop[of n] by auto
  have num: "dec_val (takeWhile (\<lambda>c. c \<in> set dec_digits) ?ds) = \<bar>n\<bar>"
  proof -
    have "takeWhile (\<lambda>c. c \<in> set dec_digits) ?ds = ?ds" using all by (subst takeWhile_eq_all_conv) blast
    then show ?thesis by (simp only: dec_val_loop)
  qed
  show ?thesis
  proof (cases "n < 0")
    case True
    then have "convert n = CHR ''-'' # ?ds" by (simp add: convert_def)
    with num True show ?thesis by (simp add: leading_int_def not_space)
  next
    case False
    then have c: "convert n = ?ds" by (simp add: convert_def)
    obtain d ds where ds: "?ds = d # ds" by (cases ?ds) auto
    then have d: "d \<in> set dec_digits" using all by simp
    with num False show ?thesis
      unfolding leading_int_def c Let_def ds using sign_not_digit not_space(1)[OF d]
      by (auto simp del: takeWhile.simps)
  qed
qed

text \<open>Every \<^verbatim>\<open>int\<close> is read as it was written.\<close>

theorem atoi_convert:
  assumes "- (2 ^ 31) \<le> n" "n < 2 ^ 31"
  shows "atoi (convert n) = n"
  using assms by (simp add: atoi_def leading_int_convert int_word_sint)

text \<open>
  The threaded server with the arguments \<open>port\<close> and \<open>thread_num\<close> written in decimal: it listens, its name is
  the address with the port modulo 2 to the 16, and its connections go round the threads asked for,
  or stay in the base loop when there are none. A negative number of threads fails an assert.
\<close>

lemma port_arg_convert:
  "- (2 ^ 31) \<le> n \<Longrightarrow> n < 2 ^ 31 \<Longrightarrow> uint (port_arg (convert n)) = n mod 2 ^ 16"
  by (simp add: port_arg_def atoi_convert uint_word_of_int)

lemma start_with_threads:
  assumes "0 \<le> k"
  shows "\<exists>p. bindR (setThreadNum k pool_new) (pool_start startLoop) = Inr p \<and> numThreads p = k \<and>
    loops p = map startLoop [0..<nat k] \<and>
    bindR (sv_setThreadNum k (server_new nm)) (server_start startLoop) =
      Inr ((server_new nm)\<lparr>sv_started := True, sv_listenning := True, sv_pool := p\<rparr>)"
  using assms by (simp add: sv_setThreadNum_def setThreadNum_def server_start_def pool_start_def server_new_def pool_new_def)

theorem threads_as_asked:
  assumes "- (2 ^ 31) \<le> port" "port < 2 ^ 31" "0 \<le> k" "k < 2 ^ 31"
  shows "\<exists>s. threaded_main ntop startLoop [prog, convert port, convert k] = Inr (Running s) \<and> sv_listenning s \<and>
    sv_name s = inet_toHostPort ntop (inet_any (word_of_int (port mod 2 ^ 16))) \<and>
    (\<exists>p. next_loops m (sv_pool s) =
      Inr (map (\<lambda>i. if k = 0 then baseLoop else startLoop (i mod nat k)) [0..<m], p))"
proof -
  let ?nm = "inet_toHostPort ntop (inet_any (word_of_int (port mod 2 ^ 16)))"
  have "port_arg (convert port) = word_of_int (uint (port_arg (convert port)))" by simp
  then have port: "port_arg (convert port) = word_of_int (port mod 2 ^ 16)"
    unfolding port_arg_convert[OF assms(1,2)] .
  have k: "atoi (convert k) = k" using assms(3,4) by (intro atoi_convert) simp_all
  from start_with_threads[OF assms(3), of startLoop ?nm] obtain p where
    p: "bindR (setThreadNum k pool_new) (pool_start startLoop) = Inr p"
      "bindR (sv_setThreadNum k (server_new ?nm)) (server_start startLoop) =
        Inr ((server_new ?nm)\<lparr>sv_started := True, sv_listenning := True, sv_pool := p\<rparr>)" by blast
  let ?s = "(server_new ?nm)\<lparr>sv_started := True, sv_listenning := True, sv_pool := p\<rparr>"
  have "threaded_main ntop startLoop [prog, convert port, convert k] =
      bindR (bindR (sv_setThreadNum k (server_new ?nm)) (server_start startLoop)) (\<lambda>s. Inr (Running s))"
    by (simp add: threaded_main_def port k server_at_def bindR_assoc)
  then have "threaded_main ntop startLoop [prog, convert port, convert k] = Inr (Running ?s)" by (simp only: p(2) bindR.simps)
  with round_robin[OF assms(3) p(1), of m] show ?thesis by (auto simp: server_new_def)
qed

theorem threads_as_asked_witness:
  "\<exists>s p. threaded_main (\<lambda>_. Some ''0.0.0.0'') Suc [''server'', convert 65616, convert 2] = Inr (Running s) \<and>
    sv_name s = inet_toHostPort (\<lambda>_. Some ''0.0.0.0'') (inet_any 80) \<and> next_loops 3 (sv_pool s) = Inr ([1, 2, 1], p)"
proof -
  have "(- (2 ^ 31) :: int) \<le> 65616" "(65616 :: int) < 2 ^ 31" "(0 :: int) \<le> 2" "(2 :: int) < 2 ^ 31" by simp_all
  from threads_as_asked[OF this, of "\<lambda>_. Some ''0.0.0.0''" Suc "''server''" 3] show ?thesis
    by (auto simp: numeral_3_eq_3 numeral_2_eq_2)
qed

theorem negative_threads_fail:
  assumes "- (2 ^ 31) \<le> k" "k < 0"
  shows "threaded_main ntop startLoop [prog, port, convert k] = Inl AssertFail"
  using assms atoi_convert[of k] by (simp add: threaded_main_def sv_setThreadNum_def Let_def)

theorem negative_threads_fail_witness:
  "threaded_main (\<lambda>_. None) Suc [''server'', ''80'', convert (- 1)] = Inl AssertFail"
  by (rule negative_threads_fail) simp_all

section \<open>Local connections\<close>

text \<open>
  The server with local connections: when the program goes into its loop, every loop that a
  connection can be given to has been made ready, so no connection meets a thread without its set.
\<close>

lemma init_all:
  "hp_ok h \<Longrightarrow> distinct ls \<Longrightarrow> set ls \<inter> hp_loops h = {} \<Longrightarrow>
   \<exists>h'. run_ops hp_exec h (map HpInit ls) = Inr h' \<and> hp_ok h' \<and> hp_loops h' = hp_loops h \<union> set ls"
proof (induction ls arbitrary: h)
  case (Cons l ls)
  have "hp_pre (hp_abs h) (HpInit l)" using Cons.prems(3) by (simp add: hp_abs_def)
  from local_chat.exec_ok[OF Cons.prems(1) this] obtain h1 where
    h1: "hp_exec h (HpInit l) = Inr h1" "hp_ok h1" "hp_abs h1 = hp_spec (hp_abs h) (HpInit l)" by blast
  then have loops: "hp_loops h1 = insert l (hp_loops h)" by (simp add: hp_abs_def)
  then have "set ls \<inter> hp_loops h1 = {}" using Cons.prems(2,3) by auto
  from Cons.IH[OF h1(2) _ this] Cons.prems(2) h1(1) loops show ?case by auto
qed simp

theorem every_loop_ready:
  assumes "0 \<le> k" "k < 2 ^ 31" "inj_on startLoop {..<nat k}"
  shows "\<exists>s h. highperformance_main ntop startLoop [prog, port, convert k] = Inr (Running (s, h)) \<and> hp_ok h \<and>
    (\<forall>m ls p l. next_loops m (sv_pool s) = Inr (ls, p) \<longrightarrow> l \<in> set ls \<longrightarrow> hp_pre (hp_abs h) (HpConnection l True c))"
proof -
  let ?nm = "inet_toHostPort ntop (inet_any (port_arg port))"
  from start_with_threads[OF assms(1), of startLoop ?nm] obtain p where
    p: "bindR (setThreadNum k pool_new) (pool_start startLoop) = Inr p" "numThreads p = k" "loops p = map startLoop [0..<nat k]"
      "bindR (sv_setThreadNum k (server_new ?nm)) (server_start startLoop) =
        Inr ((server_new ?nm)\<lparr>sv_started := True, sv_listenning := True, sv_pool := p\<rparr>)" by blast
  let ?s = "(server_new ?nm)\<lparr>sv_started := True, sv_listenning := True, sv_pool := p\<rparr>"
  let ?ls = "if k = 0 then [baseLoop] else map startLoop [0..<nat k]"
  have "distinct ?ls" using assms(3) by (simp add: distinct_map atLeast0LessThan)
  moreover have "set ?ls \<inter> hp_loops hp_new = {}" by (simp add: hp_new_def)
  ultimately obtain h where h: "run_ops hp_exec hp_new (map HpInit ?ls) = Inr h" "hp_ok h" "hp_loops h = set ?ls"
    using init_all[OF hp_new_ok, of ?ls] by (auto simp: hp_new_def)
  have init: "init_loops p hp_new = Inr h" using h(1) by (simp only: init_loops_def p(2,3))
  have k: "atoi (convert k) = k" using assms(1,2) by (intro atoi_convert) simp_all
  have "highperformance_main ntop startLoop [prog, port, convert k] =
      bindR (bindR (sv_setThreadNum k (server_new ?nm)) (server_start startLoop)) (\<lambda>s.
      bindR (init_loops (sv_pool s) hp_new) (\<lambda>h. Inr (Running (s, h))))"
    by (simp add: highperformance_main_def k server_at_def bindR_assoc)
  then have main: "highperformance_main ntop startLoop [prog, port, convert k] = Inr (Running (?s, h))"
    by (simp only: p(4) bindR.simps) (simp add: init)
  have "l \<in> hp_loops h" if turn: "next_loops m p = Inr (ls, q)" "l \<in> set ls" for m ls q l
  proof -
    from round_robin[OF assms(1) p(1), of m] turn(1) have
      "ls = map (\<lambda>i. if k = 0 then baseLoop else startLoop (i mod nat k)) [0..<m]" by auto
    with turn(2) obtain i where "l = (if k = 0 then baseLoop else startLoop (i mod nat k))"
      by (simp only: set_map image_iff) blast
    moreover have "k \<noteq> 0 \<Longrightarrow> i mod nat k < nat k" using assms(1) by simp
    ultimately show ?thesis by (auto simp: h(3))
  qed
  with main h(2) show ?thesis by (intro exI[of _ ?s] exI[of _ h]) (auto simp: hp_abs_def)
qed

theorem every_loop_ready_witness:
  "\<exists>s h. highperformance_main (\<lambda>_. None) Suc [''server'', ''80'', convert 2] = Inr (Running (s, h)) \<and>
    (\<exists>p. next_loops 2 (sv_pool s) = Inr ([1, 2], p)) \<and> hp_pre (hp_abs h) (HpConnection 2 True 7)"
proof -
  have "(0 :: int) \<le> 2" "(2 :: int) < 2 ^ 31" "inj_on Suc {..<nat 2}" by simp_all
  from every_loop_ready[OF this, of "\<lambda>_. None" "''server''" "''80''" 7] obtain s h where
    sh: "highperformance_main (\<lambda>_. None) Suc [''server'', ''80'', convert 2] = Inr (Running (s, h))"
      "\<And>m ls p l. next_loops m (sv_pool s) = Inr (ls, p) \<Longrightarrow> l \<in> set ls \<Longrightarrow> hp_pre (hp_abs h) (HpConnection l True 7)"
    by blast
  have "atoi (convert 2) = 2" by (intro atoi_convert) simp_all
  then have "sv_pool s = \<lparr>pool_started = True, numThreads = 2, next_loop = 0, loops = [1, 2]\<rparr>"
    using sh(1) by (auto simp: highperformance_main_def Let_def server_at_def sv_setThreadNum_def setThreadNum_def
      server_start_def pool_start_def server_new_def pool_new_def numeral_2_eq_2)
  then have "\<exists>p. next_loops 2 (sv_pool s) = Inr ([1, 2], p)" by (simp add: numeral_2_eq_2 getNextLoop_def)
  with sh show ?thesis by fastforce
qed

section \<open>The echo server\<close>

text \<open>
  The wheel has as many buckets as the argument says when that is not negative. A negative number
  of seconds is not refused: the constructor goes on until the counter overflows.
\<close>

lemma fill_buckets_filled: "0 \<le> n \<Longrightarrow> fill_buckets n bs = Inr (bs @ replicate (nat n) {})"
proof (induction n bs rule: fill_buckets.induct)
  case (1 n bs)
  show ?case
  proof (cases "n = 0")
    case False
    with "1.prems" have "nat n = Suc (nat (n - 1))" by simp
    with False 1 show ?thesis by (simp add: fill_buckets.simps[of n])
  qed (simp add: fill_buckets.simps)
qed

lemma fill_buckets_runs_away: "n < 0 \<Longrightarrow> fill_buckets n bs = Inl SignedOverflow"
proof (induction n bs rule: fill_buckets.induct)
  case (1 n bs)
  then show ?case by (subst fill_buckets.simps) simp
qed

theorem echo_arguments:
  assumes "- (2 ^ 31) \<le> n" "n < 2 ^ 31"
  shows "if 0 \<le> n
    then \<exists>s. echo_main ntop startLoop [prog, convert n] = Inr (Running (s, echo_new (nat n)))
    else echo_main ntop startLoop [prog, convert n] = Inl SignedOverflow"
proof (cases "0 \<le> n")
  case True
  have "\<exists>s. server_start startLoop (server_new nm) = Inr s" for nm
    by (simp add: server_start_def server_new_def pool_start_def pool_new_def)
  with True show ?thesis
    by (simp add: echo_main_def atoi_convert[OF assms] echo_server_def fill_buckets_filled echo_new_def server_at_def)
next
  case False
  then show ?thesis by (simp add: echo_main_def atoi_convert[OF assms] echo_server_def fill_buckets_runs_away)
qed

theorem echo_arguments_witness:
  "echo_main (\<lambda>_. None) Suc [''echo'', convert (- 1)] = Inl SignedOverflow"
  using echo_arguments[of "- 1" "\<lambda>_. None" Suc "''echo''"] by simp

section \<open>The clients\<close>

text \<open>
  What is typed before the connection is up is not kept: while there is no connection every line
  is dropped, whatever it is, and the program goes on to its end.
\<close>

theorem early_lines_are_lost:
  assumes "\<And>env up line s. (env, up, line) \<in> set input \<Longrightarrow> ch_connection s = None \<Longrightarrow>
      ch_connection (env s) = None \<and> ch_out (env s) = ch_out s"
    "ch_connection s = None"
  shows "\<exists>s'. chat_session input s = Inr s' \<and> ch_out s' = ch_out s"
  using assms
proof (induction input arbitrary: s)
  case (Cons x input)
  obtain env up line where x: "x = (env, up, line)" by (cases x)
  have e: "ch_connection (env s) = None" "ch_out (env s) = ch_out s"
    using Cons.prems(1)[of env up line s] Cons.prems(2) x by simp_all
  have "\<exists>s'. chat_session input (env s) = Inr s' \<and> ch_out s' = ch_out (env s)"
    using Cons.prems(1) by (intro Cons.IH e(1)) (meson list.set_intros(2))
  with e show ?case by (simp add: x chat_write_def)
qed (simp add: chat_disconnect_def)

text \<open>Two lines while the first attempt is in progress.\<close>

theorem early_lines_are_lost_witness:
  "\<exists>a c. chat_client_main (\<lambda>_. Some 1) ep_new (5, EINPROGRESS, 64) [(id, True, [104]), (id, True, [105])]
      [''client'', ''127.0.0.1'', ''80''] = Inr (Running (a, c)) \<and> ch_out c = []"
proof -
  let ?att = "(5, EINPROGRESS, 64) :: attempt" and ?in = "[(id, True, [104]), (id, True, [105])] ::
    ((chat_client \<Rightarrow> chat_client) \<times> bool \<times> byte list) list"
  have ok: "client_ok (enableRetry (client_new ep_new))"
    using client_new_ok[OF ep_new_ok] by (simp add: client_ok_def enableRetry_def)
  have "client_pre (client_abs (enableRetry (client_new ep_new))) (TcConnect ?att)"
    using client_new_view by (simp add: connector_eval client_abs_def enableRetry_def)
  from tcp_client.exec_ok[OF ok this, of "\<lambda>_. None"] obtain k where
    k: "client_connect ?att (enableRetry (client_new ep_new)) = Inr k" by auto
  let ?c = "(chat_client_new ep_new)\<lparr>ch_client := k\<rparr>"
  have "chat_connect ?att (chat_client_new ep_new) = Inr ?c" using k by (simp add: chat_connect_def chat_client_new_def)
  moreover have "\<exists>c. chat_session ?in ?c = Inr c \<and> ch_out c = ch_out ?c"
    by (rule early_lines_are_lost) (auto simp: chat_client_new_def)
  then obtain c where "chat_session ?in ?c = Inr c" "ch_out c = []"
    by (auto simp: chat_client_new_def simp del: chat_session.simps)
  ultimately show ?thesis by (simp add: chat_client_main_def del: chat_session.simps)
qed

text \<open>
  The ping-pong client with no sessions never ends: nothing goes down, so nobody posts the end of
  the loop, and the timer has nobody to disconnect.
\<close>

lemma no_sessions_idle:
  "bench_step\<^sup>*\<^sup>* s t \<Longrightarrow> bn_clients s = [] \<Longrightarrow> bn_posted s = [] \<Longrightarrow>
   bn_clients t = [] \<and> bn_posted t = [] \<and> bn_quit t = bn_quit s"
  by (induction rule: rtranclp_induct) (auto elim!: bench_step.cases simp: bench_handleTimeout_def)

theorem no_sessions_no_end:
  assumes "- (2 ^ 31) \<le> n" "n \<le> 0"
    "bench_main pton startLoop eps atts [prog, ip, port, threads, block_size, convert n, secs] = Inr (Running (a, timeout, b))"
    "bench_step\<^sup>*\<^sup>* b t"
  shows "\<not> bn_quit t"
proof -
  have "atoi (convert n) = n" using assms(1,2) by (intro atoi_convert) simp_all
  with assms(2,3) have "bn_clients b = []" "bn_posted b = []" "\<not> bn_quit b"
    by (auto simp: bench_main_def bench_new_def Let_def eval_nat_numeral)
  with no_sessions_idle[OF assms(4)] show ?thesis by simp
qed

theorem no_sessions_no_end_witness:
  "\<exists>a timeout b. bench_main (\<lambda>_. None) Suc (\<lambda>_. ep_new) (\<lambda>_. (5, EINPROGRESS, 64))
      [''client'', ''0.0.0.0'', ''80'', convert 1, convert 4, convert 0, convert 9] = Inr (Running (a, timeout, b)) \<and>
    \<not> bn_quit (bench_handleTimeout b)"
proof -
  let ?args = "[''client'', ''0.0.0.0'', ''80'', convert 1, convert 4, convert 0, convert 9]"
  have "atoi (convert 0) = 0" "atoi (convert 1) = 1" by (intro atoi_convert; simp)+
  then obtain a timeout b where
    b: "bench_main (\<lambda>_. None) Suc (\<lambda>_. ep_new) (\<lambda>_. (5, EINPROGRESS, 64)) ?args = Inr (Running (a, timeout, b))"
    by (auto simp: bench_main_def bench_new_def bench_pool_def pool_start_def pool_new_def Let_def eval_nat_numeral)
  have "bench_step\<^sup>*\<^sup>* b (bench_handleTimeout b)" by (intro r_into_rtranclp bench_step.timer)
  with no_sessions_no_end[OF _ _ b, of "bench_handleTimeout b"] b show ?thesis by auto
qed

end
