(* ===== verification/Sockets.thy ===== *)
theory Sockets
  imports InetAddress Contracts
begin

text \<open>
  net/Socket.h, net/Socket.cc and the constructor and \<^verbatim>\<open>listen()\<close> of net/Acceptor.cc: a \<^verbatim>\<open>Socket\<close>
  owns a descriptor and closes it when it dies. The kernel's open sockets are part of the state;
  what a system call answers is an argument. The decisions which answers are fatal are those of
  \<open>InetAddress\<close>.
\<close>

section \<open>State\<close>

record ksocket =
  so_nonblock :: bool
  so_cloexec :: bool
  so_reuseaddr :: bool
  so_nodelay :: bool
  so_bound :: "sockaddr_in option"
  so_listening :: bool
  so_wr_shut :: bool

text \<open>
  \<open>open_socks\<close> is what the kernel has open, \<open>sock_objs\<close> the \<^verbatim>\<open>Socket\<close> objects with their \<^verbatim>\<open>sockfd_\<close>,
  \<open>raw_fds\<close> records the descriptors the program got and has not yet given to an object.
\<close>

record sock_state =
  open_socks :: "int \<rightharpoonup> ksocket"
  sock_objs :: "nat \<rightharpoonup> int"
  raw_fds :: "int set"

definition ksocket_new :: ksocket where
  "ksocket_new = \<lparr>so_nonblock = True, so_cloexec = True, so_reuseaddr = False, so_nodelay = False,
     so_bound = None, so_listening = False, so_wr_shut = False\<rparr>"

definition sock_fd :: "nat \<Rightarrow> sock_state \<Rightarrow> int res" where
  "sock_fd p s = (case sock_objs s p of None \<Rightarrow> Inl UseAfterFree | Some fd \<Rightarrow> Inr fd)"

text \<open>A system call that changes an open socket does nothing to a descriptor that is not open.\<close>

definition sock_set :: "(ksocket \<Rightarrow> ksocket) \<Rightarrow> int \<Rightarrow> sock_state \<Rightarrow> sock_state" where
  "sock_set f fd s = s\<lparr>open_socks := (open_socks s)(fd := map_option f (open_socks s fd))\<rparr>"

section \<open>Operations\<close>

text \<open>\<^verbatim>\<open>createNonblockingOrDie\<close> asks for \<^verbatim>\<open>SOCK_NONBLOCK | SOCK_CLOEXEC\<close>; so does \<^verbatim>\<open>accept\<close>.\<close>

definition sock_create :: "int \<Rightarrow> sock_state \<Rightarrow> (int \<times> sock_state) res" where
  "sock_create sockfd s =
     bindR (createNonblockingOrDie sockfd) (\<lambda>fd.
     Inr (fd, s\<lparr>open_socks := (open_socks s)(fd \<mapsto> ksocket_new), raw_fds := insert fd (raw_fds s)\<rparr>))"

definition Socket_new :: "nat \<Rightarrow> int \<Rightarrow> sock_state \<Rightarrow> sock_state" where
  "Socket_new p sockfd s = s\<lparr>sock_objs := (sock_objs s)(p \<mapsto> sockfd), raw_fds := raw_fds s - {sockfd}\<rparr>"

definition sock_close :: "int \<Rightarrow> sock_state \<Rightarrow> sock_state" where
  "sock_close sockfd s = s\<lparr>open_socks := (open_socks s)(sockfd := None), raw_fds := raw_fds s - {sockfd}\<rparr>"

definition Socket_destroy :: "nat \<Rightarrow> sock_state \<Rightarrow> sock_state res" where
  "Socket_destroy p s =
     bindR (sock_fd p s) (\<lambda>fd. Inr (sock_close fd (s\<lparr>sock_objs := (sock_objs s)(p := None)\<rparr>)))"

definition bindAddress :: "int \<Rightarrow> sockaddr_in \<Rightarrow> nat \<Rightarrow> sock_state \<Rightarrow> sock_state res" where
  "bindAddress ret addr p s =
     bindR (sock_fd p s) (\<lambda>fd.
     bindR (bindOrDie ret) (\<lambda>_. Inr (sock_set (\<lambda>k. k\<lparr>so_bound := Some addr\<rparr>) fd s)))"

definition Socket_listen :: "int \<Rightarrow> nat \<Rightarrow> sock_state \<Rightarrow> sock_state res" where
  "Socket_listen ret p s =
     bindR (sock_fd p s) (\<lambda>fd.
     bindR (listenOrDie ret) (\<lambda>_. Inr (sock_set (\<lambda>k. k\<lparr>so_listening := True\<rparr>) fd s)))"

text \<open>The address of the peer is set only when there is a connection.\<close>

definition Socket_accept :: "int \<Rightarrow> int \<Rightarrow> sockaddr_in \<Rightarrow> nat \<Rightarrow> sockaddr_in \<Rightarrow> sock_state \<Rightarrow>
  (int \<times> sockaddr_in \<times> sock_state) res" where
  "Socket_accept connfd savedErrno addr p peeraddr s =
     bindR (sock_fd p s) (\<lambda>_.
     bindR (sock_accept connfd savedErrno) (\<lambda>fd.
     if fd \<ge> 0
     then Inr (fd, addr, s\<lparr>open_socks := (open_socks s)(fd \<mapsto> ksocket_new), raw_fds := insert fd (raw_fds s)\<rparr>)
     else Inr (fd, peeraddr, s)))"

definition setReuseAddr :: "bool \<Rightarrow> nat \<Rightarrow> sock_state \<Rightarrow> sock_state res" where
  "setReuseAddr on p s = bindR (sock_fd p s) (\<lambda>fd. Inr (sock_set (\<lambda>k. k\<lparr>so_reuseaddr := on\<rparr>) fd s))"

definition shutdownWrite :: "nat \<Rightarrow> sock_state \<Rightarrow> sock_state res" where
  "shutdownWrite p s = bindR (sock_fd p s) (\<lambda>fd. Inr (sock_set (\<lambda>k. k\<lparr>so_wr_shut := True\<rparr>) fd s))"

definition setTcpNoDelay :: "bool \<Rightarrow> nat \<Rightarrow> sock_state \<Rightarrow> sock_state res" where
  "setTcpNoDelay on p s = bindR (sock_fd p s) (\<lambda>fd. Inr (sock_set (\<lambda>k. k\<lparr>so_nodelay := on\<rparr>) fd s))"

text \<open>The constructor of \<^verbatim>\<open>Acceptor\<close> and its \<^verbatim>\<open>listen()\<close>, as far as they reach the socket.\<close>

definition acceptor_socket :: "int \<Rightarrow> int \<Rightarrow> sockaddr_in \<Rightarrow> nat \<Rightarrow> sock_state \<Rightarrow> sock_state res" where
  "acceptor_socket sockfd ret listenAddr p s =
     bindR (sock_create sockfd s) (\<lambda>(fd, s1).
     bindR (setReuseAddr True p (Socket_new p fd s1)) (bindAddress ret listenAddr p))"

datatype so_op =
    SoCreate int
  | SoNew nat int
  | SoDestroy nat
  | SoClose int
  | SoBind int sockaddr_in nat
  | SoListen int nat
  | SoAccept int int sockaddr_in nat sockaddr_in
  | SoReuse bool nat
  | SoShutdown nat
  | SoNoDelay bool nat
  | SoAcceptor int int sockaddr_in nat

fun so_exec :: "sock_state \<Rightarrow> so_op \<Rightarrow> sock_state res" where
  "so_exec s (SoCreate sockfd) = bindR (sock_create sockfd s) (\<lambda>(fd, s1). Inr s1)"
| "so_exec s (SoNew p fd) = Inr (Socket_new p fd s)"
| "so_exec s (SoDestroy p) = Socket_destroy p s"
| "so_exec s (SoClose fd) = Inr (sock_close fd s)"
| "so_exec s (SoBind ret addr p) = bindAddress ret addr p s"
| "so_exec s (SoListen ret p) = Socket_listen ret p s"
| "so_exec s (SoAccept connfd err addr p peer) = bindR (Socket_accept connfd err addr p peer s) (\<lambda>(fd, a, s1). Inr s1)"
| "so_exec s (SoReuse on p) = setReuseAddr on p s"
| "so_exec s (SoShutdown p) = shutdownWrite p s"
| "so_exec s (SoNoDelay on p) = setTcpNoDelay on p s"
| "so_exec s (SoAcceptor sockfd ret addr p) = acceptor_socket sockfd ret addr p s"

text \<open>
  The kernel gives out descriptors that are not open; a descriptor goes to one object, at a new
  address, or is closed as it is; only objects that are alive are used.
\<close>

fun so_pre :: "sock_state \<Rightarrow> so_op \<Rightarrow> bool" where
  "so_pre s (SoCreate sockfd) \<longleftrightarrow> open_socks s sockfd = None"
| "so_pre s (SoNew p fd) \<longleftrightarrow> fd \<in> raw_fds s \<and> sock_objs s p = None"
| "so_pre s (SoClose fd) \<longleftrightarrow> fd \<in> raw_fds s"
| "so_pre s (SoAccept connfd err addr p peer) \<longleftrightarrow> open_socks s connfd = None \<and> sock_objs s p \<noteq> None"
| "so_pre s (SoAcceptor sockfd ret addr p) \<longleftrightarrow> open_socks s sockfd = None \<and> sock_objs s p = None"
| "so_pre s (SoDestroy p) \<longleftrightarrow> sock_objs s p \<noteq> None"
| "so_pre s (SoBind ret addr p) \<longleftrightarrow> sock_objs s p \<noteq> None"
| "so_pre s (SoListen ret p) \<longleftrightarrow> sock_objs s p \<noteq> None"
| "so_pre s (SoReuse on p) \<longleftrightarrow> sock_objs s p \<noteq> None"
| "so_pre s (SoShutdown p) \<longleftrightarrow> sock_objs s p \<noteq> None"
| "so_pre s (SoNoDelay on p) \<longleftrightarrow> sock_objs s p \<noteq> None"

definition so_init :: "sock_state \<Rightarrow> bool" where
  "so_init s \<longleftrightarrow> open_socks s = Map.empty \<and> sock_objs s = Map.empty \<and> raw_fds s = {}"

section \<open>Invariant\<close>

text \<open>What is open is owned by one object or not given out yet, and has the two flags.\<close>

definition so_inv :: "sock_state \<Rightarrow> bool" where
  "so_inv s \<longleftrightarrow> dom (open_socks s) = ran (sock_objs s) \<union> raw_fds s \<and>
     ran (sock_objs s) \<inter> raw_fds s = {} \<and> inj_on (sock_objs s) (dom (sock_objs s)) \<and>
     (\<forall>fd k. open_socks s fd = Some k \<longrightarrow> so_nonblock k \<and> so_cloexec k)"

lemma so_invD:
  assumes "so_inv s"
  shows "open_socks s fd \<noteq> None \<longleftrightarrow> (\<exists>p. sock_objs s p = Some fd) \<or> fd \<in> raw_fds s"
    "sock_objs s p = Some fd \<Longrightarrow> fd \<notin> raw_fds s"
    "sock_objs s p = Some fd \<Longrightarrow> sock_objs s q = Some fd \<Longrightarrow> p = q"
    "open_socks s fd = Some k \<Longrightarrow> so_nonblock k \<and> so_cloexec k"
proof -
  note A = assms[unfolded so_inv_def]
  show "open_socks s fd \<noteq> None \<longleftrightarrow> (\<exists>p. sock_objs s p = Some fd) \<or> fd \<in> raw_fds s"
    using A by (auto simp: ran_def domIff set_eq_iff)
  show "sock_objs s p = Some fd \<Longrightarrow> fd \<notin> raw_fds s" using A by (auto simp: ran_def)
  show "sock_objs s p = Some fd \<Longrightarrow> sock_objs s q = Some fd \<Longrightarrow> p = q"
    using A by (auto simp: inj_on_def dom_def)
  show "open_socks s fd = Some k \<Longrightarrow> so_nonblock k \<and> so_cloexec k" using A by blast
qed

lemma so_invI:
  assumes "\<And>fd. open_socks s fd \<noteq> None \<longleftrightarrow> (\<exists>p. sock_objs s p = Some fd) \<or> fd \<in> raw_fds s"
    "\<And>p fd. sock_objs s p = Some fd \<Longrightarrow> fd \<notin> raw_fds s"
    "\<And>p q fd. sock_objs s p = Some fd \<Longrightarrow> sock_objs s q = Some fd \<Longrightarrow> p = q"
    "\<And>fd k. open_socks s fd = Some k \<Longrightarrow> so_nonblock k \<and> so_cloexec k"
  shows "so_inv s"
  unfolding so_inv_def
proof (intro conjI)
  show "dom (open_socks s) = ran (sock_objs s) \<union> raw_fds s"
    using assms(1) by (auto simp: ran_def domIff set_eq_iff)
  show "ran (sock_objs s) \<inter> raw_fds s = {}" using assms(2) by (auto simp: ran_def)
  show "inj_on (sock_objs s) (dom (sock_objs s))" using assms(3) by (auto simp: inj_on_def)
qed (use assms(4) in blast)

lemma object_added: "m p = None \<Longrightarrow> (\<exists>q. (m(p \<mapsto> x)) q = Some y) \<longleftrightarrow> y = x \<or> (\<exists>q. m q = Some y)"
  by (metis fun_upd_apply option.distinct(1) option.inject)

lemma object_removed:
  "(\<And>q. m q = Some x \<Longrightarrow> q = p) \<Longrightarrow> m p = Some x \<Longrightarrow>
   (\<exists>q. (m(p := None)) q = Some y) \<longleftrightarrow> y \<noteq> x \<and> (\<exists>q. m q = Some y)"
  by (metis fun_upd_apply option.distinct(1) option.inject)

lemma so_new_fd:
  assumes "so_inv s" "open_socks s fd = None"
  shows "so_inv (s\<lparr>open_socks := (open_socks s)(fd \<mapsto> ksocket_new), raw_fds := insert fd (raw_fds s)\<rparr>)"
proof (rule so_invI, goal_cases)
  case (1 f)
  with so_invD(1)[OF assms(1), of f] show ?case by auto
next
  case (2 p f)
  with so_invD(1)[OF assms(1), of f] so_invD(2)[OF assms(1), of p f] assms(2) show ?case by auto
next
  case (3 p q f)
  with so_invD(3)[OF assms(1)] show ?case by simp
next
  case (4 f k)
  with so_invD(4)[OF assms(1)] show ?case by (auto simp: ksocket_new_def split: if_splits)
qed

lemma Socket_new_ok:
  assumes "so_inv s" "fd \<in> raw_fds s" "sock_objs s p = None"
  shows "so_inv (Socket_new p fd s)"
proof (rule so_invI, goal_cases)
  case (1 f)
  with so_invD(1)[OF assms(1), of f] assms(2) object_added[of "sock_objs s" p fd f, OF assms(3)] show ?case
    by (auto simp del: fun_upd_apply simp add: Socket_new_def)
next
  case (2 q f)
  with so_invD(2)[OF assms(1), of q f] show ?case by (auto simp: Socket_new_def split: if_splits)
next
  case (3 q r f)
  with so_invD(2)[OF assms(1), of _ f] so_invD(3)[OF assms(1), of q f r] assms(2) show ?case
    by (auto simp: Socket_new_def split: if_splits)
next
  case (4 f k)
  with so_invD(4)[OF assms(1)] show ?case by (simp add: Socket_new_def)
qed

lemma sock_close_ok:
  assumes "so_inv s" "fd \<in> raw_fds s"
  shows "so_inv (sock_close fd s)"
proof (rule so_invI, goal_cases)
  case (1 f)
  with so_invD(1)[OF assms(1), of f] so_invD(2)[OF assms(1), of _ f] assms(2) show ?case
    by (auto simp: sock_close_def)
next
  case (2 q f)
  with so_invD(2)[OF assms(1), of q f] show ?case by (auto simp: sock_close_def)
next
  case (3 q r f)
  with so_invD(3)[OF assms(1), of q f r] show ?case by (simp add: sock_close_def)
next
  case (4 f k)
  with so_invD(4)[OF assms(1)] show ?case by (simp add: sock_close_def split: if_splits)
qed

lemma Socket_destroy_ok:
  assumes "so_inv s" "sock_objs s p = Some fd"
  shows "so_inv (sock_close fd (s\<lparr>sock_objs := (sock_objs s)(p := None)\<rparr>))"
proof (rule so_invI, goal_cases)
  case (1 f)
  have "(\<exists>q. ((sock_objs s)(p := None)) q = Some f) \<longleftrightarrow> f \<noteq> fd \<and> (\<exists>q. sock_objs s q = Some f)"
    by (rule object_removed) (use so_invD(3)[OF assms(1) _ assms(2)] assms(2) in blast)+
  with so_invD(1)[OF assms(1), of f] so_invD(2)[OF assms] show ?case by (simp add: sock_close_def del: fun_upd_apply) simp
next
  case (2 q f)
  with so_invD(2)[OF assms(1), of q f] show ?case by (auto simp: sock_close_def split: if_splits)
next
  case (3 q r f)
  with so_invD(3)[OF assms(1), of q f r] show ?case by (auto simp: sock_close_def split: if_splits)
next
  case (4 f k)
  with so_invD(4)[OF assms(1)] show ?case by (simp add: sock_close_def split: if_splits)
qed

text \<open>The flags of an open descriptor are never taken back.\<close>

lemma sock_set_ok:
  assumes "so_inv s" "\<And>k. so_nonblock (f k) = so_nonblock k \<and> so_cloexec (f k) = so_cloexec k"
  shows "so_inv (sock_set f fd s)"
proof (rule so_invI, goal_cases)
  case (1 g)
  with so_invD(1)[OF assms(1), of g] show ?case by (auto simp: sock_set_def)
next
  case (2 q g)
  with so_invD(2)[OF assms(1), of q g] show ?case by (simp add: sock_set_def)
next
  case (3 q r g)
  with so_invD(3)[OF assms(1), of q g r] show ?case by (simp add: sock_set_def)
next
  case (4 g k)
  with so_invD(4)[OF assms(1)] assms(2) show ?case by (auto simp: sock_set_def split: if_splits)
qed

abbreviation so_fine :: "sock_state res \<Rightarrow> bool" where
  "so_fine r \<equiv> ends (\<lambda>e. e = FatalAbort) so_inv r"

lemma sock_fd_Some [simp]: "sock_objs s p = Some fd \<Longrightarrow> sock_fd p s = Inr fd"
  by (simp add: sock_fd_def)

lemma acceptor_socket_ok:
  assumes "so_inv s" "open_socks s sockfd = None" "sock_objs s p = None"
  shows "so_fine (acceptor_socket sockfd ret addr p s)"
proof -
  let ?s1 = "s\<lparr>open_socks := (open_socks s)(sockfd \<mapsto> ksocket_new), raw_fds := insert sockfd (raw_fds s)\<rparr>"
  let ?s2 = "Socket_new p sockfd ?s1"
  have "so_inv ?s2" by (rule Socket_new_ok[OF so_new_fd[OF assms(1,2)]]) (use assms(3) in simp_all)
  moreover have "sock_objs ?s2 p = Some sockfd" by (simp add: Socket_new_def)
  moreover have "sock_objs (sock_set f fd t) = sock_objs t" for f fd t by (simp add: sock_set_def)
  ultimately show ?thesis
    by (simp add: acceptor_socket_def sock_create_def createNonblockingOrDie_def setReuseAddr_def bindAddress_def
        bindOrDie_def sock_set_ok)
qed

lemma so_exec_ok:
  assumes "so_inv s" "so_pre s x"
  shows "so_fine (so_exec s x)"
proof (cases x)
  case (SoCreate fd)
  with assms so_new_fd show ?thesis by (simp add: sock_create_def createNonblockingOrDie_def)
next
  case (SoAccept connfd err addr p peer)
  with assms so_new_fd show ?thesis by (auto simp: Socket_accept_def sock_accept_def)
next
  case (SoDestroy p)
  with assms Socket_destroy_ok show ?thesis by (auto simp: Socket_destroy_def)
next
  case (SoAcceptor sockfd ret addr p)
  with assms acceptor_socket_ok show ?thesis by simp
qed (use assms in \<open>auto simp: Socket_new_ok sock_close_ok bindAddress_def bindOrDie_def Socket_listen_def listenOrDie_def
    setReuseAddr_def shutdownWrite_def setTcpNoDelay_def sock_set_ok\<close>)

lemma so_init_inv: "so_init s \<Longrightarrow> so_inv s"
  by (simp add: so_init_def so_inv_def)

interpretation sockets: guarded_object so_init so_pre so_exec so_inv "\<lambda>e. e = FatalAbort"
  by unfold_locales (rule so_init_inv so_exec_ok, assumption+)+

section \<open>Properties\<close>

text \<open>
  C26: Descriptors are owned. Whatever sockets are made, accepted, handed to \<^verbatim>\<open>Socket\<close> objects, used and
  destroyed, an open descriptor belongs to exactly one object or has not been given to one, the
  descriptor of every object is open (so none is used or closed after it was closed), every open
  one is non-blocking and closed on exec, and the only failure is the abort on a fatal answer of
  the kernel.
\<close>

theorem sockets_owned:
  assumes "reach so_init (guarded so_pre so_exec) s"
  shows "(\<forall>fd. open_socks s fd \<noteq> None \<longleftrightarrow> (\<exists>!p. sock_objs s p = Some fd) \<or> fd \<in> raw_fds s) \<and>
    (\<forall>p fd. sock_objs s p = Some fd \<longrightarrow> open_socks s fd \<noteq> None \<and> fd \<notin> raw_fds s) \<and>
    (\<forall>fd k. open_socks s fd = Some k \<longrightarrow> so_nonblock k \<and> so_cloexec k) \<and>
    (\<forall>x e. so_pre s x \<and> so_exec s x = Inl e \<longrightarrow> e = FatalAbort)"
proof (intro conjI allI impI)
  have inv: "so_inv s" using sockets.reach_inv[OF assms] .
  note D = so_invD[OF inv]
  show "open_socks s fd \<noteq> None \<longleftrightarrow> (\<exists>!p. sock_objs s p = Some fd) \<or> fd \<in> raw_fds s" for fd
    using D(1)[of fd] D(3)[of _ fd] by blast
  show "open_socks s fd \<noteq> None" "fd \<notin> raw_fds s" if "sock_objs s p = Some fd" for p fd
    using D(1)[of fd] D(2)[OF that] that by blast+
  show "so_nonblock k" "so_cloexec k" if "open_socks s fd = Some k" for fd k
    using D(4)[OF that] by simp_all
  show "e = FatalAbort" if "so_pre s x \<and> so_exec s x = Inl e" for x e
    using sockets.reach_exec[OF assms, of x] that by simp
qed

theorem sockets_owned_witness:
  "\<exists>s. reach so_init (guarded so_pre so_exec) s \<and> (\<exists>!p. sock_objs s p = Some 5) \<and> 7 \<in> raw_fds s \<and>
     open_socks s 7 \<noteq> None \<and> (\<forall>k. open_socks s 5 = Some k \<longrightarrow> so_nonblock k)"
proof -
  let ?R = "reach so_init (guarded so_pre so_exec)" and ?a = "inet_any 9981"
  let ?s0 = "\<lparr>open_socks = Map.empty, sock_objs = Map.empty, raw_fds = {}\<rparr>"
  have r0: "?R ?s0" by (rule reach_init) (simp add: so_init_def)
  obtain s1 where s1: "so_exec ?s0 (SoAcceptor 5 0 ?a 1) = Inr s1"
    by (simp add: acceptor_socket_def sock_create_def createNonblockingOrDie_def setReuseAddr_def bindAddress_def
        bindOrDie_def Socket_new_def sock_fd_def sock_set_def)
  have r1: "?R s1" by (rule sockets.reach_call[OF r0 _ s1]) simp
  have v1: "sock_objs s1 = [1 \<mapsto> 5]" "open_socks s1 7 = None" "raw_fds s1 = {}"
    using s1 by (auto simp: acceptor_socket_def sock_create_def createNonblockingOrDie_def setReuseAddr_def bindAddress_def
        bindOrDie_def Socket_new_def sock_fd_def sock_set_def)
  obtain s2 where s2: "so_exec s1 (SoAccept 7 0 ?a 1 ?a) = Inr s2"
    using v1 by (simp add: Socket_accept_def sock_accept_def)
  have r2: "?R s2" by (rule sockets.reach_call[OF r1 _ s2]) (simp add: v1)
  have v2: "sock_objs s2 1 = Some 5" "7 \<in> raw_fds s2"
    using s2 v1 by (auto simp: Socket_accept_def sock_accept_def)
  note all = sockets_owned[OF r2]
  from all v2(1) have "open_socks s2 5 \<noteq> None" "5 \<notin> raw_fds s2" by blast+
  with all have "\<exists>!p. sock_objs s2 p = Some 5" by blast
  moreover from all v2(2) have "open_socks s2 7 \<noteq> None" by blast
  moreover from all have "\<forall>k. open_socks s2 5 = Some k \<longrightarrow> so_nonblock k" by simp
  ultimately show ?thesis by (intro exI[of _ s2] conjI r2 v2(2))
qed

end
