(* ===== verification/Spec2Isabelle.thy ===== *)
theory Spec2Isabelle
  imports Codec LogStream TcpServer TcpClient Poller ThreadPool TcpConnection EventLoop TimerQueue
    Logging Threads TimingWheel ChatServer LocalChat PingPong Reactor EndToEnd Connections
    ThreadedChat ChatClient ChatRoom Locking TimedWait ThreadObject PingPongServer PingPongClient Programs Sockets
begin

text \<open>
  A model of irono (src/irono): a network library of reactors in C++11, one event loop per
  thread, with its asynchronous log, its thread pool and its example servers.

  The program. An \<open>EventLoop\<close> waits in a poller (\<open>EPoller\<close>, or \<open>Poller\<close>) for the descriptors of its
  \<open>Channel\<close>s, calls their callbacks, runs the timers of its \<open>TimerQueue\<close> and then the functors that
  were posted to it; other threads wake it through an eventfd. A \<open>TcpConnection\<close> is a channel with an
  input and an output \<open>Buffer\<close>. \<open>TcpServer\<close> accepts connections (\<open>Acceptor\<close>) and hands them to the
  loops of an \<open>EventLoopThreadPool\<close>; \<open>TcpClient\<close> makes one with a \<open>Connector\<close> that tries again. Every
  component logs through \<open>Logger\<close>, \<open>LogStream\<close> and \<open>AsyncLogging\<close>. The examples are a chat server in four
  versions and its client, an echo server with a timing wheel, and both sides of a throughput test.

  Theories, in the order of what they build on.

  Foundations. \<open>Prelude\<close>: the ways the code stops (\<open>err\<close>: a failed assert, a null or dead pointer, an
  access out of bounds, ...), the error monad \<open>bindR\<close> all operations are written in, memory,
  \<^verbatim>\<open>size_t\<close>. \<open>Contracts\<close>: the interfaces, as locales. \<open>contract\<close> (an instance of \<open>simulation\<close>) is an
  object whose operations do what an abstract specification says whenever the client keeps its
  preconditions; \<open>object\<close> is one that never fails but for a reason it does not control; \<open>machine\<close> is
  a step relation with an invariant, \<open>guarded_object\<close> the machine of an object whose calls have
  preconditions on its state. Each component interprets one of them on its own definitions,
  and its properties are what the locale gives back for every sequence of operations.

  Data. \<open>Buffer\<close> (net/Buffer.h, net/Buffer.cc): the vector with its two indices refines a byte
  queue. \<open>Endian\<close> (net/SocketsOps.h) and \<open>Codec\<close> (example/chat/codec.h): encoding and decoding of
  length-prefixed messages, and that cutting the stream does not matter. \<open>LogStream\<close>
  (base/LogStream.h, base/LogStream.cc): text of integers, lines in a fixed buffer. \<open>Timer\<close>
  (base/Timestamp.h, base/Timestamp.cc, net/Timer.h). \<open>InetAddress\<close> (net/InetAddress.cc,
  net/SocketsOps.cc) and \<open>Sockets\<close> (net/Socket.cc): who owns a descriptor.

  The reactor. \<open>TimerQueue\<close> (net/TimerQueue.cc): timers in a heap of addresses, two sets that must
  agree, cancelling from within a callback, \<^verbatim>\<open>addTimer\<close> of another thread in two steps. \<open>Channel\<close>, \<open>EPoller\<close>, \<open>Poller\<close>: interest sets; the kernel's
  own set is part of the state, and the two pollers are compared. \<open>EventLoop\<close>: steps of the loop
  thread and of the threads that post to it, down to the accesses of \<^verbatim>\<open>queueInLoop\<close>; it leaves the channels
  open. \<open>Reactor\<close> puts \<^verbatim>\<open>loop()\<close> together with the poller and the channels, one callback at a time,
  and shows that no event is lost and every round ends.

  Threads. \<open>Locking\<close> (base/Mutex.h, base/Condition.h, base/CountDownLatch.cc), \<open>TimedWait\<close>
  (\<^verbatim>\<open>waitForSeconds\<close>), \<open>ThreadObject\<close>
  (base/Thread.cc, base/CurrentThread.h): any number of \<^verbatim>\<open>Thread\<close> objects, \<open>Threads\<close>
  (net/EventLoopThread.cc): starting and ending a loop in its own thread, with \<^verbatim>\<open>quit()\<close> as two accesses.

  Connections. \<open>TcpConnection\<close>: the two byte streams, the states, the order of callbacks and of
  deletion. \<open>ConnFrame\<close> is what an operation of a connection leaves alone (the locale
  \<open>conn_relation\<close>); with it \<open>Connections\<close> shows that any number of connections in one loop do not
  interfere, and \<open>EndToEnd\<close> joins a sending connection, the network, an input buffer and the codec at
  both ends. \<open>TcpServer\<close> (net/TcpServer.cc, net/Acceptor.cc, net/EventLoopThreadPool.cc), with the other
  loops at work between the two last statements of \<^verbatim>\<open>newConnection\<close>. \<open>Connector\<close>
  and \<open>TcpClient\<close> refine automata.

  Logging and pool. \<open>LogFile\<close> (base/LogFile.cc, base/FileUtil.cc), \<open>AsyncLogging\<close>
  (base/AsyncLogging.cc), \<open>Logging\<close> (base/Logging.h, base/Logging.cc): a log statement ends as exactly
  one line of the log. \<open>ThreadPool\<close> (base/ThreadPool.cc): a bounded queue between threads.

  Examples. \<open>TimingWheel\<close> (example/echo), \<open>ChatServer\<close> (example/chat/server.cc and the version with
  copy on write), \<open>ChatRoom\<close> (the first server over real connections and the codec in one loop: whoever is
  connected hears the same conversation from its joining on), \<open>ThreadedChat\<close> (the version with a mutex), \<open>LocalChat\<close> (others/ThreadLocalSingleton.h,
  example/chat/server_threaded_highperformance.cc), \<open>ChatClient\<close> (example/chat/client.cc, and a message
  from one client through the server to another), \<open>PingPong\<close> (base/Atomic.h,
  example/pingpong/client.cc: the counters), \<open>PingPongClient\<close> (the rest of that file: its sessions are
  \<open>TcpClient\<close>s spread over an \<open>EventLoopThreadPool\<close>), \<open>PingPongServer\<close> (example/pingpong/server.cc).
  \<open>Programs\<close> has the \<^verbatim>\<open>main\<close> functions of all of them: the arguments (\<^verbatim>\<open>atoi\<close>, the cast of the port), what
  is built and in which order; a program ends with its usage message or is the state it goes into
  its loop with. Its theorems say that what is asked for is what runs, and which arguments go wrong.

  How the code is modelled. Objects are records with the members of the class; a member that only
  records history for the statements is named as such where it is declared. A pointer is an
  address into a map, so that a use after deletion is an error value, or an option when it is a
  \<^verbatim>\<open>unique_ptr\<close>. Every assert of the code is a step that can fail. What the kernel or a library
  answers is an argument: \<^verbatim>\<open>readv\<close>, \<^verbatim>\<open>write\<close>, \<^verbatim>\<open>accept\<close>, \<^verbatim>\<open>connect\<close>, \<^verbatim>\<open>fwrite\<close>, \<^verbatim>\<open>inet_pton\<close>, the clock, the
  address of a new object. Threads are interleaved at critical sections and at the points where
  they wait: as a step relation (\<open>EventLoop\<close>, \<open>Reactor\<close>, \<open>ThreadPool\<close>, \<open>Locking\<close>, \<open>ThreadObject\<close>, \<open>PingPongClient\<close>,
  \<open>ThreadedChat\<close>), or as the sequence of the operations in
  the order in which they happen (\<open>TcpServer\<close>, \<open>AsyncLogging\<close>, \<open>Threads\<close>, \<open>ChatServer\<close>, \<open>LocalChat\<close>).
  Integers have their width where it matters (lengths of messages, ports, event bits, counters).

  Loops. There is no fuel: the loop of the codec is a partial function whose termination is part of
  its theorems, \<open>af_rest\<close>, \<open>convert_loop\<close> and \<open>convertHex_loop\<close> have measures, the other loops are
  recursions on a list. That waiting threads go on is stated with measures (\<open>worker_left\<close>,
  \<open>steps_left\<close>, \<open>progress\<close>).

  What the lemmas show. For each component an invariant and that every operation keeps it
  (\<open>..._ok\<close>), what the operation does to the abstract state, and from these the properties. The
  theorems about errors (such as \<open>close_before_callback\<close>, \<open>connect_again_aborts\<close>, \<open>stop_loses_lines\<close>,
  \<open>stop_drops_tasks\<close>) give a run of the code that does what it does not mean to do. A property of the
  same component takes such runs in and says which call fails then and in which state (\<open>TcpServer\<close>:
  a connection that closes in the window of \<^verbatim>\<open>newConnection\<close>; \<open>TimerQueue\<close>: \<^verbatim>\<open>addTimer\<close> of another thread;
  \<open>Threads\<close>: the ends of an \<^verbatim>\<open>EventLoopThread\<close>; \<open>EventLoop\<close>: functors from before \<^verbatim>\<open>loop()\<close>; \<open>Logging\<close>: FATAL),
  or its text names the rule that excludes them (preconditions of the specifications, \<open>..._allowed\<close>).
  For a connection there are two such rules: \<open>conn_possible\<close> is what the kernel and the size of a vector promise, and under it, with
  calls of any thread, the locale instance \<open>bookkeeping\<close> keeps the streams and the order of the
  callbacks; \<open>conn_allowed\<close> adds that sends and shutdowns come from the loop's own thread and that no event makes
  both the close and the read callback run, and under it \<open>connection\<close> keeps the rest of the invariant.

  Not modelled. The calendar, which is an argument (\<^verbatim>\<open>localtime\<close>, \<^verbatim>\<open>strftime\<close>); the deadline of the
  log thread's wait (\<open>TimedWait\<close> has \<^verbatim>\<open>waitForSeconds\<close> by itself, in \<open>AsyncLogging\<close> the thread may wake up at any time); the callbacks a user sets, but for the ones
  of the examples; the manual tests in example/test; the statistics in
  floating point of the throughput test. The C++ memory model is taken to be that of interleaved
  steps, also for the flags the code reads without a lock.
\<close>

end
